(* ===== verification/Prelude.thy ===== *)
theory Prelude
  imports Main "HOL-Library.Word"
begin

text \<open>
  What every component of the development shares: the names of the machine types of the
  64-bit little-endian targets (\<open>uintptr_t\<close>, \<open>uint32_t\<close>, \<open>uint8_t\<close>), C's \<open>int\<close> as a
  mathematical integer with its range written out, byte-addressed memory as a finite map
  (an address outside its domain is not mapped, and touching it is a fault), and the
  collections of rewrite rules the component proofs use.
\<close>

named_theorems cmem \<open>rules that evaluate memory accesses and memory predicates\<close>
named_theorems cint \<open>rules about C integers in their range\<close>

type_synonym addr = "64 word"
type_synonym byte = "8 word"
type_synonym u16 = "16 word"
type_synonym u32 = "32 word"
type_synonym u64 = "64 word"

text \<open>Memory: a partial map; \<open>None\<close> is an unmapped address.\<close>
type_synonym mem = "addr \<rightharpoonup> byte"

section \<open>C integers\<close>

text \<open>The value a mathematical integer has after conversion to \<open>int\<close> (32 bits) and to
  \<open>intmax_t\<close> (64 bits), two's complement.\<close>

definition to_int32 :: "int \<Rightarrow> int" where
  "to_int32 n = (n + 2 ^ 31) mod 2 ^ 32 - 2 ^ 31"

definition to_int64 :: "int \<Rightarrow> int" where
  "to_int64 n = (n + 2 ^ 63) mod 2 ^ 64 - 2 ^ 63"

text \<open>The value of an \<open>int\<close> after the usual conversion to \<open>size_t\<close>.\<close>

definition to_size :: "int \<Rightarrow> int" where
  "to_size n = n mod 2 ^ 64"

definition int32_range :: "int \<Rightarrow> bool" where
  "int32_range n \<longleftrightarrow> - (2 ^ 31) \<le> n \<and> n < 2 ^ 31"

lemma to_int32_id [cint]: "int32_range n \<Longrightarrow> to_int32 n = n"
  by (simp add: to_int32_def int32_range_def)

lemma to_int32_range [simp]: "int32_range (to_int32 n)"
proof -
  have "0 \<le> (n + 2 ^ 31) mod 2 ^ 32 \<and> (n + 2 ^ 31) mod 2 ^ 32 < (2::int) ^ 32"
    by simp
  then show ?thesis by (simp add: to_int32_def int32_range_def)
qed

lemma to_int32_small [cint]: "0 \<le> n \<Longrightarrow> n < 2 ^ 31 \<Longrightarrow> to_int32 n = n"
  by (simp add: to_int32_def)

lemma to_int64_id [cint]: "- (2 ^ 63) \<le> n \<Longrightarrow> n < 2 ^ 63 \<Longrightarrow> to_int64 n = n"
  by (simp add: to_int64_def)

lemma to_size_id [cint]: "0 \<le> n \<Longrightarrow> n < 2 ^ 64 \<Longrightarrow> to_size n = n"
  by (simp add: to_size_def)

section \<open>Addresses\<close>

lemma addr_Suc [simp]: "(p::addr) + of_nat (Suc i) = p + 1 + of_nat i"
  by (simp add: algebra_simps)

lemma addr_offset_eq:
  "i < 2 ^ 64 \<Longrightarrow> j < 2 ^ 64 \<Longrightarrow> (p::addr) + of_nat i = p + of_nat j \<longleftrightarrow> i = j"
  by (simp add: word_of_nat_eq_iff take_bit_eq_mod)

text \<open>No byte of the \<open>n\<close> bytes at \<open>p\<close> is one of the \<open>k\<close> bytes at \<open>q\<close>.\<close>

definition ranges_disj :: "addr \<Rightarrow> nat \<Rightarrow> addr \<Rightarrow> nat \<Rightarrow> bool" where
  "ranges_disj p n q k \<longleftrightarrow> (\<forall>i<n. \<forall>j<k. p + of_nat i \<noteq> q + of_nat j)"

lemma ranges_disj_heads: "ranges_disj p (Suc n) q (Suc k) \<Longrightarrow> p \<noteq> q"
  by (force simp: ranges_disj_def)

lemma ranges_disj_head: "ranges_disj p (Suc n) q k \<Longrightarrow> j < k \<Longrightarrow> p \<noteq> q + of_nat j"
  by (force simp: ranges_disj_def)

lemma ranges_disj_step: "ranges_disj p (Suc n) q (Suc k) \<Longrightarrow> ranges_disj (p + 1) n (q + 1) k"
  by (force simp: ranges_disj_def simp flip: addr_Suc)

lemma ranges_disj_mono: "ranges_disj p n q k \<Longrightarrow> n' \<le> n \<Longrightarrow> k' \<le> k \<Longrightarrow> ranges_disj p n' q k'"
  by (auto simp: ranges_disj_def)

lemma ranges_disj_sub:
  assumes "ranges_disj p N q K" and "a + n \<le> N" and "b + k \<le> K"
  shows "ranges_disj (p + of_nat a) n (q + of_nat b) k"
proof (unfold ranges_disj_def, intro allI impI)
  fix i j assume "i < n" and "j < k"
  then have "p + of_nat (a + i) \<noteq> q + of_nat (b + j)"
    using assms(1) [unfolded ranges_disj_def, rule_format, of "a + i" "b + j"] assms(2,3) by simp
  then show "p + of_nat a + of_nat i \<noteq> q + of_nat b + of_nat j"
    by (simp add: add.assoc)
qed

lemma unat_u64_less: "unat (n::u64) < 2 ^ 64"
proof -
  have "unat n < 2 ^ LENGTH(64)" by (rule unsigned_less)
  then show ?thesis by simp
qed

lemma unat_addr_add: "unat (p::addr) + i < 2 ^ 64 \<Longrightarrow> unat (p + of_nat i) = unat p + i"
  by (simp add: unat_word_ariths unat_of_nat take_bit_eq_mod mod_add_right_eq)

text \<open>Two ranges that follow each other without wrapping are disjoint.\<close>

lemma ranges_disj_before:
  assumes "unat p + n \<le> unat q" and "unat q + k \<le> 2 ^ 64"
  shows "ranges_disj p n q k"
proof (unfold ranges_disj_def, intro allI impI)
  fix i j assume "i < n" and "j < k"
  then have "unat (p + of_nat i) = unat p + i" and "unat (q + of_nat j) = unat q + j"
    using assms by (auto intro!: unat_addr_add)
  moreover have "unat p + i \<noteq> unat q + j"
    using \<open>i < n\<close> assms(1) by linarith
  ultimately show "p + of_nat i \<noteq> q + of_nat j"
    by metis
qed

section \<open>Bytes in memory\<close>

text \<open>The bytes \<open>bs\<close> are stored from \<open>p\<close> on.\<close>

fun bytes_at :: "mem \<Rightarrow> addr \<Rightarrow> byte list \<Rightarrow> bool" where
  "bytes_at m p [] = True"
| "bytes_at m p (b # bs) = (m p = Some b \<and> bytes_at m (p + 1) bs)"

text \<open>Every one of the \<open>n\<close> bytes from \<open>p\<close> on is mapped.\<close>

fun mapped :: "mem \<Rightarrow> addr \<Rightarrow> nat \<Rightarrow> bool" where
  "mapped m p 0 = True"
| "mapped m p (Suc n) = (m p \<noteq> None \<and> mapped m (p + 1) n)"

text \<open>Memory after the bytes \<open>bs\<close> have been written one after the other from \<open>p\<close> on.\<close>

fun put_bytes :: "mem \<Rightarrow> addr \<Rightarrow> byte list \<Rightarrow> mem" where
  "put_bytes m p [] = m"
| "put_bytes m p (b # bs) = put_bytes (m(p \<mapsto> b)) (p + 1) bs"

text \<open>The NUL-terminated string \<open>s\<close> is stored at \<open>p\<close>.\<close>

definition cstr :: "mem \<Rightarrow> addr \<Rightarrow> byte list \<Rightarrow> bool" where
  "cstr m p s \<longleftrightarrow> 0 \<notin> set s \<and> bytes_at m p (s @ [0])"

lemma cstr_Nil [cmem]: "cstr m p [] \<longleftrightarrow> m p = Some 0"
  by (simp add: cstr_def)

lemma cstr_Cons [cmem]: "cstr m p (b # s) \<longleftrightarrow> b \<noteq> 0 \<and> m p = Some b \<and> cstr m (p + 1) s"
  by (auto simp: cstr_def)

lemma bytes_at_nth: "bytes_at m p bs \<longleftrightarrow> (\<forall>i<length bs. m (p + of_nat i) = Some (bs ! i))"
proof (induction bs arbitrary: p)
  case Nil
  then show ?case by simp
next
  case (Cons b bs)
  show ?case
    by (simp add: Cons.IH All_less_Suc2 del: of_nat_Suc)
qed

lemma mapped_nth: "mapped m p n \<longleftrightarrow> (\<forall>i<n. m (p + of_nat i) \<noteq> None)"
proof (induction n arbitrary: p)
  case 0
  then show ?case by simp
next
  case (Suc n)
  show ?case
    by (simp add: Suc.IH All_less_Suc2 del: of_nat_Suc)
qed

lemma bytes_at_append [simp]:
  "bytes_at m p (xs @ ys) \<longleftrightarrow> bytes_at m p xs \<and> bytes_at m (p + of_nat (length xs)) ys"
  by (induction xs arbitrary: p) (auto simp del: of_nat_Suc)

lemma mapped_add: "mapped m p (n + k) \<longleftrightarrow> mapped m p n \<and> mapped m (p + of_nat n) k"
  by (induction n arbitrary: p) (auto simp del: of_nat_Suc)

lemma put_bytes_append: "put_bytes m p (xs @ ys) = put_bytes (put_bytes m p xs) (p + of_nat (length xs)) ys"
  by (induction xs arbitrary: m p) (auto simp del: of_nat_Suc)

lemma bytes_at_mapped: "bytes_at m p bs \<Longrightarrow> mapped m p (length bs)"
  by (induction bs arbitrary: p) auto

lemma mapped_upd: "mapped m p n \<Longrightarrow> mapped (m(q \<mapsto> b)) p n"
  by (induction n arbitrary: p) auto

lemma mapped_put_bytes: "mapped m p n \<Longrightarrow> mapped (put_bytes m q bs) p n"
  by (induction bs arbitrary: m q) (auto intro: mapped_upd)

text \<open>A write outside a range leaves what is stored there.\<close>

lemma bytes_at_upd:
  "(\<And>j. j < length bs \<Longrightarrow> q \<noteq> p + of_nat j) \<Longrightarrow> bytes_at (m(q \<mapsto> b)) p bs = bytes_at m p bs"
  by (auto simp: bytes_at_nth)

lemma bytes_at_put:
  "ranges_disj q (length cs) p (length bs) \<Longrightarrow> bytes_at m p bs \<Longrightarrow> bytes_at (put_bytes m q cs) p bs"
proof (induction cs arbitrary: m q)
  case Nil
  then show ?case by simp
next
  case (Cons c cs)
  have "bytes_at (m(q \<mapsto> c)) p bs"
    using Cons.prems by (subst bytes_at_upd) (auto dest: ranges_disj_head)
  moreover have "ranges_disj (q + 1) (length cs) p (length bs)"
    using Cons.prems(1) by (force simp: ranges_disj_def simp flip: addr_Suc)
  ultimately show ?case by (simp add: Cons.IH del: fun_upd_apply)
qed

lemma cstr_upd:
  "(\<And>j. j \<le> length s \<Longrightarrow> q \<noteq> p + of_nat j) \<Longrightarrow> cstr (m(q \<mapsto> b)) p s = cstr m p s"
  unfolding cstr_def by (subst bytes_at_upd) auto

lemma put_bytes_other: "(\<And>i. i < length bs \<Longrightarrow> q \<noteq> p + of_nat i) \<Longrightarrow> put_bytes m p bs q = m q"
proof (induction bs arbitrary: m p)
  case Nil
  then show ?case by simp
next
  case (Cons b bs)
  have "q \<noteq> p" using Cons.prems [of 0] by simp
  moreover have "put_bytes (m(p \<mapsto> b)) (p + 1) bs q = (m(p \<mapsto> b)) q"
    using Cons.prems [of "Suc _"] by (intro Cons.IH) (simp del: of_nat_Suc)
  ultimately show ?case by simp
qed

text \<open>What was written can be read back, as long as the range does not wrap onto itself.\<close>

lemma put_bytes_nth:
  assumes "length bs \<le> 2 ^ 64" and "i < length bs"
  shows "put_bytes m p bs (p + of_nat i) = Some (bs ! i)"
  using assms
proof (induction bs arbitrary: m p i)
  case Nil
  then show ?case by simp
next
  case (Cons b bs)
  show ?case
  proof (cases i)
    case 0
    have "put_bytes (m(p \<mapsto> b)) (p + 1) bs p = (m(p \<mapsto> b)) p"
    proof (rule put_bytes_other)
      fix j assume "j < length bs"
      with Cons.prems(1) have "p + of_nat 0 \<noteq> p + of_nat (Suc j)"
        by (subst addr_offset_eq) auto
      then show "p \<noteq> p + 1 + of_nat j" by (simp only: addr_Suc) simp
    qed
    with 0 show ?thesis by simp
  next
    case (Suc j)
    with Cons show ?thesis by (simp del: of_nat_Suc)
  qed
qed

lemma bytes_at_put_bytes: "length bs \<le> 2 ^ 64 \<Longrightarrow> bytes_at (put_bytes m p bs) p bs"
  by (simp add: bytes_at_nth put_bytes_nth)

text \<open>A string fits in the address space: its terminator would otherwise lie on itself.\<close>

lemma cstr_length: "cstr m p s \<Longrightarrow> length s < 2 ^ 64"
proof (rule ccontr)
  assume s: "cstr m p s" and "\<not> length s < 2 ^ 64"
  define k where "k = length s - 2 ^ 64"
  with \<open>\<not> length s < 2 ^ 64\<close> have k: "length s = k + 2 ^ 64" by simp
  have "p + of_nat (length s) = p + of_nat k"
    by (simp add: k word_of_nat_eq_iff take_bit_eq_mod)
  moreover have "m (p + of_nat (length s)) = Some 0"
    using s by (simp add: cstr_def)
  moreover have "m (p + of_nat k) = Some (s ! k)"
    using s k by (simp add: cstr_def bytes_at_nth nth_append)
  ultimately have "s ! k = 0" by simp
  moreover have "s ! k \<in> set s" using k by simp
  ultimately show False using s by (simp add: cstr_def)
qed

section \<open>Loads and stores\<close>

definition load8 :: "mem \<Rightarrow> addr \<Rightarrow> byte option" where
  "load8 m p = m p"

definition store8 :: "mem \<Rightarrow> addr \<Rightarrow> byte \<Rightarrow> mem option" where
  "store8 m p b = (if m p = None then None else Some (m(p \<mapsto> b)))"

text \<open>A \<open>w\<close>-byte little-endian load and store, as the target's wide accesses do them.\<close>

fun load_le :: "nat \<Rightarrow> mem \<Rightarrow> addr \<Rightarrow> nat option" where
  "load_le 0 m p = Some 0"
| "load_le (Suc w) m p =
     (case load8 m p of None \<Rightarrow> None
      | Some b \<Rightarrow> (case load_le w m (p + 1) of None \<Rightarrow> None
                 | Some v \<Rightarrow> Some (unat b + 256 * v)))"

fun store_le :: "nat \<Rightarrow> mem \<Rightarrow> addr \<Rightarrow> nat \<Rightarrow> mem option" where
  "store_le 0 m p v = Some m"
| "store_le (Suc w) m p v =
     (case store8 m p (of_nat (v mod 256)) of None \<Rightarrow> None
      | Some m' \<Rightarrow> store_le w m' (p + 1) (v div 256))"

text \<open>The value of a little-endian byte sequence.\<close>

fun le_val :: "byte list \<Rightarrow> nat" where
  "le_val [] = 0"
| "le_val (b # bs) = unat b + 256 * le_val bs"

lemma load_le_bytes [cmem]: "bytes_at m p bs \<Longrightarrow> load_le (length bs) m p = Some (le_val bs)"
  by (induction bs arbitrary: p) (simp_all add: load8_def)

lemma unat_byte_less [simp]: "unat (b::byte) < 256"
  using unsigned_less [of b] by simp

lemma le_val_mod: "(unat (b::byte) + 256 * v) mod 256 = unat b"
  by simp

lemma le_val_div: "(unat (b::byte) + 256 * v) div 256 = v"
  by (simp add: div_eq_0_iff)

lemma store_le_bytes [cmem]:
  "mapped m p (length bs) \<Longrightarrow> store_le (length bs) m p (le_val bs) = Some (put_bytes m p bs)"
proof (induction bs arbitrary: m p)
  case Nil
  then show ?case by simp
next
  case (Cons b bs)
  then show ?case
    by (simp add: store8_def le_val_mod le_val_div mapped_upd del: fun_upd_apply)
qed

unbundle bit_operations_syntax

section \<open>Pages of the kernel's targets\<close>

definition NEXKE_CPU_PAGESZ :: u64 where "NEXKE_CPU_PAGESZ = 0x1000"

definition CpuPageAlignUp :: "u64 \<Rightarrow> u64" where
  "CpuPageAlignUp ptr =
     (if ptr AND (NEXKE_CPU_PAGESZ - 1) = 0 then ptr
      else (ptr AND NOT (NEXKE_CPU_PAGESZ - 1)) + NEXKE_CPU_PAGESZ)"

definition CpuPageAlignDown :: "u64 \<Rightarrow> u64" where
  "CpuPageAlignDown ptr = ptr AND NOT (NEXKE_CPU_PAGESZ - 1)"

end
