(* ===== verification/NkList.thy ===== *)
theory NkList
  imports Prelude "HOL-Library.Monad_Syntax"
begin

text \<open>
  The kernel's intrusive circular doubly linked list (source/nexke/include/nexke/list.h).
  The heap of links is kept field by field: \<open>lnext\<close> and \<open>lprev\<close> map the address of a link
  to the value of its \<open>next\<close> and \<open>prev\<close> field, and an address outside a map is not a link.
  Every operation is a sequence of field reads and writes that fails (\<open>None\<close>) when it
  touches something that is not a link. \<open>nklist\<close> says which sequence of links a list head
  stands for; each operation is shown to be the expected operation on that sequence, and to
  leave every link alone that is neither its argument nor on the list. The locale
  \<open>intrusive_list\<close> states these laws as the interface the queues of the kernel rely on.
\<close>

section \<open>The links and the operations\<close>

record links =
  lnext :: "addr \<rightharpoonup> addr"
  lprev :: "addr \<rightharpoonup> addr"

definition set_next :: "links \<Rightarrow> addr \<Rightarrow> addr \<Rightarrow> links option" where
  "set_next h a v = (if lnext h a = None then None else Some (h\<lparr>lnext := (lnext h)(a \<mapsto> v)\<rparr>))"

definition set_prev :: "links \<Rightarrow> addr \<Rightarrow> addr \<Rightarrow> links option" where
  "set_prev h a v = (if lprev h a = None then None else Some (h\<lparr>lprev := (lprev h)(a \<mapsto> v)\<rparr>))"

definition NkListInit :: "links \<Rightarrow> addr \<Rightarrow> links option" where
  "NkListInit h list = do {
     h \<leftarrow> set_next h list list;
     set_prev h list list }"

definition NkListAddFront :: "links \<Rightarrow> addr \<Rightarrow> addr \<Rightarrow> links option" where
  "NkListAddFront h list item = do {
     oldHead \<leftarrow> lnext h list;
     h \<leftarrow> set_next h item oldHead;
     h \<leftarrow> set_prev h item list;
     h \<leftarrow> set_prev h oldHead item;
     set_next h list item }"

definition NkListAddBack :: "links \<Rightarrow> addr \<Rightarrow> addr \<Rightarrow> links option" where
  "NkListAddBack h list item = do {
     oldTail \<leftarrow> lprev h list;
     h \<leftarrow> set_next h item list;
     h \<leftarrow> set_prev h item oldTail;
     h \<leftarrow> set_next h oldTail item;
     set_prev h list item }"

text \<open>Adds \<open>newItem\<close> after \<open>item\<close>.\<close>

definition NkListAdd :: "links \<Rightarrow> addr \<Rightarrow> addr \<Rightarrow> addr \<Rightarrow> links option" where
  "NkListAdd h list item newItem = do {
     n \<leftarrow> lnext h item;
     h \<leftarrow> set_prev h n newItem;
     h \<leftarrow> set_prev h newItem item;
     n \<leftarrow> lnext h item;
     h \<leftarrow> set_next h newItem n;
     set_next h item newItem }"

text \<open>Adds \<open>newItem\<close> before \<open>item\<close>.\<close>

definition NkListAddBefore :: "links \<Rightarrow> addr \<Rightarrow> addr \<Rightarrow> addr \<Rightarrow> links option" where
  "NkListAddBefore h list item newItem = do {
     p \<leftarrow> lprev h item;
     h \<leftarrow> set_next h p newItem;
     h \<leftarrow> set_next h newItem item;
     p \<leftarrow> lprev h item;
     h \<leftarrow> set_prev h newItem p;
     set_prev h item newItem }"

definition NkListRemove :: "links \<Rightarrow> addr \<Rightarrow> addr \<Rightarrow> links option" where
  "NkListRemove h list item = do {
     oldNext \<leftarrow> lnext h item;
     oldPrev \<leftarrow> lprev h item;
     h \<leftarrow> set_prev h oldNext oldPrev;
     set_next h oldPrev oldNext }"

text \<open>\<open>NULL\<close> is address 0.\<close>

definition NkListFront :: "links \<Rightarrow> addr \<Rightarrow> addr option" where
  "NkListFront h list = do {
     n \<leftarrow> lnext h list;
     Some (if n = list then 0 else n) }"

definition NkListIterate :: "links \<Rightarrow> addr \<Rightarrow> addr \<Rightarrow> addr option" where
  "NkListIterate h list link = do {
     n \<leftarrow> lnext h link;
     Some (if n = list then 0 else n) }"

text \<open>The loop \<open>iter = NkListFront (list); while (iter) { if (P) break; iter = NkListIterate
  (list, iter); }\<close> that the kernel's lookups are made of.\<close>

partial_function (option) list_search ::
  "('h \<Rightarrow> addr \<Rightarrow> addr \<Rightarrow> addr option) \<Rightarrow> 'h \<Rightarrow> addr \<Rightarrow> (addr \<Rightarrow> bool) \<Rightarrow> addr \<Rightarrow> addr option" where
  "list_search iterate h list P iter =
     (if iter = 0 then Some 0
      else if P iter then Some iter
      else (case iterate h list iter of None \<Rightarrow> None
            | Some nxt \<Rightarrow> list_search iterate h list P nxt))"

section \<open>The sequence a list head stands for\<close>

fun seg :: "links \<Rightarrow> addr \<Rightarrow> addr list \<Rightarrow> addr \<Rightarrow> bool" where
  "seg h a [] b = (lnext h a = Some b \<and> lprev h b = Some a)"
| "seg h a (x # xs) b = (lnext h a = Some x \<and> lprev h x = Some a \<and> seg h x xs b)"

definition is_link :: "links \<Rightarrow> addr \<Rightarrow> bool" where
  "is_link h a \<longleftrightarrow> lnext h a \<noteq> None \<and> lprev h a \<noteq> None"

definition nklist :: "links \<Rightarrow> addr \<Rightarrow> addr list \<Rightarrow> bool" where
  "nklist h l xs \<longleftrightarrow> distinct (l # xs) \<and> 0 \<notin> set (l # xs) \<and> seg h l xs l"

text \<open>Nothing outside a set of links has changed.\<close>

definition links_frame :: "links \<Rightarrow> links \<Rightarrow> addr set \<Rightarrow> bool" where
  "links_frame h h' A \<longleftrightarrow> (\<forall>a. a \<in> A \<or> (lnext h' a = lnext h a \<and> lprev h' a = lprev h a)) \<and>
     dom (lnext h') = dom (lnext h) \<and> dom (lprev h') = dom (lprev h)"

lemma links_frame_trans:
  "links_frame h h1 A \<Longrightarrow> links_frame h1 h2 B \<Longrightarrow> B \<subseteq> A \<Longrightarrow> links_frame h h2 A"
  unfolding links_frame_def by (metis subset_iff)

lemma seg_append: "seg h a (xs @ y # ys) b \<longleftrightarrow> seg h a xs y \<and> seg h y ys b"
  by (induction xs arbitrary: a) auto

lemma seg_cong:
  "(\<And>c. c \<in> set (a # xs) \<Longrightarrow> lnext h' c = lnext h c) \<Longrightarrow>
   (\<And>c. c \<in> set (xs @ [b]) \<Longrightarrow> lprev h' c = lprev h c) \<Longrightarrow> seg h' a xs b = seg h a xs b"
  by (induction xs arbitrary: a) auto

lemma seg_links: "seg h a xs b \<Longrightarrow> c \<in> set xs \<Longrightarrow> is_link h c"
proof (induction xs arbitrary: a)
  case Nil
  then show ?case by simp
next
  case (Cons x xs)
  have "lnext h x \<noteq> None" using Cons.prems(1) by (cases xs) auto
  with Cons show ?case by (auto simp: is_link_def)
qed

lemma seg_ends: "seg h a xs b \<Longrightarrow> lnext h a \<noteq> None \<and> lprev h b \<noteq> None"
  by (induction xs arbitrary: a) auto

lemma nklist_links: "nklist h l xs \<Longrightarrow> c \<in> set (l # xs) \<Longrightarrow> is_link h c"
  using seg_links [of h l xs l c] seg_ends [of h l xs l] by (auto simp: nklist_def is_link_def)

lemma nklist_frame:
  assumes "nklist h l xs" and "links_frame h h' A" and "A \<inter> set (l # xs) = {}"
  shows "nklist h' l xs"
proof -
  have "seg h' l xs l = seg h l xs l"
    using assms(2,3) by (intro seg_cong) (auto simp: links_frame_def)
  with assms(1) show ?thesis by (simp add: nklist_def)
qed

text \<open>The last link before the end of a segment, and the first after its start.\<close>

lemma seg_lprev: "seg h a xs b \<Longrightarrow> lprev h b = Some (last (a # xs))"
  by (induction xs arbitrary: a) auto

lemma seg_lnext: "seg h a xs b \<Longrightarrow> lnext h a = Some (hd (xs @ [b]))"
  by (cases xs) auto

section \<open>Each operation is the list operation\<close>

text \<open>Insertion of \<open>item\<close> between two neighbours \<open>a\<close> and \<open>b\<close>: the heap all four adding
  operations arrive at.\<close>

definition spliced :: "links \<Rightarrow> addr \<Rightarrow> addr \<Rightarrow> addr \<Rightarrow> links" where
  "spliced h a item b = h\<lparr>lnext := (lnext h)(item \<mapsto> b, a \<mapsto> item),
                         lprev := (lprev h)(item \<mapsto> a, b \<mapsto> item)\<rparr>"

lemma spliced_frame:
  "is_link h a \<Longrightarrow> is_link h b \<Longrightarrow> is_link h item \<Longrightarrow> links_frame h (spliced h a item b) {a, item, b}"
  by (auto simp: links_frame_def spliced_def is_link_def)

lemma spliced_seg:
  assumes "distinct (l # xs @ ys)" and "seg h l (xs @ ys) l" and "item \<notin> set (l # xs @ ys)"
    and a: "a = last (l # xs)" and b: "b = hd (ys @ [l])"
  shows "seg (spliced h a item b) l (xs @ item # ys) l"
proof -
  let ?h = "spliced h a item b"
  have outer: "seg ?h c us d" if "seg h c us d" "a \<notin> set (c # us)" "item \<notin> set (c # us)"
    "item \<notin> set (us @ [d])" "b \<notin> set (us @ [d])" for c us d
    using that by (subst seg_cong [of _ _ _ h]) (auto simp: spliced_def)
  have left: "seg ?h l xs item"
  proof (cases xs rule: rev_cases)
    case Nil
    have "b \<noteq> item" using b assms(3) by (cases ys) auto
    with Nil a assms(3) show ?thesis by (auto simp: spliced_def)
  next
    case (snoc us x)
    have "seg h l us x"
      using assms(2) snoc by (simp add: seg_append)
    moreover have "a = x" using a snoc by simp
    moreover have "b \<notin> set (us @ [x])"
      using assms(1) b snoc by (cases ys) auto
    ultimately have "seg ?h l us x"
      using assms(1,3) snoc by (intro outer) auto
    moreover have "lnext ?h x = Some item" "lprev ?h item = Some x"
      using assms(3) snoc \<open>a = x\<close> b by (cases ys; auto simp: spliced_def)+
    ultimately show ?thesis by (simp add: snoc seg_append)
  qed
  have right: "seg ?h item ys l"
  proof (cases ys)
    case Nil
    have "a \<noteq> item" using a assms(3) by (cases xs rule: rev_cases) auto
    with Nil b assms(3) show ?thesis by (auto simp: spliced_def)
  next
    case (Cons y vs)
    have "seg h y vs l"
      using assms(2) Cons by (cases xs rule: rev_cases) (simp_all add: seg_append)
    moreover have "b = y" using b Cons by simp
    moreover have "a \<notin> set (y # vs)"
      using assms(1) a Cons by (cases xs rule: rev_cases) auto
    ultimately have "seg ?h y vs l"
      using assms(1,3) Cons by (intro outer) auto
    moreover have "lnext ?h item = Some y" "lprev ?h y = Some item"
      using assms(3) Cons \<open>b = y\<close> a by (auto simp: spliced_def)
    ultimately show ?thesis by (simp add: Cons)
  qed
  from left right show ?thesis by (simp add: seg_append)
qed

lemma spliced_nklist:
  assumes "nklist h l (xs @ ys)" and "is_link h item" and "item \<notin> set (l # xs @ ys)" and "item \<noteq> 0"
    and "a = last (l # xs)" and "b = hd (ys @ [l])"
  shows "nklist (spliced h a item b) l (xs @ item # ys)"
    and "links_frame h (spliced h a item b) (insert item (set (l # xs @ ys)))"
proof -
  have "distinct (l # xs @ ys)" "seg h l (xs @ ys) l"
    using assms(1) by (auto simp: nklist_def)
  then have "seg (spliced h a item b) l (xs @ item # ys) l"
    using assms by (intro spliced_seg) auto
  then show "nklist (spliced h a item b) l (xs @ item # ys)"
    using assms(1,3,4) by (auto simp: nklist_def)
  have ab: "a \<in> set (l # xs @ ys)" "b \<in> set (l # xs @ ys)"
    using assms(5,6) by (cases xs rule: rev_cases; cases ys; auto)+
  then have "links_frame h (spliced h a item b) {a, item, b}"
    using assms(1,2) by (intro spliced_frame) (auto intro: nklist_links)
  with ab show "links_frame h (spliced h a item b) (insert item (set (l # xs @ ys)))"
    by (auto simp: links_frame_def)
qed

text \<open>Removal: the heap \<open>NkListRemove\<close> arrives at.\<close>

definition unspliced :: "links \<Rightarrow> addr \<Rightarrow> addr \<Rightarrow> links" where
  "unspliced h a b = h\<lparr>lnext := (lnext h)(a \<mapsto> b), lprev := (lprev h)(b \<mapsto> a)\<rparr>"

lemma unspliced_seg:
  assumes "distinct (l # xs @ item # ys)" and "seg h l (xs @ item # ys) l"
    and a: "a = last (l # xs)" and b: "b = hd (ys @ [l])"
  shows "seg (unspliced h a b) l (xs @ ys) l"
proof -
  let ?h = "unspliced h a b"
  have outer: "seg ?h c us d" if "seg h c us d" "a \<notin> set (c # us)" "b \<notin> set (us @ [d])" for c us d
    using that by (subst seg_cong [of _ _ _ h]) (auto simp: unspliced_def)
  have left: "seg ?h l us x" if "xs = us @ [x]" for us x
  proof (rule outer)
    show "seg h l us x" using assms(2) that by (simp add: seg_append)
    show "a \<notin> set (l # us)" using assms(1) a that by auto
    show "b \<notin> set (us @ [x])" using assms(1) b that by (cases ys) auto
  qed
  have right: "seg ?h y vs l" if "ys = y # vs" for y vs
  proof (rule outer)
    show "seg h y vs l" using assms(2) that by (simp add: seg_append)
    show "a \<notin> set (y # vs)" using assms(1) a that by (cases xs rule: rev_cases) auto
    show "b \<notin> set (vs @ [l])" using assms(1) b that by auto
  qed
  have join: "lnext ?h a = Some b" "lprev ?h b = Some a"
    by (simp_all add: unspliced_def)
  show ?thesis
  proof (cases xs rule: rev_cases)
    case Nil
    with a b join right show ?thesis by (cases ys) auto
  next
    case (snoc us x)
    with a b join left right show ?thesis by (cases ys) (auto simp: seg_append)
  qed
qed

lemma unspliced_nklist:
  assumes "nklist h l (xs @ item # ys)" and "a = last (l # xs)" and "b = hd (ys @ [l])"
  shows "nklist (unspliced h a b) l (xs @ ys)"
    and "links_frame h (unspliced h a b) (set (l # xs @ ys))"
proof -
  have "seg (unspliced h a b) l (xs @ ys) l"
    using assms by (intro unspliced_seg [where item = item]) (auto simp: nklist_def)
  then show "nklist (unspliced h a b) l (xs @ ys)"
    using assms(1) by (auto simp: nklist_def)
  have ab: "a \<in> set (l # xs @ ys)" "b \<in> set (l # xs @ ys)"
    using assms(2,3) by (cases xs rule: rev_cases; cases ys; auto)+
  then have "is_link h a" "is_link h b"
    using assms(1) by (auto intro: nklist_links)
  with ab show "links_frame h (unspliced h a b) (set (l # xs @ ys))"
    by (auto simp: links_frame_def unspliced_def is_link_def)
qed

lemma nklist_front_back:
  "nklist h l xs \<Longrightarrow> lnext h l = Some (hd (xs @ [l])) \<and> lprev h l = Some (last (l # xs))"
  using seg_lnext [of h l xs l] seg_lprev [of h l xs l] by (simp add: nklist_def)

lemma nklist_neighbours:
  assumes "nklist h l (xs @ x # ys)"
  shows "lprev h x = Some (last (l # xs))" and "lnext h x = Some (hd (ys @ [l]))"
proof -
  have "seg h l xs x" "seg h x ys l"
    using assms by (simp_all add: nklist_def seg_append)
  from seg_lprev [OF this(1)] seg_lnext [OF this(2)]
  show "lprev h x = Some (last (l # xs))" "lnext h x = Some (hd (ys @ [l]))"
    by auto
qed

lemmas set_link_defs = set_next_def set_prev_def

lemma NkListInit_nil:
  assumes "is_link h l" and "l \<noteq> 0"
  shows "\<exists>h'. NkListInit h l = Some h' \<and> nklist h' l [] \<and> links_frame h h' {l}"
  using assms by (auto simp: NkListInit_def set_link_defs is_link_def nklist_def links_frame_def)

text \<open>The reads and writes of the four adding operations, one neighbour pair for all.\<close>

lemma spliced_AddFront:
  assumes "lnext h l = Some b" and "is_link h l" "is_link h b" "is_link h item"
  shows "NkListAddFront h l item = Some (spliced h l item b)"
  using assms by (auto simp: NkListAddFront_def set_link_defs is_link_def spliced_def)

lemma spliced_AddBack:
  assumes "lprev h l = Some a" and "is_link h l" "is_link h a" "is_link h item"
  shows "NkListAddBack h l item = Some (spliced h a item l)"
  using assms by (auto simp: NkListAddBack_def set_link_defs is_link_def spliced_def)

lemma spliced_Add:
  assumes "lnext h x = Some b" and "is_link h x" "is_link h b" "is_link h item" "item \<noteq> b"
  shows "NkListAdd h l x item = Some (spliced h x item b)"
  using assms by (auto simp: NkListAdd_def set_link_defs is_link_def spliced_def fun_upd_twist)

lemma spliced_AddBefore:
  assumes "lprev h x = Some a" and "is_link h x" "is_link h a" "is_link h item" "item \<noteq> a"
  shows "NkListAddBefore h l x item = Some (spliced h a item x)"
  using assms by (auto simp: NkListAddBefore_def set_link_defs is_link_def spliced_def fun_upd_twist)

lemma unspliced_Remove:
  assumes "lnext h x = Some b" "lprev h x = Some a" and "is_link h a" "is_link h b"
  shows "NkListRemove h l x = Some (unspliced h a b)"
  using assms by (auto simp: NkListRemove_def set_link_defs is_link_def unspliced_def)

lemma nklist_head_last:
  "nklist h l xs \<Longrightarrow> is_link h (last (l # xs)) \<and> is_link h (hd (xs @ [l]))"
  using nklist_links [of h l xs "last (l # xs)"] nklist_links [of h l xs "hd (xs @ [l])"]
  by (cases xs) auto

lemma NkListAddFront_cons:
  assumes "nklist h l xs" "is_link h item" "item \<notin> set (l # xs)" "item \<noteq> 0"
  shows "\<exists>h'. NkListAddFront h l item = Some h' \<and> nklist h' l (item # xs) \<and>
    links_frame h h' (insert item (set (l # xs)))"
  using spliced_nklist [of h l "[]" xs item l] assms nklist_head_last [of h l xs]
    spliced_AddFront [of h l "hd (xs @ [l])" item] nklist_front_back [of h l xs]
    nklist_links [of h l xs l]
  by simp

lemma NkListAddBack_snoc:
  assumes "nklist h l xs" "is_link h item" "item \<notin> set (l # xs)" "item \<noteq> 0"
  shows "\<exists>h'. NkListAddBack h l item = Some h' \<and> nklist h' l (xs @ [item]) \<and>
    links_frame h h' (insert item (set (l # xs)))"
  using spliced_nklist [of h l xs "[]" item "last (l # xs)" l] assms nklist_head_last [of h l xs]
    spliced_AddBack [of h l "last (l # xs)" item] nklist_front_back [of h l xs]
    nklist_links [of h l xs l]
  by simp

lemma nklist_mid:
  assumes "nklist h l (xs @ x # ys)"
  shows "is_link h (last (l # xs))" "is_link h x" "is_link h (hd (ys @ [l]))"
proof -
  have "last (l # xs) \<in> set (l # xs @ x # ys)" "hd (ys @ [l]) \<in> set (l # xs @ x # ys)"
    by (cases xs rule: rev_cases; simp) (cases ys; simp)
  with assms show "is_link h (last (l # xs))" "is_link h x" "is_link h (hd (ys @ [l]))"
    by (auto intro: nklist_links)
qed

lemma NkListAddBefore_insert:
  assumes "nklist h l (xs @ x # ys)" "is_link h item" "item \<notin> set (l # xs @ x # ys)" "item \<noteq> 0"
  shows "\<exists>h'. NkListAddBefore h l x item = Some h' \<and> nklist h' l (xs @ item # x # ys) \<and>
    links_frame h h' (insert item (set (l # xs @ x # ys)))"
proof -
  have "item \<noteq> last (l # xs)"
    using assms(3) by (cases xs rule: rev_cases) auto
  then have "NkListAddBefore h l x item = Some (spliced h (last (l # xs)) item x)"
    using assms nklist_mid [OF assms(1)] nklist_neighbours [OF assms(1)]
    by (intro spliced_AddBefore) auto
  then show ?thesis
    using spliced_nklist [of h l xs "x # ys" item] assms by simp
qed

lemma NkListAdd_insert:
  assumes "nklist h l (xs @ x # ys)" "is_link h item" "item \<notin> set (l # xs @ x # ys)" "item \<noteq> 0"
  shows "\<exists>h'. NkListAdd h l x item = Some h' \<and> nklist h' l (xs @ x # item # ys) \<and>
    links_frame h h' (insert item (set (l # xs @ x # ys)))"
proof -
  have "item \<noteq> hd (ys @ [l])"
    using assms(3) by (cases ys) auto
  then have "NkListAdd h l x item = Some (spliced h x item (hd (ys @ [l])))"
    using assms nklist_mid [OF assms(1)] nklist_neighbours [OF assms(1)]
    by (intro spliced_Add) auto
  then show ?thesis
    using spliced_nklist [of h l "xs @ [x]" ys item] assms by simp
qed

lemma NkListRemove_delete:
  assumes "nklist h l (xs @ x # ys)"
  shows "\<exists>h'. NkListRemove h l x = Some h' \<and> nklist h' l (xs @ ys) \<and>
    links_frame h h' (set (l # xs @ ys))"
proof -
  have "NkListRemove h l x = Some (unspliced h (last (l # xs)) (hd (ys @ [l])))"
    using nklist_mid [OF assms] nklist_neighbours [OF assms] by (intro unspliced_Remove) auto
  then show ?thesis
    using unspliced_nklist [OF assms] by simp
qed

lemma NkListFront_hd:
  assumes "nklist h l xs"
  shows "NkListFront h l = Some (case xs of [] \<Rightarrow> 0 | x # _ \<Rightarrow> x)"
proof -
  have "lnext h l = Some (hd (xs @ [l]))" using nklist_front_back [OF assms] by simp
  moreover have "l \<notin> set xs" using assms by (simp add: nklist_def)
  ultimately show ?thesis by (cases xs) (auto simp: NkListFront_def)
qed

lemma NkListIterate_next:
  assumes "nklist h l (xs @ x # ys)"
  shows "NkListIterate h l x = Some (case ys of [] \<Rightarrow> 0 | y # _ \<Rightarrow> y)"
proof -
  have "l \<notin> set ys" using assms by (simp add: nklist_def)
  with nklist_neighbours(2) [OF assms] show ?thesis
    by (cases ys) (auto simp: NkListIterate_def)
qed

section \<open>The interface the kernel's queues rely on\<close>

text \<open>\<open>repr h l xs\<close>: in the heap \<open>h\<close> the head \<open>l\<close> stands for the sequence \<open>xs\<close>;
  \<open>free h x\<close>: \<open>x\<close> is a link object of the heap; \<open>same h h' A\<close>: only links in \<open>A\<close> may
  differ between the heaps.\<close>

locale intrusive_list =
  fixes repr :: "'h \<Rightarrow> addr \<Rightarrow> addr list \<Rightarrow> bool"
    and free :: "'h \<Rightarrow> addr \<Rightarrow> bool"
    and same :: "'h \<Rightarrow> 'h \<Rightarrow> addr set \<Rightarrow> bool"
    and add_front :: "'h \<Rightarrow> addr \<Rightarrow> addr \<Rightarrow> 'h option"
    and add_back :: "'h \<Rightarrow> addr \<Rightarrow> addr \<Rightarrow> 'h option"
    and add_after :: "'h \<Rightarrow> addr \<Rightarrow> addr \<Rightarrow> addr \<Rightarrow> 'h option"
    and add_before :: "'h \<Rightarrow> addr \<Rightarrow> addr \<Rightarrow> addr \<Rightarrow> 'h option"
    and remove :: "'h \<Rightarrow> addr \<Rightarrow> addr \<Rightarrow> 'h option"
    and front :: "'h \<Rightarrow> addr \<Rightarrow> addr option"
    and iter :: "'h \<Rightarrow> addr \<Rightarrow> addr \<Rightarrow> addr option"
  assumes repr_distinct: "repr h l xs \<Longrightarrow> distinct (l # xs) \<and> 0 \<notin> set (l # xs)"
    and repr_same: "repr h l xs \<Longrightarrow> same h h' A \<Longrightarrow> A \<inter> set (l # xs) = {} \<Longrightarrow> repr h' l xs"
    and free_same: "free h x \<Longrightarrow> same h h' A \<Longrightarrow> free h' x"
    and add_front: "repr h l xs \<Longrightarrow> free h x \<Longrightarrow> x \<notin> set (l # xs) \<Longrightarrow> x \<noteq> 0 \<Longrightarrow>
      \<exists>h'. add_front h l x = Some h' \<and> repr h' l (x # xs) \<and> same h h' (insert x (set (l # xs)))"
    and add_after: "repr h l (xs @ y # ys) \<Longrightarrow> free h x \<Longrightarrow> x \<notin> set (l # xs @ y # ys) \<Longrightarrow> x \<noteq> 0 \<Longrightarrow>
      \<exists>h'. add_after h l y x = Some h' \<and> repr h' l (xs @ y # x # ys) \<and>
        same h h' (insert x (set (l # xs @ y # ys)))"
    and add_back: "repr h l xs \<Longrightarrow> free h x \<Longrightarrow> x \<notin> set (l # xs) \<Longrightarrow> x \<noteq> 0 \<Longrightarrow>
      \<exists>h'. add_back h l x = Some h' \<and> repr h' l (xs @ [x]) \<and> same h h' (insert x (set (l # xs)))"
    and add_before: "repr h l (xs @ y # ys) \<Longrightarrow> free h x \<Longrightarrow> x \<notin> set (l # xs @ y # ys) \<Longrightarrow> x \<noteq> 0 \<Longrightarrow>
      \<exists>h'. add_before h l y x = Some h' \<and> repr h' l (xs @ x # y # ys) \<and>
        same h h' (insert x (set (l # xs @ y # ys)))"
    and remove: "repr h l (xs @ x # ys) \<Longrightarrow>
      \<exists>h'. remove h l x = Some h' \<and> repr h' l (xs @ ys) \<and> same h h' (set (l # xs @ ys))"
    and front: "repr h l xs \<Longrightarrow> front h l = Some (case xs of [] \<Rightarrow> 0 | x # _ \<Rightarrow> x)"
    and iter: "repr h l (xs @ x # ys) \<Longrightarrow> iter h l x = Some (case ys of [] \<Rightarrow> 0 | y # _ \<Rightarrow> y)"
begin

text \<open>The scan from any position on finds the first link that satisfies the condition, and
  \<open>NULL\<close> when there is none.\<close>

lemma search_rest:
  assumes "repr h l (us @ xs)"
  shows "list_search iter h l P (case xs of [] \<Rightarrow> 0 | x # _ \<Rightarrow> x) =
    Some (case List.find P xs of None \<Rightarrow> 0 | Some x \<Rightarrow> x)"
  using assms
proof (induction xs arbitrary: us)
  case Nil
  then show ?case by (simp add: list_search.simps)
next
  case (Cons x xs)
  have "x \<noteq> 0" using repr_distinct [OF Cons.prems] by auto
  moreover have "repr h l ((us @ [x]) @ xs)" using Cons.prems by simp
  ultimately show ?case
    using Cons.IH [of "us @ [x]"] iter [OF Cons.prems]
    by (simp add: list_search.simps [of iter h l P x])
qed

lemma search_all:
  assumes "repr h l xs"
  shows "\<exists>it. front h l = Some it \<and>
    list_search iter h l P it = Some (case List.find P xs of None \<Rightarrow> 0 | Some x \<Rightarrow> x)"
  using front [OF assms] search_rest [of h l "[]" xs P] assms by simp

text \<open>Insertion in front of the first link that satisfies a condition, at the back when there
  is none.\<close>

lemma insert_at:
  assumes "repr h l xs" "free h x" "x \<notin> set (l # xs)" "x \<noteq> 0"
    and "it = (case List.find P xs of None \<Rightarrow> 0 | Some y \<Rightarrow> y)"
  shows "\<exists>h'. (if it = 0 then add_back h l x else add_before h l it x) = Some h' \<and>
    repr h' l (takeWhile (\<lambda>y. \<not> P y) xs @ x # dropWhile (\<lambda>y. \<not> P y) xs) \<and>
    same h h' (insert x (set (l # xs)))"
proof (cases "dropWhile (\<lambda>y. \<not> P y) xs")
  case Nil
  then have none: "\<forall>y\<in>set xs. \<not> P y" by (simp add: dropWhile_eq_Nil_conv)
  then have "it = 0" "takeWhile (\<lambda>y. \<not> P y) xs = xs"
    using assms(5) find_None_iff [of P xs] by (simp_all add: takeWhile_eq_all_conv)
  with Nil add_back [OF assms(1-4)] show ?thesis
    by (simp only: if_True append_Nil2 simp_thms)
next
  case (Cons y ys)
  have xs: "xs = takeWhile (\<lambda>y. \<not> P y) xs @ y # ys"
    using Cons by (metis takeWhile_dropWhile_id)
  moreover have "List.find P xs = Some y"
    using Cons by (simp add: find_dropWhile comp_def)
  moreover have "y \<noteq> 0"
    using repr_distinct [OF assms(1)] xs by (metis Un_iff list.set_intros set_append)
  ultimately show ?thesis
    using add_before [of h l "takeWhile (\<lambda>y. \<not> P y) xs" y ys x] assms Cons by simp
qed

end

interpretation nk: intrusive_list nklist is_link links_frame NkListAddFront NkListAddBack NkListAdd
  NkListAddBefore NkListRemove NkListFront NkListIterate
proof
  fix h :: links and h' l xs x A
  show "nklist h l xs \<Longrightarrow> distinct (l # xs) \<and> 0 \<notin> set (l # xs)"
    by (simp add: nklist_def)
  show "is_link h x \<Longrightarrow> links_frame h h' A \<Longrightarrow> is_link h' x"
    by (auto simp: is_link_def links_frame_def)
qed (rule nklist_frame NkListAddFront_cons NkListAdd_insert NkListAddBack_snoc NkListAddBefore_insert NkListRemove_delete
    NkListFront_hd NkListIterate_next; assumption)+

section \<open>Families of lists\<close>

text \<open>The lists \<open>xs i\<close> with heads \<open>hdr i\<close>, for \<open>i\<close> in \<open>I\<close>, share no link.\<close>

definition family :: "('h \<Rightarrow> addr \<Rightarrow> addr list \<Rightarrow> bool) \<Rightarrow> 'h \<Rightarrow> 'i set \<Rightarrow> ('i \<Rightarrow> addr) \<Rightarrow> ('i \<Rightarrow> addr list) \<Rightarrow> bool" where
  "family repr h I hdr xs \<longleftrightarrow> (\<forall>i \<in> I. repr h (hdr i) (xs i)) \<and>
     (\<forall>i \<in> I. \<forall>j \<in> I. i \<noteq> j \<longrightarrow> set (hdr i # xs i) \<inter> set (hdr j # xs j) = {})"

lemma familyD: "family repr h I hdr xs \<Longrightarrow> i \<in> I \<Longrightarrow> repr h (hdr i) (xs i)"
  by (simp add: family_def)

lemma family_disj: "family repr h I hdr xs \<Longrightarrow> i \<in> I \<Longrightarrow> j \<in> I \<Longrightarrow> i \<noteq> j \<Longrightarrow>
    set (hdr i # xs i) \<inter> set (hdr j # xs j) = {}"
  unfolding family_def by blast

context intrusive_list
begin

lemma family_upd:
  assumes "family repr h I hdr xs" and "i \<in> I" and "repr h' (hdr i) ys"
    and "same h h' (insert x (set (hdr i # xs i)))" and "set ys \<subseteq> insert x (set (xs i))"
    and "\<forall>j \<in> I. j \<noteq> i \<longrightarrow> x \<notin> set (hdr j # xs j)"
  shows "family repr h' I hdr (xs(i := ys))"
proof -
  have d: "insert x (set (hdr i # xs i)) \<inter> set (hdr j # xs j) = {}" if "j \<in> I" "j \<noteq> i" for j
    using family_disj [OF assms(1,2) that(1)] that assms(6) by auto
  have "repr h' (hdr j) ((xs(i := ys)) j)" if "j \<in> I" for j
    using that assms(3) repr_same [OF familyD [OF assms(1) that] assms(4)] d [OF that] by auto
  moreover have "set (hdr i # ys) \<inter> set (hdr j # xs j) = {}" if "j \<in> I" "j \<noteq> i" for j
    using d [OF that] assms(5) by auto
  then have "set (hdr j # (xs(i := ys)) j) \<inter> set (hdr k # (xs(i := ys)) k) = {}" if "j \<in> I" "k \<in> I" "j \<noteq> k" for j k
    using that family_disj [OF assms(1) that] by (cases "j = i"; cases "k = i") (auto simp: Int_commute)
  ultimately show ?thesis unfolding family_def by blast
qed

lemma family_push:
  assumes "family repr h I hdr xs" and "i \<in> I" and "free h x" "x \<noteq> 0"
    and "\<forall>j \<in> I. x \<notin> set (hdr j # xs j)"
  shows "\<exists>h'. add_front h (hdr i) x = Some h' \<and> family repr h' I hdr (xs(i := x # xs i)) \<and>
    same h h' (insert x (set (hdr i # xs i)))"
proof -
  obtain h' where "add_front h (hdr i) x = Some h'" "repr h' (hdr i) (x # xs i)"
    "same h h' (insert x (set (hdr i # xs i)))"
    using add_front [OF familyD [OF assms(1,2)] assms(3)] assms by blast
  moreover from this have "family repr h' I hdr (xs(i := x # xs i))"
    using assms by (intro family_upd [of h I hdr xs i h' "x # xs i" x]) auto
  ultimately show ?thesis by blast
qed

lemma family_append:
  assumes "family repr h I hdr xs" and "i \<in> I" and "free h x" "x \<noteq> 0"
    and "\<forall>j \<in> I. x \<notin> set (hdr j # xs j)"
  shows "\<exists>h'. add_back h (hdr i) x = Some h' \<and> family repr h' I hdr (xs(i := xs i @ [x])) \<and>
    same h h' (insert x (set (hdr i # xs i)))"
proof -
  obtain h' where "add_back h (hdr i) x = Some h'" "repr h' (hdr i) (xs i @ [x])"
    "same h h' (insert x (set (hdr i # xs i)))"
    using add_back [OF familyD [OF assms(1,2)] assms(3)] assms by blast
  moreover from this have "family repr h' I hdr (xs(i := xs i @ [x]))"
    using assms by (intro family_upd [of h I hdr xs i h' "xs i @ [x]" x]) auto
  ultimately show ?thesis by blast
qed

lemma family_remove:
  assumes "family repr h I hdr xs" and "i \<in> I" and "xs i = us @ x # vs"
  shows "\<exists>h'. remove h (hdr i) x = Some h' \<and> family repr h' I hdr (xs(i := us @ vs)) \<and>
    same h h' (set (hdr i # us @ vs))"
proof -
  have r: "repr h (hdr i) (us @ x # vs)" using familyD [OF assms(1,2)] assms(3) by simp
  obtain h' where h': "remove h (hdr i) x = Some h'" "repr h' (hdr i) (us @ vs)" "same h h' (set (hdr i # us @ vs))"
    using remove [OF r] by blast
  have d: "set (hdr i # xs i) \<inter> set (hdr j # xs j) = {}" if "j \<in> I" "j \<noteq> i" for j
    using family_disj [OF assms(1,2) that(1)] that by simp
  have "repr h' (hdr j) ((xs(i := us @ vs)) j)" if "j \<in> I" for j
    using that h'(2) repr_same [OF familyD [OF assms(1) that] h'(3)] d [OF that] assms(3) by (cases "j = i") auto
  moreover have "set (hdr j # (xs(i := us @ vs)) j) \<inter> set (hdr k # (xs(i := us @ vs)) k) = {}"
    if "j \<in> I" "k \<in> I" "j \<noteq> k" for j k
    using that family_disj [OF assms(1) that] assms(3) by (cases "j = i"; cases "k = i") auto
  ultimately have "family repr h' I hdr (xs(i := us @ vs))" unfolding family_def by blast
  with h' show ?thesis by blast
qed

end

section \<open>Properties\<close>

text \<open>
  C2: inserting a link before a link of a list and removing it again returns in both cases;
  after the insertion the list is the old one with the new link in that place, after the
  removal it is the old one, and the two operations together have changed no link outside the
  list but the new one.
\<close>

theorem list_insert_remove:
  assumes "nklist h l (xs @ y # ys)" and "is_link h x" and "x \<notin> set (l # xs @ y # ys)" and "x \<noteq> 0"
  shows "\<exists>h1 h2. NkListAddBefore h l y x = Some h1 \<and> nklist h1 l (xs @ x # y # ys) \<and>
    NkListRemove h1 l x = Some h2 \<and> nklist h2 l (xs @ y # ys) \<and>
    links_frame h h2 (insert x (set (l # xs @ y # ys)))"
proof -
  obtain h1 where h1: "NkListAddBefore h l y x = Some h1" "nklist h1 l (xs @ x # y # ys)"
    and f1: "links_frame h h1 (insert x (set (l # xs @ y # ys)))"
    using nk.add_before [OF assms] by blast
  obtain h2 where h2: "NkListRemove h1 l x = Some h2" "nklist h2 l (xs @ y # ys)"
    and f2: "links_frame h1 h2 (set (l # xs @ y # ys))"
    using nk.remove [OF h1(2)] by blast
  from f1 f2 have "links_frame h h2 (insert x (set (l # xs @ y # ys)))"
    by (rule links_frame_trans) auto
  with h1 h2 show ?thesis by blast
qed

definition links3 :: links where
  "links3 = \<lparr>lnext = [1 \<mapsto> 2, 2 \<mapsto> 3, 3 \<mapsto> 1, 9 \<mapsto> 0], lprev = [1 \<mapsto> 3, 2 \<mapsto> 1, 3 \<mapsto> 2, 9 \<mapsto> 0]\<rparr>"

lemma links3_nklist: "nklist links3 1 ([2] @ 3 # [])"
  by (simp add: nklist_def links3_def)

theorem list_insert_remove_witness:
  "\<exists>h1 h2. NkListAddBefore links3 1 3 9 = Some h1 \<and> nklist h1 1 [2, 9, 3] \<and>
    NkListRemove h1 1 9 = Some h2 \<and> nklist h2 1 [2, 3] \<and>
    links_frame links3 h2 {9, 1, 2, 3}"
  using list_insert_remove [OF links3_nklist, of 9] by (simp add: is_link_def links3_def)

text \<open>
  the kernel's lookup loop over a list (front, then iterate until the condition holds or
  the list ends) returns, and what it returns is the first link of the list that satisfies the
  condition, or \<open>NULL\<close> when none does.
\<close>

theorem list_search_first:
  assumes "nklist h l xs"
  shows "\<exists>it. NkListFront h l = Some it \<and>
    list_search NkListIterate h l P it = Some (case List.find P xs of None \<Rightarrow> 0 | Some x \<Rightarrow> x)"
  by (rule nk.search_all [OF assms])

theorem list_search_first_witness:
  "\<exists>it. NkListFront links3 1 = Some it \<and> list_search NkListIterate links3 1 (\<lambda>a. a > 2) it = Some 3"
  using list_search_first [OF links3_nklist, of "\<lambda>a. a > 2"] by simp

end
