(* ===== verification/LibcString.thy ===== *)
theory LibcString
  imports Prelude
begin

text \<open>
  The memory and string routines of the C library (source/libraries/libc/string/*.c), one
  definition per routine and one per loop, over byte-addressed memory. A routine returns
  \<open>None\<close> when it touches an unmapped address (or, for the loops that search for a
  terminator, when it never returns), so every result \<open>Some _\<close> below says that the
  routine returns and that all the addresses it touched were mapped.
\<close>

section \<open>strlen, strcmp, strcpy, strcat, atoi\<close>

partial_function (option) strlen_loop :: "mem \<Rightarrow> addr \<Rightarrow> u64 \<Rightarrow> u64 option" where
  "strlen_loop m s len =
     (case load8 m s of None \<Rightarrow> None
      | Some c \<Rightarrow> if c = 0 then Some len else strlen_loop m (s + 1) (len + 1))"

definition strlen :: "mem \<Rightarrow> addr \<Rightarrow> u64 option" where
  "strlen m s = strlen_loop m s 0"

text \<open>\<open>char\<close> is signed on the x86 targets, so the difference is that of the signed
  values.\<close>

partial_function (option) strcmp :: "mem \<Rightarrow> addr \<Rightarrow> addr \<Rightarrow> int option" where
  "strcmp m s1 s2 =
     (case load8 m s1 of None \<Rightarrow> None
      | Some a \<Rightarrow> (case load8 m s2 of None \<Rightarrow> None
          | Some b \<Rightarrow> if a = b \<and> a \<noteq> 0 then strcmp m (s1 + 1) (s2 + 1)
                    else Some (sint a - sint b)))"

text \<open>The copying loop of \<open>strcpy\<close> and \<open>strcat\<close>, with the terminating store.\<close>

partial_function (option) strcpy_loop :: "mem \<Rightarrow> addr \<Rightarrow> addr \<Rightarrow> mem option" where
  "strcpy_loop m s1 s2 =
     (case load8 m s2 of None \<Rightarrow> None
      | Some c \<Rightarrow>
          if c = 0 then store8 m s1 0
          else (case store8 m s1 c of None \<Rightarrow> None
                | Some m' \<Rightarrow> strcpy_loop m' (s1 + 1) (s2 + 1)))"

definition strcpy :: "mem \<Rightarrow> addr \<Rightarrow> addr \<Rightarrow> (addr \<times> mem) option" where
  "strcpy m s1 s2 = (case strcpy_loop m s1 s2 of None \<Rightarrow> None | Some m' \<Rightarrow> Some (s1, m'))"

partial_function (option) strcat_find_end :: "mem \<Rightarrow> addr \<Rightarrow> addr option" where
  "strcat_find_end m s1 =
     (case load8 m s1 of None \<Rightarrow> None
      | Some c \<Rightarrow> if c = 0 then Some s1 else strcat_find_end m (s1 + 1))"

definition strcat :: "mem \<Rightarrow> addr \<Rightarrow> addr \<Rightarrow> (addr \<times> mem) option" where
  "strcat m s1 s2 =
     (case strcat_find_end m s1 of None \<Rightarrow> None
      | Some e \<Rightarrow> (case strcpy_loop m e s2 of None \<Rightarrow> None | Some m' \<Rightarrow> Some (s1, m')))"

text \<open>\<open>int\<close> arithmetic that leaves the range is undefined behaviour: \<open>None\<close>.\<close>

definition int_op :: "int \<Rightarrow> int option" where
  "int_op n = (if int32_range n then Some n else None)"

partial_function (option) atoi_loop :: "mem \<Rightarrow> addr \<Rightarrow> int \<Rightarrow> int option" where
  "atoi_loop m s num =
     (case load8 m s of None \<Rightarrow> None
      | Some c \<Rightarrow>
          if c = 0 then Some num
          else (case int_op (num * 10) of None \<Rightarrow> None
                | Some n10 \<Rightarrow> (case int_op (n10 + (sint c - 48)) of None \<Rightarrow> None
                    | Some n' \<Rightarrow> atoi_loop m (s + 1) n')))"

definition atoi :: "mem \<Rightarrow> addr \<Rightarrow> int option" where
  "atoi m s = atoi_loop m s 0"

section \<open>memcmp, memset, memcpy\<close>

fun memcmp_loop :: "nat \<Rightarrow> mem \<Rightarrow> addr \<Rightarrow> addr \<Rightarrow> int option" where
  "memcmp_loop 0 m s1 s2 = Some 0"
| "memcmp_loop (Suc n) m s1 s2 =
     (case load8 m s1 of None \<Rightarrow> None
      | Some a \<Rightarrow> (case load8 m s2 of None \<Rightarrow> None
          | Some b \<Rightarrow> if a = b then memcmp_loop n m (s1 + 1) (s2 + 1)
                    else Some (uint a - uint b)))"

definition memcmp :: "mem \<Rightarrow> addr \<Rightarrow> addr \<Rightarrow> u64 \<Rightarrow> int option" where
  "memcmp m s1 s2 n = memcmp_loop (unat n) m s1 s2"

text \<open>
  The counter of \<open>memset\<close> is an \<open>int\<close> and its bound a \<open>size_t\<close>: incrementing it past
  \<open>INT_MAX\<close> is undefined, so \<open>None\<close>. The first argument counts the iterations left.
\<close>

fun memset_loop :: "nat \<Rightarrow> int \<Rightarrow> mem \<Rightarrow> addr \<Rightarrow> byte \<Rightarrow> mem option" where
  "memset_loop 0 i m str ch = Some m"
| "memset_loop (Suc n) i m str ch =
     (case store8 m (str + of_int i) ch of None \<Rightarrow> None
      | Some m' \<Rightarrow> (case int_op (i + 1) of None \<Rightarrow> None
          | Some i' \<Rightarrow> memset_loop n i' m' str ch))"

definition memset :: "mem \<Rightarrow> addr \<Rightarrow> int \<Rightarrow> u64 \<Rightarrow> (addr \<times> mem) option" where
  "memset m str ch count =
     (case memset_loop (unat count) 0 m str (of_int ch) of None \<Rightarrow> None
      | Some m' \<Rightarrow> Some (str, m'))"

text \<open>\<open>while (count--) *dw++ = *sw++;\<close> for elements of \<open>w\<close> bytes: one wide load and one
  wide store per iteration, both pointers advanced.\<close>

fun copy_elems :: "nat \<Rightarrow> nat \<Rightarrow> mem \<Rightarrow> addr \<Rightarrow> addr \<Rightarrow> (mem \<times> addr \<times> addr) option" where
  "copy_elems w 0 m d s = Some (m, d, s)"
| "copy_elems w (Suc k) m d s =
     (case load_le w m s of None \<Rightarrow> None
      | Some v \<Rightarrow> (case store_le w m d v of None \<Rightarrow> None
          | Some m' \<Rightarrow> copy_elems w k m' (d + of_nat w) (s + of_nat w)))"

text \<open>A wide pass followed by the \<open>n % w\<close> bytes that are left.\<close>

definition copy_wide :: "nat \<Rightarrow> nat \<Rightarrow> mem \<Rightarrow> addr \<Rightarrow> addr \<Rightarrow> mem option" where
  "copy_wide w n m d s =
     (case copy_elems w (n div w) m d s of None \<Rightarrow> None
      | Some (m', d2, s2) \<Rightarrow> (case copy_elems 1 (n mod w) m' d2 s2 of None \<Rightarrow> None
          | Some (m'', _, _) \<Rightarrow> Some m''))"

definition memcpy :: "mem \<Rightarrow> addr \<Rightarrow> addr \<Rightarrow> u64 \<Rightarrow> (addr \<times> mem) option" where
  "memcpy m dest src n =
     (case (if dest mod 8 = 0 \<and> src mod 8 = 0 then copy_wide 8 (unat n) m dest src
            else if dest mod 4 = 0 \<and> src mod 4 = 0 then copy_wide 4 (unat n) m dest src
            else if dest mod 2 = 0 \<and> src mod 2 = 0 then copy_wide 2 (unat n) m dest src
            else copy_wide 1 (unat n) m dest src) of
        None \<Rightarrow> None
      | Some m' \<Rightarrow> Some (dest, m'))"

section \<open>Correctness of the loops\<close>

lemma strlen_loop_cstr: "cstr m s xs \<Longrightarrow> strlen_loop m s len = Some (len + of_nat (length xs))"
proof (induction xs arbitrary: s len)
  case Nil
  then show ?case by (simp add: strlen_loop.simps load8_def cmem)
next
  case (Cons x xs)
  then show ?case
    by (simp add: strlen_loop.simps [of m s] load8_def cmem algebra_simps)
qed

lemma strcpy_loop_cstr:
  assumes "cstr m s xs" and "mapped m d (Suc (length xs))"
    and "ranges_disj d (Suc (length xs)) s (Suc (length xs))"
  shows "strcpy_loop m d s = Some (put_bytes m d (xs @ [0]))"
  using assms
proof (induction xs arbitrary: m d s)
  case Nil
  then show ?case
    by (auto simp: strcpy_loop.simps load8_def store8_def cmem fun_upd_def)
next
  case (Cons x xs)
  have away: "d \<noteq> s + 1 + of_nat j" if "j \<le> length xs" for j
    using ranges_disj_head [OF Cons.prems(3), of "Suc j"] that by (simp only: addr_Suc) simp
  have "strcpy_loop (m(d \<mapsto> x)) (d + 1) (s + 1) = Some (put_bytes (m(d \<mapsto> x)) (d + 1) (xs @ [0]))"
  proof (rule Cons.IH)
    show "cstr (m(d \<mapsto> x)) (s + 1) xs"
      using Cons.prems(1) away by (subst cstr_upd) (auto simp: cstr_Cons)
    show "mapped (m(d \<mapsto> x)) (d + 1) (Suc (length xs))"
      using Cons.prems(2) by (intro mapped_upd) simp
    show "ranges_disj (d + 1) (Suc (length xs)) (s + 1) (Suc (length xs))"
      using Cons.prems(3) by (simp add: ranges_disj_step)
  qed
  with Cons.prems(1,2) show ?case
    by (simp add: strcpy_loop.simps [of m d s] load8_def store8_def cstr_Cons)
qed

lemma strcat_find_end_cstr: "cstr m s xs \<Longrightarrow> strcat_find_end m s = Some (s + of_nat (length xs))"
proof (induction xs arbitrary: s)
  case Nil
  then show ?case by (simp add: strcat_find_end.simps load8_def cmem)
next
  case (Cons x xs)
  then show ?case
    by (simp add: strcat_find_end.simps [of m s] load8_def cmem algebra_simps)
qed

text \<open>The first position where two strings, terminators included, differ.\<close>

fun str_diff :: "byte list \<Rightarrow> byte list \<Rightarrow> int" where
  "str_diff [] [] = 0"
| "str_diff [] (b # bs) = - sint b"
| "str_diff (a # as) [] = sint a"
| "str_diff (a # as) (b # bs) = (if a = b then str_diff as bs else sint a - sint b)"

lemma strcmp_cstr: "cstr m s xs \<Longrightarrow> cstr m t ys \<Longrightarrow> strcmp m s t = Some (str_diff xs ys)"
proof (induction xs ys arbitrary: s t rule: str_diff.induct)
  case 1
  then show ?case by (simp add: strcmp.simps load8_def cmem)
next
  case (2 b bs)
  then show ?case by (auto simp: strcmp.simps load8_def cmem)
next
  case (3 a as)
  then show ?case by (auto simp: strcmp.simps load8_def cmem)
next
  case (4 a as b bs)
  then show ?case
    by (cases "a = b") (auto simp: strcmp.simps [of m s t] load8_def cmem)
qed

lemma str_diff_zero: "0 \<notin> set xs \<Longrightarrow> 0 \<notin> set ys \<Longrightarrow> str_diff xs ys = 0 \<longleftrightarrow> xs = ys"
proof (induction xs ys rule: str_diff.induct)
  case 1
  then show ?case by simp
next
  case (2 b bs)
  then show ?case by (metis list.distinct(1) list.set_intros(1) neg_equal_0_iff_equal
      signed_0 signed_word_eqI str_diff.simps(2))
next
  case (3 a as)
  then show ?case by (metis list.distinct(1) list.set_intros(1) signed_0 signed_word_eqI
      str_diff.simps(3))
next
  case (4 a as b bs)
  then show ?case by (auto simp: signed_word_eqI)
qed

text \<open>Lexicographic comparison of byte sequences of equal length.\<close>

fun mem_diff :: "byte list \<Rightarrow> byte list \<Rightarrow> int" where
  "mem_diff (a # as) (b # bs) = (if a = b then mem_diff as bs else uint a - uint b)"
| "mem_diff _ _ = 0"

lemma memcmp_loop_bytes:
  "bytes_at m s xs \<Longrightarrow> bytes_at m t ys \<Longrightarrow> length ys = length xs \<Longrightarrow>
   memcmp_loop (length xs) m s t = Some (mem_diff xs ys)"
proof (induction xs ys arbitrary: s t rule: mem_diff.induct)
  case (1 a as b bs)
  then show ?case by (auto simp: load8_def)
qed auto

lemma mem_diff_zero: "length xs = length ys \<Longrightarrow> mem_diff xs ys = 0 \<longleftrightarrow> xs = ys"
  by (induction xs ys rule: mem_diff.induct) (auto simp: word_uint_eq_iff)

lemma memset_loop_bytes:
  "mapped m (p + of_int i) k \<Longrightarrow> 0 \<le> i \<Longrightarrow> i + int k < 2 ^ 31 \<Longrightarrow>
   memset_loop k i m p b = Some (put_bytes m (p + of_int i) (replicate k b))"
proof (induction k arbitrary: i m)
  case 0
  then show ?case by simp
next
  case (Suc k)
  let ?m = "m(p + of_int i \<mapsto> b)"
  have next_addr: "p + of_int (i + 1) = p + of_int i + 1" by simp
  have "memset_loop k (i + 1) ?m p b = Some (put_bytes ?m (p + of_int (i + 1)) (replicate k b))"
  proof (rule Suc.IH)
    show "mapped ?m (p + of_int (i + 1)) k"
      using Suc.prems(1) by (intro mapped_upd) (simp only: next_addr mapped.simps)
  qed (use Suc.prems in auto)
  with Suc.prems show ?case
    by (simp add: store8_def int_op_def int32_range_def add.assoc)
qed

lemma copy_elems_bytes:
  "length bs = w * k \<Longrightarrow> bytes_at m s bs \<Longrightarrow> mapped m d (w * k) \<Longrightarrow>
   ranges_disj d (w * k) s (w * k) \<Longrightarrow>
   copy_elems w k m d s = Some (put_bytes m d bs, d + of_nat (w * k), s + of_nat (w * k))"
proof (induction k arbitrary: bs m d s)
  case 0
  then show ?case by simp
next
  case (Suc k)
  define b1 b2 where "b1 = take w bs" and "b2 = drop w bs"
  have bs: "bs = b1 @ b2" and len1: "length b1 = w" and len2: "length b2 = w * k"
    using Suc.prems(1) by (simp_all add: b1_def b2_def)
  have load: "load_le w m s = Some (le_val b1)"
    using Suc.prems(2) load_le_bytes [of m s b1] by (simp add: bs len1)
  have store: "store_le w m d (le_val b1) = Some (put_bytes m d b1)"
    using Suc.prems(3) store_le_bytes [of m d b1] by (simp add: len1 mapped_add)
  have "copy_elems w k (put_bytes m d b1) (d + of_nat w) (s + of_nat w) =
      Some (put_bytes (put_bytes m d b1) (d + of_nat w) b2,
        d + of_nat w + of_nat (w * k), s + of_nat w + of_nat (w * k))"
  proof (rule Suc.IH)
    show "length b2 = w * k" by (rule len2)
    have "ranges_disj (d + of_nat 0) w (s + of_nat w) (w * k)"
      by (rule ranges_disj_sub [OF Suc.prems(4)]) simp_all
    then show "bytes_at (put_bytes m d b1) (s + of_nat w) b2"
      using Suc.prems(2) by (intro bytes_at_put) (simp_all add: bs len1 len2)
    show "mapped (put_bytes m d b1) (d + of_nat w) (w * k)"
      using Suc.prems(3) by (intro mapped_put_bytes) (simp add: mapped_add)
    show "ranges_disj (d + of_nat w) (w * k) (s + of_nat w) (w * k)"
      by (rule ranges_disj_sub [OF Suc.prems(4)]) simp_all
  qed
  then show ?case
    by (simp add: load store bs put_bytes_append len1 algebra_simps)
qed

lemma copy_wide_bytes:
  assumes bs: "bytes_at m s bs" "length bs = n" and d: "mapped m d n" and disj: "ranges_disj d n s n"
  shows "copy_wide w n m d s = Some (put_bytes m d bs)"
proof -
  define k where "k = w * (n div w)"
  have n: "n = k + n mod w" by (simp add: k_def)
  define b1 b2 where "b1 = take k bs" and "b2 = drop k bs"
  have split: "bs = b1 @ b2" and len1: "length b1 = k" and len2: "length b2 = n mod w"
    using bs(2) n by (simp_all add: b1_def b2_def)
  let ?m = "put_bytes m d b1"
  have disj': "ranges_disj (d + of_nat a) i (s + of_nat b) j"
    if "a + i \<le> n" "b + j \<le> n" for a b i j
    using that by (rule ranges_disj_sub [OF disj])
  have "mapped m d k" "mapped m (d + of_nat k) (n mod w)"
    using d by (subst (asm) n, simp add: mapped_add)+
  moreover have "bytes_at m s b1" "bytes_at m (s + of_nat k) b2"
    using bs(1) by (simp_all add: split len1)
  moreover have "bytes_at ?m (s + of_nat k) b2"
    using disj' [of 0 k k "n mod w"] calculation n
    by (intro bytes_at_put) (simp_all add: len1 len2)
  ultimately have first: "copy_elems w (n div w) m d s = Some (?m, d + of_nat k, s + of_nat k)"
    and second: "copy_elems 1 (n mod w) ?m (d + of_nat k) (s + of_nat k) =
      Some (put_bytes ?m (d + of_nat k) b2, d + of_nat k + of_nat (1 * (n mod w)),
        s + of_nat k + of_nat (1 * (n mod w)))"
    using disj' [of 0 k 0 k] disj' [of k "n mod w" k "n mod w"] n
      copy_elems_bytes [of b1 w "n div w" m s d]
      copy_elems_bytes [of b2 1 "n mod w" ?m "s + of_nat k" "d + of_nat k"]
    by (simp_all add: len1 len2 mapped_put_bytes flip: k_def)
  show ?thesis
    unfolding copy_wide_def by (simp only: first second option.case prod.case)
      (simp add: split put_bytes_append len1)
qed

text \<open>Decimal digits: the bytes \<open>'0'\<close> to \<open>'9'\<close> and the number a digit sequence denotes.\<close>

definition digit_byte :: "byte \<Rightarrow> bool" where
  "digit_byte b \<longleftrightarrow> 48 \<le> unat b \<and> unat b \<le> 57"

fun dec_val :: "nat \<Rightarrow> byte list \<Rightarrow> nat" where
  "dec_val acc [] = acc"
| "dec_val acc (b # bs) = dec_val (10 * acc + (unat b - 48)) bs"

lemma dec_val_ge: "acc \<le> dec_val acc bs"
proof (induction bs arbitrary: acc)
  case (Cons b bs)
  show ?case using Cons.IH [of "10 * acc + (unat b - 48)"] by simp
qed simp

lemma sint_digit: "digit_byte b \<Longrightarrow> sint b - 48 = int (unat b - 48)"
proof -
  assume d: "digit_byte b"
  then have le: "48 \<le> uint b \<and> uint b \<le> 57"
    unfolding digit_byte_def unat_eq_nat_uint by linarith
  have "sint b = signed_take_bit 7 (uint b)"
    by (subst sint_uint) simp
  also have "\<dots> = uint b"
    using le by (intro signed_take_bit_int_eq_self) auto
  finally show ?thesis using d by (simp add: digit_byte_def of_nat_diff)
qed

lemma atoi_loop_digits:
  "cstr m s bs \<Longrightarrow> \<forall>b\<in>set bs. digit_byte b \<Longrightarrow> dec_val acc bs < 2 ^ 31 \<Longrightarrow>
   atoi_loop m s (int acc) = Some (int (dec_val acc bs))"
proof (induction bs arbitrary: s acc)
  case Nil
  then show ?case by (simp add: atoi_loop.simps load8_def cmem)
next
  case (Cons b bs)
  let ?acc = "10 * acc + (unat b - 48)"
  have "?acc < 2 ^ 31" using Cons.prems(3) dec_val_ge [of ?acc bs] by simp
  then have "int_op (int acc * 10) = Some (int acc * 10)"
    and "int_op (int acc * 10 + int (unat b - 48)) = Some (int ?acc)"
    by (auto simp: int_op_def int32_range_def)
  moreover have "atoi_loop m (s + 1) (int ?acc) = Some (int (dec_val ?acc bs))"
    using Cons.prems by (intro Cons.IH) (auto simp: cmem)
  ultimately show ?case
    using Cons.prems by (simp add: atoi_loop.simps [of m s] load8_def cmem sint_digit)
qed

section \<open>Properties\<close>

text \<open>
  C1: \<open>memcpy\<close> between disjoint mapped buffers returns \<open>dest\<close> whichever of its four
  alignment paths is taken; afterwards the destination holds the source bytes and no byte
  outside the destination has changed.
\<close>

theorem memcpy_copies:
  assumes "bytes_at m src bs" and "length bs = unat n" and "mapped m dest (unat n)"
    and "ranges_disj dest (unat n) src (unat n)"
  shows "\<exists>m'. memcpy m dest src n = Some (dest, m') \<and> bytes_at m' dest bs \<and>
    (\<forall>q. (\<exists>i<unat n. q = dest + of_nat i) \<or> m' q = m q)"
proof (intro exI conjI allI)
  show "memcpy m dest src n = Some (dest, put_bytes m dest bs)"
    using assms by (simp add: memcpy_def copy_wide_bytes)
  have "length bs \<le> 2 ^ 64"
    using unat_u64_less [of n] by (simp add: assms(2))
  then show "bytes_at (put_bytes m dest bs) dest bs"
    by (rule bytes_at_put_bytes)
  show "(\<exists>i<unat n. q = dest + of_nat i) \<or> put_bytes m dest bs q = m q" for q
    using put_bytes_other [of bs q dest m] by (auto simp: assms(2))
qed

definition mem9 :: mem where
  "mem9 = put_bytes (put_bytes Map.empty 16 (replicate 9 0)) 32 [1, 2, 3, 4, 5, 6, 7, 8, 9]"

lemma mem9_src: "bytes_at mem9 32 [1, 2, 3, 4, 5, 6, 7, 8, 9]"
  by (simp add: mem9_def)

lemma mem9_dest: "mapped mem9 16 9"
  using bytes_at_mapped [OF bytes_at_put_bytes [of "replicate 9 0" Map.empty 16]]
  unfolding mem9_def by (intro mapped_put_bytes [of "put_bytes Map.empty 16 (replicate 9 0)"]) simp

theorem memcpy_copies_witness:
  "\<exists>m'. memcpy mem9 16 32 9 = Some (16, m') \<and> bytes_at m' 16 [1, 2, 3, 4, 5, 6, 7, 8, 9]"
proof -
  have "ranges_disj 16 9 32 9" by (rule ranges_disj_before) simp_all
  then have "\<exists>m'. memcpy mem9 16 32 9 = Some (16, m') \<and>
      bytes_at m' 16 [1, 2, 3, 4, 5, 6, 7, 8, 9] \<and>
      (\<forall>q. (\<exists>i<unat (9::u64). q = 16 + of_nat i) \<or> m' q = mem9 q)"
    using mem9_src mem9_dest by (intro memcpy_copies) simp_all
  then show ?thesis by blast
qed

lemma ranges_disj_length: "ranges_disj p n q (Suc k) \<Longrightarrow> n \<le> 2 ^ 64"
proof (rule ccontr)
  assume d: "ranges_disj p n q (Suc k)" and "\<not> n \<le> 2 ^ 64"
  have "unat (q - p) < 2 ^ 64"
    by (rule unat_u64_less)
  then have "unat (q - p) < n" using \<open>\<not> n \<le> 2 ^ 64\<close> by simp
  then have "p + of_nat (unat (q - p)) \<noteq> q + of_nat 0"
    using d by (fastforce simp only: ranges_disj_def)
  then show False by simp
qed

text \<open>
  \<open>strcat\<close> of two disjoint strings, with room for the second behind the first,
  returns the first pointer, which then points to the concatenation; the second string is
  unchanged.
\<close>

theorem strcat_concat:
  assumes "cstr m s1 xs" and "cstr m s2 ys"
    and "mapped m (s1 + of_nat (length xs)) (Suc (length ys))"
    and "ranges_disj s1 (length xs + Suc (length ys)) s2 (Suc (length ys))"
  shows "\<exists>m'. strcat m s1 s2 = Some (s1, m') \<and> cstr m' s1 (xs @ ys) \<and> cstr m' s2 ys"
proof (intro exI conjI)
  let ?e = "s1 + of_nat (length xs)"
  let ?m = "put_bytes m ?e (ys @ [0])"
  have disj: "ranges_disj ?e (Suc (length ys)) s2 (Suc (length ys))"
    using ranges_disj_sub [OF assms(4), of "length xs" "Suc (length ys)" 0] by simp
  show "strcat m s1 s2 = Some (s1, ?m)"
    using strcat_find_end_cstr [OF assms(1)] strcpy_loop_cstr [OF assms(2,3) disj]
    by (simp add: strcat_def)
  have len: "length xs + Suc (length ys) \<le> 2 ^ 64"
    using assms(4) by (rule ranges_disj_length)
  have "ranges_disj ?e (length (ys @ [0])) (s1 + of_nat 0) (length xs)"
    unfolding ranges_disj_def
  proof (intro allI impI)
    fix i j assume "i < length (ys @ [0 :: byte])" and "j < length xs"
    with len have "length xs + i \<noteq> j" "length xs + i < 2 ^ 64" "j < 2 ^ 64" by auto
    then show "?e + of_nat i \<noteq> s1 + of_nat 0 + of_nat j"
      using addr_offset_eq [of "length xs + i" j s1] by (simp add: add.assoc)
  qed
  then have "bytes_at ?m s1 xs"
    using assms(1) by (intro bytes_at_put) (simp_all add: cstr_def)
  moreover have "bytes_at ?m ?e (ys @ [0])"
    using len by (intro bytes_at_put_bytes) simp
  ultimately show "cstr ?m s1 (xs @ ys)"
    using assms(1,2) by (simp add: cstr_def add.assoc)
  show "cstr ?m s2 ys"
    using assms(2) disj bytes_at_put [of ?e "ys @ [0]" s2 "ys @ [0]" m] by (simp add: cstr_def)
qed

definition mem_cat :: mem where
  "mem_cat = put_bytes (put_bytes Map.empty 100 [97, 98, 0, 7, 7]) 200 [99, 100, 0]"

theorem strcat_concat_witness:
  "\<exists>m'. strcat mem_cat 100 200 = Some (100, m') \<and> cstr m' 100 ([97, 98] @ [99, 100])
    \<and> cstr m' 200 [99, 100]"
proof (rule strcat_concat)
  show "cstr mem_cat 100 [97, 98]" "cstr mem_cat 200 [99, 100]"
    by (simp_all add: mem_cat_def cmem)
  show "mapped mem_cat (100 + of_nat (length [97 :: byte, 98])) (Suc (length [99 :: byte, 100]))"
    by (simp add: mem_cat_def)
  show "ranges_disj 100 (length [97 :: byte, 98] + Suc (length [99 :: byte, 100])) 200
      (Suc (length [99 :: byte, 100]))"
    by (rule ranges_disj_before) simp_all
qed

text \<open>
  \<open>strcmp\<close> of two stored strings returns, and its result is zero exactly when the
  strings are equal.
\<close>

theorem strcmp_equal:
  assumes "cstr m s xs" and "cstr m t ys"
  shows "\<exists>d. strcmp m s t = Some d \<and> (d = 0 \<longleftrightarrow> xs = ys)"
  using strcmp_cstr [OF assms] str_diff_zero [of xs ys] assms by (auto simp: cstr_def)

theorem strcmp_equal_witness:
  "(\<exists>d. strcmp mem_cat 100 200 = Some d \<and> (d = 0 \<longleftrightarrow> [97 :: byte, 98] = [99, 100]))"
  by (rule strcmp_equal) (simp_all add: mem_cat_def cmem)

text \<open>
  \<open>atoi\<close> of a string of decimal digits whose value fits in an \<open>int\<close> returns that value,
  with no overflow on the way.
\<close>

theorem atoi_decimal:
  assumes "cstr m s bs" and "\<forall>b\<in>set bs. digit_byte b" and "dec_val 0 bs < 2 ^ 31"
  shows "atoi m s = Some (int (dec_val 0 bs))"
  using atoi_loop_digits [OF assms] by (simp add: atoi_def)

theorem atoi_decimal_witness:
  "atoi (put_bytes Map.empty 8 [49, 50, 51, 0]) 8 = Some 123"
  using atoi_decimal [of "put_bytes Map.empty 8 [49, 50, 51, 0]" 8 "[49, 50, 51]"]
  by (simp add: cmem digit_byte_def)

end
