(* ===== verification/Printf.thy ===== *)
theory Printf
  imports LibcString "HOL-Library.Monad_Syntax"
begin

text \<open>
  The \<open>printf\<close> family of the C library (source/libraries/libc/stdio: vprintf_core.c,
  printf_family.h, vsnprintf.c, vsprintf.c, snprintf.c, sprintf.c).

  A C string that is only read is a HOL string without its terminator (\<open>cur\<close> reads the
  terminator at the end); \<open>strs\<close> gives the string at an address, \<open>None\<close> where a read
  would fault. \<open>vsnprintf\<close> declares its buffer \<open>restrict\<close>, so the strings it reads do not
  change while it writes. The variable arguments are a list of values with their kind, and
  fetching one that is missing or of another kind is undefined (\<open>None\<close>). The output
  function stored in \<open>_printfOut_t\<close> is an argument: it takes the output record, with the
  memory it writes, and returns the new record and its \<open>int\<close> result.

  The lemmas show that the core is a formatter followed by output: \<open>fmt_items\<close> computes the
  characters a format stands for without any output function, and \<open>vprintfCore\<close> feeds exactly
  those to the output function until it returns \<open>EOF\<close>.
\<close>

section \<open>Data\<close>

record 'w printfOut =
  po_buf :: addr
  po_bufSize :: u64
  po_bufPos :: u64
  po_charsPrinted :: int
  po_world :: 'w

datatype conv = ConvDecimal | ConvOctal | ConvUnsigned | ConvHexLower | ConvHexUpper
  | ConvChar | ConvString | ConvPtr | ConvWrittenChars

datatype psize = SizeNone | SizeSChar | SizeUChar | SizeSShort | SizeUShort | SizeSInt | SizeUInt
  | SizeSLong | SizeULong | SizeSLongLong | SizeULongLong | SizePChar | SizeString | SizeIntmax
  | SizeUintmax | SizeSizeT | SizePtrdiff | SizeUintptr

text \<open>The union \<open>udata\<close>, \<open>sdata\<close>, \<open>ptr\<close> is one 64-bit word.\<close>

record printfFmt =
  pf_data :: u64
  pf_flags :: u32
  pf_width :: int
  pf_precision :: int
  pf_precisionIsDefault :: bool
  pf_conv :: conv
  pf_type :: psize

datatype va = VaInt u32 | VaLong u64 | VaPtr addr

definition EOF :: int where "EOF = - 1"

definition FLAG_LEFT_JUSTIFY :: u32 where "FLAG_LEFT_JUSTIFY = 1"
definition FLAG_ALWAYS_SIGN :: u32 where "FLAG_ALWAYS_SIGN = 2"
definition FLAG_SPACE_SIGN :: u32 where "FLAG_SPACE_SIGN = 4"
definition FLAG_PREFIX :: u32 where "FLAG_PREFIX = 8"
definition FLAG_0PAD :: u32 where "FLAG_0PAD = 16"

lemmas flag_defs = FLAG_LEFT_JUSTIFY_def FLAG_ALWAYS_SIGN_def FLAG_SPACE_SIGN_def FLAG_PREFIX_def
  FLAG_0PAD_def

definition has_flag :: "printfFmt \<Rightarrow> u32 \<Rightarrow> bool" where
  "has_flag f b \<longleftrightarrow> and (pf_flags f) b = b"

text \<open>Indexed by the length modifier: 0 none, 1 hh, 2 h, 3 l, 4 ll, 5 j, 6 z, 7 t.\<close>

definition lenToSizeInt :: "psize list" where
  "lenToSizeInt = [SizeSInt, SizeSChar, SizeSShort, SizeSLong, SizeSLongLong, SizeIntmax,
     SizeSizeT, SizePtrdiff]"

definition lenToSizeUint :: "psize list" where
  "lenToSizeUint = [SizeUInt, SizeUChar, SizeUShort, SizeULong, SizeULongLong, SizeUintmax,
     SizeSizeT, SizePtrdiff]"

definition NUL :: char where "NUL = CHR 0x00"

text \<open>\<open>*s\<close> of a string pointer.\<close>

fun cur :: "string \<Rightarrow> char" where
  "cur [] = NUL"
| "cur (c # _) = c"

text \<open>\<open>strlen\<close> of such a string.\<close>

definition str_len :: "string \<Rightarrow> int" where
  "str_len s = int (length (takeWhile (\<lambda>c. c \<noteq> NUL) s))"

section \<open>Numbers to text\<close>

definition digit_char :: "bool \<Rightarrow> nat \<Rightarrow> char" where
  "digit_char upperCase d =
     (let curNum = d mod 256
      in if 10 \<le> curNum \<and> curNum < 128
         then (if upperCase then char_of (curNum + (65 - 10)) else char_of (curNum + (97 - 10)))
         else char_of (curNum + 48))"

text \<open>The do-while loop that fills \<open>buf[25]\<close> from the least significant digit on; writing
  behind the buffer is undefined.\<close>

function digits_loop :: "nat \<Rightarrow> bool \<Rightarrow> nat \<Rightarrow> string \<Rightarrow> string option" where
  "digits_loop base upperCase num buf =
     (if base < 2 \<or> 25 \<le> length buf then None
      else let buf = buf @ [digit_char upperCase (num mod base)]
           in if num div base = 0 then Some buf
              else digits_loop base upperCase (num div base) buf)"
  by pat_completeness auto
termination by (relation "measure (\<lambda>(_, _, num, _). num)") (auto simp: div_eq_0_iff)

declare digits_loop.simps [simp del]

text \<open>Both routines then copy \<open>buf\<close> backwards into \<open>s\<close>, which is zeroed and longer.\<close>

definition fmtUnsignedNumToStr :: "nat \<Rightarrow> nat \<Rightarrow> bool \<Rightarrow> string option" where
  "fmtUnsignedNumToStr num base upperCase =
     (case digits_loop base upperCase num [] of None \<Rightarrow> None | Some buf \<Rightarrow> Some (rev buf))"

text \<open>\<open>num *= -1\<close> of the least \<open>intmax_t\<close> is undefined. The result is the sign and the text.\<close>

definition fmtSignedNumToStr :: "int \<Rightarrow> (bool \<times> string) option" where
  "fmtSignedNumToStr num =
     (let sign = 0 \<le> num;
          num = (if 0 \<le> num then num else num * - 1)
      in if 2 ^ 63 \<le> num then None
         else (case digits_loop 10 False (nat num) [] of None \<Rightarrow> None
               | Some buf \<Rightarrow> Some (sign, rev buf)))"

definition is_digit1to9 :: "char \<Rightarrow> bool" where
  "is_digit1to9 c \<longleftrightarrow> c \<in> set ''123456789''"

text \<open>The number at the front of the format, what follows it, and the offset after it.\<close>

fun fmtStrToNum_loop :: "string \<Rightarrow> int \<Rightarrow> int \<Rightarrow> (int \<times> string \<times> int) option" where
  "fmtStrToNum_loop [] num fmtOffset = Some (num, [], fmtOffset)"
| "fmtStrToNum_loop (c # fmt) num fmtOffset =
     (if is_digit1to9 c
      then (case (if num \<noteq> 0 then int_op (num * 10) else Some num) of None \<Rightarrow> None
            | Some num \<Rightarrow>
                (case int_op (num + (of_char c - 48)) of None \<Rightarrow> None
                 | Some num \<Rightarrow> fmtStrToNum_loop fmt num (fmtOffset + 1)))
      else Some (num, c # fmt, fmtOffset))"

definition fmtStrToNum :: "string \<Rightarrow> int \<Rightarrow> (int \<times> string \<times> int) option" where
  "fmtStrToNum fmt fmtOffset = fmtStrToNum_loop fmt 0 fmtOffset"

section \<open>Parsing a conversion specification\<close>

text \<open>\<open>va_arg\<close>: the next argument as 32 bits, as 64 bits, as a pointer.\<close>

fun va_int :: "va list \<Rightarrow> (u32 \<times> va list) option" where
  "va_int (VaInt w # ap) = Some (w, ap)"
| "va_int _ = None"

fun va_long :: "va list \<Rightarrow> (u64 \<times> va list) option" where
  "va_long (VaLong w # ap) = Some (w, ap)"
| "va_long _ = None"

fun va_ptr :: "va list \<Rightarrow> (addr \<times> va list) option" where
  "va_ptr (VaPtr w # ap) = Some (w, ap)"
| "va_ptr _ = None"

text \<open>The narrowing and widening conversions of each size.\<close>

definition getDataArg :: "printfFmt \<Rightarrow> va list \<Rightarrow> (printfFmt \<times> va list) option" where
  "getDataArg fmt ap =
     (let int_arg = (\<lambda>conv. do { (w, ap) \<leftarrow> va_int ap; Some (fmt\<lparr>pf_data := conv w\<rparr>, ap) });
          long_arg = do { (w, ap) \<leftarrow> va_long ap; Some (fmt\<lparr>pf_data := w\<rparr>, ap) };
          ptr_arg = do { (w, ap) \<leftarrow> va_ptr ap; Some (fmt\<lparr>pf_data := w\<rparr>, ap) }
      in case pf_type fmt of
           SizeSChar \<Rightarrow> int_arg (\<lambda>w. scast (ucast w :: 8 word))
         | SizeUChar \<Rightarrow> int_arg (\<lambda>w. ucast (ucast w :: 8 word))
         | SizeSShort \<Rightarrow> int_arg (\<lambda>w. scast (ucast w :: 16 word))
         | SizeUShort \<Rightarrow> int_arg (\<lambda>w. ucast (ucast w :: 16 word))
         | SizeSInt \<Rightarrow> int_arg scast
         | SizeUInt \<Rightarrow> int_arg ucast
         | SizeSLong \<Rightarrow> long_arg
         | SizeULong \<Rightarrow> long_arg
         | SizeSLongLong \<Rightarrow> long_arg
         | SizeULongLong \<Rightarrow> long_arg
         | SizePChar \<Rightarrow> int_arg (\<lambda>w. ucast (ucast w :: 8 word))
         | SizeIntmax \<Rightarrow> long_arg
         | SizeUintmax \<Rightarrow> long_arg
         | SizePtrdiff \<Rightarrow> long_arg
         | SizeSizeT \<Rightarrow> long_arg
         | SizeString \<Rightarrow> ptr_arg
         | SizeUintptr \<Rightarrow> ptr_arg
         | SizeNone \<Rightarrow> Some (fmt, ap))"

definition set_flag :: "u32 \<Rightarrow> printfFmt \<Rightarrow> printfFmt" where
  "set_flag b f = f\<lparr>pf_flags := or (pf_flags f) b\<rparr>"

text \<open>The stages of \<open>__parseFormat\<close>, each from the format pointer and the offset on.\<close>

fun parse_flags :: "printfFmt \<Rightarrow> string \<Rightarrow> int \<Rightarrow> printfFmt \<times> string \<times> int" where
  "parse_flags f [] off = (f, [], off)"
| "parse_flags f (c # fmt) off =
     (if c = CHR ''-'' then parse_flags (set_flag FLAG_LEFT_JUSTIFY f) fmt (off + 1)
      else if c = CHR ''+'' then
        (let f = set_flag FLAG_ALWAYS_SIGN f
         in parse_flags (f\<lparr>pf_flags := and (pf_flags f) (not FLAG_SPACE_SIGN)\<rparr>) fmt (off + 1))
      else if c = CHR '' '' then
        parse_flags (if \<not> has_flag f FLAG_ALWAYS_SIGN then set_flag FLAG_SPACE_SIGN f else f)
          fmt (off + 1)
      else if c = CHR ''#'' then parse_flags (set_flag FLAG_PREFIX f) fmt (off + 1)
      else if c = CHR ''0'' then parse_flags (set_flag FLAG_0PAD f) fmt (off + 1)
      else (f, c # fmt, off))"

definition parse_width ::
  "printfFmt \<Rightarrow> string \<Rightarrow> int \<Rightarrow> va list \<Rightarrow> (printfFmt \<times> string \<times> int \<times> va list) option" where
  "parse_width f fmt off ap = do {
     (f, fmt, off, ap) \<leftarrow>
       (if cur fmt = CHR ''*'' then do {
          (w, ap) \<leftarrow> va_int ap;
          Some (f\<lparr>pf_width := sint w\<rparr>, tl fmt, off + 1, ap) }
        else Some (f, fmt, off, ap));
     (if is_digit1to9 (cur fmt) then do {
        (n, fmt, off) \<leftarrow> fmtStrToNum fmt off;
        Some (f\<lparr>pf_width := n\<rparr>, fmt, off, ap) }
      else Some (f, fmt, off, ap)) }"

definition parse_precision ::
  "printfFmt \<Rightarrow> string \<Rightarrow> int \<Rightarrow> va list \<Rightarrow> (printfFmt \<times> string \<times> int \<times> va list) option" where
  "parse_precision f fmt off ap =
     (if cur fmt = CHR ''.'' then
        (let fmt = tl fmt; off = off + 1; f = f\<lparr>pf_precisionIsDefault := False\<rparr>
         in if cur fmt = CHR ''*'' then do {
              (w, ap) \<leftarrow> va_int ap;
              Some (f\<lparr>pf_precision := sint w\<rparr>, tl fmt, off + 1, ap) }
            else if is_digit1to9 (cur fmt) then do {
              (n, fmt, off) \<leftarrow> fmtStrToNum fmt off;
              Some (f\<lparr>pf_precision := n\<rparr>, fmt, off, ap) }
            else Some (f\<lparr>pf_precision := 0\<rparr>, fmt, off, ap))
      else Some (f, fmt, off, ap))"

definition parse_length :: "string \<Rightarrow> int \<Rightarrow> nat \<times> string \<times> int" where
  "parse_length fmt off =
     (let c = cur fmt
      in if c = CHR ''h'' then
           (if cur (tl fmt) = CHR ''h'' then (1, tl (tl fmt), off + 2) else (2, tl fmt, off + 1))
         else if c = CHR ''l'' then
           (if cur (tl fmt) = CHR ''l'' then (4, tl (tl fmt), off + 2) else (3, tl fmt, off + 1))
         else if c = CHR ''j'' then (5, tl fmt, off + 1)
         else if c = CHR ''z'' then (6, tl fmt, off + 1)
         else if c = CHR ''t'' then (7, tl fmt, off + 1)
         else (0, fmt, off))"

text \<open>\<open>None\<close>: no conversion specifier.\<close>

definition parse_conv :: "char \<Rightarrow> nat \<Rightarrow> (conv \<times> psize) option" where
  "parse_conv c lenMod =
     (if c = CHR ''d'' \<or> c = CHR ''i'' then Some (ConvDecimal, lenToSizeInt ! lenMod)
      else if c = CHR ''o'' then Some (ConvOctal, lenToSizeUint ! lenMod)
      else if c = CHR ''x'' then Some (ConvHexLower, lenToSizeUint ! lenMod)
      else if c = CHR ''X'' then Some (ConvHexUpper, lenToSizeUint ! lenMod)
      else if c = CHR ''u'' then Some (ConvUnsigned, lenToSizeUint ! lenMod)
      else if c = CHR ''c'' then Some (ConvChar, SizePChar)
      else if c = CHR ''s'' then Some (ConvString, SizeString)
      else if c = CHR ''p'' then Some (ConvPtr, SizeUintptr)
      else if c = CHR ''n'' then Some (ConvWrittenChars, lenToSizeInt ! lenMod)
      else None)"

text \<open>The filled-in specification, the offset after it and the remaining arguments.\<close>

definition parseFormat ::
  "printfFmt \<Rightarrow> string \<Rightarrow> va list \<Rightarrow> (printfFmt \<times> int \<times> va list) option" where
  "parseFormat fmtRes fmt ap = do {
     let (f, fmt, off) = parse_flags fmtRes fmt 0;
     (f, fmt, off, ap) \<leftarrow> parse_width f fmt off ap;
     (f, fmt, off, ap) \<leftarrow> parse_precision f fmt off ap;
     let (lenMod, fmt, off) = parse_length fmt off;
     (case parse_conv (cur fmt) lenMod of
        None \<Rightarrow> Some (f, off, ap)
      | Some (c, t) \<Rightarrow> do {
          (f, ap) \<leftarrow> getDataArg (f\<lparr>pf_conv := c, pf_type := t\<rparr>) ap;
          Some (f, off + 1, ap) }) }"

text \<open>\<open>fmtParse\<close> as \<open>vprintfCore\<close> initialises it.\<close>

definition fmtParse0 :: printfFmt where
  "fmtParse0 = \<lparr>pf_data = 0, pf_flags = 0, pf_width = 0, pf_precision = 1,
     pf_precisionIsDefault = True, pf_conv = ConvDecimal, pf_type = SizeNone\<rparr>"

section \<open>Formatting one argument\<close>

text \<open>What the first switch of \<open>__printArg\<close> arrives at: an early return, a single character, or
  a text with the flags of the common part (the specification, \<open>s\<close> where \<open>None\<close> is
  \<open>NULL\<close>, \<open>accountPrecision\<close>, \<open>sign\<close>, \<open>fieldWidthChar\<close>).\<close>

datatype argText = ArgReturn | ArgPutChar char | ArgText printfFmt "string option" bool bool char

definition numCommon :: "printfFmt \<Rightarrow> string \<Rightarrow> bool \<Rightarrow> argText" where
  "numCommon f s sign =
     (let fieldWidthChar = (if has_flag f FLAG_0PAD then CHR ''0'' else CHR '' '')
      in if pf_conv f \<noteq> ConvDecimal \<and> pf_data f = 0 \<and> pf_precision f = 0 then ArgReturn
         else ArgText f (Some s) True sign fieldWidthChar)"

definition printArg_select :: "(addr \<rightharpoonup> string) \<Rightarrow> printfFmt \<Rightarrow> argText option" where
  "printArg_select strs f =
     (case pf_conv f of
        ConvDecimal \<Rightarrow> do {
          (sign, s) \<leftarrow> fmtSignedNumToStr (sint (pf_data f));
          Some (if sint (pf_data f) = 0 \<and> pf_precision f = 0 then ArgReturn
                else numCommon f s sign) }
      | ConvUnsigned \<Rightarrow> do {
          s \<leftarrow> fmtUnsignedNumToStr (unat (pf_data f)) 10 False; Some (numCommon f s True) }
      | ConvHexLower \<Rightarrow> do {
          s \<leftarrow> fmtUnsignedNumToStr (unat (pf_data f)) 16 False; Some (numCommon f s True) }
      | ConvHexUpper \<Rightarrow> do {
          s \<leftarrow> fmtUnsignedNumToStr (unat (pf_data f)) 16 True; Some (numCommon f s True) }
      | ConvOctal \<Rightarrow> do {
          s \<leftarrow> fmtUnsignedNumToStr (unat (pf_data f)) 8 False; Some (numCommon f s True) }
      | ConvPtr \<Rightarrow> do {
          s \<leftarrow> fmtUnsignedNumToStr (unat (pf_data f)) 16 True;
          Some (ArgText (set_flag FLAG_PREFIX f) (Some s) False True CHR '' '') }
      | ConvChar \<Rightarrow> Some (ArgPutChar (char_of (unat (pf_data f))))
      | ConvString \<Rightarrow> do {
          s \<leftarrow> strs (pf_data f);
          Some (ArgText f (Some s) True True CHR '' '') }
      | ConvWrittenChars \<Rightarrow> Some (ArgText f None False True CHR '' ''))"

definition SIZE_MAX :: int where "SIZE_MAX = 2 ^ 64 - 1"

text \<open>\<open>charsToPrint\<close> and \<open>precisionChars\<close> of a text whose precision counts. \<open>int\<close> values
  compared with a \<open>size_t\<close> are converted to it.\<close>

definition precision_counts :: "printfFmt \<Rightarrow> string \<Rightarrow> (int \<times> int) option" where
  "precision_counts f s = do {
     let (prec, charsToPrint) =
       (if pf_conv f = ConvString then
          (let strLen = str_len s;
               n = (if strLen > to_size (pf_precision f) then to_size (pf_precision f) else strLen)
           in if pf_precisionIsDefault f then (to_int32 n, strLen) else (pf_precision f, n))
        else (pf_precision f, SIZE_MAX));
     let curCharCount = to_int32 (str_len s);
     precisionChars \<leftarrow> int_op (prec - curCharCount);
     Some (charsToPrint, if precisionChars < 0 then 0 else precisionChars) }"

definition width_count :: "printfFmt \<Rightarrow> string option \<Rightarrow> int \<Rightarrow> int \<Rightarrow> int option" where
  "width_count f s charsToPrint precisionChars =
     (if pf_width f = 0 then Some 0
      else do {
        s \<leftarrow> s;
        let curCharCount = to_int32 (str_len s);
        let curCharCount =
          (if to_size curCharCount > charsToPrint then to_int32 charsToPrint else curCharCount);
        n \<leftarrow> int_op (curCharCount + precisionChars);
        widthChars \<leftarrow> int_op (pf_width f - n);
        Some (if widthChars < 0 then 0 else widthChars) })"

definition printArg_counts ::
  "printfFmt \<Rightarrow> string option \<Rightarrow> bool \<Rightarrow> (int \<times> int \<times> int) option" where
  "printArg_counts f s accountPrecision = do {
     (charsToPrint, precisionChars) \<leftarrow>
       (if accountPrecision then do { s \<leftarrow> s; precision_counts f s } else Some (SIZE_MAX, 0));
     widthChars \<leftarrow> width_count f s charsToPrint precisionChars;
     Some (charsToPrint, precisionChars, widthChars) }"

section \<open>Output\<close>

text \<open>A statement's outcome: undefined, or the output record and the result. \<open>on_ok\<close> is
  \<open>if (... == EOF) return EOF;\<close> with what follows it.\<close>

type_synonym 'w outcome = "('w printfOut \<times> int) option"
type_synonym 'w out_fun = "'w printfOut \<Rightarrow> char \<Rightarrow> 'w outcome"

definition on_ok :: "'w outcome \<Rightarrow> ('w printfOut \<Rightarrow> 'w outcome) \<Rightarrow> 'w outcome" where
  "on_ok r k = (case r of None \<Rightarrow> None
                | Some (o', res) \<Rightarrow> if res = EOF then Some (o', EOF) else k o')"

fun outString :: "'w out_fun \<Rightarrow> 'w printfOut \<Rightarrow> string \<Rightarrow> int \<Rightarrow> 'w outcome" where
  "outString out od [] charsToPrint = Some (od, 0)"
| "outString out od (c # s) charsToPrint =
     (if c \<noteq> NUL \<and> charsToPrint \<noteq> 0
      then on_ok (out od c) (\<lambda>od. outString out od s (charsToPrint - 1))
      else Some (od, 0))"

text \<open>The loops that write \<open>k\<close> times the same character.\<close>

fun out_repeat :: "'w out_fun \<Rightarrow> 'w printfOut \<Rightarrow> char \<Rightarrow> nat \<Rightarrow> 'w outcome" where
  "out_repeat out od c 0 = Some (od, 0)"
| "out_repeat out od c (Suc k) = on_ok (out od c) (\<lambda>od. out_repeat out od c k)"

definition out_prefix :: "'w out_fun \<Rightarrow> 'w printfOut \<Rightarrow> printfFmt \<Rightarrow> 'w outcome" where
  "out_prefix out od f =
     (if has_flag f FLAG_PREFIX then
        (if pf_conv f \<in> {ConvHexLower, ConvHexUpper, ConvPtr} then outString out od ''0x'' SIZE_MAX
         else if pf_conv f = ConvOctal then on_ok (out od CHR ''0'') (\<lambda>od. Some (od, 0))
         else Some (od, 0))
      else Some (od, 0))"

definition out_sign :: "'w out_fun \<Rightarrow> 'w printfOut \<Rightarrow> printfFmt \<Rightarrow> bool \<Rightarrow> 'w outcome" where
  "out_sign out od f sign =
     (if pf_conv f = ConvDecimal then
        (if sign then
           (if has_flag f FLAG_ALWAYS_SIGN then on_ok (out od CHR ''+'') (\<lambda>od. Some (od, 0))
            else Some (od, 0))
         else on_ok (out od CHR ''-'') (\<lambda>od. Some (od, 0)))
      else Some (od, 0))"

definition printArg_emit ::
  "'w out_fun \<Rightarrow> 'w printfOut \<Rightarrow> printfFmt \<Rightarrow> string option \<Rightarrow> bool \<Rightarrow> bool \<Rightarrow> char \<Rightarrow>
   int \<times> int \<times> int \<Rightarrow> 'w outcome" where
  "printArg_emit out od f s accountPrecision sign fieldWidthChar counts =
     (case counts of (charsToPrint, precisionChars, widthChars) \<Rightarrow>
        on_ok (out_prefix out od f) (\<lambda>od.
        on_ok (if \<not> has_flag f FLAG_LEFT_JUSTIFY
               then out_repeat out od fieldWidthChar (nat widthChars) else Some (od, 0)) (\<lambda>od.
        on_ok (out_sign out od f sign) (\<lambda>od.
        on_ok (if accountPrecision then out_repeat out od CHR ''0'' (nat precisionChars)
               else Some (od, 0)) (\<lambda>od.
        on_ok (case s of None \<Rightarrow> None | Some s \<Rightarrow> outString out od s charsToPrint) (\<lambda>od.
          if has_flag f FLAG_LEFT_JUSTIFY
          then out_repeat out od fieldWidthChar (nat widthChars) else Some (od, 0)))))))"

definition printArg ::
  "'w out_fun \<Rightarrow> (addr \<rightharpoonup> string) \<Rightarrow> printfFmt \<Rightarrow> 'w printfOut \<Rightarrow> 'w outcome" where
  "printArg out strs fmt od =
     (case printArg_select strs fmt of
        None \<Rightarrow> None
      | Some ArgReturn \<Rightarrow> Some (od, 0)
      | Some (ArgPutChar c) \<Rightarrow> (case out od c of None \<Rightarrow> None | Some (od, _) \<Rightarrow> Some (od, 0))
      | Some (ArgText f s accountPrecision sign fieldWidthChar) \<Rightarrow>
          (case printArg_counts f s accountPrecision of
             None \<Rightarrow> None
           | Some counts \<Rightarrow> printArg_emit out od f s accountPrecision sign fieldWidthChar counts))"

section \<open>The core and its users\<close>

lemma cur_not_NUL: "cur fmt \<noteq> NUL \<Longrightarrow> 0 < length fmt"
  by (cases fmt) auto

lemma cur_percent: "cur fmt = CHR ''%'' \<Longrightarrow> 0 < length fmt"
  by (cases fmt) (auto simp: NUL_def)

function vprintfCore ::
  "'w out_fun \<Rightarrow> (addr \<rightharpoonup> string) \<Rightarrow> 'w printfOut \<Rightarrow> string \<Rightarrow> va list \<Rightarrow> 'w outcome" where
  "vprintfCore out strs od fmt ap =
     (if cur fmt = NUL then Some (od, po_charsPrinted od)
      else if cur fmt = CHR ''%'' then
        (if cur (tl fmt) = CHR ''%''
         then on_ok (out od CHR ''%'') (\<lambda>od. vprintfCore out strs od (tl (tl fmt)) ap)
         else (case parseFormat fmtParse0 (tl fmt) ap of
                 None \<Rightarrow> None
               | Some (fmtParse, fmtOffset, ap) \<Rightarrow>
                   if fmtOffset = EOF then Some (od, EOF)
                   else on_ok (printArg out strs fmtParse od)
                     (\<lambda>od. vprintfCore out strs od (drop (nat fmtOffset) (tl fmt)) ap)))
      else on_ok (out od (cur fmt)) (\<lambda>od. vprintfCore out strs od (tl fmt) ap))"
  by pat_completeness auto
termination
  by (relation "measure (\<lambda>(_, _, _, fmt, _). length fmt)") (auto dest: cur_not_NUL cur_percent)

declare vprintfCore.simps [simp del]

text \<open>\<open>_printOut\<close> of vsnprintf.c; the memory is the world of the output record.\<close>

definition printOut :: "mem out_fun" where
  "printOut od c =
     (if po_bufPos od = po_bufSize od then Some (od, EOF)
      else do {
        m \<leftarrow> store8 (po_world od) (po_buf od + po_bufPos od) (of_char c);
        n \<leftarrow> int_op (po_charsPrinted od + 1);
        Some (od\<lparr>po_world := m, po_bufPos := po_bufPos od + 1, po_charsPrinted := n\<rparr>, 0) })"

definition vsnprintf ::
  "(addr \<rightharpoonup> string) \<Rightarrow> mem \<Rightarrow> addr \<Rightarrow> u64 \<Rightarrow> string \<Rightarrow> va list \<Rightarrow> (mem \<times> int) option" where
  "vsnprintf strs m str n fmt ap = do {
     let od = \<lparr>po_buf = str, po_bufSize = n, po_bufPos = 0, po_charsPrinted = 0, po_world = m\<rparr>;
     (od, res) \<leftarrow> vprintfCore printOut strs od fmt ap;
     m \<leftarrow> store8 (po_world od) (po_buf od + po_bufPos od) 0;
     Some (m, res) }"

definition vsprintf :: "(addr \<rightharpoonup> string) \<Rightarrow> mem \<Rightarrow> addr \<Rightarrow> string \<Rightarrow> va list \<Rightarrow> (mem \<times> int) option" where
  "vsprintf strs m str fmt ap = vsnprintf strs m str (2 ^ 32 - 1) fmt ap"

definition snprintf ::
  "(addr \<rightharpoonup> string) \<Rightarrow> mem \<Rightarrow> addr \<Rightarrow> u64 \<Rightarrow> string \<Rightarrow> va list \<Rightarrow> (mem \<times> int) option" where
  "snprintf strs m str n fmt ap = vsnprintf strs m str n fmt ap"

definition sprintf :: "(addr \<rightharpoonup> string) \<Rightarrow> mem \<Rightarrow> addr \<Rightarrow> string \<Rightarrow> va list \<Rightarrow> (mem \<times> int) option" where
  "sprintf strs m str fmt ap = vsprintf strs m str fmt ap"

section \<open>Numbers\<close>

text \<open>The number a digit string denotes, written from the definition of positional notation: the
  value of a digit or of a letter \<open>A\<close> to \<open>F\<close> in either case, and 16, which is no digit of any
  base in use, for every other character.\<close>

definition digit_val :: "char \<Rightarrow> nat" where
  "digit_val c = (let n = of_char c in
     if 48 \<le> n \<and> n \<le> 57 then n - 48
     else if 65 \<le> n \<and> n \<le> 70 then n - 55
     else if 97 \<le> n \<and> n \<le> 102 then n - 87
     else 16)"

fun rev_val :: "nat \<Rightarrow> string \<Rightarrow> nat" where
  "rev_val base [] = 0"
| "rev_val base (c # cs) = digit_val c + base * rev_val base cs"

definition text_val :: "nat \<Rightarrow> string \<Rightarrow> nat" where
  "text_val base s = foldl (\<lambda>v c. v * base + digit_val c) 0 s"

lemma text_val_rev: "text_val base (rev s) = rev_val base s"
  by (induction s) (simp_all add: text_val_def algebra_simps)

text \<open>A numeral: digits only, none of them a terminator, no leading zero, and not empty.\<close>

definition numeral_text :: "nat \<Rightarrow> string \<Rightarrow> bool" where
  "numeral_text base s \<longleftrightarrow> s \<noteq> [] \<and> NUL \<notin> set s \<and> (\<forall>c\<in>set s. digit_val c < base) \<and>
     (length s = 1 \<or> digit_val (hd s) \<noteq> 0)"

lemma less16_cases:
  fixes d :: nat
  assumes "d < 16"
  shows "d \<in> {0, 1, 2, 3, 4, 5, 6, 7, 8, 9, 10, 11, 12, 13, 14, 15}"
  using assms by (simp, arith)

lemma digit_val_digit_char [simp]: "d < 16 \<Longrightarrow> digit_val (digit_char up d) = d"
  by (drule less16_cases) (auto simp: digit_val_def digit_char_def)

lemma digit_char_not_NUL: "d < 16 \<Longrightarrow> digit_char up d \<noteq> NUL"
  by (drule less16_cases) (cases up; auto simp: digit_char_def NUL_def
    dest!: arg_cong [of _ _ "of_char :: char \<Rightarrow> nat"])

text \<open>The digits of a conversion: letters in one case only.\<close>

definition digit_set :: "bool \<Rightarrow> char set" where
  "digit_set up = set (if up then ''0123456789ABCDEF'' else ''0123456789abcdef'')"

lemma digit_char_in_set: "d < 16 \<Longrightarrow> digit_char up d \<in> digit_set up"
proof -
  assume "d < 16"
  then have "\<forall>u. digit_char u d \<in> digit_set u"
    by (drule_tac less16_cases) (elim insertE emptyE; hypsubst; code_simp)
  then show ?thesis by blast
qed

lemma digits_loop_chars:
  assumes "base \<le> 16"
  shows "digits_loop base up num buf = Some ds \<Longrightarrow> set buf \<subseteq> digit_set up \<Longrightarrow> set ds \<subseteq> digit_set up"
proof (induction num arbitrary: buf rule: less_induct)
  case (less num)
  have "num mod base < 16 \<or> base < 2"
    using assms mod_less_divisor [of base num] by linarith
  then have buf: "base < 2 \<or> set (buf @ [digit_char up (num mod base)]) \<subseteq> digit_set up"
    using less.prems(2) digit_char_in_set by auto
  show ?case
  proof (cases "base < 2 \<or> num div base = 0")
    case True
    with less.prems buf show ?thesis
      by (auto simp: digits_loop.simps [of base up num] Let_def split: if_splits)
  next
    case False
    then have "num div base < num" by (auto simp: div_eq_0_iff)
    then show ?thesis
      using less.IH [of "num div base" "buf @ [digit_char up (num mod base)]"] False buf less.prems(1)
      by (auto simp: digits_loop.simps [of base up num] Let_def split: if_splits)
  qed
qed

lemma digits_loop_ok:
  assumes "2 \<le> base" and "base \<le> 16"
  shows "num < base ^ k \<Longrightarrow> 0 < k \<Longrightarrow> length buf + k \<le> 25 \<Longrightarrow>
    \<exists>ds. digits_loop base up num buf = Some (buf @ ds) \<and> rev_val base ds = num \<and>
      length ds \<le> k \<and> numeral_text base (rev ds) \<and> (num \<noteq> 0 \<longrightarrow> digit_val (last ds) \<noteq> 0)"
proof (induction k arbitrary: num buf)
  case 0
  then show ?case by simp
next
  case (Suc k)
  let ?d = "digit_char up (num mod base)"
  have lt: "num mod base < base" using assms(1) by simp
  with assms(2) have lt16: "num mod base < 16" by linarith
  have val: "digit_val ?d = num mod base" and nn: "?d \<noteq> NUL"
    by (rule digit_val_digit_char [OF lt16], rule digit_char_not_NUL [OF lt16])
  show ?case
  proof (cases "num div base = 0")
    case True
    then have "num mod base = num" using assms(1) by (simp add: div_eq_0_iff)
    with True Suc.prems val lt nn assms show ?thesis
      by (intro exI [of _ "[?d]"]) (auto simp: digits_loop.simps [of _ _ num] numeral_text_def)
  next
    case False
    have "num div base < base ^ k"
      using Suc.prems(1) assms(1) by (simp add: less_mult_imp_div_less mult.commute)
    moreover have "0 < k"
      using False \<open>num div base < base ^ k\<close> by (cases k) auto
    ultimately obtain ds where ds: "digits_loop base up (num div base) (buf @ [?d]) = Some (buf @ ?d # ds)"
      "rev_val base ds = num div base" "length ds \<le> k" "numeral_text base (rev ds)"
      "num div base \<noteq> 0 \<longrightarrow> digit_val (last ds) \<noteq> 0"
      using Suc.IH [of "num div base" "buf @ [?d]"] Suc.prems(3) by auto
    have "ds \<noteq> []" using ds(4) by (auto simp: numeral_text_def)
    then have "numeral_text base (rev (?d # ds))"
      using ds(4,5) False val lt nn by (auto simp: numeral_text_def hd_append hd_rev)
    with False Suc.prems ds val \<open>ds \<noteq> []\<close> assms(1) show ?thesis
      by (intro exI [of _ "?d # ds"]) (simp add: digits_loop.simps [of _ _ num])
  qed
qed

lemma fmtUnsigned_ok:
  assumes "base \<in> {8, 10, 16}" and "num < 2 ^ 64"
  shows "\<exists>s. fmtUnsignedNumToStr num base up = Some s \<and> text_val base s = num \<and>
    numeral_text base s \<and> length s \<le> 22"
proof -
  have "num < base ^ 22" using assms by auto
  then obtain ds where "digits_loop base up num [] = Some ds" "rev_val base ds = num"
    "length ds \<le> 22" "numeral_text base (rev ds)"
    using digits_loop_ok [of base num 22 "[]" up] assms(1) by auto
  then show ?thesis
    by (simp add: fmtUnsignedNumToStr_def text_val_rev)
qed

lemma fmtUnsigned_chars:
  assumes "base \<in> {8, 10, 16}" and "fmtUnsignedNumToStr num base up = Some s"
  shows "set s \<subseteq> digit_set up"
  using assms digits_loop_chars [of base up num "[]"]
  by (auto simp: fmtUnsignedNumToStr_def split: option.splits)

lemma fmtSigned_ok:
  assumes "- (2 ^ 63) < num" and "num < 2 ^ 63"
  shows "\<exists>s. fmtSignedNumToStr num = Some (0 \<le> num, s) \<and> text_val 10 s = nat \<bar>num\<bar> \<and>
    numeral_text 10 s \<and> length s \<le> 22"
proof -
  have "nat \<bar>num\<bar> < 2 ^ 64" using assms by auto
  then obtain s where "fmtUnsignedNumToStr (nat \<bar>num\<bar>) 10 False = Some s" "text_val 10 s = nat \<bar>num\<bar>"
    "numeral_text 10 s" "length s \<le> 22"
    using fmtUnsigned_ok [of 10 "nat \<bar>num\<bar>" False] by auto
  moreover have "(if 0 \<le> num then num else num * - 1) = \<bar>num\<bar>" "\<not> 2 ^ 63 \<le> \<bar>num\<bar>"
    using assms by auto
  ultimately show ?thesis
    by (auto simp: fmtSignedNumToStr_def fmtUnsignedNumToStr_def Let_def split: option.splits)
qed

section \<open>The characters a format stands for\<close>

text \<open>An item is a character and whether \<open>EOF\<close> from the output function stops the
  formatting there (it does everywhere but at \<open>%c\<close>).\<close>

type_synonym items = "(char \<times> bool) list"

definition must :: "string \<Rightarrow> items" where
  "must s = map (\<lambda>c. (c, True)) s"

lemma must_simps [simp]: "must [] = []" "must (c # s) = (c, True) # must s"
  by (simp_all add: must_def)

lemma must_append: "must (s @ t) = must s @ must t"
  by (simp add: must_def)

lemma must_length [simp]: "length (must s) = length s"
  by (simp add: must_def)

fun emit :: "'w out_fun \<Rightarrow> 'w printfOut \<Rightarrow> items \<Rightarrow> 'w outcome" where
  "emit out od [] = Some (od, 0)"
| "emit out od ((c, stops) # xs) =
     (case out od c of None \<Rightarrow> None
      | Some (od, res) \<Rightarrow> if res = EOF \<and> stops then Some (od, EOF) else emit out od xs)"

text \<open>The text of one argument, in the order prefix, padding, sign, zeros, characters, padding.\<close>

definition prefix_text :: "printfFmt \<Rightarrow> string" where
  "prefix_text f =
     (if has_flag f FLAG_PREFIX then
        (if pf_conv f \<in> {ConvHexLower, ConvHexUpper, ConvPtr} then ''0x''
         else if pf_conv f = ConvOctal then ''0'' else [])
      else [])"

definition sign_text :: "printfFmt \<Rightarrow> bool \<Rightarrow> string" where
  "sign_text f sign =
     (if pf_conv f = ConvDecimal
      then (if \<not> sign then ''-'' else if has_flag f FLAG_ALWAYS_SIGN then ''+'' else [])
      else [])"

definition body_text :: "string \<Rightarrow> int \<Rightarrow> string" where
  "body_text s charsToPrint =
     (let t = takeWhile (\<lambda>c. c \<noteq> NUL) s in if charsToPrint < 0 then t else take (nat charsToPrint) t)"

text \<open>The items of an argument, and whether formatting can go on behind them (it cannot where
  \<open>s\<close> is \<open>NULL\<close>).\<close>

definition arg_items :: "(addr \<rightharpoonup> string) \<Rightarrow> printfFmt \<Rightarrow> items \<times> bool" where
  "arg_items strs f =
     (case printArg_select strs f of
        None \<Rightarrow> ([], False)
      | Some ArgReturn \<Rightarrow> ([], True)
      | Some (ArgPutChar c) \<Rightarrow> ([(c, False)], True)
      | Some (ArgText f s accountPrecision sign fieldWidthChar) \<Rightarrow>
          (case printArg_counts f s accountPrecision of
             None \<Rightarrow> ([], False)
           | Some (charsToPrint, precisionChars, widthChars) \<Rightarrow>
               let left = has_flag f FLAG_LEFT_JUSTIFY;
                   pad = replicate (nat widthChars) fieldWidthChar;
                   start = prefix_text f @ (if left then [] else pad) @ sign_text f sign @
                     (if accountPrecision then replicate (nat precisionChars) CHR ''0'' else [])
               in (case s of None \<Rightarrow> (must start, False)
                   | Some s \<Rightarrow> (must (start @ body_text s charsToPrint @ (if left then pad else [])),
                              True))))"

function fmt_items :: "(addr \<rightharpoonup> string) \<Rightarrow> string \<Rightarrow> va list \<Rightarrow> items \<times> bool" where
  "fmt_items strs fmt ap =
     (if cur fmt = NUL then ([], True)
      else if cur fmt = CHR ''%'' then
        (if cur (tl fmt) = CHR ''%''
         then (case fmt_items strs (tl (tl fmt)) ap of (xs, fine) \<Rightarrow> ((CHR ''%'', True) # xs, fine))
         else (case parseFormat fmtParse0 (tl fmt) ap of
                 None \<Rightarrow> ([], False)
               | Some (f, off, ap) \<Rightarrow>
                   (case arg_items strs f of (xs, fine) \<Rightarrow>
                      if fine then (case fmt_items strs (drop (nat off) (tl fmt)) ap of
                        (ys, fine) \<Rightarrow> (xs @ ys, fine))
                      else (xs, False))))
      else (case fmt_items strs (tl fmt) ap of (xs, fine) \<Rightarrow> ((cur fmt, True) # xs, fine)))"
  by pat_completeness auto
termination
  by (relation "measure (\<lambda>(_, fmt, _). length fmt)") (auto dest: cur_not_NUL cur_percent)

declare fmt_items.simps [simp del]

subsection \<open>The core feeds exactly these to the output function\<close>

lemma EOF_neq_0 [simp]: "(0::int) \<noteq> EOF" "EOF \<noteq> (0::int)"
  by (simp_all add: EOF_def)

lemma on_ok_simps [simp]:
  "on_ok None k = None"
  "on_ok (Some (od, 0)) k = k od"
  "on_ok (Some (od, EOF)) k = Some (od, EOF)"
  by (simp_all add: on_ok_def)

text \<open>The result of \<open>emit\<close> is 0 or \<open>EOF\<close>, and emission can be cut anywhere.\<close>

lemma emit_append: "emit out od (xs @ ys) = on_ok (emit out od xs) (\<lambda>od. emit out od ys)"
  by (induction out od xs rule: emit.induct) (auto split: option.splits)

lemma on_ok_emit: "on_ok (emit out od xs) (\<lambda>od. Some (od, 0)) = emit out od xs"
  using emit_append [of out od xs "[]"] by simp

lemma on_ok_assoc: "on_ok (on_ok (emit out od xs) k) k' = on_ok (emit out od xs) (\<lambda>od. on_ok (k od) k')"
  by (auto simp: on_ok_def split: option.splits)

lemma emit_one: "emit out od [(c, True)] = on_ok (out od c) (\<lambda>od. Some (od, 0))"
  by (auto simp: on_ok_def split: option.splits)

lemma on_ok_out: "on_ok (out od c) k = on_ok (emit out od [(c, True)]) k"
  by (auto simp: on_ok_def split: option.splits)

lemma out_repeat_emit: "out_repeat out od c k = emit out od (must (replicate k c))"
  by (induction k arbitrary: od) (auto simp: on_ok_def split: option.splits)

lemma outString_emit: "outString out od s n = emit out od (must (body_text s n))"
proof (induction s arbitrary: od n)
  case Nil
  then show ?case by (simp add: body_text_def)
next
  case (Cons c s)
  consider "c = NUL \<or> n = 0" | "c \<noteq> NUL" "n < 0" | "c \<noteq> NUL" "0 < n" by linarith
  then show ?case
  proof cases
    case 3
    then have "body_text (c # s) n = c # body_text s (n - 1)"
      by (cases "nat n") (auto simp: body_text_def nat_diff_distrib)
    with 3 show ?thesis by (auto simp: Cons.IH on_ok_def split: option.splits)
  qed (auto simp: body_text_def Cons.IH on_ok_def split: option.splits)
qed

lemma out_prefix_emit: "out_prefix out od f = emit out od (must (prefix_text f))"
  by (simp add: out_prefix_def prefix_text_def outString_emit body_text_def NUL_def SIZE_MAX_def
      on_ok_def split: option.splits)

lemma out_sign_emit: "out_sign out od f sign = emit out od (must (sign_text f sign))"
  by (simp add: out_sign_def sign_text_def on_ok_def split: option.splits)

lemmas emit_rules = out_prefix_emit out_sign_emit out_repeat_emit outString_emit

lemma printArg_emit_items:
  "printArg_emit out od f (Some s) acct sign fwc (n, prec, w) =
   emit out od (must (prefix_text f @
     (if has_flag f FLAG_LEFT_JUSTIFY then [] else replicate (nat w) fwc) @ sign_text f sign @
     (if acct then replicate (nat prec) CHR ''0'' else []) @ body_text s n @
     (if has_flag f FLAG_LEFT_JUSTIFY then replicate (nat w) fwc else [])))"
  by (simp add: printArg_emit_def emit_rules must_append emit_append on_ok_emit)

lemma on_ok_None: "on_ok (emit out od xs) (\<lambda>od. None) = None \<or>
    (\<exists>od'. emit out od xs = Some (od', EOF) \<and> on_ok (emit out od xs) (\<lambda>od. None) = Some (od', EOF))"
  by (cases "emit out od xs") (auto simp: on_ok_def split: if_splits)

lemma printArg_emit_NULL:
  "printArg_emit out od f None acct sign fwc (n, prec, w) =
   on_ok (emit out od (must (prefix_text f @
     (if has_flag f FLAG_LEFT_JUSTIFY then [] else replicate (nat w) fwc) @ sign_text f sign @
     (if acct then replicate (nat prec) CHR ''0'' else [])))) (\<lambda>od. None)"
  by (simp add: printArg_emit_def emit_rules must_append emit_append on_ok_assoc)

text \<open>What \<open>on_ok\<close> makes of \<open>(items, fine)\<close>: emit the items, then go on or fault.\<close>

definition emit_then :: "'w out_fun \<Rightarrow> 'w printfOut \<Rightarrow> items \<times> bool \<Rightarrow>
    ('w printfOut \<Rightarrow> 'w outcome) \<Rightarrow> 'w outcome" where
  "emit_then out od r k = (case r of (xs, fine) \<Rightarrow>
     on_ok (emit out od xs) (\<lambda>od. if fine then k od else None))"

lemma printArg_items: "printArg out strs f od = emit_then out od (arg_items strs f) (\<lambda>od. Some (od, 0))"
  unfolding printArg_def arg_items_def emit_then_def
  by (auto split: option.split argText.split
      simp: Let_def printArg_emit_items printArg_emit_NULL on_ok_emit)

lemma emit_then_app:
  "emit_then out od (xs @ ys, fine) k = on_ok (emit out od xs) (\<lambda>od. emit_then out od (ys, fine) k)"
  by (simp add: emit_then_def emit_append on_ok_assoc)

lemma emit_then_Cons:
  "emit_then out od ((c, True) # ys, fine) k = on_ok (out od c) (\<lambda>od. emit_then out od (ys, fine) k)"
  using emit_then_app [of out od "[(c, True)]" ys fine k]
  by (simp only: append_Cons append_Nil on_ok_out [of out od c])

text \<open>The offset only grows, so it is never \<open>EOF\<close>.\<close>

lemma parse_flags_grows: "k \<le> off \<Longrightarrow> k \<le> snd (snd (parse_flags f fmt off))"
  by (induction fmt arbitrary: f off) (simp_all add: Let_def)

lemma parse_flags_off: "parse_flags f fmt off = (f', fmt', off') \<Longrightarrow> off \<le> off'"
  using parse_flags_grows [of off off f fmt] by simp

lemma fmtStrToNum_off: "fmtStrToNum_loop fmt num off = Some (n, fmt', off') \<Longrightarrow> off \<le> off'"
proof (induction fmt arbitrary: num off)
  case (Cons c fmt)
  show ?case
  proof (cases "is_digit1to9 c")
    case True
    then obtain num' where "fmtStrToNum_loop fmt num' (off + 1) = Some (n, fmt', off')"
      using Cons.prems by (auto split: option.splits if_splits)
    from Cons.IH [OF this] show ?thesis by simp
  qed (use Cons.prems in simp)
qed simp

lemma parse_width_off: "parse_width f fmt off ap = Some (f', fmt', off', ap') \<Longrightarrow> off \<le> off'"
  by (fastforce simp: parse_width_def fmtStrToNum_def bind_eq_Some_conv
      dest: fmtStrToNum_off split: if_splits)

lemma parse_precision_off: "parse_precision f fmt off ap = Some (f', fmt', off', ap') \<Longrightarrow> off \<le> off'"
  by (fastforce simp: parse_precision_def fmtStrToNum_def bind_eq_Some_conv Let_def
      dest: fmtStrToNum_off split: if_splits)

lemma parse_length_off: "parse_length fmt off = (l, fmt', off') \<Longrightarrow> off \<le> off'"
  by (auto simp: parse_length_def Let_def split: if_splits)

lemma parseFormat_off:
  assumes "parseFormat f fmt ap = Some (f', off, ap')"
  shows "0 \<le> off"
proof -
  obtain f1 s1 o1 where flags: "parse_flags f fmt 0 = (f1, s1, o1)" by (rule prod_cases3)
  obtain f2 s2 o2 ap2 where width: "parse_width f1 s1 o1 ap = Some (f2, s2, o2, ap2)"
    using assms flags by (cases "parse_width f1 s1 o1 ap") (auto simp: parseFormat_def)
  obtain f3 s3 o3 ap3 where prec: "parse_precision f2 s2 o2 ap2 = Some (f3, s3, o3, ap3)"
    using assms flags width
    by (cases "parse_precision f2 s2 o2 ap2") (auto simp: parseFormat_def)
  obtain l s4 o4 where len: "parse_length s3 o3 = (l, s4, o4)" by (rule prod_cases3)
  have "off = o4 \<or> off = o4 + 1"
    using assms flags width prec len
    by (cases "parse_conv (cur s4) l") (auto simp: parseFormat_def bind_eq_Some_conv)
  then show ?thesis
    using parse_flags_off [OF flags] parse_width_off [OF width] parse_precision_off [OF prec]
      parse_length_off [OF len] by linarith
qed

lemma vprintfCore_items:
  "vprintfCore out strs od fmt ap =
   emit_then out od (fmt_items strs fmt ap) (\<lambda>od. Some (od, po_charsPrinted od))"
proof (induction out strs od fmt ap rule: vprintfCore.induct)
  case (1 out strs od fmt ap)
  show ?case
  proof (cases "cur fmt = NUL \<or> cur fmt \<noteq> CHR ''%'' \<or> cur (tl fmt) = CHR ''%''")
    case True
    then consider (nul) "cur fmt = NUL" | (pct) "cur fmt \<noteq> NUL" "cur fmt = CHR ''%''" "cur (tl fmt) = CHR ''%''"
      | (lit) "cur fmt \<noteq> NUL" "cur fmt \<noteq> CHR ''%''" by blast
    then show ?thesis
    proof cases
      case nul
      then show ?thesis
        by (simp add: vprintfCore.simps [of out strs od fmt] fmt_items.simps [of strs fmt]
            emit_then_def)
    next
      case pct
      obtain xs fine where it: "fmt_items strs (tl (tl fmt)) ap = (xs, fine)"
        by (cases "fmt_items strs (tl (tl fmt)) ap")
      from pct show ?thesis
        by (subst vprintfCore.simps, subst fmt_items.simps)
          (simp add: 1(1) it emit_then_Cons)
    next
      case lit
      obtain xs fine where it: "fmt_items strs (tl fmt) ap = (xs, fine)"
        by (cases "fmt_items strs (tl fmt) ap")
      from lit show ?thesis
        by (subst vprintfCore.simps, subst fmt_items.simps)
          (simp add: 1(3) it emit_then_Cons)
    qed
  next
    case False
    show ?thesis
    proof (cases "parseFormat fmtParse0 (tl fmt) ap")
      case None
      with False show ?thesis
        by (simp add: vprintfCore.simps [of out strs od fmt] fmt_items.simps [of strs fmt]
            emit_then_def)
    next
      case (Some r)
      obtain f off ap' where r: "r = (f, off, ap')" by (cases r)
      have "off \<noteq> EOF" using parseFormat_off [OF Some [unfolded r]] by (simp add: EOF_def)
      have IH: "vprintfCore out strs od' (drop (nat off) (tl fmt)) ap' = emit_then out od'
          (fmt_items strs (drop (nat off) (tl fmt)) ap') (\<lambda>od. Some (od, po_charsPrinted od))" for od'
        using False \<open>off \<noteq> EOF\<close>
        by (intro 1(2) [OF _ _ _ Some, of f "(off, ap')" off ap' od']) (simp_all add: r)
      obtain xs fine where it: "arg_items strs f = (xs, fine)" by (cases "arg_items strs f")
      obtain ys fine' where it': "fmt_items strs (drop (nat off) (tl fmt)) ap' = (ys, fine')"
        by (cases "fmt_items strs (drop (nat off) (tl fmt)) ap'")
      from False Some r \<open>off \<noteq> EOF\<close> show ?thesis
        by (subst vprintfCore.simps, subst fmt_items.simps)
          (cases fine; simp add: printArg_items it it' IH emit_then_app;
            simp add: emit_then_def on_ok_assoc)
    qed
  qed
qed

section \<open>The buffer output function\<close>

text \<open>The output record after the bytes \<open>bs\<close> have gone to the buffer.\<close>

definition advanced :: "mem printfOut \<Rightarrow> byte list \<Rightarrow> mem printfOut" where
  "advanced od bs = od\<lparr>po_bufPos := po_bufPos od + of_nat (length bs),
     po_charsPrinted := po_charsPrinted od + int (length bs),
     po_world := put_bytes (po_world od) (po_buf od + po_bufPos od) bs\<rparr>"

definition item_bytes :: "items \<Rightarrow> byte list" where
  "item_bytes xs = map (\<lambda>x. of_char (fst x)) xs"

lemma item_bytes_simps [simp]:
  "item_bytes [] = []" "item_bytes (x # xs) = of_char (fst x) # item_bytes xs"
  "length (item_bytes xs) = length xs"
  by (simp_all add: item_bytes_def)

lemma printOut_room:
  assumes "unat (po_bufPos od) < unat (po_bufSize od)" and "unat (po_bufSize od) < 2 ^ 31"
    and "po_charsPrinted od = int (unat (po_bufPos od))"
    and "po_world od (po_buf od + po_bufPos od) \<noteq> None"
  shows "printOut od c = Some (advanced od [of_char c], 0)"
proof -
  define k where "k = unat (po_bufPos od)"
  have "int_op (int k + 1) = Some (int k + 1)"
    using assms(1,2) by (simp add: int_op_def int32_range_def k_def [symmetric])
  then have "int_op (po_charsPrinted od + 1) = Some (po_charsPrinted od + 1)"
    by (simp only: assms(3) k_def)
  then show ?thesis
    using assms by (auto simp: printOut_def advanced_def store8_def)
qed

lemma emit_printOut:
  assumes "unat (po_bufPos od) + room = unat (po_bufSize od)" and "unat (po_bufSize od) < 2 ^ 31"
    and "po_charsPrinted od = int (unat (po_bufPos od))"
    and "mapped (po_world od) (po_buf od + po_bufPos od) room"
  shows "\<exists>res. emit printOut od xs = Some (advanced od (item_bytes (take room xs)), res) \<and>
    (length xs \<le> room \<longrightarrow> res = 0) \<and> (room < length xs \<and> (\<forall>x\<in>set xs. snd x) \<longrightarrow> res = EOF)"
  using assms
proof (induction xs arbitrary: od room)
  case Nil
  then show ?case by (simp add: advanced_def)
next
  case (Cons x xs)
  obtain c stops where x: "x = (c, stops)" by (cases x)
  show ?case
  proof (cases room)
    case 0
    then have full: "po_bufPos od = po_bufSize od"
      using Cons.prems(1) by (simp add: word_unat_eq_iff)
    then have "printOut od c = Some (od, EOF)" by (simp add: printOut_def)
    moreover have "advanced od [] = od" by (simp add: advanced_def)
    ultimately show ?thesis
      using Cons.IH [of od 0] Cons.prems 0 by (cases stops) (auto simp: x)
  next
    case (Suc r)
    let ?od = "advanced od [of_char c]"
    have pos: "unat (po_bufPos od + 1) = unat (po_bufPos od) + 1"
      using Cons.prems(1,2) Suc unat_addr_add [of "po_bufPos od" 1] by simp
    have out: "printOut od c = Some (?od, 0)"
      using Cons.prems Suc by (intro printOut_room) auto
    have "\<exists>res. emit printOut ?od xs = Some (advanced ?od (item_bytes (take r xs)), res) \<and>
        (length xs \<le> r \<longrightarrow> res = 0) \<and> (r < length xs \<and> (\<forall>x\<in>set xs. snd x) \<longrightarrow> res = EOF)"
    proof (rule Cons.IH)
      show "mapped (po_world ?od) (po_buf ?od + po_bufPos ?od) r"
        using Cons.prems(4) Suc
        by (simp add: advanced_def add.assoc mapped_upd del: fun_upd_apply)
    qed (use Cons.prems Suc pos in \<open>simp_all add: advanced_def\<close>)
    moreover have "advanced ?od bs = advanced od (of_char c # bs)" for bs
      by (simp add: advanced_def add.assoc)
    ultimately show ?thesis
      by (fastforce simp: x out Suc)
  qed
qed

section \<open>Default conversions\<close>

lemma takeWhile_NUL [simp]: "NUL \<notin> set s \<Longrightarrow> takeWhile (\<lambda>c. c \<noteq> NUL) s = s"
  by (induction s) auto

lemma numeral_text_str_len: "numeral_text base s \<Longrightarrow> str_len s = int (length s)"
  by (simp add: numeral_text_def str_len_def)

lemma body_text_all: "NUL \<notin> set s \<Longrightarrow> int (length s) \<le> n \<Longrightarrow> body_text s n = s"
  by (simp add: body_text_def)

text \<open>A numeral with neither width nor precision nor flags is printed as it is.\<close>

lemma plain_counts:
  assumes "numeral_text base s" and "length s \<le> 22" and "pf_width f = 0" and "pf_precision f = 1"
    and "pf_conv f \<noteq> ConvString"
  shows "printArg_counts f (Some s) True = Some (SIZE_MAX, 0, 0)"
proof -
  have "1 \<le> length s" using assms(1) by (cases s) (auto simp: numeral_text_def)
  then have "to_int32 (str_len s) = int (length s)" "int_op (1 - int (length s)) = Some (1 - int (length s))"
    using assms(2) by (auto simp: numeral_text_str_len [OF assms(1)] cint int_op_def int32_range_def)
  then show ?thesis
    using assms(3-5) \<open>1 \<le> length s\<close>
    by (simp add: printArg_counts_def precision_counts_def width_count_def)
qed

lemma has_flag_0: "pf_flags f = 0 \<Longrightarrow> b \<noteq> 0 \<Longrightarrow> \<not> has_flag f b"
  by (simp add: has_flag_def)

lemma no_flags [simp]:
  "pf_flags f = 0 \<Longrightarrow> \<not> has_flag f FLAG_LEFT_JUSTIFY \<and> \<not> has_flag f FLAG_ALWAYS_SIGN \<and>
     \<not> has_flag f FLAG_PREFIX \<and> \<not> has_flag f FLAG_0PAD"
  by (simp add: has_flag_0 flag_defs)

lemma numeral_body: "numeral_text base s \<Longrightarrow> length s \<le> 22 \<Longrightarrow> body_text s SIZE_MAX = s"
  by (rule body_text_all) (auto simp: numeral_text_def SIZE_MAX_def)

text \<open>A directive of one letter.\<close>

lemma parseFormat_letter:
  assumes "parse_conv c 0 = Some (conv, ty)" and "c \<in> set ''duxXos''"
    and "getDataArg (fmtParse0\<lparr>pf_conv := conv, pf_type := ty\<rparr>) ap = Some (f, ap')"
  shows "parseFormat fmtParse0 (c # rest) ap = Some (f, 1, ap')"
proof -
  have "parse_flags g (c # rest) 0 = (g, c # rest, 0)" for g
    using assms(2) by auto
  moreover have "parse_width g (c # rest) 0 ap = Some (g, c # rest, 0, ap)" for g
    using assms(2) by (auto simp: parse_width_def is_digit1to9_def)
  moreover have "parse_precision g (c # rest) 0 ap = Some (g, c # rest, 0, ap)" for g
    using assms(2) by (auto simp: parse_precision_def)
  moreover have "parse_length (c # rest) 0 = (0, c # rest, 0)"
    using assms(2) by (auto simp: parse_length_def)
  ultimately show ?thesis
    using assms(1,3) by (simp add: parseFormat_def)
qed

lemma fmt_items_letter:
  assumes "parseFormat fmtParse0 (c # rest) ap = Some (f, 1, ap')" and "arg_items strs f = (xs, True)"
    and "c \<noteq> CHR ''%''"
  shows "fmt_items strs (CHR ''%'' # c # rest) ap =
    (xs @ fst (fmt_items strs rest ap'), snd (fmt_items strs rest ap'))"
  using assms by (subst fmt_items.simps) (simp add: NUL_def split: prod.split)

lemma sint_int_arg: "sint (scast (w :: u32) :: u64) = sint w"
  by (rule sint_up_scast) (simp add: is_up)

lemma unat_u32_less: "unat (w :: u32) < 2 ^ 32"
proof -
  have "unat w < 2 ^ LENGTH(32)" by (rule unsigned_less)
  then show ?thesis by simp
qed

lemma unat_int_arg: "unat (ucast (w :: u32) :: u64) = unat w"
  using unat_u32_less [of w] by (simp add: unsigned_ucast_eq take_bit_nat_eq_self)

lemma fmtParse0_simps [simp]:
  "pf_flags fmtParse0 = 0" "pf_width fmtParse0 = 0" "pf_precision fmtParse0 = 1"
  "pf_precisionIsDefault fmtParse0"
  by (simp_all add: fmtParse0_def)

lemma sint_u32_range: "- (2 ^ 31) \<le> sint (w :: u32) \<and> sint w < 2 ^ 31"
  using sint_greater_eq [of w] sint_less [of w] by simp

lemma arg_items_decimal:
  assumes "fmtSignedNumToStr (sint w) = Some (0 \<le> sint w, s)" and "numeral_text 10 s"
    and "length s \<le> 22"
  shows "arg_items strs (fmtParse0\<lparr>pf_conv := ConvDecimal, pf_type := ty, pf_data := w\<rparr>) =
    (must ((if sint w < 0 then ''-'' else []) @ s), True)"
proof -
  let ?f = "fmtParse0\<lparr>pf_conv := ConvDecimal, pf_type := ty, pf_data := w\<rparr>"
  have f: "pf_flags ?f = 0" "pf_width ?f = 0" "pf_precision ?f = 1" "pf_conv ?f = ConvDecimal"
    "pf_data ?f = w" by (simp_all add: fmtParse0_def)
  have "printArg_select strs ?f = Some (ArgText ?f (Some s) True (0 \<le> sint w) CHR '' '')"
    by (simp add: printArg_select_def f assms(1) numCommon_def)
  moreover have "printArg_counts ?f (Some s) True = Some (SIZE_MAX, 0, 0)"
    by (rule plain_counts [OF assms(2,3)]) (simp_all add: f)
  ultimately show ?thesis
    by (simp add: arg_items_def f prefix_text_def sign_text_def numeral_body [OF assms(2,3)])
qed

lemma arg_items_unsigned:
  assumes "(cv, base, up) \<in> {(ConvUnsigned, 10, False), (ConvHexLower, 16, False),
      (ConvHexUpper, 16, True), (ConvOctal, 8, False)}"
    and "fmtUnsignedNumToStr (unat w) base up = Some s" and "numeral_text base s" "length s \<le> 22"
  shows "arg_items strs (fmtParse0\<lparr>pf_conv := cv, pf_type := ty, pf_data := w\<rparr>) = (must s, True)"
proof -
  let ?f = "fmtParse0\<lparr>pf_conv := cv, pf_type := ty, pf_data := w\<rparr>"
  have f: "pf_flags ?f = 0" "pf_width ?f = 0" "pf_precision ?f = 1" "pf_conv ?f = cv"
    "pf_data ?f = w" by (simp_all add: fmtParse0_def)
  have "printArg_select strs ?f = Some (ArgText ?f (Some s) True True CHR '' '')"
    using assms(1,2) by (auto simp: printArg_select_def f numCommon_def)
  moreover have "printArg_counts ?f (Some s) True = Some (SIZE_MAX, 0, 0)"
    using assms(1) by (intro plain_counts [OF assms(3,4)]) (auto simp: f)
  moreover have "sign_text ?f True = []"
    using assms(1) by (auto simp: f sign_text_def)
  ultimately show ?thesis
    by (simp add: arg_items_def f prefix_text_def numeral_body [OF assms(3,4)])
qed

section \<open>Properties\<close>

text \<open>
  C3: the digit conversion of the unsigned formats. For the three bases the formats use and
  every 64-bit value, \<open>__fmtUnsignedNumToStr\<close> stays within its 25-byte buffer and returns a
  numeral in that base (digits of the base only, no leading zero) that denotes the value, its
  letters in upper case exactly when upper case is asked for.
\<close>

theorem unsigned_text_denotes:
  assumes "base \<in> {8, 10, 16}"
  shows "\<exists>s. fmtUnsignedNumToStr (unat (w :: u64)) base up = Some s \<and> text_val base s = unat w \<and>
    numeral_text base s \<and> set s \<subseteq> digit_set up \<and> length s \<le> 22"
  using fmtUnsigned_ok [OF assms unat_u64_less, of w up] fmtUnsigned_chars [OF assms] by blast

theorem unsigned_text_denotes_witness:
  "\<exists>s. fmtUnsignedNumToStr (unat (255 :: u64)) 16 True = Some s \<and> text_val 16 s = 255 \<and>
    numeral_text 16 s \<and> set s \<subseteq> set ''0123456789ABCDEF'' \<and> length s \<le> 22"
  using unsigned_text_denotes [of 16 255 True] by (simp add: digit_set_def)

text \<open>
  C4: whatever the output function, \<open>vprintfCore\<close> is the formatter followed by output: it
  feeds the characters \<open>fmt_items\<close> computes, in their order, to the output function until
  that returns \<open>EOF\<close>, and then returns the number of characters printed (or faults where the
  formatter says that the text cannot be continued).
\<close>

theorem core_refines_items:
  "vprintfCore out strs od fmt ap =
   (case fmt_items strs fmt ap of (xs, fine) \<Rightarrow>
      on_ok (emit out od xs) (\<lambda>od. if fine then Some (od, po_charsPrinted od) else None))"
  by (simp add: vprintfCore_items emit_then_def)

text \<open>
  C5: \<open>%d\<close> stands for the decimal numeral of the \<open>int\<close> argument, with a minus sign for
  negative values, followed by what the rest of the format stands for.
\<close>

theorem decimal_directive:
  "\<exists>s. text_val 10 s = nat \<bar>sint w\<bar> \<and> numeral_text 10 s \<and>
    fmt_items strs (''%d'' @ fmt) (VaInt w # ap) =
      (must ((if sint w < 0 then ''-'' else []) @ s) @ fst (fmt_items strs fmt ap),
       snd (fmt_items strs fmt ap))"
proof -
  obtain s where s: "fmtSignedNumToStr (sint w) = Some (0 \<le> sint w, s)" "numeral_text 10 s"
    "length s \<le> 22" "text_val 10 s = nat \<bar>sint w\<bar>"
    using fmtSigned_ok [of "sint w"] sint_u32_range [of w] by auto
  let ?f = "fmtParse0\<lparr>pf_conv := ConvDecimal, pf_type := SizeSInt, pf_data := scast w\<rparr>"
  have "arg_items strs ?f = (must ((if sint w < 0 then ''-'' else []) @ s), True)"
    using arg_items_decimal [of "scast w" s strs SizeSInt] s(1-3) by (simp add: sint_int_arg)
  moreover have "parseFormat fmtParse0 (CHR ''d'' # fmt) (VaInt w # ap) = Some (?f, 1, ap)"
    by (rule parseFormat_letter [of _ ConvDecimal SizeSInt])
      (simp_all add: parse_conv_def lenToSizeInt_def getDataArg_def)
  ultimately have "fmt_items strs (CHR ''%'' # CHR ''d'' # fmt) (VaInt w # ap) =
      (must ((if sint w < 0 then ''-'' else []) @ s) @ fst (fmt_items strs fmt ap),
       snd (fmt_items strs fmt ap))"
    by (intro fmt_items_letter) simp_all
  with s(2,4) show ?thesis by (intro exI [of _ s]) simp
qed

text \<open>
  \<open>%u\<close>, \<open>%x\<close>, \<open>%X\<close> and \<open>%o\<close> stand for the numeral of the \<open>unsigned int\<close>
  argument in base 10, 16, 16 and 8.
\<close>

theorem unsigned_directives:
  assumes "(c, base) \<in> {(CHR ''u'', 10), (CHR ''x'', 16), (CHR ''X'', 16), (CHR ''o'', 8)}"
  shows "\<exists>s. text_val base s = unat w \<and> numeral_text base s \<and>
    fmt_items strs (CHR ''%'' # c # fmt) (VaInt w # ap) =
      (must s @ fst (fmt_items strs fmt ap), snd (fmt_items strs fmt ap))"
proof -
  define up where "up = (c = CHR ''X'')"
  obtain cv where cv: "parse_conv c 0 = Some (cv, SizeUInt)" "c \<in> set ''duxXos''"
    "(cv, base, up) \<in> {(ConvUnsigned, 10, False), (ConvHexLower, 16, False),
      (ConvHexUpper, 16, True), (ConvOctal, 8, False)}"
    using assms by (auto simp: parse_conv_def lenToSizeUint_def up_def)
  obtain s where s: "fmtUnsignedNumToStr (unat w) base up = Some s" "text_val base s = unat w"
    "numeral_text base s" "length s \<le> 22"
    using fmtUnsigned_ok [of base "unat w" up] assms unat_u32_less [of w] by fastforce
  let ?f = "fmtParse0\<lparr>pf_conv := cv, pf_type := SizeUInt, pf_data := ucast w\<rparr>"
  have "arg_items strs ?f = (must s, True)"
    using arg_items_unsigned [OF cv(3), of "ucast w" s] s by (simp add: unat_int_arg)
  moreover have "parseFormat fmtParse0 (c # fmt) (VaInt w # ap) = Some (?f, 1, ap)"
    by (rule parseFormat_letter [OF cv(1,2)]) (simp add: getDataArg_def)
  ultimately have "fmt_items strs (CHR ''%'' # c # fmt) (VaInt w # ap) =
      (must s @ fst (fmt_items strs fmt ap), snd (fmt_items strs fmt ap))"
    using assms by (intro fmt_items_letter) auto
  with s(2,3) show ?thesis by blast
qed

theorem unsigned_directives_witness:
  "\<exists>s. text_val 16 s = 48879 \<and> numeral_text 16 s \<and>
    fmt_items Map.empty ''%x!'' [VaInt 48879] =
      (must s @ fst (fmt_items Map.empty ''!'' []), snd (fmt_items Map.empty ''!'' []))"
  using unsigned_directives [of "CHR ''x''" 16 48879 Map.empty "''!''" "[]"] by simp

text \<open>The initial output record of \<open>vsnprintf\<close>, and what the buffer holds at the end.\<close>

lemma vsnprintf_run:
  assumes "fmt_items strs fmt ap = (xs, True)" and "mapped m str (Suc (unat n))"
    and "unat n < 2 ^ 31"
  shows "\<exists>res. vsnprintf strs m str n fmt ap =
      Some (put_bytes m str (item_bytes (take (unat n) xs) @ [0]), res) \<and>
    (length xs \<le> unat n \<longrightarrow> res = int (length xs)) \<and>
    (unat n < length xs \<and> (\<forall>x\<in>set xs. snd x) \<longrightarrow> res = EOF)"
proof -
  let ?od = "\<lparr>po_buf = str, po_bufSize = n, po_bufPos = 0, po_charsPrinted = 0, po_world = m\<rparr>"
  let ?bs = "item_bytes (take (unat n) xs)"
  let ?m = "put_bytes m str ?bs"
  have map: "mapped m str (unat n)" "m (str + of_nat (unat n)) \<noteq> None"
    using assms(2) mapped_add [of m str "unat n" 1] by simp_all
  obtain res where res: "emit printOut ?od xs = Some (advanced ?od ?bs, res)"
    "length xs \<le> unat n \<longrightarrow> res = 0" "unat n < length xs \<and> (\<forall>x\<in>set xs. snd x) \<longrightarrow> res = EOF"
    using emit_printOut [of ?od "unat n" xs] map(1) assms(3) by auto
  let ?res = "if res = EOF then EOF else po_charsPrinted (advanced ?od ?bs)"
  have core: "vprintfCore printOut strs ?od fmt ap = Some (advanced ?od ?bs, ?res)"
    by (simp add: vprintfCore_items assms(1) emit_then_def res(1) on_ok_def)
  have "?m (str + of_nat (length ?bs)) \<noteq> None"
  proof -
    have "length ?bs \<le> unat n" by simp
    then have "mapped ?m str (Suc (length ?bs))"
      using mapped_put_bytes [OF assms(2)] mapped_add [of ?m str "Suc (length ?bs)" "unat n - length ?bs"]
      by (simp del: mapped.simps)
    then show ?thesis using mapped_add [of ?m str "length ?bs" 1] by simp
  qed
  then have "store8 ?m (str + of_nat (length ?bs)) 0 = Some (put_bytes m str (?bs @ [0]))"
    by (simp add: store8_def put_bytes_append)
  then have run: "vsnprintf strs m str n fmt ap = Some (put_bytes m str (?bs @ [0]), ?res)"
    using core by (simp add: vsnprintf_def advanced_def)
  show ?thesis
    using res(2,3) by (intro exI [of _ ?res] conjI run) (auto simp: advanced_def)
qed

text \<open>
  C6: \<open>vsnprintf\<close> with a mapped buffer of \<open>n + 1\<close> bytes returns; the memory is then the old
  one with the characters of the format, cut after \<open>n\<close>, and a terminator written to the
  buffer, and nothing else changed. The result is the number of characters when they fit in
  \<open>n\<close>, and \<open>EOF\<close> when they do not (as long as no \<open>%c\<close> ignores the overflow).
\<close>

theorem vsnprintf_writes:
  assumes "fmt_items strs fmt ap = (xs, True)" and "mapped m str (Suc (unat n))"
    and "unat n < 2 ^ 31"
  shows "\<exists>res. vsnprintf strs m str n fmt ap =
      Some (put_bytes m str (item_bytes (take (unat n) xs) @ [0]), res) \<and>
    (length xs \<le> unat n \<longrightarrow> res = int (length xs)) \<and>
    (unat n < length xs \<and> (\<forall>x\<in>set xs. snd x) \<longrightarrow> res = EOF)"
  using assms by (rule vsnprintf_run)

lemma fmt_items_literal:
  "NUL \<notin> set s \<Longrightarrow> CHR ''%'' \<notin> set s \<Longrightarrow> fmt_items strs s ap = (must s, True)"
proof (induction s)
  case Nil
  show ?case by (subst fmt_items.simps) simp
next
  case (Cons c s)
  then show ?case by (subst fmt_items.simps) auto
qed

lemma fmt_items_hello: "fmt_items strs ''hello'' ap = (must ''hello'', True)"
  by (rule fmt_items_literal) (simp_all add: NUL_def)

definition buf5 :: mem where
  "buf5 = put_bytes Map.empty 64 [7, 7, 7, 7, 7]"

lemma buf5_mapped: "mapped buf5 64 5"
proof -
  have "mapped buf5 64 (length [7, 7, 7, 7, 7 :: byte])"
    unfolding buf5_def by (rule bytes_at_mapped, rule bytes_at_put_bytes) simp
  moreover have "length [7, 7, 7, 7, 7 :: byte] = 5" by simp
  ultimately show ?thesis by (simp only:)
qed

theorem vsnprintf_writes_witness:
  "vsnprintf Map.empty buf5 64 4 ''hello'' [] =
     Some (put_bytes buf5 64 [104, 101, 108, 108, 0], EOF)"
  using vsnprintf_writes [OF fmt_items_hello, of buf5 64 4] buf5_mapped by auto

text \<open>
  C7: the terminator is one byte too far when the output fills the buffer: a \<open>vsnprintf\<close> told
  that the buffer holds \<open>n\<close> bytes, whose format stands for \<open>n\<close> characters or more, sets the
  byte \<open>n\<close> places behind the start of the buffer, which is not one of the \<open>n\<close>, to zero.
\<close>

theorem vsnprintf_overrun:
  assumes "fmt_items strs fmt ap = (xs, True)" and "mapped m str (Suc (unat n))"
    and "unat n < 2 ^ 31" and "unat n \<le> length xs"
  shows "\<exists>m' res. vsnprintf strs m str n fmt ap = Some (m', res) \<and>
    m' (str + n) = Some 0 \<and> \<not> (\<exists>i<unat n. str + n = str + of_nat i)"
proof -
  let ?bs = "item_bytes (take (unat n) xs) @ [0]"
  obtain res where "vsnprintf strs m str n fmt ap = Some (put_bytes m str ?bs, res)"
    using vsnprintf_run [OF assms(1-3)] by blast
  moreover have "put_bytes m str ?bs (str + of_nat (unat n)) = Some (?bs ! unat n)"
    using assms(3,4) by (intro put_bytes_nth) auto
  moreover have "?bs ! unat n = 0"
    using assms(4) by (simp add: nth_append)
  moreover have "\<not> (\<exists>i<unat n. str + of_nat (unat n) = str + of_nat i)"
    using assms(3) addr_offset_eq [of "unat n" _ str] by fastforce
  ultimately show ?thesis by simp
qed

theorem vsnprintf_overrun_witness:
  "\<exists>m' res. vsnprintf Map.empty buf5 64 4 ''hello'' [] = Some (m', res) \<and> m' (64 + 4) = Some 0 \<and>
    \<not> (\<exists>i<unat (4 :: u64). 64 + 4 = (64 :: addr) + of_nat i)"
  using vsnprintf_overrun [OF fmt_items_hello, of buf5 64 4] buf5_mapped by simp

end
