(* ===== verification/TimeEvents.thy ===== *)
theory TimeEvents
  imports NkList
begin

text \<open>
  The kernel's timed events (source/nexke/core/time.c), on the intrusive list of \<open>NkList\<close>.

  The state holds what the code reaches from the CPU control block and the events: the links,
  the fields of every event by the event's address, the control block's \<open>nextDeadline\<close>,
  \<open>timeLock\<close>, \<open>curIpl\<close> and \<open>preemptDisable\<close>, and the state of the devices. The clock, the
  timer and the interrupt controller, which the code calls through function pointers, the
  events' callbacks and the two scheduler entry points are arguments, collected in the record
  \<open>timeEnv\<close>. A statement that faults, panics or waits for ever for a lock is \<open>None\<close>; so a
  result \<open>Some _\<close> says that the operation returns.

  The lemmas show that the queue is kept sorted by deadline, what each operation makes of it,
  and that every lock taken is released.
\<close>

section \<open>State\<close>

text \<open>\<open>callback\<close> and \<open>waitObj\<close> overlap in the event's union: \<open>ev_target\<close> is that word.\<close>

datatype evType = EventCb | EventWake | EventOther

record timeEvent =
  ev_deadline :: u64
  ev_delta :: u64
  ev_type :: evType
  ev_target :: addr
  ev_arg :: addr
  ev_inUse :: bool
  ev_expired :: bool
  ev_periodic :: bool
  ev_lock :: bool

record 'd timeState =
  ts_links :: links
  ts_events :: "addr \<rightharpoonup> timeEvent"
  ts_nextDeadline :: u64
  ts_timeLock :: bool
  ts_curIpl :: int
  ts_preemptDisable :: int
  ts_dev :: 'd

text \<open>\<open>te_list\<close> is the address of \<open>ccb->timeEvents\<close>, \<open>te_soft\<close> says that the timer's type
  is \<open>PLT_TIMER_SOFT\<close>, \<open>te_resched\<close> is \<open>TskEnablePreemptUnsafe\<close>.\<close>

record 'd timeEnv =
  te_list :: addr
  te_soft :: bool
  te_precision :: u64
  te_getTime :: "'d \<Rightarrow> u64 \<times> 'd"
  te_armTimer :: "u64 \<Rightarrow> 'd \<Rightarrow> 'd"
  te_setIpl :: "int \<Rightarrow> 'd \<Rightarrow> 'd"
  te_callback :: "addr \<Rightarrow> addr \<Rightarrow> addr \<Rightarrow> 'd timeState \<Rightarrow> 'd timeState option"
  te_clearWait :: "addr \<Rightarrow> 'd timeState \<Rightarrow> ('d timeState \<times> bool) option"
  te_wakeObj :: "addr \<Rightarrow> 'd timeState \<Rightarrow> 'd timeState option"
  te_resched :: "'d timeState \<Rightarrow> 'd timeState option"

text \<open>The offset of the field \<open>link\<close> in an event, and \<open>LINK_CONTAINER\<close>.\<close>

definition EVT_LINK :: addr where "EVT_LINK = 48"

definition evt_link :: "addr \<Rightarrow> addr" where
  "evt_link event = event + EVT_LINK"

definition link_container :: "addr \<Rightarrow> addr" where
  "link_container link = link - EVT_LINK"

definition PLT_IPL_HIGH :: int where "PLT_IPL_HIGH = 33"

section \<open>Locks and interrupt priority\<close>

definition PltRaiseIpl :: "'d timeEnv \<Rightarrow> int \<Rightarrow> 'd timeState \<Rightarrow> ('d timeState \<times> int) option" where
  "PltRaiseIpl env newIpl st =
     (if ts_curIpl st > newIpl then None
      else let oldIpl = ts_curIpl st;
               st = st\<lparr>ts_curIpl := newIpl\<rparr>
           in Some (if newIpl \<noteq> PLT_IPL_HIGH then st\<lparr>ts_dev := te_setIpl env newIpl (ts_dev st)\<rparr>
                    else st, oldIpl))"

definition PltLowerIpl :: "'d timeEnv \<Rightarrow> int \<Rightarrow> 'd timeState \<Rightarrow> 'd timeState option" where
  "PltLowerIpl env oldIpl st =
     (if ts_curIpl st < oldIpl then None
      else let st = st\<lparr>ts_curIpl := oldIpl\<rparr>
           in Some (if oldIpl \<noteq> PLT_IPL_HIGH then st\<lparr>ts_dev := te_setIpl env oldIpl (ts_dev st)\<rparr>
                    else st))"

text \<open>Taking a held lock spins for ever on the one CPU the control block is private to.\<close>

definition lock_time :: "'d timeState \<Rightarrow> 'd timeState option" where
  "lock_time st =
     (if ts_timeLock st then None
      else Some (st\<lparr>ts_preemptDisable := ts_preemptDisable st + 1, ts_timeLock := True\<rparr>))"

definition enable_preempt :: "'d timeEnv \<Rightarrow> 'd timeState \<Rightarrow> 'd timeState option" where
  "enable_preempt env st =
     (let st = st\<lparr>ts_preemptDisable := ts_preemptDisable st - 1\<rparr>
      in if ts_preemptDisable st = 0 then te_resched env st else Some st)"

definition unlock_time :: "'d timeEnv \<Rightarrow> 'd timeState \<Rightarrow> 'd timeState option" where
  "unlock_time env st =
     (if \<not> ts_timeLock st then None
      else enable_preempt env (st\<lparr>ts_timeLock := False\<rparr>))"

definition upd_event :: "addr \<Rightarrow> (timeEvent \<Rightarrow> timeEvent) \<Rightarrow> 'd timeState \<Rightarrow> 'd timeState option" where
  "upd_event event f st =
     (case ts_events st event of None \<Rightarrow> None
      | Some ev \<Rightarrow> Some (st\<lparr>ts_events := (ts_events st)(event \<mapsto> f ev)\<rparr>))"

definition lock_event :: "addr \<Rightarrow> 'd timeState \<Rightarrow> 'd timeState option" where
  "lock_event event st = do {
     ev \<leftarrow> ts_events st event;
     (if ev_lock ev then None
      else upd_event event (\<lambda>ev. ev\<lparr>ev_lock := True\<rparr>)
        (st\<lparr>ts_preemptDisable := ts_preemptDisable st + 1\<rparr>)) }"

definition unlock_event :: "'d timeEnv \<Rightarrow> addr \<Rightarrow> 'd timeState \<Rightarrow> 'd timeState option" where
  "unlock_event env event st = do {
     ev \<leftarrow> ts_events st event;
     (if \<not> ev_lock ev then None
      else do {
        st \<leftarrow> upd_event event (\<lambda>ev. ev\<lparr>ev_lock := False\<rparr>) st;
        enable_preempt env st }) }"

section \<open>Operations\<close>

definition getTime :: "'d timeEnv \<Rightarrow> 'd timeState \<Rightarrow> u64 \<times> 'd timeState" where
  "getTime env st = (case te_getTime env (ts_dev st) of (t, d) \<Rightarrow> (t, st\<lparr>ts_dev := d\<rparr>))"

definition armTimer :: "'d timeEnv \<Rightarrow> u64 \<Rightarrow> 'd timeState \<Rightarrow> 'd timeState" where
  "armTimer env delta st = st\<lparr>ts_dev := te_armTimer env delta (ts_dev st)\<rparr>"

text \<open>The deadline and the possibly incremented delta; a precision of 0 divides by zero.\<close>

definition NkTimeDeltaToDeadline ::
  "'d timeEnv \<Rightarrow> u64 \<Rightarrow> 'd timeState \<Rightarrow> (u64 \<times> u64 \<times> 'd timeState) option" where
  "NkTimeDeltaToDeadline env delta st =
     (case getTime env st of (refTick, st) \<Rightarrow>
        let deadline = refTick + delta;
            deadline = deadline + te_precision env
        in if te_precision env = 0 then None
           else let deadline = deadline - (deadline mod te_precision env)
                in if refTick = deadline then Some (deadline + 1, delta + 1, st)
                   else Some (deadline, delta, st))"

text \<open>The loop that finds the place of the event, with the insertion it ends in.\<close>

partial_function (option) admit_loop ::
  "addr \<Rightarrow> (addr \<rightharpoonup> timeEvent) \<Rightarrow> addr \<Rightarrow> addr \<Rightarrow> links \<Rightarrow> links option" where
  "admit_loop list evs event iter h =
     (if iter = 0 then Some h
      else do {
        ev \<leftarrow> evs event;
        cur \<leftarrow> evs (link_container iter);
        (if ev_deadline ev < ev_deadline cur
         then NkListAddBefore h list iter (evt_link event)
         else do {
           n \<leftarrow> lnext h iter;
           (if n = list then NkListAdd h list iter (evt_link event)
            else do {
              iter \<leftarrow> NkListIterate h list iter;
              admit_loop list evs event iter h }) }) })"

definition nkTimeEvtAdmit :: "'d timeEnv \<Rightarrow> addr \<Rightarrow> u64 \<Rightarrow> 'd timeState \<Rightarrow> 'd timeState option" where
  "nkTimeEvtAdmit env event delta st = do {
     let list = te_list env;
     iter \<leftarrow> NkListFront (ts_links st) list;
     h \<leftarrow> (if iter = 0 then NkListAddFront (ts_links st) list (evt_link event)
           else admit_loop list (ts_events st) event iter (ts_links st));
     let st = st\<lparr>ts_links := h\<rparr>;
     front \<leftarrow> NkListFront (ts_links st) list;
     (if evt_link event = front \<and> \<not> te_soft env then do {
        ev \<leftarrow> ts_events st event;
        Some ((armTimer env delta st)\<lparr>ts_nextDeadline := ev_deadline ev\<rparr>) }
      else Some st) }"

text \<open>Arms the timer for a deadline, with a delta of 0 when it has passed.\<close>

definition arm_for :: "'d timeEnv \<Rightarrow> u64 \<Rightarrow> 'd timeState \<Rightarrow> 'd timeState" where
  "arm_for env deadline st =
     (case getTime env st of (now, st) \<Rightarrow>
        let delta = deadline - now;
            delta = (if delta <s 0 then 0 else delta)
        in (armTimer env delta st)\<lparr>ts_nextDeadline := deadline\<rparr>)"

definition nkTimeEvtRemove :: "'d timeEnv \<Rightarrow> addr \<Rightarrow> 'd timeState \<Rightarrow> 'd timeState option" where
  "nkTimeEvtRemove env event st = do {
     let list = te_list env;
     front \<leftarrow> NkListFront (ts_links st) list;
     let isHead = (evt_link event = front);
     h \<leftarrow> NkListRemove (ts_links st) list (evt_link event);
     st \<leftarrow> upd_event event (\<lambda>ev. ev\<lparr>ev_inUse := False\<rparr>) (st\<lparr>ts_links := h\<rparr>);
     ev \<leftarrow> ts_events st event;
     let st = (if isHead \<and> \<not> te_soft env then arm_for env (ev_deadline ev) st else st);
     h \<leftarrow> set_prev (ts_links st) (evt_link event) 0;
     h \<leftarrow> set_next h (evt_link event) 0;
     Some (st\<lparr>ts_links := h\<rparr>) }"

definition NkTimeSetCbEvent ::
  "'d timeEnv \<Rightarrow> addr \<Rightarrow> addr \<Rightarrow> addr \<Rightarrow> 'd timeState \<Rightarrow> 'd timeState option" where
  "NkTimeSetCbEvent env event cb arg st = do {
     (st, ipl) \<leftarrow> PltRaiseIpl env PLT_IPL_HIGH st;
     st \<leftarrow> lock_event event st;
     st \<leftarrow> upd_event event
       (\<lambda>ev. ev\<lparr>ev_target := cb, ev_arg := arg, ev_type := EventCb\<rparr>) st;
     st \<leftarrow> unlock_event env event st;
     PltLowerIpl env ipl st }"

definition NkTimeSetWakeEvent ::
  "'d timeEnv \<Rightarrow> addr \<Rightarrow> addr \<Rightarrow> 'd timeState \<Rightarrow> 'd timeState option" where
  "NkTimeSetWakeEvent env event waiter st = do {
     (st, ipl) \<leftarrow> PltRaiseIpl env PLT_IPL_HIGH st;
     st \<leftarrow> lock_event event st;
     st \<leftarrow> upd_event event (\<lambda>ev. ev\<lparr>ev_target := waiter, ev_type := EventWake\<rparr>) st;
     st \<leftarrow> unlock_event env event st;
     PltLowerIpl env ipl st }"

definition has_bit :: "int \<Rightarrow> nat \<Rightarrow> bool" where
  "has_bit flags n \<longleftrightarrow> bit flags n"

text \<open>\<open>NK_TIME_REG_PERIODIC\<close> is bit 0, \<open>NK_TIME_REG_DEREG\<close> bit 1. The tail that both returns
  share unlocks the event and the queue and restores the priority.\<close>

definition reg_leave :: "'d timeEnv \<Rightarrow> addr \<Rightarrow> int \<Rightarrow> 'd timeState \<Rightarrow> 'd timeState option" where
  "reg_leave env event ipl st = do {
     st \<leftarrow> unlock_event env event st;
     st \<leftarrow> unlock_time env st;
     PltLowerIpl env ipl st }"

definition NkTimeRegEvent ::
  "'d timeEnv \<Rightarrow> addr \<Rightarrow> u64 \<Rightarrow> int \<Rightarrow> 'd timeState \<Rightarrow> 'd timeState option" where
  "NkTimeRegEvent env event delta flags st = do {
     (st, ipl) \<leftarrow> PltRaiseIpl env PLT_IPL_HIGH st;
     st \<leftarrow> lock_time st;
     st \<leftarrow> lock_event event st;
     ev \<leftarrow> ts_events st event;
     (if ev_inUse ev \<and> \<not> has_bit flags 1 then reg_leave env event ipl st
      else do {
        st \<leftarrow> (if ev_inUse ev then nkTimeEvtRemove env event st else Some st);
        (deadline, delta, st) \<leftarrow> NkTimeDeltaToDeadline env delta st;
        st \<leftarrow> upd_event event
          (\<lambda>ev. ev\<lparr>ev_deadline := deadline, ev_delta := delta, ev_expired := False\<rparr>) st;
        st \<leftarrow> (if has_bit flags 0 then upd_event event (\<lambda>ev. ev\<lparr>ev_periodic := True\<rparr>) st
               else Some st);
        st \<leftarrow> nkTimeEvtAdmit env event delta st;
        st \<leftarrow> upd_event event (\<lambda>ev. ev\<lparr>ev_inUse := True\<rparr>) st;
        reg_leave env event ipl st }) }"

definition NkTimeDeRegEvent :: "'d timeEnv \<Rightarrow> addr \<Rightarrow> 'd timeState \<Rightarrow> 'd timeState option" where
  "NkTimeDeRegEvent env event st = do {
     (st, ipl) \<leftarrow> PltRaiseIpl env PLT_IPL_HIGH st;
     st \<leftarrow> lock_time st;
     st \<leftarrow> lock_event event st;
     ev \<leftarrow> ts_events st event;
     (if ev_expired ev \<or> \<not> ev_inUse ev then reg_leave env event ipl st
      else do {
        st \<leftarrow> nkTimeEvtRemove env event st;
        reg_leave env event ipl st }) }"

text \<open>The handler of one expired event.\<close>

definition run_event :: "'d timeEnv \<Rightarrow> addr \<Rightarrow> 'd timeState \<Rightarrow> 'd timeState option" where
  "run_event env event st = do {
     ev \<leftarrow> ts_events st event;
     (case ev_type ev of
        EventCb \<Rightarrow> te_callback env (ev_target ev) event (ev_arg ev) st
      | EventWake \<Rightarrow> do {
          (st, wakeSuccess) \<leftarrow> te_clearWait env (ev_target ev) st;
          (if wakeSuccess then te_wakeObj env (ev_target ev) st else Some st) }
      | EventOther \<Rightarrow> Some st) }"

text \<open>One round of the draining loop: the state and the next link.\<close>

definition drain_event ::
  "'d timeEnv \<Rightarrow> addr \<Rightarrow> addr \<Rightarrow> 'd timeState \<Rightarrow> ('d timeState \<times> addr) option" where
  "drain_event env iter event st = do {
     let list = te_list env;
     st \<leftarrow> lock_event event st;
     st \<leftarrow> upd_event event (\<lambda>ev. ev\<lparr>ev_inUse := False\<rparr>) st;
     let oldIter = iter;
     iter \<leftarrow> NkListIterate (ts_links st) list iter;
     h \<leftarrow> NkListRemove (ts_links st) list oldIter;
     st \<leftarrow> upd_event event (\<lambda>ev. ev\<lparr>ev_expired := True\<rparr>) (st\<lparr>ts_links := h\<rparr>);
     st \<leftarrow> run_event env event st;
     ev \<leftarrow> ts_events st event;
     st \<leftarrow> (if ev_periodic ev then do {
              (deadline, delta, st) \<leftarrow> NkTimeDeltaToDeadline env (ev_delta ev) st;
              st \<leftarrow> upd_event event
                (\<lambda>ev. ev\<lparr>ev_deadline := deadline, ev_delta := delta, ev_expired := False\<rparr>) st;
              nkTimeEvtAdmit env event delta st }
            else Some st);
     st \<leftarrow> unlock_event env event st;
     Some (st, iter) }"

partial_function (option) drain_loop ::
  "'d timeEnv \<Rightarrow> u64 \<Rightarrow> addr \<Rightarrow> 'd timeState \<Rightarrow> 'd timeState option" where
  "drain_loop env tick iter st =
     (if iter = 0 then Some st
      else (let event = link_container iter in
        (case ts_events st event of
           None \<Rightarrow> None
         | Some ev \<Rightarrow>
             if tick = ev_deadline ev then
               (case drain_event env iter event st of
                  None \<Rightarrow> None
                | Some (st, iter) \<Rightarrow> drain_loop env tick iter st)
             else Some st)))"

definition nkDrainTimeQueue :: "'d timeEnv \<Rightarrow> addr \<Rightarrow> 'd timeState \<Rightarrow> 'd timeState option" where
  "nkDrainTimeQueue env iter st = drain_loop env (ts_nextDeadline st) iter st"

text \<open>The early return of the hardware case leaves the queue locked and the priority raised.\<close>

definition NkTimeHandler :: "'d timeEnv \<Rightarrow> 'd timeState \<Rightarrow> 'd timeState option" where
  "NkTimeHandler env st = do {
     (st, ipl) \<leftarrow> PltRaiseIpl env PLT_IPL_HIGH st;
     st \<leftarrow> lock_time st;
     let list = te_list env;
     iter \<leftarrow> NkListFront (ts_links st) list;
     (if te_soft env then do {
        ev \<leftarrow> ts_events st (link_container iter);
        let st = st\<lparr>ts_nextDeadline := ev_deadline ev\<rparr>;
        let (now, st) = getTime env st;
        st \<leftarrow> (if ev_deadline ev = now then nkDrainTimeQueue env iter st else Some st);
        st \<leftarrow> unlock_time env st;
        PltLowerIpl env ipl st }
      else if iter = 0 then Some st
      else do {
        st \<leftarrow> nkDrainTimeQueue env iter st;
        front \<leftarrow> NkListFront (ts_links st) list;
        st \<leftarrow> (if front \<noteq> 0 then do {
                 let event = link_container front;
                 st \<leftarrow> lock_event event st;
                 ev \<leftarrow> ts_events st event;
                 unlock_event env event (arm_for env (ev_deadline ev) st) }
               else Some st);
        st \<leftarrow> unlock_time env st;
        PltLowerIpl env ipl st }) }"

section \<open>The queue\<close>

definition evs_deadline :: "(addr \<rightharpoonup> timeEvent) \<Rightarrow> addr \<Rightarrow> u64" where
  "evs_deadline evs e = (case evs e of None \<Rightarrow> 0 | Some ev \<Rightarrow> ev_deadline ev)"

text \<open>The queue holds the events \<open>es\<close>, earliest deadline first.\<close>

definition time_queue :: "'d timeEnv \<Rightarrow> 'd timeState \<Rightarrow> addr list \<Rightarrow> bool" where
  "time_queue env st es \<longleftrightarrow>
     nklist (ts_links st) (te_list env) (map evt_link es) \<and>
     (\<forall>e\<in>set es. ts_events st e \<noteq> None) \<and> sorted (map (evs_deadline (ts_events st)) es)"

text \<open>The place of an event with deadline \<open>d\<close>: behind all events that are due no later.\<close>

definition admitted :: "(addr \<Rightarrow> u64) \<Rightarrow> addr \<Rightarrow> addr list \<Rightarrow> addr list" where
  "admitted dl e es =
     takeWhile (\<lambda>x. \<not> dl e < dl x) es @ e # dropWhile (\<lambda>x. \<not> dl e < dl x) es"

lemma container_link [simp]: "link_container (evt_link e) = e"
  by (simp add: link_container_def evt_link_def)

lemma evt_link_inj [simp]: "evt_link e = evt_link e' \<longleftrightarrow> e = e'"
  by (simp add: evt_link_def)

lemma evt_link_image [simp]: "evt_link e \<in> evt_link ` A \<longleftrightarrow> e \<in> A"
  by auto

lemma admitted_set [simp]: "set (admitted dl e es) = insert e (set es)"
proof -
  have "set es = set (takeWhile (\<lambda>x. \<not> dl e < dl x) es @ dropWhile (\<lambda>x. \<not> dl e < dl x) es)"
    by simp
  then show ?thesis by (simp only: admitted_def set_append list.set) blast
qed

lemma admitted_Nil [simp]: "admitted dl e [] = [e]"
  by (simp add: admitted_def)

lemma admitted_Cons:
  "admitted dl e (x # es) = (if dl e < dl x then e # x # es else x # admitted dl e es)"
  by (simp add: admitted_def)

lemma admitted_sorted: "sorted (map dl es) \<Longrightarrow> sorted (map dl (admitted dl e es))"
proof (induction es)
  case (Cons x es)
  have "dl x \<le> dl y" if "y \<in> set (admitted dl e es)" "\<not> dl e < dl x" for y
    using that Cons.prems by auto
  with Cons show ?case by (auto simp: admitted_Cons)
qed simp

lemma admit_loop_admits:
  assumes "nklist h l (map evt_link (us @ es))" and "es \<noteq> []" and "is_link h (evt_link e)"
    and "evt_link e \<notin> set (l # map evt_link (us @ es))" and "evt_link e \<noteq> 0"
    and "evs e \<noteq> None" and "\<forall>x\<in>set es. evs x \<noteq> None"
  shows "\<exists>h'. admit_loop l evs e (evt_link (hd es)) h = Some h' \<and>
    nklist h' l (map evt_link (us @ admitted (evs_deadline evs) e es)) \<and>
    links_frame h h' (insert (evt_link e) (set (l # map evt_link (us @ es))))"
  using assms
proof (induction es arbitrary: us)
  case Nil
  then show ?case by simp
next
  case (Cons x es)
  obtain ev cur where ev: "evs e = Some ev" and cur: "evs x = Some cur"
    using Cons.prems(6,7) by auto
  have q: "nklist h l (map evt_link us @ evt_link x # map evt_link es)"
    using Cons.prems(1) by simp
  have x0: "evt_link x \<noteq> 0"
    using nk.repr_distinct [OF q] by auto
  have fresh: "evt_link e \<notin> set (l # map evt_link us @ evt_link x # map evt_link es)"
    using Cons.prems(4) by simp
  have step: "admit_loop l evs e (evt_link x) h =
      (if ev_deadline ev < ev_deadline cur then NkListAddBefore h l (evt_link x) (evt_link e)
       else do {
         n \<leftarrow> lnext h (evt_link x);
         (if n = l then NkListAdd h l (evt_link x) (evt_link e)
          else do {
            iter \<leftarrow> NkListIterate h l (evt_link x);
            admit_loop l evs e iter h }) })"
    using x0 by (simp add: admit_loop.simps [of l evs e "evt_link x"] ev cur)
  show ?case
  proof (cases "ev_deadline ev < ev_deadline cur")
    case True
    then have "admitted (evs_deadline evs) e (x # es) = e # x # es"
      by (simp add: admitted_Cons evs_deadline_def ev cur)
    with nk.add_before [OF q Cons.prems(3) fresh Cons.prems(5)] True show ?thesis
      by (simp add: step)
  next
    case False
    then have adm: "admitted (evs_deadline evs) e (x # es) = x # admitted (evs_deadline evs) e es"
      by (simp add: admitted_Cons evs_deadline_def ev cur)
    show ?thesis
    proof (cases es)
      case Nil
      then have "lnext h (evt_link x) = Some l"
        using nklist_neighbours(2) [OF q] by simp
      then show ?thesis
        using nk.add_after [OF q Cons.prems(3) fresh Cons.prems(5)] False adm Nil
        by (simp add: step)
    next
      case (Cons y ys)
      then have n: "lnext h (evt_link x) = Some (evt_link y)"
        using nklist_neighbours(2) [OF q] by simp
      have "evt_link y \<noteq> l"
        using q Cons by (auto simp: nklist_def)
      moreover have "NkListIterate h l (evt_link x) = Some (evt_link y)"
        using nk.iter [OF q] Cons by simp
      ultimately have "admit_loop l evs e (evt_link x) h = admit_loop l evs e (evt_link (hd es)) h"
        using False n Cons by (simp add: step)
      moreover have "\<exists>h'. admit_loop l evs e (evt_link (hd es)) h = Some h' \<and>
          nklist h' l (map evt_link ((us @ [x]) @ admitted (evs_deadline evs) e es)) \<and>
          links_frame h h' (insert (evt_link e) (set (l # map evt_link ((us @ [x]) @ es))))"
        using Cons.prems Cons by (intro Cons.IH) simp_all
      ultimately show ?thesis by (simp add: adm)
    qed
  qed
qed

text \<open>An event that can be admitted: its link is a link of the heap and not on the queue.\<close>

definition admissible :: "'d timeEnv \<Rightarrow> 'd timeState \<Rightarrow> addr list \<Rightarrow> addr \<Rightarrow> bool" where
  "admissible env st es e \<longleftrightarrow> ts_events st e \<noteq> None \<and> is_link (ts_links st) (evt_link e) \<and>
     e \<notin> set es \<and> evt_link e \<noteq> te_list env \<and> evt_link e \<noteq> 0"

lemma time_queue_events:
  "time_queue env st es \<Longrightarrow> ts_links st' = ts_links st \<Longrightarrow> dom (ts_events st') = dom (ts_events st) \<Longrightarrow>
   (\<And>e. e \<in> set es \<Longrightarrow> evs_deadline (ts_events st') e = evs_deadline (ts_events st) e) \<Longrightarrow>
   time_queue env st' es"
  by (auto simp: time_queue_def dom_def cong: map_cong)

lemma admit_ok:
  assumes "time_queue env st es" and "admissible env st es e"
  shows "\<exists>h. nkTimeEvtAdmit env e delta st =
      Some (if hd (admitted (evs_deadline (ts_events st)) e es) = e \<and> \<not> te_soft env
            then st\<lparr>ts_links := h, ts_dev := te_armTimer env delta (ts_dev st),
                   ts_nextDeadline := evs_deadline (ts_events st) e\<rparr>
            else st\<lparr>ts_links := h\<rparr>) \<and>
    nklist h (te_list env) (map evt_link (admitted (evs_deadline (ts_events st)) e es)) \<and>
    dom (lnext h) = dom (lnext (ts_links st)) \<and> dom (lprev h) = dom (lprev (ts_links st))"
proof -
  let ?l = "te_list env" and ?adm = "admitted (evs_deadline (ts_events st)) e es"
  obtain ev where ev: "ts_events st e = Some ev"
    using assms(2) by (auto simp: admissible_def)
  have q: "nklist (ts_links st) ?l (map evt_link es)" and evs: "\<forall>x\<in>set es. ts_events st x \<noteq> None"
    using assms(1) by (auto simp: time_queue_def)
  have fresh: "evt_link e \<notin> set (?l # map evt_link es)" "is_link (ts_links st) (evt_link e)"
    "evt_link e \<noteq> 0" using assms(2) by (auto simp: admissible_def)
  have front: "NkListFront (ts_links st) ?l = Some (case es of [] \<Rightarrow> 0 | x # _ \<Rightarrow> evt_link x)"
    using nk.front [OF q] by (cases es) auto
  have nz: "evt_link x \<noteq> 0" if "x \<in> set es" for x
    using nk.repr_distinct [OF q] that by auto
  obtain h where h: "(if es = [] then NkListAddFront (ts_links st) ?l (evt_link e)
      else admit_loop ?l (ts_events st) e (evt_link (hd es)) (ts_links st)) = Some h"
    "nklist h ?l (map evt_link ?adm)" and f: "links_frame (ts_links st) h (insert (evt_link e) (set (?l # map evt_link es)))"
  proof (cases "es = []")
    case True
    with that nk.add_front [OF q fresh(2,1,3)] show ?thesis by auto
  next
    case False
    with that admit_loop_admits [of "ts_links st" ?l "[]" es e "ts_events st"] q fresh evs ev
    show ?thesis by auto
  qed
  have front': "NkListFront h ?l = Some (evt_link (hd ?adm))"
  proof -
    have "?adm \<noteq> []" by (simp add: admitted_def)
    with nk.front [OF h(2)] show ?thesis by (cases ?adm) simp_all
  qed
  show ?thesis
    using h f front front' ev nz
    by (intro exI [of _ h])
      (cases es; auto simp: nkTimeEvtAdmit_def armTimer_def evs_deadline_def links_frame_def)
qed

lemma remove_ok:
  assumes "time_queue env st (us @ e # vs)"
  shows "\<exists>h dev nd. nkTimeEvtRemove env e st =
      Some (st\<lparr>ts_links := h, ts_dev := dev, ts_nextDeadline := nd,
        ts_events := (ts_events st)(e \<mapsto> (the (ts_events st e))\<lparr>ev_inUse := False\<rparr>)\<rparr>) \<and>
    nklist h (te_list env) (map evt_link (us @ vs)) \<and>
    lnext h (evt_link e) = Some 0 \<and> lprev h (evt_link e) = Some 0 \<and>
    dom (lnext h) = dom (lnext (ts_links st)) \<and> dom (lprev h) = dom (lprev (ts_links st)) \<and>
    (if us = [] \<and> \<not> te_soft env then nd = evs_deadline (ts_events st) e
     else nd = ts_nextDeadline st \<and> dev = ts_dev st)"
proof -
  let ?l = "te_list env"
  obtain ev where ev: "ts_events st e = Some ev"
    using assms by (auto simp: time_queue_def)
  have q: "nklist (ts_links st) ?l (map evt_link us @ evt_link e # map evt_link vs)"
    using assms by (simp add: time_queue_def)
  obtain h where h: "NkListRemove (ts_links st) ?l (evt_link e) = Some h"
    "nklist h ?l (map evt_link us @ map evt_link vs)"
    and f: "links_frame (ts_links st) h (set (?l # map evt_link us @ map evt_link vs))"
    using nk.remove [OF q] by blast
  have "is_link (ts_links st) (evt_link e)"
    using q by (rule nklist_links) simp
  then have link: "is_link h (evt_link e)"
    using f by (rule nk.free_same)
  define h' where "h' = h\<lparr>lprev := (lprev h)(evt_link e \<mapsto> 0), lnext := (lnext h)(evt_link e \<mapsto> 0)\<rparr>"
  have sets: "set_prev h (evt_link e) 0 = Some (h\<lparr>lprev := (lprev h)(evt_link e \<mapsto> 0)\<rparr>)"
    "set_next (h\<lparr>lprev := (lprev h)(evt_link e \<mapsto> 0)\<rparr>) (evt_link e) 0 = Some h'"
    using link by (auto simp: set_link_defs is_link_def h'_def)
  have "links_frame h h' {evt_link e}"
    using link by (auto simp: links_frame_def h'_def is_link_def)
  moreover have "{evt_link e} \<inter> set (?l # map evt_link us @ map evt_link vs) = {}"
    using nk.repr_distinct [OF q] by auto
  ultimately have q': "nklist h' ?l (map evt_link us @ map evt_link vs)"
    by (rule nk.repr_same [OF h(2)])
  have front: "NkListFront (ts_links st) ?l = Some (evt_link (hd (us @ [e])))"
    using nk.front [OF q] by (cases us) auto
  have head: "e = hd (us @ [e]) \<longleftrightarrow> us = []"
    using nk.repr_distinct [OF q] by (cases us) auto
  have doms: "dom (lnext h') = dom (lnext (ts_links st))" "dom (lprev h') = dom (lprev (ts_links st))"
    using f link by (auto simp: links_frame_def h'_def is_link_def)
  have null: "lnext h' (evt_link e) = Some 0" "lprev h' (evt_link e) = Some 0"
    by (simp_all add: h'_def)
  define st1 where "st1 = (ts_events st)(e \<mapsto> ev\<lparr>ev_inUse := False\<rparr>)"
  obtain now d where now: "te_getTime env (ts_dev st) = (now, d)" by (cases "te_getTime env (ts_dev st)")
  show ?thesis
  proof (cases "us = [] \<and> \<not> te_soft env")
    case True
    define delta where "delta = (let delta = ev_deadline ev - now in if delta <s 0 then 0 else delta)"
    have "nkTimeEvtRemove env e st = Some (st\<lparr>ts_links := h', ts_dev := te_armTimer env delta d,
        ts_nextDeadline := ev_deadline ev, ts_events := st1\<rparr>)"
      using True by (simp add: nkTimeEvtRemove_def front h(1) upd_event_def ev arm_for_def
          getTime_def armTimer_def now sets Let_def delta_def st1_def)
    with q' doms True null show ?thesis
      by (intro exI [of _ h'] exI [of _ "te_armTimer env delta d"] exI [of _ "ev_deadline ev"])
        (simp add: ev evs_deadline_def st1_def)
  next
    case False
    then have "nkTimeEvtRemove env e st = Some (st\<lparr>ts_links := h', ts_dev := ts_dev st,
        ts_nextDeadline := ts_nextDeadline st, ts_events := st1\<rparr>)"
      by (auto simp add: nkTimeEvtRemove_def front head h(1) upd_event_def ev sets st1_def
          del: hd_append hd_append2)
    with q' doms False null show ?thesis
      by (intro exI [of _ h'] exI [of _ "ts_dev st"] exI [of _ "ts_nextDeadline st"])
        (auto simp: ev st1_def)
  qed
qed

section \<open>Deadlines\<close>

lemma deadline_rounds:
  assumes "te_getTime env (ts_dev st) = (now, d)" and "te_precision env \<noteq> 0"
    and "unat now + unat delta + unat (te_precision env) < 2 ^ 64"
  shows "\<exists>deadline. NkTimeDeltaToDeadline env delta st = Some (deadline, delta, st\<lparr>ts_dev := d\<rparr>) \<and>
    unat now + unat delta < unat deadline \<and>
    unat deadline \<le> unat now + unat delta + unat (te_precision env) \<and>
    unat (te_precision env) dvd unat deadline"
proof -
  let ?p = "te_precision env"
  define x where "x = now + delta + ?p"
  define D where "D = x - x mod ?p"
  have add: "unat (a + b) = unat a + unat b" if "unat a + unat b < 2 ^ 64" for a b :: u64
    using that unat_addr_add [of a "unat b"] by simp
  have x: "unat x = unat now + unat delta + unat ?p"
    using assms(3) by (simp add: x_def add)
  have p: "0 < unat ?p" using assms(2) by (simp add: unat_gt_0)
  have "x mod ?p \<le> x" by (simp add: word_le_nat_alt unat_mod)
  then have D: "unat D = unat x - unat x mod unat ?p"
    by (simp add: D_def unat_sub unat_mod)
  have "unat x mod unat ?p < unat ?p" using p by simp
  then have low: "unat now + unat delta < unat D" and high: "unat D \<le> unat x"
    using D x by linarith+
  have "unat ?p dvd unat D" by (simp add: D dvd_minus_mod)
  moreover have "now \<noteq> D" using low by auto
  then have "NkTimeDeltaToDeadline env delta st = Some (D, delta, st\<lparr>ts_dev := d\<rparr>)"
    using assms(1,2) by (simp add: NkTimeDeltaToDeadline_def getTime_def Let_def D_def x_def)
  ultimately show ?thesis using low high x by auto
qed

section \<open>Registering and deregistering\<close>

text \<open>The state in which the queue's clients call: nothing locked, the priority not above the
  highest, preemption counted from 0, and no preemption request that a reschedule would serve.\<close>

definition calm :: "'d timeEnv \<Rightarrow> 'd timeState \<Rightarrow> bool" where
  "calm env st \<longleftrightarrow> \<not> ts_timeLock st \<and> ts_curIpl st \<le> PLT_IPL_HIGH \<and> 0 \<le> ts_preemptDisable st \<and>
     (\<forall>e. map_option ev_lock (ts_events st e) \<noteq> Some True) \<and> te_resched env = Some"

lemma calm_resched: "calm env st \<Longrightarrow> enable_preempt env s = Some (s\<lparr>ts_preemptDisable := ts_preemptDisable s - 1\<rparr>)"
  by (simp add: calm_def enable_preempt_def Let_def)

text \<open>The state after an entry (priority raised, queue and event locked).\<close>

definition entered :: "addr \<Rightarrow> 'd timeState \<Rightarrow> 'd timeState" where
  "entered event st = st\<lparr>ts_curIpl := PLT_IPL_HIGH, ts_timeLock := True,
     ts_preemptDisable := ts_preemptDisable st + 2,
     ts_events := (ts_events st)(event \<mapsto> (the (ts_events st event))\<lparr>ev_lock := True\<rparr>)\<rparr>"

lemma enter_ok:
  assumes "calm env st" and "ts_events st event = Some ev"
  shows "do {
     (st, ipl) \<leftarrow> PltRaiseIpl env PLT_IPL_HIGH st;
     st \<leftarrow> lock_time st;
     st \<leftarrow> lock_event event st;
     k st ipl } = k (entered event st) (ts_curIpl st)"
proof -
  have "\<not> ev_lock ev" using assms by (force simp: calm_def)
  moreover have "PltRaiseIpl env PLT_IPL_HIGH st = Some (st\<lparr>ts_curIpl := PLT_IPL_HIGH\<rparr>, ts_curIpl st)"
    using assms(1) by (auto simp: PltRaiseIpl_def calm_def Let_def)
  ultimately show ?thesis
    using assms by (simp add: lock_time_def lock_event_def upd_event_def entered_def calm_def
        add.commute)
qed

lemma leave_ok:
  assumes "te_resched env = Some" and "ts_timeLock st" and "ts_events st event = Some ev"
    and "ev_lock ev" and "ipl \<le> ts_curIpl st"
  shows "\<exists>dev. reg_leave env event ipl st = Some (st\<lparr>
     ts_events := (ts_events st)(event \<mapsto> ev\<lparr>ev_lock := False\<rparr>), ts_timeLock := False,
     ts_preemptDisable := ts_preemptDisable st - 2, ts_curIpl := ipl, ts_dev := dev\<rparr>)"
proof -
  have pre: "enable_preempt env s = Some (s\<lparr>ts_preemptDisable := ts_preemptDisable s - 1\<rparr>)" for s
    by (simp add: enable_preempt_def assms(1) Let_def)
  let ?st = "st\<lparr>ts_events := (ts_events st)(event \<mapsto> ev\<lparr>ev_lock := False\<rparr>), ts_timeLock := False,
     ts_preemptDisable := ts_preemptDisable st - 2\<rparr>"
  have "reg_leave env event ipl st = PltLowerIpl env ipl ?st"
    using assms by (simp add: reg_leave_def unlock_event_def unlock_time_def upd_event_def pre)
  moreover have "\<exists>dev. PltLowerIpl env ipl ?st = Some (?st\<lparr>ts_curIpl := ipl, ts_dev := dev\<rparr>)"
    using assms(5) by (auto simp: PltLowerIpl_def Let_def intro: exI [of _ "ts_dev st"])
  ultimately show ?thesis by auto
qed

text \<open>What a client sees of a finished operation: everything released as it was found.\<close>

definition released :: "'d timeState \<Rightarrow> 'd timeState \<Rightarrow> bool" where
  "released st st' \<longleftrightarrow> ts_timeLock st' = ts_timeLock st \<and> ts_curIpl st' = ts_curIpl st \<and>
     ts_preemptDisable st' = ts_preemptDisable st \<and>
     (\<forall>e. map_option ev_lock (ts_events st' e) = map_option ev_lock (ts_events st e))"

lemma entered_simps [simp]:
  "ts_links (entered e st) = ts_links st" "ts_dev (entered e st) = ts_dev st"
  "ts_nextDeadline (entered e st) = ts_nextDeadline st" "ts_timeLock (entered e st)"
  "ts_curIpl (entered e st) = PLT_IPL_HIGH" "ts_preemptDisable (entered e st) = ts_preemptDisable st + 2"
  "ts_events (entered e st) = (ts_events st)(e \<mapsto> (the (ts_events st e))\<lparr>ev_lock := True\<rparr>)"
  by (simp_all add: entered_def)

lemma time_queue_other:
  assumes "time_queue env st es" and "ts_links st' = ts_links st" and "e \<notin> set es"
    and "ts_events st' = (ts_events st)(e \<mapsto> ev)"
  shows "time_queue env st' es"
proof -
  have "evs_deadline (ts_events st') x = evs_deadline (ts_events st) x" if "x \<in> set es" for x
    using assms(3,4) that by (auto simp: evs_deadline_def)
  moreover have "\<forall>x\<in>set es. ts_events st' x \<noteq> None"
    using assms(1,4) by (auto simp: time_queue_def)
  ultimately show ?thesis
    using assms(1,2) by (simp add: time_queue_def cong: map_cong)
qed

text \<open>Admission as the state's components see it.\<close>

lemma admit_state:
  assumes "time_queue env st es" and "admissible env st es e" and "ts_events st e = Some ev"
  shows "\<exists>st'. nkTimeEvtAdmit env e delta st = Some st' \<and>
    time_queue env st' (admitted (evs_deadline (ts_events st)) e es) \<and>
    ts_events st' = ts_events st \<and> ts_timeLock st' = ts_timeLock st \<and> ts_curIpl st' = ts_curIpl st \<and>
    ts_preemptDisable st' = ts_preemptDisable st \<and>
    dom (lnext (ts_links st')) = dom (lnext (ts_links st)) \<and>
    dom (lprev (ts_links st')) = dom (lprev (ts_links st)) \<and>
    ts_nextDeadline st' =
      (if hd (admitted (evs_deadline (ts_events st)) e es) = e \<and> \<not> te_soft env
       then ev_deadline ev else ts_nextDeadline st)"
proof -
  obtain h where h: "nkTimeEvtAdmit env e delta st =
      Some (if hd (admitted (evs_deadline (ts_events st)) e es) = e \<and> \<not> te_soft env
            then st\<lparr>ts_links := h, ts_dev := te_armTimer env delta (ts_dev st),
                   ts_nextDeadline := evs_deadline (ts_events st) e\<rparr>
            else st\<lparr>ts_links := h\<rparr>)"
    "nklist h (te_list env) (map evt_link (admitted (evs_deadline (ts_events st)) e es))"
    "dom (lnext h) = dom (lnext (ts_links st))" "dom (lprev h) = dom (lprev (ts_links st))"
    using admit_ok [OF assms(1,2), of delta] by blast
  have "sorted (map (evs_deadline (ts_events st)) (admitted (evs_deadline (ts_events st)) e es))"
    and "\<forall>x\<in>set es. ts_events st x \<noteq> None"
    using assms(1) by (simp_all add: time_queue_def admitted_sorted)
  with h assms(3) show ?thesis
    by (simp add: time_queue_def evs_deadline_def)
qed

lemma reg_event_ok:
  assumes "calm env st" and "time_queue env st es" and "admissible env st es e"
    and "ts_events st e = Some ev" and "\<not> ev_inUse ev"
    and "te_getTime env (ts_dev st) = (now, d)" and "te_precision env \<noteq> 0"
    and "unat now + unat delta + unat (te_precision env) < 2 ^ 64"
  shows "\<exists>st' deadline. NkTimeRegEvent env e delta flags st = Some st' \<and> released st st' \<and>
    time_queue env st' (admitted (evs_deadline (ts_events st')) e es) \<and>
    ts_events st' = (ts_events st)(e \<mapsto> ev\<lparr>ev_deadline := deadline, ev_delta := delta,
      ev_expired := False, ev_periodic := has_bit flags 0 \<or> ev_periodic ev, ev_inUse := True,
      ev_lock := False\<rparr>) \<and>
    unat now + unat delta < unat deadline \<and>
    unat deadline \<le> unat now + unat delta + unat (te_precision env) \<and>
    unat (te_precision env) dvd unat deadline \<and>
    (hd (admitted (evs_deadline (ts_events st')) e es) = e \<and> \<not> te_soft env \<longrightarrow>
      ts_nextDeadline st' = deadline)"
proof -
  obtain D where D: "NkTimeDeltaToDeadline env delta (entered e st) =
      Some (D, delta, (entered e st)\<lparr>ts_dev := d\<rparr>)" and
    bounds: "unat now + unat delta < unat D" "unat D \<le> unat now + unat delta + unat (te_precision env)"
    "unat (te_precision env) dvd unat D"
    using deadline_rounds [of env "entered e st" now d delta] assms(6-8) by auto
  define ev2 where "ev2 = ev\<lparr>ev_lock := True, ev_deadline := D, ev_delta := delta, ev_expired := False\<rparr>"
  define ev3 where "ev3 = (if has_bit flags 0 then ev2\<lparr>ev_periodic := True\<rparr> else ev2)"
  have ev3: "ev_deadline ev3 = D" "ev_lock ev3" by (simp_all add: ev3_def ev2_def)
  have ev3_out: "ev3\<lparr>ev_inUse := True, ev_lock := False\<rparr> = ev\<lparr>ev_deadline := D, ev_delta := delta,
      ev_expired := False, ev_periodic := has_bit flags 0 \<or> ev_periodic ev, ev_inUse := True,
      ev_lock := False\<rparr>"
    by (auto simp: ev3_def ev2_def)
  define st3 where "st3 = (entered e st)\<lparr>ts_dev := d, ts_events := (ts_events st)(e \<mapsto> ev3)\<rparr>"
  have "e \<notin> set es" using assms(3) by (simp add: admissible_def)
  then have q3: "time_queue env st3 es"
    by (intro time_queue_other [OF assms(2)]) (simp_all add: st3_def)
  have a3: "admissible env st3 es e" "ts_events st3 e = Some ev3"
    using assms(3) by (simp_all add: admissible_def st3_def)
  obtain st4 where st4: "nkTimeEvtAdmit env e delta st3 = Some st4"
    "time_queue env st4 (admitted (evs_deadline (ts_events st3)) e es)"
    "ts_events st4 = ts_events st3" "ts_timeLock st4 = ts_timeLock st3" "ts_curIpl st4 = ts_curIpl st3"
    "ts_preemptDisable st4 = ts_preemptDisable st3"
    "ts_nextDeadline st4 = (if hd (admitted (evs_deadline (ts_events st3)) e es) = e \<and> \<not> te_soft env
       then ev_deadline ev3 else ts_nextDeadline st3)"
    using admit_state [OF q3 a3] by blast
  define st5 where "st5 = st4\<lparr>ts_events := (ts_events st)(e \<mapsto> ev3\<lparr>ev_inUse := True\<rparr>)\<rparr>"
  have lock: "\<not> ev_lock ev" "ts_events st e = Some ev"
    using assms(1,4) by (force simp: calm_def)+
  have res: "te_resched env = Some" and ipl: "ts_curIpl st \<le> PLT_IPL_HIGH" and tl: "\<not> ts_timeLock st"
    using assms(1) by (simp_all add: calm_def)
  have "\<exists>dev. reg_leave env e (ts_curIpl st) st5 = Some (st5\<lparr>
     ts_events := (ts_events st5)(e \<mapsto> ev3\<lparr>ev_inUse := True, ev_lock := False\<rparr>), ts_timeLock := False,
     ts_preemptDisable := ts_preemptDisable st5 - 2, ts_curIpl := ts_curIpl st, ts_dev := dev\<rparr>)"
    using leave_ok [OF res, of st5 e "ev3\<lparr>ev_inUse := True\<rparr>" "ts_curIpl st"] st4(4,5) ipl
    by (simp add: st5_def st3_def ev3)
  then obtain dev where leave: "reg_leave env e (ts_curIpl st) st5 = Some (st5\<lparr>
     ts_events := (ts_events st5)(e \<mapsto> ev3\<lparr>ev_inUse := True, ev_lock := False\<rparr>), ts_timeLock := False,
     ts_preemptDisable := ts_preemptDisable st5 - 2, ts_curIpl := ts_curIpl st, ts_dev := dev\<rparr>)" ..
  define st' where "st' = st5\<lparr>
     ts_events := (ts_events st5)(e \<mapsto> ev3\<lparr>ev_inUse := True, ev_lock := False\<rparr>), ts_timeLock := False,
     ts_preemptDisable := ts_preemptDisable st5 - 2, ts_curIpl := ts_curIpl st, ts_dev := dev\<rparr>"
  have evs': "ts_events st' = (ts_events st)(e \<mapsto> ev3\<lparr>ev_inUse := True, ev_lock := False\<rparr>)"
    by (simp add: st'_def st5_def)
  have dl: "evs_deadline (ts_events st') = evs_deadline (ts_events st3)"
    by (simp add: fun_eq_iff evs_deadline_def evs' st3_def)
  have "NkTimeRegEvent env e delta flags st = reg_leave env e (ts_curIpl st) st5"
    unfolding NkTimeRegEvent_def using assms(4,5) st4(1,3)
    by (subst enter_ok [OF assms(1,4)])
      (auto simp: D upd_event_def st3_def ev3_def ev2_def st5_def)
  then have run: "NkTimeRegEvent env e delta flags st = Some st'"
    by (simp add: leave st'_def)
  have "released st st'"
    using st4(5,6) tl lock by (auto simp: released_def st'_def st5_def st3_def)
  moreover have "time_queue env st' (admitted (evs_deadline (ts_events st')) e es)"
    unfolding dl by (rule time_queue_events [OF st4(2)])
      (auto simp: st'_def st5_def st4(3) st3_def evs_deadline_def)
  moreover have "hd (admitted (evs_deadline (ts_events st')) e es) = e \<and> \<not> te_soft env \<longrightarrow>
      ts_nextDeadline st' = D"
    unfolding dl using st4(7) by (simp add: st'_def st5_def ev3)
  ultimately show ?thesis
    using run evs' [unfolded ev3_out] bounds by blast
qed

lemma dereg_event_ok:
  assumes "calm env st" and "time_queue env st (us @ e # vs)"
    and "ts_events st e = Some ev" and "ev_inUse ev" and "\<not> ev_expired ev"
  shows "\<exists>st'. NkTimeDeRegEvent env e st = Some st' \<and> released st st' \<and>
    time_queue env st' (us @ vs) \<and>
    ts_events st' = (ts_events st)(e \<mapsto> ev\<lparr>ev_inUse := False, ev_lock := False\<rparr>) \<and>
    (us = [] \<and> \<not> te_soft env \<longrightarrow> ts_nextDeadline st' = ev_deadline ev)"
proof -
  let ?st = "entered e st"
  have e: "e \<notin> set (us @ vs)"
    using assms(2) nk.repr_distinct [of "ts_links st" "te_list env" "map evt_link (us @ e # vs)"]
    by (auto simp: time_queue_def)
  have dl: "evs_deadline (ts_events ?st) = evs_deadline (ts_events st)"
    by (simp add: fun_eq_iff evs_deadline_def assms(3))
  have qe: "time_queue env ?st (us @ e # vs)"
    using assms(2) unfolding time_queue_def dl by simp
  obtain h dev nd where rem: "nkTimeEvtRemove env e ?st =
      Some (?st\<lparr>ts_links := h, ts_dev := dev, ts_nextDeadline := nd,
        ts_events := (ts_events ?st)(e \<mapsto> (the (ts_events ?st e))\<lparr>ev_inUse := False\<rparr>)\<rparr>)"
    "nklist h (te_list env) (map evt_link (us @ vs))"
    "if us = [] \<and> \<not> te_soft env then nd = evs_deadline (ts_events ?st) e
     else nd = ts_nextDeadline ?st \<and> dev = ts_dev ?st"
    using remove_ok [OF qe] by blast
  define st1 where "st1 = ?st\<lparr>ts_links := h, ts_dev := dev, ts_nextDeadline := nd,
        ts_events := (ts_events ?st)(e \<mapsto> (the (ts_events ?st e))\<lparr>ev_inUse := False\<rparr>)\<rparr>"
  have res: "te_resched env = Some" and ipl: "ts_curIpl st \<le> PLT_IPL_HIGH" and tl: "\<not> ts_timeLock st"
    using assms(1) by (simp_all add: calm_def)
  have lock: "\<not> ev_lock ev" using assms(1,3) by (force simp: calm_def)
  obtain dev' where leave: "reg_leave env e (ts_curIpl st) st1 = Some (st1\<lparr>
     ts_events := (ts_events st1)(e \<mapsto> ev\<lparr>ev_lock := True, ev_inUse := False\<rparr>\<lparr>ev_lock := False\<rparr>),
     ts_timeLock := False, ts_preemptDisable := ts_preemptDisable st1 - 2,
     ts_curIpl := ts_curIpl st, ts_dev := dev'\<rparr>)"
    using leave_ok [OF res, of st1 e "ev\<lparr>ev_lock := True, ev_inUse := False\<rparr>" "ts_curIpl st"] ipl assms(3)
    by (auto simp: st1_def)
  define st' where "st' = st1\<lparr>
     ts_events := (ts_events st1)(e \<mapsto> ev\<lparr>ev_lock := True, ev_inUse := False\<rparr>\<lparr>ev_lock := False\<rparr>),
     ts_timeLock := False, ts_preemptDisable := ts_preemptDisable st1 - 2,
     ts_curIpl := ts_curIpl st, ts_dev := dev'\<rparr>"
  have "NkTimeDeRegEvent env e st = reg_leave env e (ts_curIpl st) st1"
    unfolding NkTimeDeRegEvent_def using assms(3-5) rem(1)
    by (subst enter_ok [OF assms(1,3)]) (simp add: st1_def)
  then have run: "NkTimeDeRegEvent env e st = Some st'"
    by (simp add: leave st'_def)
  have evs': "ts_events st' = (ts_events st)(e \<mapsto> ev\<lparr>ev_inUse := False, ev_lock := False\<rparr>)"
    by (simp add: st'_def st1_def)
  have "released st st'"
    using tl lock assms(3) by (auto simp: released_def evs') (auto simp: st'_def st1_def)
  moreover have "time_queue env st' (us @ vs)"
  proof -
    have "evs_deadline (ts_events st') x = evs_deadline (ts_events st) x" for x
      by (simp add: evs_deadline_def evs' assms(3))
    moreover have "sorted (map (evs_deadline (ts_events st)) (us @ vs))"
      using assms(2) by (auto simp: time_queue_def sorted_append)
    ultimately show ?thesis
      using assms(2) rem(2) by (auto simp: time_queue_def evs' cong: map_cong)
        (simp_all add: st'_def st1_def)
  qed
  moreover have "us = [] \<and> \<not> te_soft env \<longrightarrow> ts_nextDeadline st' = ev_deadline ev"
    using rem(3) assms(3) by (simp add: st'_def st1_def evs_deadline_def)
  ultimately show ?thesis using run evs' by blast
qed

section \<open>Draining\<close>

text \<open>Handlers that leave the queue's state alone: they only reach the devices. \<open>cb\<close> is what the
  callbacks do there, \<open>cw\<close> the clearing of a wait with its answer, \<open>wo\<close> the wake-up.\<close>

record 'd handlers =
  h_callback :: "addr \<Rightarrow> addr \<Rightarrow> addr \<Rightarrow> 'd \<Rightarrow> 'd"
  h_clearWait :: "addr \<Rightarrow> 'd \<Rightarrow> 'd \<times> bool"
  h_wakeObj :: "addr \<Rightarrow> 'd \<Rightarrow> 'd"

definition quiet :: "'d timeEnv \<Rightarrow> 'd handlers \<Rightarrow> bool" where
  "quiet env hs \<longleftrightarrow>
     (\<forall>cb e a s. te_callback env cb e a s = Some (s\<lparr>ts_dev := h_callback hs cb e a (ts_dev s)\<rparr>)) \<and>
     (\<forall>w s. te_clearWait env w s =
        Some (s\<lparr>ts_dev := fst (h_clearWait hs w (ts_dev s))\<rparr>, snd (h_clearWait hs w (ts_dev s)))) \<and>
     (\<forall>w s. te_wakeObj env w s = Some (s\<lparr>ts_dev := h_wakeObj hs w (ts_dev s)\<rparr>)) \<and>
     te_resched env = Some"

text \<open>What one due event makes happen: its callback is called with the event and its argument, or
  the waiting object is woken if its wait could be cleared.\<close>

definition effect_of :: "'d handlers \<Rightarrow> addr \<Rightarrow> timeEvent \<Rightarrow> 'd \<Rightarrow> 'd" where
  "effect_of hs e ev d =
     (case ev_type ev of
        EventCb \<Rightarrow> h_callback hs (ev_target ev) e (ev_arg ev) d
      | EventWake \<Rightarrow> (case h_clearWait hs (ev_target ev) d of
          (d, woken) \<Rightarrow> if woken then h_wakeObj hs (ev_target ev) d else d)
      | EventOther \<Rightarrow> d)"

text \<open>The due events, each once and in the order of the queue.\<close>

definition effects :: "'d handlers \<Rightarrow> (addr \<rightharpoonup> timeEvent) \<Rightarrow> addr list \<Rightarrow> 'd \<Rightarrow> 'd" where
  "effects hs evs es d = fold (\<lambda>e. effect_of hs e (the (evs e))) es d"

lemma effects_simps [simp]:
  "effects hs evs [] d = d"
  "effects hs evs (e # es) d = effects hs evs es (effect_of hs e (the (evs e)) d)"
  by (simp_all add: effects_def)

lemma effects_cong: "\<forall>e\<in>set es. evs' e = evs e \<Longrightarrow> effects hs evs' es d = effects hs evs es d"
  by (induction es arbitrary: d) simp_all

text \<open>The timer is read and armed for the deadline of the first event left; when that has passed,
  with a delta of 0. Then the interrupt priority is set back.\<close>

definition rearmed :: "'d timeEnv \<Rightarrow> u64 option \<Rightarrow> 'd \<Rightarrow> 'd" where
  "rearmed env deadline d =
     (case deadline of None \<Rightarrow> d
      | Some dl \<Rightarrow> (case te_getTime env d of
          (now, d) \<Rightarrow> te_armTimer env (if dl - now <s 0 then 0 else dl - now) d))"

definition lowered :: "'d timeEnv \<Rightarrow> int \<Rightarrow> 'd \<Rightarrow> 'd" where
  "lowered env ipl d = (if ipl \<noteq> PLT_IPL_HIGH then te_setIpl env ipl d else d)"

lemma run_event_quiet:
  assumes "quiet env hs" and "ts_events st e = Some ev"
  shows "run_event env e st = Some (st\<lparr>ts_dev := effect_of hs e ev (ts_dev st)\<rparr>)"
  using assms
  by (cases "ev_type ev") (auto simp: quiet_def run_event_def effect_of_def split: prod.splits)

definition fired :: "timeEvent \<Rightarrow> timeEvent" where
  "fired ev = ev\<lparr>ev_inUse := False, ev_expired := True\<rparr>"

lemma drain_event_ok:
  assumes "quiet env hs" and "time_queue env st (e # vs)" and "ts_events st e = Some ev"
    and "\<not> ev_lock ev" and "\<not> ev_periodic ev"
  shows "\<exists>h. drain_event env (evt_link e) e st = Some (st\<lparr>ts_links := h,
      ts_dev := effect_of hs e ev (ts_dev st), ts_events := (ts_events st)(e \<mapsto> fired ev)\<rparr>, (case vs of [] \<Rightarrow> 0 | v # _ \<Rightarrow> evt_link v)) \<and>
    nklist h (te_list env) (map evt_link vs) \<and>
    dom (lnext h) = dom (lnext (ts_links st)) \<and> dom (lprev h) = dom (lprev (ts_links st))"
proof -
  let ?l = "te_list env"
  have q: "nklist (ts_links st) ?l ([] @ evt_link e # map evt_link vs)"
    using assms(2) by (simp add: time_queue_def)
  obtain h where h: "NkListRemove (ts_links st) ?l (evt_link e) = Some h"
    "nklist h ?l (map evt_link vs)" and f: "links_frame (ts_links st) h (set (?l # map evt_link vs))"
    using nk.remove [OF q] by auto
  have it: "NkListIterate (ts_links st) ?l (evt_link e) = Some (case vs of [] \<Rightarrow> 0 | v # _ \<Rightarrow> evt_link v)"
    using nk.iter [OF q] by (cases vs) auto
  define ev2 where "ev2 = ev\<lparr>ev_lock := True, ev_inUse := False, ev_expired := True\<rparr>"
  define st2 where "st2 = st\<lparr>ts_preemptDisable := ts_preemptDisable st + 1, ts_links := h,
      ts_events := (ts_events st)(e \<mapsto> ev2)\<rparr>"
  define d where "d = effect_of hs e ev (ts_dev st)"
  have "effect_of hs e ev2 (ts_dev st2) = d"
    by (cases "ev_type ev"; cases "h_clearWait hs (ev_target ev) (ts_dev st)")
      (simp_all add: d_def effect_of_def ev2_def st2_def)
  then have d: "run_event env e st2 = Some (st2\<lparr>ts_dev := d\<rparr>)"
    using run_event_quiet [OF assms(1), of st2 e ev2] by (auto simp: st2_def)
  have "ev2\<lparr>ev_lock := False\<rparr> = fired ev"
    using assms(4) by (simp add: ev2_def fired_def)
  then have "unlock_event env e (st2\<lparr>ts_dev := d\<rparr>) =
      Some (st\<lparr>ts_links := h, ts_dev := d, ts_events := (ts_events st)(e \<mapsto> fired ev)\<rparr>)"
    using assms(1) by (simp add: unlock_event_def st2_def ev2_def upd_event_def enable_preempt_def
        quiet_def Let_def)
  moreover have "drain_event env (evt_link e) e st = do {
      st \<leftarrow> unlock_event env e (st2\<lparr>ts_dev := d\<rparr>);
      Some (st, (case vs of [] \<Rightarrow> 0 | v # _ \<Rightarrow> evt_link v)) }"
  proof -
    show ?thesis
      using d assms(3-5)
      by (simp add: drain_event_def lock_event_def upd_event_def it h(1) st2_def ev2_def)
  qed
  ultimately show ?thesis
    using h(2) f by (intro exI [of _ h]) (simp add: links_frame_def flip: d_def)
qed

text \<open>An event that fires at \<open>tick\<close> and is not registered again by the drain.\<close>

definition due :: "'d timeState \<Rightarrow> u64 \<Rightarrow> addr \<Rightarrow> bool" where
  "due st tick e \<longleftrightarrow> (\<exists>ev. ts_events st e = Some ev \<and> ev_deadline ev = tick \<and> \<not> ev_lock ev \<and> \<not> ev_periodic ev)"

definition fire_all :: "addr set \<Rightarrow> (addr \<rightharpoonup> timeEvent) \<Rightarrow> (addr \<rightharpoonup> timeEvent)" where
  "fire_all A evs = (\<lambda>e. if e \<in> A then map_option fired (evs e) else evs e)"

lemma fired_deadline [simp]: "ev_deadline (fired ev) = ev_deadline ev" "ev_lock (fired ev) = ev_lock ev"
  by (simp_all add: fired_def)

definition link_or_null :: "addr list \<Rightarrow> addr" where
  "link_or_null es = (case es of [] \<Rightarrow> 0 | e # _ \<Rightarrow> evt_link e)"

lemma drain_loop_ok:
  assumes "quiet env hs"
  shows "time_queue env st (us @ vs) \<Longrightarrow> \<forall>e\<in>set us. due st tick e \<Longrightarrow>
    vs \<noteq> [] \<longrightarrow> evs_deadline (ts_events st) (hd vs) \<noteq> tick \<Longrightarrow>
    \<exists>h. drain_loop env tick (link_or_null (us @ vs)) st =
      Some (st\<lparr>ts_links := h, ts_dev := effects hs (ts_events st) us (ts_dev st), ts_events := fire_all (set us) (ts_events st)\<rparr>) \<and>
    nklist h (te_list env) (map evt_link vs)"
proof (induction us arbitrary: st)
  case Nil
  have stop: "drain_loop env tick (link_or_null vs) st = Some st"
  proof (cases vs)
    case (Cons v ws)
    then have "ts_events st v \<noteq> None" using Nil.prems(1) by (simp add: time_queue_def)
    with Cons Nil.prems(3) show ?thesis
      by (auto simp: drain_loop.simps [of env tick "evt_link v"] link_or_null_def evs_deadline_def)
  qed (simp add: drain_loop.simps link_or_null_def)
  have "nklist (ts_links st) (te_list env) (map evt_link vs)"
    using Nil.prems(1) by (simp add: time_queue_def)
  with stop show ?case
    by (intro exI [of _ "ts_links st"]) (simp add: fire_all_def)
next
  case (Cons e us)
  obtain ev where ev: "ts_events st e = Some ev" "ev_deadline ev = tick" "\<not> ev_lock ev" "\<not> ev_periodic ev"
    using Cons.prems(2) by (auto simp: due_def)
  have q: "time_queue env st (e # us @ vs)" using Cons.prems(1) by simp
  have dist: "e \<notin> set (us @ vs)" and nz: "evt_link e \<noteq> 0"
    using q nk.repr_distinct [of "ts_links st" "te_list env" "map evt_link (e # us @ vs)"]
    by (auto simp: time_queue_def)
  define dev where "dev = effect_of hs e ev (ts_dev st)"
  obtain h where step: "drain_event env (evt_link e) e st = Some (st\<lparr>ts_links := h, ts_dev := dev,
      ts_events := (ts_events st)(e \<mapsto> fired ev)\<rparr>, link_or_null (us @ vs))"
    and h: "nklist h (te_list env) (map evt_link (us @ vs))"
    using drain_event_ok [OF assms q ev(1,3,4)] unfolding link_or_null_def dev_def by blast
  define st1 where "st1 = st\<lparr>ts_links := h, ts_dev := dev, ts_events := (ts_events st)(e \<mapsto> fired ev)\<rparr>"
  have dl: "evs_deadline (ts_events st1) = evs_deadline (ts_events st)"
    by (simp add: fun_eq_iff st1_def evs_deadline_def ev(1))
  have "time_queue env st1 (us @ vs)"
    using q h unfolding time_queue_def dl by (auto simp: st1_def)
  moreover have "\<forall>x\<in>set us. due st1 tick x"
    using Cons.prems(2) dist by (auto simp: due_def st1_def)
  moreover have "vs \<noteq> [] \<longrightarrow> evs_deadline (ts_events st1) (hd vs) \<noteq> tick"
    using Cons.prems(3) by (simp add: dl)
  moreover define dev' where "dev' = effects hs (ts_events st1) us (ts_dev st1)"
  ultimately obtain h' where rest: "drain_loop env tick (link_or_null (us @ vs)) st1 =
      Some (st1\<lparr>ts_links := h', ts_dev := dev', ts_events := fire_all (set us) (ts_events st1)\<rparr>)"
    "nklist h' (te_list env) (map evt_link vs)"
    using Cons.IH [of st1] unfolding dev'_def by blast
  have "dev' = effects hs (ts_events st) us dev"
    using dist unfolding dev'_def by (auto simp: st1_def intro!: effects_cong)
  then have dev': "dev' = effects hs (ts_events st) (e # us) (ts_dev st)"
    by (simp add: dev_def ev(1))
  have "fire_all (set us) (ts_events st1) = fire_all (set (e # us)) (ts_events st)"
    using dist by (auto simp: fun_eq_iff fire_all_def st1_def ev(1))
  then have "drain_loop env tick (evt_link e) st =
      Some (st\<lparr>ts_links := h', ts_dev := dev', ts_events := fire_all (set (e # us)) (ts_events st)\<rparr>)"
    using step rest(1) ev(1,2) nz
    by (simp add: drain_loop.simps [of env tick "evt_link e"] flip: st1_def) (simp add: st1_def)
  with rest(2) show ?case
    unfolding dev' by (auto simp: link_or_null_def)
qed

lemma handler_ok:
  assumes "calm env st" and "quiet env hs" and "\<not> te_soft env" and "time_queue env st (us @ vs)"
    and "us \<noteq> []" and "\<forall>e\<in>set us. due st (ts_nextDeadline st) e"
    and "vs \<noteq> [] \<longrightarrow> evs_deadline (ts_events st) (hd vs) \<noteq> ts_nextDeadline st"
  shows "\<exists>st'. NkTimeHandler env st = Some st' \<and> released st st' \<and> time_queue env st' vs \<and>
    ts_events st' = fire_all (set us) (ts_events st) \<and>
    ts_dev st' = lowered env (ts_curIpl st) (rearmed env
      (if vs = [] then None else Some (evs_deadline (ts_events st) (hd vs)))
      (effects hs (ts_events st) us (ts_dev st))) \<and>
    (vs \<noteq> [] \<longrightarrow> ts_nextDeadline st' = evs_deadline (ts_events st) (hd vs))"
proof -
  let ?l = "te_list env" and ?evs = "fire_all (set us) (ts_events st)"
  define st0 where "st0 = st\<lparr>ts_curIpl := PLT_IPL_HIGH, ts_timeLock := True,
    ts_preemptDisable := ts_preemptDisable st + 1\<rparr>"
  have q0: "time_queue env st0 (us @ vs)"
    using assms(4) by (simp add: time_queue_def st0_def)
  define dev where "dev = effects hs (ts_events st) us (ts_dev st)"
  obtain h where dr: "drain_loop env (ts_nextDeadline st) (link_or_null (us @ vs)) st0 =
      Some (st0\<lparr>ts_links := h, ts_dev := dev, ts_events := ?evs\<rparr>)"
    and h: "nklist h ?l (map evt_link vs)"
    using drain_loop_ok [OF assms(2) q0, of "ts_nextDeadline st"] assms(6,7)
    by (auto simp: st0_def due_def dev_def)
  define st1 where "st1 = st0\<lparr>ts_links := h, ts_dev := dev, ts_events := ?evs\<rparr>"
  have nz: "link_or_null (us @ vs) \<noteq> 0"
    using assms(4,5) nk.repr_distinct [of "ts_links st" ?l "map evt_link (us @ vs)"]
    by (cases us) (auto simp: time_queue_def link_or_null_def)
  have front: "NkListFront (ts_links st) ?l = Some (link_or_null (us @ vs))"
    using assms(4) nk.front [of "ts_links st" ?l "map evt_link (us @ vs)"]
    by (cases "us @ vs") (auto simp: time_queue_def link_or_null_def)
  have front1: "NkListFront h ?l = Some (link_or_null vs)"
    using nk.front [OF h] by (cases vs) (auto simp: link_or_null_def)
  have e0: "PltRaiseIpl env PLT_IPL_HIGH st = Some (st\<lparr>ts_curIpl := PLT_IPL_HIGH\<rparr>, ts_curIpl st)"
    and e1: "lock_time (st\<lparr>ts_curIpl := PLT_IPL_HIGH\<rparr>) = Some st0"
    and res: "te_resched env = Some" and ipl: "ts_curIpl st \<le> PLT_IPL_HIGH" and tl: "\<not> ts_timeLock st"
    using assms(1) by (auto simp: calm_def PltRaiseIpl_def lock_time_def st0_def Let_def)
  have dl: "evs_deadline ?evs = evs_deadline (ts_events st)"
    by (auto simp: fun_eq_iff evs_deadline_def fire_all_def split: option.splits)
  have evs: "map_option ev_lock (?evs e) = map_option ev_lock (ts_events st e)" for e
    by (simp add: fire_all_def option.map_comp comp_def)
  have unlocked: "\<exists>st'. do { st \<leftarrow> unlock_time env s; PltLowerIpl env (ts_curIpl st0') st } = Some st' \<and>
      ts_links st' = h \<and> ts_events st' = ?evs \<and> released st st' \<and>
      ts_nextDeadline st' = ts_nextDeadline s \<and> ts_dev st' = lowered env (ts_curIpl st) (ts_dev s)"
    if "ts_timeLock s" "ts_links s = h" "ts_events s = ?evs" "ts_preemptDisable s = ts_preemptDisable st + 1"
      "ts_curIpl s = PLT_IPL_HIGH" "ts_curIpl st0' = ts_curIpl st" for s st0'
    using that ipl tl evs
    by (simp add: unlock_time_def enable_preempt_def res PltLowerIpl_def released_def lowered_def Let_def)
  have run: "NkTimeHandler env st = do {
      st' \<leftarrow> (if link_or_null vs \<noteq> 0 then do {
               let event = link_container (link_or_null vs);
               st \<leftarrow> lock_event event st1;
               ev \<leftarrow> ts_events st event;
               unlock_event env event (arm_for env (ev_deadline ev) st) }
             else Some st1);
      st' \<leftarrow> unlock_time env st';
      PltLowerIpl env (ts_curIpl st) st' }"
  proof -
    have "nkDrainTimeQueue env (link_or_null (us @ vs)) st0 = Some st1"
      using dr by (simp add: nkDrainTimeQueue_def st1_def) (simp add: st0_def)
    moreover have "ts_links st0 = ts_links st" "ts_links st1 = h"
      by (simp_all add: st0_def st1_def)
    ultimately show ?thesis
      using front front1 nz assms(3) by (simp add: NkTimeHandler_def e0 e1)
  qed
  have queue: "time_queue env st' vs" if "ts_links st' = h" "ts_events st' = ?evs" for st'
  proof -
    have "sorted (map (evs_deadline (ts_events st')) vs)"
      using assms(4) unfolding that(2) dl by (simp add: time_queue_def sorted_append)
    then show ?thesis
      using that h assms(4) by (auto simp: time_queue_def fire_all_def)
  qed
  show ?thesis
  proof (cases vs)
    case Nil
    obtain st' where "NkTimeHandler env st = Some st'" "ts_links st' = h" "ts_events st' = ?evs"
      "released st st'" "ts_dev st' = lowered env (ts_curIpl st) dev"
      using unlocked [of st1 st] Nil by (auto simp: run link_or_null_def st1_def st0_def)
    with queue Nil show ?thesis by (auto simp: rearmed_def dev_def)
  next
    case (Cons v ws)
    obtain ev where ev: "?evs v = Some ev"
      using assms(4) Cons by (cases "v \<in> set us") (auto simp: time_queue_def fire_all_def)
    have vl: "\<not> ev_lock ev"
      using evs [of v] assms(1) by (cases "ts_events st v") (auto simp: calm_def ev)
    have "evt_link v \<noteq> 0"
      using h Cons nk.repr_distinct [OF h] by auto
    obtain now d where now: "te_getTime env dev = (now, d)" by (cases "te_getTime env dev")
    define st2 where "st2 = st1\<lparr>ts_nextDeadline := ev_deadline ev, ts_dev := te_armTimer env
      (if ev_deadline ev - now <s 0 then 0 else ev_deadline ev - now) d\<rparr>"
    have arm: "do {
        st \<leftarrow> lock_event v st1;
        ev \<leftarrow> ts_events st v;
        unlock_event env v (arm_for env (ev_deadline ev) st) } = Some st2"
      using vl by (simp add: st2_def lock_event_def unlock_event_def upd_event_def st1_def ev arm_for_def
          getTime_def now armTimer_def calm_resched [OF assms(1)] Let_def fun_upd_idem st0_def)
    obtain st' where "NkTimeHandler env st = Some st'" "ts_links st' = h" "ts_events st' = ?evs"
      "released st st'" "ts_nextDeadline st' = ev_deadline ev"
      "ts_dev st' = lowered env (ts_curIpl st) (ts_dev st2)"
      using unlocked [of st2 st] Cons arm \<open>evt_link v \<noteq> 0\<close>
      by (auto simp: run link_or_null_def st2_def) (auto simp: st1_def st0_def)
    moreover have "evs_deadline (ts_events st) v = ev_deadline ev"
      using ev by (simp add: evs_deadline_def flip: dl)
    moreover have "ts_dev st2 = rearmed env (Some (ev_deadline ev)) dev"
      by (simp add: st2_def rearmed_def now)
    ultimately show ?thesis using queue Cons by (auto simp: dev_def)
  qed
qed

section \<open>Properties\<close>

text \<open>
  C8: registering an event that is not in use returns with every lock released and the
  priority restored; the event gets a deadline that is a multiple of the timer's precision,
  later than the requested time and by at most one precision; it is placed behind all the
  events that are due no later, so the queue stays sorted, and when it is the first one the
  hardware timer's next deadline is its own.
\<close>

theorem register_event:
  assumes "calm env st" and "time_queue env st es" and "admissible env st es e"
    and "ts_events st e = Some ev" and "\<not> ev_inUse ev"
    and "te_getTime env (ts_dev st) = (now, d)" and "te_precision env \<noteq> 0"
    and "unat now + unat delta + unat (te_precision env) < 2 ^ 64"
  shows "\<exists>st' deadline. NkTimeRegEvent env e delta flags st = Some st' \<and> released st st' \<and>
    time_queue env st' (admitted (evs_deadline (ts_events st')) e es) \<and>
    ts_events st' = (ts_events st)(e \<mapsto> ev\<lparr>ev_deadline := deadline, ev_delta := delta,
      ev_expired := False, ev_periodic := has_bit flags 0 \<or> ev_periodic ev, ev_inUse := True,
      ev_lock := False\<rparr>) \<and>
    unat now + unat delta < unat deadline \<and>
    unat deadline \<le> unat now + unat delta + unat (te_precision env) \<and>
    unat (te_precision env) dvd unat deadline \<and>
    (hd (admitted (evs_deadline (ts_events st')) e es) = e \<and> \<not> te_soft env \<longrightarrow>
      ts_nextDeadline st' = deadline)"
  using assms by (rule reg_event_ok)

text \<open>A clock that stands at the device state, a timer that does nothing, two events.\<close>

definition env1 :: "u64 timeEnv" where
  "env1 = \<lparr>te_list = 1, te_soft = False, te_precision = 10, te_getTime = (\<lambda>d. (d, d)),
     te_armTimer = (\<lambda>_ d. d), te_setIpl = (\<lambda>_ d. d), te_callback = (\<lambda>_ _ _ s. Some s),
     te_clearWait = (\<lambda>_ s. Some (s, False)), te_wakeObj = (\<lambda>_ s. Some s), te_resched = Some\<rparr>"

definition event1 :: "bool \<Rightarrow> u64 \<Rightarrow> timeEvent" where
  "event1 used deadline = \<lparr>ev_deadline = deadline, ev_delta = 0, ev_type = EventCb, ev_target = 0,
     ev_arg = 0, ev_inUse = used, ev_expired = False, ev_periodic = False, ev_lock = False\<rparr>"

definition state1 :: "u64 timeState" where
  "state1 = \<lparr>ts_links = \<lparr>lnext = [1 \<mapsto> 148, 148 \<mapsto> 1, 248 \<mapsto> 0], lprev = [1 \<mapsto> 148, 148 \<mapsto> 1, 248 \<mapsto> 0]\<rparr>,
     ts_events = [100 \<mapsto> event1 True 500, 200 \<mapsto> event1 False 0], ts_nextDeadline = 500,
     ts_timeLock = False, ts_curIpl = 0, ts_preemptDisable = 0, ts_dev = 41\<rparr>"

lemma state1_calm: "calm env1 state1"
  by (auto simp: calm_def state1_def env1_def event1_def PLT_IPL_HIGH_def split: if_splits)

lemma state1_queue: "time_queue env1 state1 [100]"
  by (simp add: time_queue_def nklist_def state1_def env1_def evt_link_def EVT_LINK_def)

lemma state1_admissible: "admissible env1 state1 [100] 200"
  by (simp add: admissible_def state1_def env1_def evt_link_def EVT_LINK_def is_link_def)

theorem register_event_witness:
  "\<exists>st' (deadline :: u64). NkTimeRegEvent env1 200 7 0 state1 = Some st' \<and> released state1 st' \<and>
    time_queue env1 st' (admitted (evs_deadline (ts_events st')) 200 [100]) \<and>
    48 < unat deadline \<and> unat deadline \<le> 58 \<and> 10 dvd unat deadline"
proof -
  have "ts_events state1 200 = Some (event1 False 0)" "\<not> ev_inUse (event1 False 0)"
    "te_getTime env1 (ts_dev state1) = (41, 41)" "te_precision env1 \<noteq> 0"
    "unat (41::u64) + unat (7::u64) + unat (te_precision env1) < 2 ^ 64"
    by (simp_all add: state1_def env1_def event1_def)
  from register_event [OF state1_calm state1_queue state1_admissible this, of 0]
  obtain st' and D :: u64 where "NkTimeRegEvent env1 200 7 0 state1 = Some st'" "released state1 st'"
    "time_queue env1 st' (admitted (evs_deadline (ts_events st')) 200 [100])"
    and D: "unat (41 :: u64) + unat (7 :: u64) < unat D"
    "unat D \<le> unat (41 :: u64) + unat (7 :: u64) + unat (te_precision env1)"
    "unat (te_precision env1) dvd unat D"
    by blast
  moreover have "te_precision env1 = 10" by (simp add: env1_def)
  with D have "48 < unat D \<and> unat D \<le> 58 \<and> 10 dvd unat D" by simp
  ultimately show ?thesis by blast
qed

text \<open>
  C9: deregistering an event of the queue returns with every lock released, takes exactly that
  event out of the queue, leaves the order of the others, and marks it not in use. (When it was
  the first, the hardware timer is armed again for the deadline of the removed event.)
\<close>

theorem deregister_event:
  assumes "calm env st" and "time_queue env st (us @ e # vs)"
    and "ts_events st e = Some ev" and "ev_inUse ev" and "\<not> ev_expired ev"
  shows "\<exists>st'. NkTimeDeRegEvent env e st = Some st' \<and> released st st' \<and>
    time_queue env st' (us @ vs) \<and>
    ts_events st' = (ts_events st)(e \<mapsto> ev\<lparr>ev_inUse := False, ev_lock := False\<rparr>) \<and>
    (us = [] \<and> \<not> te_soft env \<longrightarrow> ts_nextDeadline st' = ev_deadline ev)"
  using assms by (rule dereg_event_ok)

theorem deregister_event_witness:
  "\<exists>st'. NkTimeDeRegEvent env1 100 state1 = Some st' \<and> released state1 st' \<and>
    time_queue env1 st' [] \<and> ts_nextDeadline st' = 500"
proof -
  have "time_queue env1 state1 ([] @ 100 # [])" using state1_queue by simp
  moreover have "ts_events state1 100 = Some (event1 True 500)" "ev_inUse (event1 True 500)"
    "\<not> ev_expired (event1 True 500)"
    by (simp_all add: state1_def event1_def)
  ultimately show ?thesis
    using deregister_event [OF state1_calm, of "[]" 100 "[]"] by (auto simp: env1_def event1_def)
qed

text \<open>
  C10: the hardware timer's handler, called when the first events of the queue are due at the
  armed deadline and do not repeat, returns with every lock released; it fires exactly those
  events (marks them expired and not in use) and the queue holds the others in their order. What
  reaches the devices is, in this order: for each due event, once and in the order of the queue,
  its callback with the event and its argument, or the wake-up of its object if the wait could be
  cleared; then, if an event is left, a reading of the clock and the arming of the timer with the
  time left to the first deadline (0 if it has passed); then the priority's reset. \<open>effects\<close> takes
  the handlers as parameters (\<open>quiet\<close>: they reach devices only).
\<close>

theorem handler_fires_due:
  assumes "calm env st" and "quiet env hs" and "\<not> te_soft env" and "time_queue env st (us @ vs)"
    and "us \<noteq> []" and "\<forall>e\<in>set us. due st (ts_nextDeadline st) e"
    and "vs \<noteq> [] \<longrightarrow> evs_deadline (ts_events st) (hd vs) \<noteq> ts_nextDeadline st"
  shows "\<exists>st'. NkTimeHandler env st = Some st' \<and> released st st' \<and> time_queue env st' vs \<and>
    ts_events st' = fire_all (set us) (ts_events st) \<and>
    ts_dev st' = lowered env (ts_curIpl st) (rearmed env
      (if vs = [] then None else Some (evs_deadline (ts_events st) (hd vs)))
      (effects hs (ts_events st) us (ts_dev st))) \<and>
    (vs \<noteq> [] \<longrightarrow> ts_nextDeadline st' = evs_deadline (ts_events st) (hd vs))"
  using assms by (rule handler_ok)

text \<open>A device that records, behind the clock, the calls it gets: three events, two of them due.\<close>

datatype call = Called addr addr addr | Cleared addr | Woken addr | Armed u64 | IplSet int

definition log_env :: "(u64 \<times> call list) timeEnv" where
  "log_env = \<lparr>te_list = 1, te_soft = False, te_precision = 10, te_getTime = (\<lambda>d. (fst d, d)),
     te_armTimer = (\<lambda>delta (t, l). (t, l @ [Armed delta])),
     te_setIpl = (\<lambda>ipl (t, l). (t, l @ [IplSet ipl])),
     te_callback = (\<lambda>cb e a s. Some (s\<lparr>ts_dev := (fst (ts_dev s), snd (ts_dev s) @ [Called cb e a])\<rparr>)),
     te_clearWait = (\<lambda>w s. Some (s\<lparr>ts_dev := (fst (ts_dev s), snd (ts_dev s) @ [Cleared w])\<rparr>, True)),
     te_wakeObj = (\<lambda>w s. Some (s\<lparr>ts_dev := (fst (ts_dev s), snd (ts_dev s) @ [Woken w])\<rparr>)),
     te_resched = Some\<rparr>"

definition log_handlers :: "(u64 \<times> call list) handlers" where
  "log_handlers = \<lparr>h_callback = (\<lambda>cb e a d. (fst d, snd d @ [Called cb e a])),
     h_clearWait = (\<lambda>w d. ((fst d, snd d @ [Cleared w]), True)),
     h_wakeObj = (\<lambda>w d. (fst d, snd d @ [Woken w]))\<rparr>"

definition log_state :: "(u64 \<times> call list) timeState" where
  "log_state = \<lparr>ts_links = \<lparr>lnext = [1 \<mapsto> 148, 148 \<mapsto> 248, 248 \<mapsto> 348, 348 \<mapsto> 1],
       lprev = [1 \<mapsto> 348, 148 \<mapsto> 1, 248 \<mapsto> 148, 348 \<mapsto> 248]\<rparr>,
     ts_events = [100 \<mapsto> (event1 True 500)\<lparr>ev_target := 7, ev_arg := 8\<rparr>,
       200 \<mapsto> (event1 True 500)\<lparr>ev_type := EventWake, ev_target := 9\<rparr>, 300 \<mapsto> event1 True 620],
     ts_nextDeadline = 500, ts_timeLock = False, ts_curIpl = 0, ts_preemptDisable = 0,
     ts_dev = (500, [])\<rparr>"

lemma log_quiet: "quiet log_env log_handlers"
  by (simp add: quiet_def log_env_def log_handlers_def)

lemma log_state_calm: "calm log_env log_state"
  by (auto simp: calm_def log_state_def log_env_def event1_def PLT_IPL_HIGH_def split: if_splits)

lemma log_state_queue: "time_queue log_env log_state [100, 200, 300]"
  by (simp add: time_queue_def nklist_def log_state_def log_env_def evt_link_def EVT_LINK_def
      evs_deadline_def event1_def)

lemma log_state_due: "\<forall>e\<in>set [100, 200]. due log_state (ts_nextDeadline log_state) e"
  by (simp add: due_def log_state_def event1_def)

theorem handler_fires_due_witness:
  "\<exists>st'. NkTimeHandler log_env log_state = Some st' \<and> released log_state st' \<and>
    time_queue log_env st' [300] \<and> ts_events st' = fire_all {100, 200} (ts_events log_state) \<and>
    ts_dev st' = (500, [Called 7 100 8, Cleared 9, Woken 9, Armed 120, IplSet 0]) \<and>
    ts_nextDeadline st' = 620"
proof -
  have dl: "evs_deadline (ts_events log_state) 300 = 620"
    by (simp add: evs_deadline_def log_state_def event1_def)
  have now: "\<not> (120 :: u64) <s 0" by code_simp
  have dev: "lowered log_env (ts_curIpl log_state) (rearmed log_env (Some 620)
      (effects log_handlers (ts_events log_state) [100, 200] (ts_dev log_state))) =
      (500, [Called 7 100 8, Cleared 9, Woken 9, Armed 120, IplSet 0])"
    using now by (simp add: lowered_def rearmed_def effect_of_def log_env_def log_handlers_def log_state_def
        event1_def PLT_IPL_HIGH_def)
  have "\<not> te_soft log_env" "time_queue log_env log_state ([100, 200] @ [300])"
    "[300] \<noteq> [] \<longrightarrow> evs_deadline (ts_events log_state) (hd [300]) \<noteq> ts_nextDeadline log_state"
    using log_state_queue by (simp_all add: log_env_def dl) (simp add: log_state_def)
  from handler_fires_due [OF log_state_calm log_quiet this(1,2) _ log_state_due this(3)] show ?thesis
    using dev by (simp add: dl)
qed

text \<open>
  C11: the hardware timer's handler called with an empty queue returns, but it leaves the
  queue's lock held and the interrupt priority at the highest level.
\<close>

theorem handler_empty_keeps_lock:
  assumes "calm env st" and "\<not> te_soft env" and "time_queue env st []"
  shows "\<exists>st'. NkTimeHandler env st = Some st' \<and> ts_timeLock st' \<and> ts_curIpl st' = PLT_IPL_HIGH"
proof -
  have "nklist (ts_links st) (te_list env) []"
    using assms(3) by (simp add: time_queue_def)
  from nk.front [OF this] have "NkListFront (ts_links st) (te_list env) = Some 0" by simp
  then show ?thesis
    using assms(1,2)
    by (auto simp: NkTimeHandler_def PltRaiseIpl_def lock_time_def calm_def Let_def)
qed

definition state0 :: "u64 timeState" where
  "state0 = \<lparr>ts_links = \<lparr>lnext = [1 \<mapsto> 1], lprev = [1 \<mapsto> 1]\<rparr>, ts_events = Map.empty,
     ts_nextDeadline = 0, ts_timeLock = False, ts_curIpl = 0, ts_preemptDisable = 0, ts_dev = 41\<rparr>"

theorem handler_empty_keeps_lock_witness:
  "\<exists>st'. NkTimeHandler env1 state0 = Some st' \<and> ts_timeLock st' \<and> ts_curIpl st' = PLT_IPL_HIGH"
proof (rule handler_empty_keeps_lock)
  show "calm env1 state0" "\<not> te_soft env1" "time_queue env1 state0 []"
    by (simp_all add: calm_def state0_def env1_def PLT_IPL_HIGH_def time_queue_def nklist_def)
qed

end
