(* ===== verification/ConfLex.thy ===== *)
theory ConfLex
  imports Prelude "HOL-Library.Monad_Syntax"
begin

text \<open>
  The lexer of the boot loader's configuration language
  (source/nexboot/src/conf/lex.c, conf.h).

  The context holds the lexer's fields and the state of what it reads from: a file that
  delivers its text in buffers (\<open>co_read\<close> stands for \<open>NbVfsReadFile\<close> on the configuration
  file: \<open>None\<close> for the error result, an empty buffer at the end of the file) or a line with a
  callback that fetches another one (\<open>co_newLine\<close>). The buffer's size is the length of
  \<open>lx_buf\<close>. A \<open>StringRef_t\<close> is the string it was created from. Memory allocation is taken to
  succeed, and the messages the lexer logs are not modelled. A loop that never ends is
  \<open>None\<close>.

  The lemmas show that the tokens depend only on the text and not on how the file cuts it into
  buffers, that the lexer returns on every text, and that quoting is inverted.
\<close>

section \<open>Tokens and context\<close>

datatype tokType = TokNone | TokComment | TokOBrace | TokEBrace | TokDollar | TokId | TokNewline
  | TokLiteral | TokStr | TokSet | TokEof | TokError | TokMenuEntry

record confToken =
  tok_type :: tokType
  tok_line :: int
  tok_semVal :: "string option"

record 'f confCtx =
  cx_isFile :: bool
  cx_file :: 'f
  lx_isEof :: bool
  lx_isAccepted :: bool
  lx_line :: int
  lx_nextChar :: char
  lx_buf :: string
  lx_bufPos :: nat

record 'f confOps =
  co_read :: "'f \<Rightarrow> string option \<times> 'f"
  co_newLine :: "'f \<Rightarrow> string \<times> 'f"

definition NUL :: char where "NUL = CHR 0x00"

definition LEX_BUF_SZ :: nat where "LEX_BUF_SZ = 512"

definition LEX_STR_MAX :: nat where "LEX_STR_MAX = 256"

definition newline :: char where "newline = CHR 0x0A"
definition creturn :: char where "creturn = CHR 0x0D"
definition backslash :: char where "backslash = CHR 0x5C"

section \<open>Characters\<close>

text \<open>\<open>lexReadFile\<close>: what \<open>char\<close> result the code returns as a datatype: read, end, error
  (\<open>INT8_MAX\<close>).\<close>

datatype readRes = ReadOk | ReadEnd | ReadFail

definition lexReadFile :: "'f confOps \<Rightarrow> 'f confCtx \<Rightarrow> readRes \<times> 'f confCtx" where
  "lexReadFile ops ctx =
     (if lx_bufPos ctx = length (lx_buf ctx) then
        (case co_read ops (cx_file ctx) of
           (None, f) \<Rightarrow> (ReadFail, ctx\<lparr>cx_file := f\<rparr>)
         | (Some s, f) \<Rightarrow>
             if s = [] then (ReadEnd, ctx\<lparr>cx_file := f\<rparr>)
             else (ReadOk, ctx\<lparr>cx_file := f, lx_buf := s, lx_bufPos := 0\<rparr>))
      else (ReadOk, ctx))"

text \<open>The buffer's next character, common to reading and peeking: \<open>None\<close> where the code
  returns 0 before it looks at the buffer.\<close>

definition lexFetch :: "'f confOps \<Rightarrow> 'f confCtx \<Rightarrow> char option \<times> 'f confCtx" where
  "lexFetch ops ctx =
     (let (res, ctx) =
        (if cx_isFile ctx then lexReadFile ops ctx
         else (if lx_bufPos ctx = length (lx_buf ctx) then ReadEnd else ReadOk, ctx))
      in case res of
           ReadEnd \<Rightarrow> (None, ctx\<lparr>lx_isEof := True\<rparr>)
         | ReadFail \<Rightarrow> (None, ctx)
         | ReadOk \<Rightarrow> (Some (lx_buf ctx ! lx_bufPos ctx), ctx\<lparr>lx_bufPos := lx_bufPos ctx + 1\<rparr>))"

definition lexReadChar :: "'f confOps \<Rightarrow> 'f confCtx \<Rightarrow> char \<times> 'f confCtx" where
  "lexReadChar ops ctx =
     (if lx_nextChar ctx \<noteq> NUL then (lx_nextChar ctx, ctx\<lparr>lx_nextChar := NUL\<rparr>)
      else case lexFetch ops ctx of
             (None, ctx) \<Rightarrow> (NUL, ctx)
           | (Some c, ctx) \<Rightarrow> (c, ctx))"

definition lexPeekChar :: "'f confOps \<Rightarrow> 'f confCtx \<Rightarrow> char \<times> 'f confCtx" where
  "lexPeekChar ops ctx =
     (if lx_nextChar ctx \<noteq> NUL then (lx_nextChar ctx, ctx)
      else case lexFetch ops ctx of
             (None, ctx) \<Rightarrow> (NUL, ctx)
           | (Some c, ctx) \<Rightarrow> (c, ctx\<lparr>lx_nextChar := c\<rparr>))"

definition lexReturnChar :: "char \<Rightarrow> 'f confCtx \<Rightarrow> 'f confCtx" where
  "lexReturnChar c ctx = ctx\<lparr>lx_nextChar := c\<rparr>"

definition lexSkipChar :: "'f confCtx \<Rightarrow> 'f confCtx" where
  "lexSkipChar ctx = ctx\<lparr>lx_nextChar := NUL\<rparr>"

text \<open>The callback leaves a new line in the buffer.\<close>

definition lexReadNewLine :: "'f confOps \<Rightarrow> 'f confCtx \<Rightarrow> 'f confCtx" where
  "lexReadNewLine ops ctx =
     (case co_newLine ops (cx_file ctx) of (s, f) \<Rightarrow>
        ctx\<lparr>cx_file := f, lx_bufPos := 0, lx_nextChar := NUL, lx_line := 1, lx_buf := s\<rparr>)"

definition lexIsSpace :: "char \<Rightarrow> bool" where
  "lexIsSpace c \<longleftrightarrow> c \<in> {CHR '' '', CHR 0x09, newline, creturn, CHR 0x0B, CHR 0x0C}"

definition lexIsIdChar :: "char \<Rightarrow> bool" where
  "lexIsIdChar c \<longleftrightarrow> c \<in> set ''abcdefghijklmnopqrstuvwxyzABCDEFGHIJKLMNOPQRSTUVWXYZ0123456789_''"

definition lexIsToken :: "char \<Rightarrow> bool" where
  "lexIsToken c \<longleftrightarrow> c \<in> {CHR ''{'', CHR ''}'', CHR ''$'', CHR 0x22, CHR 0x27}"

section \<open>The parts of the lexer\<close>

text \<open>How a part ends: the next round of the loop, \<open>goto end\<close>, or an error (the two error
  labels differ in the message only).\<close>

datatype lexExit = LexNext | LexEnd | LexFail

text \<open>A carriage return may be followed by a line feed that belongs to it.\<close>

definition skip_lf :: "'f confOps \<Rightarrow> 'f confCtx \<Rightarrow> 'f confCtx" where
  "skip_lf ops ctx =
     (case lexPeekChar ops ctx of (p, ctx) \<Rightarrow> if p = newline then lexSkipChar ctx else ctx)"

definition inc_line :: "'f confCtx \<Rightarrow> 'f confCtx" where
  "inc_line ctx = ctx\<lparr>lx_line := lx_line ctx + 1\<rparr>"

definition accept :: "'f confCtx \<Rightarrow> 'f confCtx" where
  "accept ctx = ctx\<lparr>lx_isAccepted := True\<rparr>"

text \<open>The loop at \<open>lexComment\<close>.\<close>

partial_function (option) lexComment :: "'f confOps \<Rightarrow> 'f confCtx \<Rightarrow> (lexExit \<times> 'f confCtx) option" where
  "lexComment ops ctx =
     (case lexReadChar ops ctx of (c, ctx) \<Rightarrow>
        if c = NUL then
          Some (if lx_isEof ctx then LexEnd else LexFail, accept ctx)
        else if c = newline then Some (LexNext, lexReturnChar c (inc_line ctx))
        else if c = creturn then Some (LexNext, inc_line (skip_lf ops ctx))
        else lexComment ops ctx)"

text \<open>A read that must not meet the end of the input: \<open>None\<close> is \<open>EXPECT_NO_EOF\<close> taking its
  error exit.\<close>

definition read_noeof :: "'f confOps \<Rightarrow> 'f confCtx \<Rightarrow> char option \<times> 'f confCtx" where
  "read_noeof ops ctx =
     (case lexReadChar ops ctx of (c, ctx) \<Rightarrow> (if c = NUL then None else Some c, ctx))"

text \<open>The loop that skips whitespace behind an escaped space.\<close>

partial_function (option) lexSkipSpace ::
  "'f confOps \<Rightarrow> char \<Rightarrow> 'f confCtx \<Rightarrow> (char option \<times> 'f confCtx) option" where
  "lexSkipSpace ops c ctx =
     (if lexIsSpace c then
        (case read_noeof ops ctx of
           (None, ctx) \<Rightarrow> Some (None, ctx)
         | (Some c, ctx) \<Rightarrow> lexSkipSpace ops c ctx)
      else Some (Some c, ctx))"

text \<open>An escaped line end: the line count, the peeked character and a line feed behind a
  carriage return.\<close>

definition skip_newline :: "'f confOps \<Rightarrow> 'f confCtx \<Rightarrow> 'f confCtx" where
  "skip_newline ops ctx =
     (let ctx = inc_line ctx; (oc, ctx) = lexPeekChar ops ctx; ctx = lexSkipChar ctx;
          (p, ctx) = lexPeekChar ops ctx
      in if p = newline \<and> oc = creturn then lexSkipChar ctx else ctx)"

text \<open>A backslash inside a literal: the character it stands for, \<open>None\<close> for the error
  exit.\<close>

definition str_escape ::
  "'f confOps \<Rightarrow> char \<Rightarrow> 'f confCtx \<Rightarrow> (char option \<times> 'f confCtx) option" where
  "str_escape ops term ctx =
     (case lexPeekChar ops ctx of (p, ctx) \<Rightarrow>
        if p = backslash then Some (Some backslash, lexSkipChar ctx)
        else if lexIsSpace p then
          (let ctx = (if p = newline \<or> p = creturn then skip_newline ops ctx else lexSkipChar ctx)
           in case read_noeof ops ctx of
                (None, ctx) \<Rightarrow> Some (None, ctx)
              | (Some c, ctx) \<Rightarrow> lexSkipSpace ops c ctx)
        else if p = term then Some (Some term, lexSkipChar ctx)
        else Some (Some backslash, ctx))"

text \<open>The loop over a literal from its current character on; the result is the literal's value,
  \<open>None\<close> for the error exit.\<close>

partial_function (option) lexLiteral ::
  "'f confOps \<Rightarrow> char \<Rightarrow> char \<Rightarrow> string \<Rightarrow> 'f confCtx \<Rightarrow> (string option \<times> 'f confCtx) option" where
  "lexLiteral ops term c semVal ctx =
     (if c = term then Some (Some semVal, ctx)
      else do {
        (c', ctx) \<leftarrow> (if c = backslash then str_escape ops term ctx else Some (Some c, ctx));
        (case c' of
           None \<Rightarrow> Some (None, ctx)
         | Some c \<Rightarrow>
             if LEX_STR_MAX \<le> length (semVal @ [c]) then Some (None, ctx)
             else (case read_noeof ops ctx of
                     (None, ctx) \<Rightarrow> Some (None, ctx)
                   | (Some d, ctx) \<Rightarrow> lexLiteral ops term d (semVal @ [c]) ctx)) })"

text \<open>A backslash inside an identifier or string: the character it stands for and whether the
  loop goes on (it stops behind an escaped line end, and the character is then the next one),
  \<open>None\<close> for the error exit.\<close>

definition id_escape ::
  "'f confOps \<Rightarrow> 'f confCtx \<Rightarrow> ((char \<times> bool) option \<times> 'f confCtx) option" where
  "id_escape ops ctx =
     (case lexPeekChar ops ctx of (p, ctx) \<Rightarrow>
        if p = backslash then Some (Some (backslash, True), lexSkipChar ctx)
        else if lexIsSpace p then
          (if p = newline \<or> p = creturn then
             (let ctx = skip_newline ops ctx; (c, ctx) = lexReadChar ops ctx
              in if cx_isFile ctx then
                   (if c = NUL then Some (None, ctx) else Some (Some (c, False), ctx))
                 else (case lexReadChar ops (lexReadNewLine ops ctx) of
                         (c, ctx) \<Rightarrow> Some (Some (c, False), ctx)))
           else (case read_noeof ops (lexSkipChar ctx) of
                   (None, ctx) \<Rightarrow> Some (None, ctx)
                 | (Some c, ctx) \<Rightarrow> do {
                     (c, ctx) \<leftarrow> lexSkipSpace ops c ctx;
                     Some (map_option (\<lambda>c. (c, True)) c, ctx) }))
        else if lexIsToken p then Some (Some (p, True), lexSkipChar ctx)
        else Some (Some (backslash, True), ctx))"

text \<open>The loop over an identifier: its text and the character behind it, \<open>None\<close> for the error
  exit.\<close>

partial_function (option) lexIdent ::
  "'f confOps \<Rightarrow> char \<Rightarrow> string \<Rightarrow> 'f confCtx \<Rightarrow> ((string \<times> char) option \<times> 'f confCtx) option" where
  "lexIdent ops c semVal ctx =
     (if lexIsSpace c \<or> lexIsToken c then Some (Some (semVal, c), ctx)
      else do {
        (r, ctx) \<leftarrow> (if c = backslash then id_escape ops ctx else Some (Some (c, True), ctx));
        (case r of
           None \<Rightarrow> Some (None, ctx)
         | Some (c, loops) \<Rightarrow>
             if \<not> loops then Some (Some (semVal, c), ctx)
             else if LEX_STR_MAX \<le> length (semVal @ [c]) then Some (None, ctx)
             else (case lexReadChar ops ctx of (d, ctx) \<Rightarrow>
               if d = NUL then
                 Some (if lx_isEof ctx then Some (semVal @ [c], d) else None, accept ctx)
               else lexIdent ops d (semVal @ [c]) ctx)) })"

definition keyword_type :: "string \<Rightarrow> tokType" where
  "keyword_type s = (if s = ''set'' then TokSet else if s = ''menuentry'' then TokMenuEntry else TokId)"

section \<open>The lexer\<close>


definition mk_tok :: "tokType \<Rightarrow> int \<Rightarrow> string option \<Rightarrow> confToken" where
  "mk_tok t l s = \<lparr>tok_type = t, tok_line = l, tok_semVal = s\<rparr>"

definition fail_tok :: "'f confCtx \<Rightarrow> confToken \<times> 'f confCtx" where
  "fail_tok ctx = (mk_tok TokError (lx_line ctx) None, ctx)"

text \<open>One-character tokens.\<close>

definition punct_type :: "char \<Rightarrow> tokType option" where
  "punct_type c =
     (if c = CHR ''{'' then Some TokOBrace
      else if c = CHR ''}'' then Some TokEBrace
      else if c = CHR ''$'' then Some TokDollar
      else None)"

text \<open>The loop of \<open>confLex\<close>. A round that ends without an accepted token starts the next one
  with the token as it is, of type \<open>NONE\<close> again, so the token is made where it is accepted.\<close>

partial_function (option) lex_loop :: "'f confOps \<Rightarrow> 'f confCtx \<Rightarrow> (confToken \<times> 'f confCtx) option" where
  "lex_loop ops ctx =
     (case lexReadChar ops ctx of (c, ctx) \<Rightarrow>
        if c = NUL then Some (mk_tok TokEof (lx_line ctx) None, accept ctx)
        else if c \<in> {CHR '' '', CHR 0x0B, CHR 0x0C, CHR 0x09} then lex_loop ops ctx
        else if c = newline \<or> c = creturn then
          (let ctx = inc_line (if c = creturn then skip_lf ops ctx else ctx)
           in Some (mk_tok TokNewline (lx_line ctx) None, accept ctx))
        else if c = CHR ''#'' then do {
          (exit, ctx) \<leftarrow> lexComment ops ctx;
          (case exit of
             LexNext \<Rightarrow> lex_loop ops ctx
           | LexEnd \<Rightarrow> Some (mk_tok TokNone 0 None, ctx)
           | LexFail \<Rightarrow> Some (fail_tok ctx)) }
        else (case punct_type c of
          Some t \<Rightarrow> Some (mk_tok t (lx_line ctx) None, accept ctx)
        | None \<Rightarrow>
            if c = CHR 0x22 \<or> c = CHR 0x27 then
              (let line = lx_line ctx
               in case read_noeof ops ctx of
                    (None, ctx) \<Rightarrow> Some (fail_tok ctx)
                  | (Some d, ctx) \<Rightarrow> do {
                      (r, ctx) \<leftarrow> lexLiteral ops c d [] ctx;
                      Some (case r of
                        None \<Rightarrow> fail_tok ctx
                      | Some s \<Rightarrow> (mk_tok TokLiteral line (Some s), accept ctx)) })
            else
              (let line = lx_line ctx
               in do {
                    (r, ctx) \<leftarrow> lexIdent ops c [] ctx;
                    Some (case r of
                      None \<Rightarrow> fail_tok ctx
                    | Some (s, d) \<Rightarrow>
                        (mk_tok (keyword_type s) line (Some s), accept (lexReturnChar d ctx))) })))"

definition confLex :: "'f confOps \<Rightarrow> 'f confCtx \<Rightarrow> (confToken \<times> 'f confCtx) option" where
  "confLex ops ctx =
     (if lx_isEof ctx then Some (mk_tok TokEof (lx_line ctx) None, ctx)
      else lex_loop ops (ctx\<lparr>lx_isAccepted := False\<rparr>))"

text \<open>A file starts with an exhausted buffer, a line with itself.\<close>

definition confLexInit :: "bool \<Rightarrow> 'f \<Rightarrow> string \<Rightarrow> 'f confCtx" where
  "confLexInit isFile f line =
     \<lparr>cx_isFile = isFile, cx_file = f, lx_isEof = False, lx_isAccepted = False, lx_line = 1,
      lx_nextChar = NUL, lx_buf = (if isFile then replicate LEX_BUF_SZ NUL else line),
      lx_bufPos = (if isFile then LEX_BUF_SZ else 0)\<rparr>"

section \<open>The lexer on a text\<close>

text \<open>The same lexer as functions of the text that is left and the line number, without a context:
  every character is read from the front of the text. \<open>None\<close> is the error exit.\<close>

fun t_skip_lf :: "string \<Rightarrow> string" where
  "t_skip_lf (c # s) = (if c = newline then s else c # s)"
| "t_skip_lf [] = []"

fun t_comment :: "string \<Rightarrow> int \<Rightarrow> (string \<times> int) option" where
  "t_comment [] l = None"
| "t_comment (c # s) l =
     (if c = newline then Some (c # s, l + 1)
      else if c = creturn then Some (t_skip_lf s, l + 1)
      else t_comment s l)"

fun t_skip_space :: "char \<Rightarrow> string \<Rightarrow> (char \<times> string) option" where
  "t_skip_space c [] = (if lexIsSpace c then None else Some (c, []))"
| "t_skip_space c (d # s) = (if lexIsSpace c then t_skip_space d s else Some (c, d # s))"

fun t_skip_newline :: "string \<Rightarrow> string" where
  "t_skip_newline (c # s) = (if c = creturn then t_skip_lf s else s)"
| "t_skip_newline [] = []"

fun t_str_escape :: "char \<Rightarrow> string \<Rightarrow> int \<Rightarrow> (char \<times> string \<times> int) option" where
  "t_str_escape term [] l = Some (backslash, [], l)"
| "t_str_escape term (p # s) l =
     (if p = backslash then Some (backslash, s, l)
      else if lexIsSpace p then
        (let brk = (p = newline \<or> p = creturn); s = (if brk then t_skip_newline (p # s) else s);
             l = (if brk then l + 1 else l)
         in case s of [] \<Rightarrow> None
            | c # s \<Rightarrow> map_option (\<lambda>(c, s). (c, s, l)) (t_skip_space c s))
      else if p = term then Some (term, s, l)
      else Some (backslash, p # s, l))"

text \<open>A character of the escape's result counts for the loop, and whether the loop goes on.\<close>

fun t_id_escape :: "string \<Rightarrow> int \<Rightarrow> (char \<times> bool \<times> string \<times> int) option" where
  "t_id_escape [] l = Some (backslash, True, [], l)"
| "t_id_escape (p # s) l =
     (if p = backslash then Some (backslash, True, s, l)
      else if p = newline \<or> p = creturn then
        (case t_skip_newline (p # s) of [] \<Rightarrow> None | c # s \<Rightarrow> Some (c, False, s, l + 1))
      else if lexIsSpace p then
        (case s of [] \<Rightarrow> None
         | c # s \<Rightarrow> map_option (\<lambda>(c, s). (c, True, s, l)) (t_skip_space c s))
      else if lexIsToken p then Some (p, True, s, l)
      else Some (backslash, True, p # s, l))"

lemma t_skip_lf_length: "length (t_skip_lf s) \<le> length s"
  by (cases s) auto

lemma t_skip_newline_length: "length (t_skip_newline s) \<le> length s - 1"
  by (cases s) (auto simp: t_skip_lf_length)

lemma t_skip_space_length: "t_skip_space c s = Some (d, s') \<Longrightarrow> length s' \<le> length s"
  by (induction c s rule: t_skip_space.induct) (auto split: if_splits)

lemma t_str_escape_length: "t_str_escape term s l = Some (d, s', l') \<Longrightarrow> length s' \<le> length s"
  using t_skip_newline_length [of s]
  by (cases "(term, s, l)" rule: t_str_escape.cases)
    (auto simp: Let_def split: if_splits list.splits dest!: t_skip_space_length)

lemma t_id_escape_length: "t_id_escape s l = Some (d, b, s', l') \<Longrightarrow> length s' \<le> length s"
  using t_skip_newline_length [of s]
  by (cases "(s, l)" rule: t_id_escape.cases)
    (auto simp: Let_def split: if_splits list.splits dest!: t_skip_space_length)

lemma t_comment_length: "t_comment s l = Some (s', l') \<Longrightarrow> length s' \<le> length s"
  using t_skip_lf_length
  by (induction s l rule: t_comment.induct) (auto split: if_splits simp: le_SucI)

function t_literal :: "char \<Rightarrow> char \<Rightarrow> string \<Rightarrow> string \<Rightarrow> int \<Rightarrow> (string \<times> string \<times> int) option" where
  "t_literal term c semVal s l =
     (if c = term then Some (semVal, s, l)
      else (case (if c = backslash then t_str_escape term s l else Some (c, s, l)) of
              None \<Rightarrow> None
            | Some (d, s, l) \<Rightarrow>
                if LEX_STR_MAX \<le> length (semVal @ [d]) then None
                else (case s of [] \<Rightarrow> None | e # s \<Rightarrow> t_literal term e (semVal @ [d]) s l)))"
  by pat_completeness auto
termination
  by (relation "measure (\<lambda>(_, _, _, s, _). length s)")
    (auto split: if_splits dest!: t_str_escape_length)

function t_ident :: "char \<Rightarrow> string \<Rightarrow> string \<Rightarrow> int \<Rightarrow> (string \<times> string \<times> int) option" where
  "t_ident c semVal s l =
     (if lexIsSpace c \<or> lexIsToken c then Some (semVal, c # s, l)
      else (case (if c = backslash then t_id_escape s l else Some (c, True, s, l)) of
              None \<Rightarrow> None
            | Some (d, loops, s, l) \<Rightarrow>
                if \<not> loops then Some (semVal, d # s, l)
                else if LEX_STR_MAX \<le> length (semVal @ [d]) then None
                else (case s of [] \<Rightarrow> Some (semVal @ [d], [], l)
                      | e # s \<Rightarrow> t_ident e (semVal @ [d]) s l)))"
  by pat_completeness auto
termination
  by (relation "measure (\<lambda>(_, _, s, _). length s)")
    (auto split: if_splits dest!: t_id_escape_length)

declare t_literal.simps [simp del] t_ident.simps [simp del]

function t_lex :: "string \<Rightarrow> int \<Rightarrow> (confToken \<times> string \<times> int) option" where
  "t_lex [] l = Some (mk_tok TokEof l None, [], l)"
| "t_lex (c # s) l =
     (if c \<in> {CHR '' '', CHR 0x0B, CHR 0x0C, CHR 0x09} then t_lex s l
      else if c = newline \<or> c = creturn then
        Some (mk_tok TokNewline (l + 1) None, (if c = creturn then t_skip_lf s else s), l + 1)
      else if c = CHR ''#'' then
        (case t_comment s l of None \<Rightarrow> Some (mk_tok TokNone 0 None, [], l)
         | Some (s, l) \<Rightarrow> t_lex s l)
      else (case punct_type c of
          Some t \<Rightarrow> Some (mk_tok t l None, s, l)
        | None \<Rightarrow>
            if c = CHR 0x22 \<or> c = CHR 0x27 then
              (case s of [] \<Rightarrow> None
               | d # s \<Rightarrow> (case t_literal c d [] s l of None \<Rightarrow> None
                         | Some (v, s, l') \<Rightarrow> Some (mk_tok TokLiteral l (Some v), s, l')))
            else (case t_ident c [] s l of None \<Rightarrow> None
                  | Some (v, s, l') \<Rightarrow> Some (mk_tok (keyword_type v) l (Some v), s, l'))))"
  by pat_completeness auto
termination
  by (relation "measure (\<lambda>(s, _). length s)") (auto dest!: t_comment_length)

declare t_lex.simps [simp del]

section \<open>The lexer on a file is the lexer on its text\<close>

text \<open>\<open>tx\<close> is the text a file still has: what the contract of the reads comes to. A read
  delivers a piece of it from the front, and an empty piece only at the end. A text with a NUL is
  none the lexer can read, and nothing is asked of the file then.\<close>

definition reads_text :: "'f confOps \<Rightarrow> ('f \<Rightarrow> string) \<Rightarrow> bool" where
  "reads_text ops tx \<longleftrightarrow> (\<forall>f. NUL \<notin> set (tx f) \<longrightarrow> (\<exists>c f'. co_read ops f = (Some c, f') \<and> tx f = c @ tx f' \<and>
     (c = [] \<longrightarrow> tx f = [])))"

text \<open>The context has the text \<open>s\<close> left, in its peeked character, its buffer and its file, and
  is at line \<open>l\<close>.\<close>

definition buf_text :: "('f \<Rightarrow> string) \<Rightarrow> 'f confCtx \<Rightarrow> string" where
  "buf_text tx ctx = drop (lx_bufPos ctx) (lx_buf ctx) @ tx (cx_file ctx)"

definition holds :: "('f \<Rightarrow> string) \<Rightarrow> 'f confCtx \<Rightarrow> string \<Rightarrow> int \<Rightarrow> bool" where
  "holds tx ctx s l \<longleftrightarrow> cx_isFile ctx \<and> lx_line ctx = l \<and> lx_bufPos ctx \<le> length (lx_buf ctx) \<and>
     NUL \<notin> set s \<and> (lx_isEof ctx \<longrightarrow> s = []) \<and>
     (if lx_nextChar ctx = NUL then buf_text tx ctx = s else lx_nextChar ctx # buf_text tx ctx = s)"

lemma buf_text_upd [simp]:
  "buf_text tx (ctx\<lparr>lx_nextChar := c\<rparr>) = buf_text tx ctx"
  "buf_text tx (ctx\<lparr>lx_isEof := b\<rparr>) = buf_text tx ctx"
  "buf_text tx (ctx\<lparr>lx_line := n\<rparr>) = buf_text tx ctx"
  "buf_text tx (ctx\<lparr>lx_isAccepted := b\<rparr>) = buf_text tx ctx"
  by (simp_all add: buf_text_def)

lemma fetch_end:
  assumes "reads_text ops tx" and "holds tx ctx [] l"
  shows "\<exists>ctx'. lexFetch ops ctx = (None, ctx') \<and> holds tx ctx' [] l \<and> lx_isEof ctx' \<and>
    lx_nextChar ctx' = NUL"
proof -
  have ctx: "lx_bufPos ctx = length (lx_buf ctx)" "tx (cx_file ctx) = []" "lx_nextChar ctx = NUL"
    "cx_isFile ctx" "lx_line ctx = l"
    using assms(2) by (auto simp: holds_def buf_text_def split: if_splits)
  have "NUL \<notin> set (tx (cx_file ctx))" using ctx(2) by simp
  then obtain c f where f: "co_read ops (cx_file ctx) = (Some c, f)" "tx (cx_file ctx) = c @ tx f"
    using assms(1) unfolding reads_text_def by blast
  with ctx show ?thesis by (simp add: lexFetch_def lexReadFile_def holds_def buf_text_def)
qed

lemma fetch_char:
  assumes "reads_text ops tx" and "holds tx ctx (c # s) l" and "lx_nextChar ctx = NUL"
  shows "\<exists>ctx'. lexFetch ops ctx = (Some c, ctx') \<and> holds tx ctx' s l \<and> \<not> lx_isEof ctx' \<and>
    lx_nextChar ctx' = NUL"
proof -
  have ctx: "c # s = drop (lx_bufPos ctx) (lx_buf ctx) @ tx (cx_file ctx)" "cx_isFile ctx"
    "lx_line ctx = l" "NUL \<notin> set (c # s)" "\<not> lx_isEof ctx" "lx_bufPos ctx \<le> length (lx_buf ctx)"
    using assms(2,3) by (auto simp: holds_def buf_text_def)
  show ?thesis
  proof (cases "lx_bufPos ctx = length (lx_buf ctx)")
    case True
    have "NUL \<notin> set (tx (cx_file ctx))" using ctx(1,4) True by simp
    then obtain b f where f: "co_read ops (cx_file ctx) = (Some b, f)" "tx (cx_file ctx) = b @ tx f"
      "b = [] \<longrightarrow> tx (cx_file ctx) = []"
      using assms(1) unfolding reads_text_def by blast
    with True ctx(1) obtain b' where b: "b = c # b'" "s = b' @ tx f"
      by (cases b) auto
    with f True ctx(2-5) assms(3) show ?thesis
      by (simp add: lexFetch_def lexReadFile_def holds_def buf_text_def)
  next
    case False
    then have pos: "lx_bufPos ctx < length (lx_buf ctx)" using ctx(6) by simp
    then have "c = lx_buf ctx ! lx_bufPos ctx" "s = drop (Suc (lx_bufPos ctx)) (lx_buf ctx) @ tx (cx_file ctx)"
      using ctx(1) by (simp_all flip: Cons_nth_drop_Suc)
    with pos ctx(2-5) assms(3) show ?thesis
      by (simp add: lexFetch_def lexReadFile_def holds_def buf_text_def)
  qed
qed

lemma read_end:
  assumes "reads_text ops tx" and "holds tx ctx [] l"
  shows "\<exists>ctx'. lexReadChar ops ctx = (NUL, ctx') \<and> holds tx ctx' [] l \<and> lx_isEof ctx' \<and>
    lx_nextChar ctx' = NUL"
proof -
  have "lx_nextChar ctx = NUL" using assms(2) by (auto simp: holds_def split: if_splits)
  with fetch_end [OF assms] show ?thesis by (auto simp: lexReadChar_def)
qed

lemma read_char:
  assumes "reads_text ops tx" and "holds tx ctx (c # s) l"
  shows "\<exists>ctx'. lexReadChar ops ctx = (c, ctx') \<and> holds tx ctx' s l \<and> \<not> lx_isEof ctx' \<and>
    lx_nextChar ctx' = NUL \<and> c \<noteq> NUL"
proof (cases "lx_nextChar ctx = NUL")
  case True
  moreover have "c \<noteq> NUL" using assms(2) by (auto simp: holds_def)
  ultimately show ?thesis using fetch_char [OF assms] by (auto simp: lexReadChar_def)
next
  case False
  with assms(2) show ?thesis by (auto simp: lexReadChar_def holds_def)
qed

text \<open>Peeking leaves the text; what was peeked at can then be skipped.\<close>

lemma peek_end:
  assumes "reads_text ops tx" and "holds tx ctx [] l"
  shows "\<exists>ctx'. lexPeekChar ops ctx = (NUL, ctx') \<and> holds tx ctx' [] l \<and> lx_nextChar ctx' = NUL"
proof -
  have "lx_nextChar ctx = NUL" using assms(2) by (auto simp: holds_def split: if_splits)
  with fetch_end [OF assms] show ?thesis by (auto simp: lexPeekChar_def)
qed

lemma peek_char:
  assumes "reads_text ops tx" and "holds tx ctx (c # s) l"
  shows "\<exists>ctx'. lexPeekChar ops ctx = (c, ctx') \<and> holds tx ctx' (c # s) l \<and> lx_nextChar ctx' = c \<and>
    holds tx (lexSkipChar ctx') s l \<and> c \<noteq> NUL"
proof -
  have c: "c \<noteq> NUL" using assms(2) by (auto simp: holds_def)
  show ?thesis
  proof (cases "lx_nextChar ctx = NUL")
    case True
    then obtain ctx' where f: "lexFetch ops ctx = (Some c, ctx')" "holds tx ctx' s l"
      "\<not> lx_isEof ctx'" "lx_nextChar ctx' = NUL"
      using fetch_char [OF assms] by blast
    with True c show ?thesis
      by (auto simp: lexPeekChar_def holds_def lexSkipChar_def)
  next
    case False
    with assms(2) c show ?thesis by (auto simp: lexPeekChar_def holds_def lexSkipChar_def)
  qed
qed

lemma holds_return:
  "holds tx ctx s l \<Longrightarrow> lx_nextChar ctx = NUL \<Longrightarrow> \<not> lx_isEof ctx \<Longrightarrow> c \<noteq> NUL \<Longrightarrow>
   holds tx (lexReturnChar c ctx) (c # s) l"
  by (simp add: holds_def lexReturnChar_def)

lemma holds_inc_line: "holds tx ctx s l \<Longrightarrow> holds tx (inc_line ctx) s (l + 1)"
  by (simp add: holds_def inc_line_def)

lemma holds_accept [simp]: "holds tx (accept ctx) s l = holds tx ctx s l"
  by (simp add: holds_def accept_def)

lemma skip_lf_text:
  assumes "reads_text ops tx" and "holds tx ctx s l"
  shows "holds tx (skip_lf ops ctx) (t_skip_lf s) l"
proof (cases s)
  case Nil
  with assms peek_end [of ops tx ctx l] show ?thesis
    by (auto simp: skip_lf_def NUL_def newline_def)
next
  case (Cons c s')
  with assms peek_char [of ops tx ctx c s' l] show ?thesis
    by (auto simp: skip_lf_def)
qed

lemma inc_line_eof [simp]: "lx_isEof (inc_line ctx) = lx_isEof ctx" "lx_nextChar (inc_line ctx) = lx_nextChar ctx"
  by (simp_all add: inc_line_def)

lemma newline_not_NUL [simp]: "newline \<noteq> NUL" "creturn \<noteq> NUL" "backslash \<noteq> NUL"
  "newline \<noteq> creturn" "backslash \<noteq> newline" "backslash \<noteq> creturn"
  "NUL \<noteq> newline" "NUL \<noteq> creturn" "NUL \<noteq> backslash"
  "creturn \<noteq> newline" "newline \<noteq> backslash" "creturn \<noteq> backslash"
  by (simp_all add: newline_def creturn_def backslash_def NUL_def)

lemma space_NUL [simp]: "\<not> lexIsSpace NUL" "\<not> lexIsToken NUL" "lexIsSpace newline" "lexIsSpace creturn"
  "\<not> lexIsSpace backslash"
  by (simp_all add: lexIsSpace_def lexIsToken_def NUL_def newline_def creturn_def backslash_def)

lemma comment_text:
  assumes "reads_text ops tx"
  shows "holds tx ctx s l \<Longrightarrow> (case t_comment s l of
      None \<Rightarrow> \<exists>ctx'. lexComment ops ctx = Some (LexEnd, ctx') \<and> holds tx ctx' [] l
    | Some (s', l') \<Rightarrow> \<exists>ctx'. lexComment ops ctx = Some (LexNext, ctx') \<and> holds tx ctx' s' l')"
proof (induction s arbitrary: ctx)
  case Nil
  then show ?case
    using read_end [OF assms Nil] by (auto simp: lexComment.simps [of ops ctx])
next
  case (Cons c s)
  obtain ctx1 where r: "lexReadChar ops ctx = (c, ctx1)" "holds tx ctx1 s l" "\<not> lx_isEof ctx1"
    "lx_nextChar ctx1 = NUL" "c \<noteq> NUL"
    using read_char [OF assms Cons.prems] by blast
  consider "c = newline" | "c = creturn" | "c \<noteq> newline" "c \<noteq> creturn" by blast
  then show ?case
  proof cases
    case 1
    have "holds tx (lexReturnChar newline (inc_line ctx1)) (newline # s) (l + 1)"
      using r by (intro holds_return holds_inc_line) simp_all
    with 1 r show ?thesis by (auto simp: lexComment.simps [of ops ctx])
  next
    case 2
    have "holds tx (inc_line (skip_lf ops ctx1)) (t_skip_lf s) (l + 1)"
      by (rule holds_inc_line [OF skip_lf_text [OF assms r(2)]])
    with 2 r show ?thesis by (auto simp: lexComment.simps [of ops ctx])
  next
    case 3
    then have "lexComment ops ctx = lexComment ops ctx1"
      using r by (simp add: lexComment.simps [of ops ctx])
    with Cons.IH [OF r(2)] 3 show ?thesis
      by (simp split: option.splits prod.splits)
  qed
qed

lemma noeof_text:
  assumes "reads_text ops tx" and "holds tx ctx s l"
  shows "case s of [] \<Rightarrow> \<exists>ctx'. read_noeof ops ctx = (None, ctx')
    | c # s' \<Rightarrow> \<exists>ctx'. read_noeof ops ctx = (Some c, ctx') \<and> holds tx ctx' s' l"
proof (cases s)
  case Nil
  with read_end [OF assms [unfolded Nil]] show ?thesis by (auto simp: read_noeof_def)
next
  case (Cons c s')
  with read_char [OF assms [unfolded Cons]] show ?thesis by (auto simp: read_noeof_def)
qed

lemma skip_space_text:
  assumes "reads_text ops tx"
  shows "holds tx ctx s l \<Longrightarrow> (case t_skip_space c s of
      None \<Rightarrow> \<exists>ctx'. lexSkipSpace ops c ctx = Some (None, ctx')
    | Some (d, s') \<Rightarrow> \<exists>ctx'. lexSkipSpace ops c ctx = Some (Some d, ctx') \<and> holds tx ctx' s' l)"
proof (induction c s arbitrary: ctx rule: t_skip_space.induct)
  case (1 c)
  with noeof_text [OF assms 1] show ?case
    by (auto simp: lexSkipSpace.simps [of ops c])
next
  case (2 c d s)
  show ?case
  proof (cases "lexIsSpace c")
    case True
    obtain ctx1 where "read_noeof ops ctx = (Some d, ctx1)" "holds tx ctx1 s l"
      using noeof_text [OF assms 2(2)] by auto
    with True have "lexSkipSpace ops c ctx = lexSkipSpace ops d ctx1"
      by (simp add: lexSkipSpace.simps [of ops c])
    with 2(1) [OF True \<open>holds tx ctx1 s l\<close>] True show ?thesis
      by (simp split: option.splits prod.splits)
  next
    case False
    with 2(2) show ?thesis by (simp add: lexSkipSpace.simps [of ops c])
  qed
qed

lemma skip_newline_text:
  assumes "reads_text ops tx" and "holds tx ctx (p # s) l" and "p = newline \<or> p = creturn"
  shows "holds tx (skip_newline ops ctx) (t_skip_newline (p # s)) (l + 1)"
proof -
  obtain ctx1 where p: "lexPeekChar ops (inc_line ctx) = (p, ctx1)" "holds tx (lexSkipChar ctx1) s (l + 1)"
    using peek_char [OF assms(1) holds_inc_line [OF assms(2)]] by blast
  show ?thesis
  proof (cases s)
    case Nil
    with p assms(3) peek_end [OF assms(1), of "lexSkipChar ctx1" "l + 1"] show ?thesis
      by (auto simp: skip_newline_def)
  next
    case (Cons q s')
    with p assms(3) peek_char [OF assms(1), of "lexSkipChar ctx1" q s' "l + 1"] show ?thesis
      by (auto simp: skip_newline_def)
  qed
qed

lemma str_escape_text:
  assumes "reads_text ops tx" and "holds tx ctx s l" and "term \<noteq> NUL"
  shows "case t_str_escape term s l of
      None \<Rightarrow> \<exists>ctx'. str_escape ops term ctx = Some (None, ctx')
    | Some (d, s', l') \<Rightarrow> \<exists>ctx'. str_escape ops term ctx = Some (Some d, ctx') \<and> holds tx ctx' s' l'"
proof (cases s)
  case Nil
  obtain ctx1 where p: "lexPeekChar ops ctx = (NUL, ctx1)" "holds tx ctx1 [] l"
    using peek_end [OF assms(1)] assms(2) Nil by blast
  with assms(3) Nil show ?thesis by (auto simp: str_escape_def)
next
  case (Cons p s1)
  obtain ctx1 where p: "lexPeekChar ops ctx = (p, ctx1)" "holds tx ctx1 s l"
    "holds tx (lexSkipChar ctx1) s1 l"
    using peek_char [OF assms(1)] assms(2) Cons by blast
  consider "p = backslash" | "p \<noteq> backslash" "lexIsSpace p" | "p \<noteq> backslash" "\<not> lexIsSpace p" by blast
  then show ?thesis
  proof cases
    case 1
    with p Cons show ?thesis by (simp add: str_escape_def)
  next
    case 2
    define brk where "brk = (p = newline \<or> p = creturn)"
    define ctx2 where "ctx2 = (if brk then skip_newline ops ctx1 else lexSkipChar ctx1)"
    define s2 where "s2 = (if brk then t_skip_newline s else s1)"
    define l2 where "l2 = (if brk then l + 1 else l)"
    have h2: "holds tx ctx2 s2 l2"
      using p skip_newline_text [OF assms(1), of ctx1 p s1 l] Cons
      by (auto simp: ctx2_def s2_def l2_def brk_def)
    have t: "t_str_escape term s l = (case s2 of [] \<Rightarrow> None
        | c # s \<Rightarrow> map_option (\<lambda>(c, s). (c, s, l2)) (t_skip_space c s))"
      using 2 Cons by (auto simp: Let_def s2_def l2_def brk_def split: list.splits)
    have e: "str_escape ops term ctx = (case read_noeof ops ctx2 of (None, ctx) \<Rightarrow> Some (None, ctx)
        | (Some c, ctx) \<Rightarrow> lexSkipSpace ops c ctx)"
      using 2 p(1) by (simp add: str_escape_def ctx2_def brk_def Let_def)
    show ?thesis
    proof (cases s2)
      case Nil
      with noeof_text [OF assms(1) h2] show ?thesis by (auto simp: t e)
    next
      case (Cons d s3)
      obtain ctx3 where r: "read_noeof ops ctx2 = (Some d, ctx3)" "holds tx ctx3 s3 l2"
        using noeof_text [OF assms(1) h2] Cons by auto
      show ?thesis
        using skip_space_text [OF assms(1) r(2), of d] Cons
        by (cases "t_skip_space d s3") (auto simp: t e r(1))
    qed
  next
    case 3
    with p Cons show ?thesis by (auto simp: str_escape_def Let_def)
  qed
qed

lemma literal_text:
  assumes "reads_text ops tx" and "term \<noteq> NUL"
  shows "holds tx ctx s l \<Longrightarrow> (case t_literal term c sem s l of
      None \<Rightarrow> \<exists>ctx'. lexLiteral ops term c sem ctx = Some (None, ctx')
    | Some (v, s', l') \<Rightarrow> \<exists>ctx'. lexLiteral ops term c sem ctx = Some (Some v, ctx') \<and> holds tx ctx' s' l')"
proof (induction "length s" arbitrary: c sem s l ctx rule: less_induct)
  case less
  let ?t = "if c = backslash then t_str_escape term s l else Some (c, s, l)"
  let ?e = "if c = backslash then str_escape ops term ctx else Some (Some c, ctx)"
  have esc: "case ?t of None \<Rightarrow> \<exists>ctx'. ?e = Some (None, ctx')
      | Some (d, s', l') \<Rightarrow> \<exists>ctx'. ?e = Some (Some d, ctx') \<and> holds tx ctx' s' l'"
    using str_escape_text [OF assms(1) less.prems assms(2)] less.prems by simp
  show ?case
  proof (cases "c = term \<or> ?t = None")
    case True
    with less.prems esc show ?thesis
      by (subst t_literal.simps, subst (1 2) lexLiteral.simps) (auto split: if_splits)
  next
    case False
    then obtain d s1 l1 where t: "?t = Some (d, s1, l1)" by (cases ?t) auto
    then obtain ctx1 where e: "?e = Some (Some d, ctx1)" "holds tx ctx1 s1 l1"
      using esc by auto
    have len: "length s1 \<le> length s"
      using t by (auto split: if_splits dest: t_str_escape_length)
    have tl: "t_literal term c sem s l = (if LEX_STR_MAX \<le> length (sem @ [d]) then None
        else (case s1 of [] \<Rightarrow> None | e # s \<Rightarrow> t_literal term e (sem @ [d]) s l1))"
      using False t by (subst t_literal.simps) simp
    have ll: "lexLiteral ops term c sem ctx = (if LEX_STR_MAX \<le> length (sem @ [d]) then Some (None, ctx1)
        else (case read_noeof ops ctx1 of (None, ctx) \<Rightarrow> Some (None, ctx)
              | (Some e, ctx) \<Rightarrow> lexLiteral ops term e (sem @ [d]) ctx))"
      using False e(1) by (subst lexLiteral.simps) simp
    show ?thesis
    proof (cases s1)
      case Nil
      with noeof_text [OF assms(1) e(2)] show ?thesis by (auto simp: tl ll)
    next
      case (Cons f s2)
      obtain ctx2 where r: "read_noeof ops ctx1 = (Some f, ctx2)" "holds tx ctx2 s2 l1"
        using noeof_text [OF assms(1) e(2)] Cons by auto
      have "length s2 < length s" using len Cons by simp
      from less.hyps [OF this r(2), of f "sem @ [d]"] Cons show ?thesis
        by (simp add: tl ll r(1) split: option.splits prod.splits)
    qed
  qed
qed

text \<open>Behind a character that was just read.\<close>

definition fresh :: "'f confCtx \<Rightarrow> bool" where
  "fresh ctx \<longleftrightarrow> lx_nextChar ctx = NUL \<and> \<not> lx_isEof ctx"

lemma holds_file: "holds tx ctx s l \<Longrightarrow> cx_isFile ctx"
  by (simp add: holds_def)

lemma id_escape_text:
  assumes "reads_text ops tx" and "holds tx ctx s l"
  shows "case t_id_escape s l of
      None \<Rightarrow> \<exists>ctx'. id_escape ops ctx = Some (None, ctx')
    | Some (d, loops, s', l') \<Rightarrow> \<exists>ctx'. id_escape ops ctx = Some (Some (d, loops), ctx') \<and>
        holds tx ctx' s' l' \<and> (loops \<or> fresh ctx' \<and> d \<noteq> NUL)"
proof (cases s)
  case Nil
  obtain ctx1 where "lexPeekChar ops ctx = (NUL, ctx1)" "holds tx ctx1 [] l"
    using peek_end [OF assms(1)] assms(2) Nil by blast
  with Nil show ?thesis by (auto simp: id_escape_def)
next
  case (Cons p s1)
  obtain ctx1 where p: "lexPeekChar ops ctx = (p, ctx1)" "holds tx ctx1 (p # s1) l"
    "holds tx (lexSkipChar ctx1) s1 l"
    using peek_char [OF assms(1)] assms(2) Cons by blast
  consider "p = backslash" | "p \<noteq> backslash" "p = newline \<or> p = creturn"
    | "p \<noteq> backslash" "\<not> (p = newline \<or> p = creturn)" "lexIsSpace p"
    | "p \<noteq> backslash" "\<not> lexIsSpace p" by blast
  then show ?thesis
  proof cases
    case 1
    with p Cons show ?thesis by (simp add: id_escape_def)
  next
    case 2
    let ?c2 = "skip_newline ops ctx1" and ?s2 = "t_skip_newline (p # s1)"
    have h2: "holds tx ?c2 ?s2 (l + 1)"
      by (rule skip_newline_text [OF assms(1) p(2) 2(2)])
    obtain c ctx3 where r: "lexReadChar ops ?c2 = (c, ctx3)" by (cases "lexReadChar ops ?c2")
    have e: "id_escape ops ctx = (if cx_isFile ctx3 then
        (if c = NUL then Some (None, ctx3) else Some (Some (c, False), ctx3))
        else (case lexReadChar ops (lexReadNewLine ops ctx3) of (c, ctx) \<Rightarrow> Some (Some (c, False), ctx)))"
      using 2 p(1) r by (auto simp: id_escape_def Let_def)
    have t: "t_id_escape s l = (case ?s2 of [] \<Rightarrow> None | c # s \<Rightarrow> Some (c, False, s, l + 1))"
      using 2 Cons by (simp del: t_skip_newline.simps)
    show ?thesis
    proof (cases ?s2)
      case Nil
      with read_end [OF assms(1), of ?c2] h2 r show ?thesis
        by (auto simp: e t simp del: t_skip_newline.simps dest: holds_file)
    next
      case (Cons d s3)
      then have h2': "holds tx ?c2 (d # s3) (l + 1)" using h2 by (simp del: t_skip_newline.simps)
      from read_char [OF assms(1) h2'] r Cons show ?thesis
        by (auto simp: e t fresh_def simp del: t_skip_newline.simps dest: holds_file)
    qed
  next
    case 3
    have e: "id_escape ops ctx = (case read_noeof ops (lexSkipChar ctx1) of
        (None, ctx) \<Rightarrow> Some (None, ctx)
      | (Some c, ctx) \<Rightarrow> do {
          (c, ctx) \<leftarrow> lexSkipSpace ops c ctx;
          Some (map_option (\<lambda>c. (c, True)) c, ctx) })"
      using 3 p(1) by (simp add: id_escape_def)
    show ?thesis
    proof (cases s1)
      case Nil
      with noeof_text [OF assms(1) p(3)] 3 Cons show ?thesis by (auto simp: e)
    next
      case (Cons d s2)
      obtain ctx3 where r: "read_noeof ops (lexSkipChar ctx1) = (Some d, ctx3)" "holds tx ctx3 s2 l"
        using noeof_text [OF assms(1) p(3)] Cons by auto
      show ?thesis
        using skip_space_text [OF assms(1) r(2), of d] 3 \<open>s = p # s1\<close> Cons
        by (cases "t_skip_space d s2") (auto simp: e r(1))
    qed
  next
    case 4
    then have "p \<noteq> newline" "p \<noteq> creturn" by auto
    with 4 p Cons show ?thesis by (auto simp: id_escape_def)
  qed
qed

lemma ident_text:
  assumes "reads_text ops tx"
  shows "holds tx ctx s l \<Longrightarrow> fresh ctx \<Longrightarrow> c \<noteq> NUL \<Longrightarrow> (case t_ident c sem s l of
      None \<Rightarrow> \<exists>ctx'. lexIdent ops c sem ctx = Some (None, ctx')
    | Some (v, s', l') \<Rightarrow> \<exists>d ctx'. lexIdent ops c sem ctx = Some (Some (v, d), ctx') \<and>
        holds tx (lexReturnChar d ctx') s' l')"
proof (induction "length s" arbitrary: c sem s l ctx rule: less_induct)
  case less
  let ?t = "if c = backslash then t_id_escape s l else Some (c, True, s, l)"
  let ?e = "if c = backslash then id_escape ops ctx else Some (Some (c, True), ctx)"
  have esc: "case ?t of None \<Rightarrow> \<exists>ctx'. ?e = Some (None, ctx')
      | Some (d, loops, s', l') \<Rightarrow> \<exists>ctx'. ?e = Some (Some (d, loops), ctx') \<and> holds tx ctx' s' l' \<and>
          (loops \<or> fresh ctx' \<and> d \<noteq> NUL)"
    using id_escape_text [OF assms less.prems(1)] less.prems(1) by simp
  show ?case
  proof (cases "lexIsSpace c \<or> lexIsToken c")
    case True
    have "holds tx (lexReturnChar c ctx) (c # s) l"
      using less.prems by (intro holds_return) (simp_all add: fresh_def)
    moreover have "t_ident c sem s l = Some (sem, c # s, l)"
      using True by (subst t_ident.simps) simp
    moreover have "lexIdent ops c sem ctx = Some (Some (sem, c), ctx)"
      using True by (subst lexIdent.simps) simp
    ultimately show ?thesis by simp
  next
    case False
    show ?thesis
    proof (cases ?t)
      case None
      then have "t_ident c sem s l = None"
        using False by (subst t_ident.simps) simp
      moreover obtain ctx1 where "?e = Some (None, ctx1)" using esc None by auto
      then have "lexIdent ops c sem ctx = Some (None, ctx1)"
        using False by (subst lexIdent.simps) simp
      ultimately show ?thesis by simp
    next
      case (Some r)
      obtain d loops s1 l1 where t: "?t = Some (d, loops, s1, l1)" using Some by (cases r) auto
      then obtain ctx1 where e: "?e = Some (Some (d, loops), ctx1)" "holds tx ctx1 s1 l1"
        "loops \<or> fresh ctx1 \<and> d \<noteq> NUL" using esc by auto
      have len: "length s1 \<le> length s"
        using t by (auto split: if_splits dest: t_id_escape_length)
      have tl: "t_ident c sem s l = (if \<not> loops then Some (sem, d # s1, l1)
          else if LEX_STR_MAX \<le> length (sem @ [d]) then None
          else (case s1 of [] \<Rightarrow> Some (sem @ [d], [], l1) | e # s \<Rightarrow> t_ident e (sem @ [d]) s l1))"
        using False t by (subst t_ident.simps) simp
      have ll: "lexIdent ops c sem ctx = (if \<not> loops then Some (Some (sem, d), ctx1)
          else if LEX_STR_MAX \<le> length (sem @ [d]) then Some (None, ctx1)
          else (case lexReadChar ops ctx1 of (e, ctx) \<Rightarrow>
            if e = NUL then Some (if lx_isEof ctx then Some (sem @ [d], e) else None, accept ctx)
            else lexIdent ops e (sem @ [d]) ctx))"
        using False e(1) by (subst lexIdent.simps) simp
      show ?thesis
      proof (cases "loops \<and> length (sem @ [d]) < LEX_STR_MAX")
        case False
        have "holds tx (lexReturnChar d ctx1) (d # s1) l1" if "\<not> loops"
          using that e by (intro holds_return) (simp_all add: fresh_def)
        with False show ?thesis by (auto simp: tl ll)
      next
        case True
        show ?thesis
        proof (cases s1)
          case Nil
          obtain ctx2 where r: "lexReadChar ops ctx1 = (NUL, ctx2)" "holds tx ctx2 [] l1"
            "lx_isEof ctx2" "lx_nextChar ctx2 = NUL"
            using read_end [OF assms] e(2) Nil by blast
          then have "holds tx (lexReturnChar NUL (accept ctx2)) [] l1"
            by (simp add: holds_def lexReturnChar_def accept_def)
          with r True Nil show ?thesis by (auto simp: tl ll)
        next
          case (Cons f s2)
          obtain ctx2 where r: "lexReadChar ops ctx1 = (f, ctx2)" "holds tx ctx2 s2 l1"
            "\<not> lx_isEof ctx2" "lx_nextChar ctx2 = NUL" "f \<noteq> NUL"
            using read_char [OF assms] e(2) Cons by blast
          have "length s2 < length s" using len Cons by simp
          from less.hyps [OF this r(2) _ r(5), of "sem @ [d]"] r True Cons show ?thesis
            by (simp add: tl ll fresh_def split: option.splits prod.splits)
        qed
      qed
    qed
  qed
qed

text \<open>What the lexer returns on a text: the reference's token with the text behind it, or an
  error token.\<close>

definition lexes_to ::
  "('f \<Rightarrow> string) \<Rightarrow> (confToken \<times> 'f confCtx) option \<Rightarrow> (confToken \<times> string \<times> int) option \<Rightarrow> bool" where
  "lexes_to tx res spec \<longleftrightarrow> (case spec of
      None \<Rightarrow> (\<exists>tok ctx'. res = Some (tok, ctx') \<and> tok_type tok = TokError)
    | Some (tok, s, l) \<Rightarrow> (\<exists>ctx'. res = Some (tok, ctx') \<and> holds tx ctx' s l))"

lemma lex_loop_text:
  assumes "reads_text ops tx"
  shows "holds tx ctx s l \<Longrightarrow> lexes_to tx (lex_loop ops ctx) (t_lex s l)"
proof (induction "length s" arbitrary: s l ctx rule: less_induct)
  case less
  show ?case
  proof (cases s)
    case Nil
    with read_end [OF assms] less.prems obtain ctx' where
      r: "lexReadChar ops ctx = (NUL, ctx')" "holds tx ctx' [] l" by blast
    then have "lx_line ctx' = l" by (simp add: holds_def)
    with r Nil show ?thesis
      by (subst lex_loop.simps) (simp add: lexes_to_def t_lex.simps)
  next
    case (Cons c s1)
    obtain ctx1 where r: "lexReadChar ops ctx = (c, ctx1)" "holds tx ctx1 s1 l" "\<not> lx_isEof ctx1"
      "lx_nextChar ctx1 = NUL" "c \<noteq> NUL"
      using read_char [OF assms] less.prems Cons by blast
    have line: "lx_line ctx1 = l" using r(2) by (simp add: holds_def)
    consider (space) "c \<in> {CHR '' '', CHR 0x0B, CHR 0x0C, CHR 0x09}"
      | (nl) "c \<notin> {CHR '' '', CHR 0x0B, CHR 0x0C, CHR 0x09}" "c = newline \<or> c = creturn"
      | (cmt) "c = CHR ''#''"
      | (tok) "c \<notin> {CHR '' '', CHR 0x0B, CHR 0x0C, CHR 0x09, CHR ''#'', newline, creturn}"
      by (auto simp: newline_def creturn_def)
    then show ?thesis
    proof cases
      case space
      then have "lex_loop ops ctx = lex_loop ops ctx1"
        using r by (subst lex_loop.simps) simp
      moreover have "t_lex s l = t_lex s1 l"
        using space Cons by (simp add: t_lex.simps(2))
      ultimately show ?thesis using less.hyps [OF _ r(2)] Cons by simp
    next
      case nl
      have "holds tx (inc_line (if c = creturn then skip_lf ops ctx1 else ctx1))
          (if c = creturn then t_skip_lf s1 else s1) (l + 1)"
        using skip_lf_text [OF assms r(2)] r(2) by (auto intro: holds_inc_line)
      moreover from this have "lx_line (inc_line (if c = creturn then skip_lf ops ctx1 else ctx1)) = l + 1"
        by (simp add: holds_def)
      ultimately show ?thesis
        using nl r Cons by (subst lex_loop.simps) (auto simp: lexes_to_def t_lex.simps(2) Let_def)
    next
      case cmt
      then have ns: "c \<notin> {CHR '' '', CHR 0x0B, CHR 0x0C, CHR 0x09}" "c \<noteq> newline" "c \<noteq> creturn"
        by (auto simp: newline_def creturn_def)
      show ?thesis
      proof (cases "t_comment s1 l")
        case None
        then obtain ctx2 where "lexComment ops ctx1 = Some (LexEnd, ctx2)" "holds tx ctx2 [] l"
          using comment_text [OF assms r(2)] by auto
        then show ?thesis
          using r cmt ns Cons None by (subst lex_loop.simps) (simp add: lexes_to_def t_lex.simps(2))
      next
        case (Some q)
        obtain s2 l2 where q: "q = (s2, l2)" by (cases q)
        then obtain ctx2 where c2: "lexComment ops ctx1 = Some (LexNext, ctx2)" "holds tx ctx2 s2 l2"
          using comment_text [OF assms r(2)] Some by auto
        have "length s2 < length s"
          using t_comment_length [of s1 l s2 l2] Some q Cons by simp
        moreover have "lex_loop ops ctx = lex_loop ops ctx2"
          using r cmt ns c2(1) by (subst lex_loop.simps) simp
        moreover have "t_lex s l = t_lex s2 l2"
          using cmt ns Some q Cons by (simp add: t_lex.simps(2))
        ultimately show ?thesis using less.hyps [OF _ c2(2)] by simp
      qed
    next
      case tok
      show ?thesis
      proof (cases "punct_type c")
        case (Some t)
        with r tok Cons line show ?thesis
          by (subst lex_loop.simps) (simp add: lexes_to_def t_lex.simps(2))
      next
        case None
        show ?thesis
        proof (cases "c = CHR 0x22 \<or> c = CHR 0x27")
          case True
          show ?thesis
          proof (cases s1)
            case Nil
            with noeof_text [OF assms r(2)] r tok None True Cons show ?thesis
              by (subst lex_loop.simps) (auto simp: lexes_to_def t_lex.simps(2) fail_tok_def mk_tok_def)
          next
            case (Cons d s2)
            obtain ctx2 where r2: "read_noeof ops ctx1 = (Some d, ctx2)" "holds tx ctx2 s2 l"
              using noeof_text [OF assms r(2)] Cons by auto
            show ?thesis
              using literal_text [OF assms r(5) r2(2), of d "[]"] r r2(1) tok None True Cons \<open>s = c # s1\<close> line
              by (subst lex_loop.simps)
                (cases "t_literal c d [] s2 l"; auto simp: lexes_to_def t_lex.simps(2) fail_tok_def mk_tok_def)
          qed
        next
          case False
          have "fresh ctx1" using r by (simp add: fresh_def)
          then show ?thesis
            using ident_text [OF assms r(2) _ r(5), of "[]"] r tok None False Cons line
            by (subst lex_loop.simps)
              (cases "t_ident c [] s1 l"; auto simp: lexes_to_def t_lex.simps(2) fail_tok_def mk_tok_def)
        qed
      qed
    qed
  qed
qed

lemma confLex_text:
  assumes "reads_text ops tx" and "holds tx ctx s l"
  shows "lexes_to tx (confLex ops ctx) (t_lex s l)"
proof (cases "lx_isEof ctx")
  case True
  then have "s = []" "lx_line ctx = l" using assms(2) by (auto simp: holds_def)
  with True assms(2) show ?thesis by (simp add: confLex_def lexes_to_def t_lex.simps)
next
  case False
  have "holds tx (ctx\<lparr>lx_isAccepted := False\<rparr>) s l"
    using assms(2) by (simp add: holds_def)
  from lex_loop_text [OF assms(1) this] False show ?thesis by (simp add: confLex_def)
qed

lemma confLexInit_text:
  "NUL \<notin> set (tx f) \<Longrightarrow> holds tx (confLexInit True f line) (tx f) 1"
  by (simp add: holds_def confLexInit_def buf_text_def)

section \<open>Quoting\<close>

text \<open>The literal that stands for a string between two quotes.\<close>

fun quote :: "char \<Rightarrow> string \<Rightarrow> string" where
  "quote q [] = []"
| "quote q (c # s) = (if c = backslash \<or> c = q then [backslash, c] else [c]) @ quote q s"

lemma quote_literal:
  assumes "q \<noteq> backslash" and "\<not> lexIsSpace q"
  shows "length (sem @ s) < LEX_STR_MAX \<Longrightarrow> c # r = quote q s @ q # rest \<Longrightarrow>
    t_literal q c sem r l = Some (sem @ s, rest, l)"
proof (induction s arbitrary: c r sem)
  case Nil
  then show ?case by (subst t_literal.simps) simp
next
  case (Cons d s)
  obtain e r' where er: "quote q s @ q # rest = e # r'"
    by (cases "quote q s @ q # rest") auto
  have IH: "t_literal q e (sem @ [d]) r' l = Some ((sem @ [d]) @ s, rest, l)"
    using Cons.prems(1) er by (intro Cons.IH) simp_all
  have len: "\<not> LEX_STR_MAX \<le> length (sem @ [d])" using Cons.prems(1) by simp
  show ?case
  proof (cases "d = backslash \<or> d = q")
    case True
    then have c: "c = backslash" and r: "r = d # e # r'"
      using Cons.prems(2) er by auto
    have "t_str_escape q r l = Some (d, e # r', l)"
      using True r assms by auto
    then show ?thesis
      using IH len c assms(1) by (subst t_literal.simps) simp
  next
    case False
    then have "c = d" "r = e # r'" using Cons.prems(2) er by auto
    then show ?thesis
      using IH len False by (subst t_literal.simps) simp
  qed
qed

lemma t_lex_quoted:
  assumes "q = CHR 0x22 \<or> q = CHR 0x27" and "length s < LEX_STR_MAX"
  shows "t_lex (q # quote q s @ q # rest) l = Some (mk_tok TokLiteral l (Some s), rest, l)"
proof -
  have q: "q \<noteq> backslash" "\<not> lexIsSpace q" "punct_type q = None"
    "q \<notin> {CHR '' '', CHR 0x0B, CHR 0x0C, CHR 0x09, newline, creturn, CHR ''#''}"
    using assms(1) by (auto simp: backslash_def lexIsSpace_def newline_def creturn_def punct_type_def)
  obtain c r where cr: "quote q s @ q # rest = c # r"
    by (cases "quote q s @ q # rest") auto
  have "t_literal q c [] r l = Some (s, rest, l)"
    using quote_literal [OF q(1,2), of "[]" s c r rest l] cr assms(2) by simp
  then show ?thesis
    using q assms(1) by (simp add: t_lex.simps(2) cr)
qed

section \<open>Properties\<close>

text \<open>
  C12: whatever pieces the file is read in, the lexer returns, and its token, the text behind it
  and the line number are those of the lexer on the text; so the tokens of a configuration do
  not depend on where the 512-byte buffers end. Where the reference has no token the lexer
  returns an error token.
\<close>

theorem confLex_reads_text:
  assumes "reads_text ops tx" and "holds tx ctx s l"
  shows "case t_lex s l of
      None \<Rightarrow> \<exists>tok ctx'. confLex ops ctx = Some (tok, ctx') \<and> tok_type tok = TokError
    | Some (tok, s', l') \<Rightarrow> \<exists>ctx'. confLex ops ctx = Some (tok, ctx') \<and> holds tx ctx' s' l'"
  using confLex_text [OF assms] by (simp add: lexes_to_def)

text \<open>A file of two pieces that cut a word.\<close>

definition some_pieces :: "string list confOps" where
  "some_pieces = \<lparr>co_read = (\<lambda>f. case filter (\<lambda>p. p \<noteq> []) f of [] \<Rightarrow> (Some [], []) | p # ps \<Rightarrow> (Some p, ps)),
     co_newLine = (\<lambda>f. ([], f))\<rparr>"

lemma concat_filter_nonempty: "concat (filter (\<lambda>p. p \<noteq> []) ps) = concat ps"
  by (induction ps) auto

lemma some_pieces_text: "reads_text some_pieces concat"
  unfolding reads_text_def
proof (intro allI impI)
  fix f :: "string list"
  have "concat f = concat (filter (\<lambda>p. p \<noteq> []) f)" by (simp add: concat_filter_nonempty)
  moreover have "\<forall>p\<in>set (filter (\<lambda>p. p \<noteq> []) f). p \<noteq> []" by simp
  ultimately show "\<exists>c f'. co_read some_pieces f = (Some c, f') \<and> concat f = c @ concat f' \<and>
      (c = [] \<longrightarrow> concat f = [])"
    by (cases "filter (\<lambda>p. p \<noteq> []) f") (auto simp: some_pieces_def)
qed

lemma t_lex_se_t: "t_lex ''set x'' 1 = Some (mk_tok TokSet 1 (Some ''set''), '' x'', 1)"
  by (simp add: t_lex.simps t_ident.simps newline_def creturn_def punct_type_def lexIsSpace_def
      lexIsToken_def backslash_def keyword_type_def LEX_STR_MAX_def)

theorem confLex_reads_text_witness:
  "\<exists>ctx'. confLex some_pieces (confLexInit True [''se'', ''t x''] []) =
     Some (mk_tok TokSet 1 (Some ''set''), ctx') \<and> holds concat ctx' '' x'' 1"
proof -
  have "holds concat (confLexInit True [''se'', ''t x''] []) ''set x'' 1"
    using confLexInit_text [of concat "[''se'', ''t x'']" "[]"] by (simp add: NUL_def)
  from confLex_reads_text [OF some_pieces_text this] show ?thesis
    by (simp add: t_lex_se_t)
qed

text \<open>
  C13: quoting is inverted. A string of at most 255 characters, written between two quotes with a
  backslash before every backslash and every such quote inside, is read back from a file as a
  literal with exactly that value, and the lexer then stands behind the closing quote.
\<close>

theorem literal_roundtrip:
  assumes "reads_text ops tx" and "holds tx ctx (q # quote q s @ q # rest) l"
    and "q = CHR 0x22 \<or> q = CHR 0x27" and "length s < LEX_STR_MAX"
  shows "\<exists>ctx'. confLex ops ctx = Some (mk_tok TokLiteral l (Some s), ctx') \<and> holds tx ctx' rest l"
  using confLex_text [OF assms(1,2)] t_lex_quoted [OF assms(3,4), of rest l]
  by (simp add: lexes_to_def)

definition quoted_pieces :: "string list" where
  "quoted_pieces = [[CHR 0x22, CHR ''a'', CHR 0x5C], [CHR 0x22, CHR ''b'', CHR 0x22]]"

theorem literal_roundtrip_witness:
  "\<exists>ctx'. confLex some_pieces (confLexInit True quoted_pieces []) =
     Some (mk_tok TokLiteral 1 (Some [CHR ''a'', CHR 0x22, CHR ''b'']), ctx')"
proof -
  have "holds concat (confLexInit True quoted_pieces [])
      (CHR 0x22 # quote CHR 0x22 [CHR ''a'', CHR 0x22, CHR ''b''] @ CHR 0x22 # []) 1"
    using confLexInit_text [of concat quoted_pieces "[]"]
    by (simp add: NUL_def backslash_def quoted_pieces_def)
  from literal_roundtrip [OF some_pieces_text this] show ?thesis
    by (simp add: LEX_STR_MAX_def) blast
qed

end
