(* ===== verification/ConfParse.thy ===== *)
theory ConfParse
  imports ConfLex
begin

text \<open>
  The parser of the boot loader's configuration language
  (source/nexboot/src/conf/parse.c, conf.h).

  The parser is written over an arbitrary lexer \<open>lx\<close>, a step on a lexer state, and
  \<open>NbConfParse\<close> runs it on \<open>confLex\<close>. A list of blocks is the sequence of blocks handed to
  \<open>ListAddBack\<close>. Each routine returns \<open>None\<close> when it dereferences a null pointer or never
  returns, \<open>Some (None, _)\<close> when it returns \<open>NULL\<close>, and \<open>Some (Some _, _)\<close> otherwise. The
  field \<open>lastToken\<close>, which only serves the messages, the messages, and the freeing of tokens and
  blocks are not modelled; allocation is taken to succeed. The destruction of the lexer is modelled:
  its call of \<open>StrRefDestroy\<close> hits the file object when a file is parsed.

  The locale \<open>token_source\<close> is what the parser relies on; it is interpreted on the lexer. The
  lemmas show that the parser returns on every token sequence that comes from a text, and that
  it inverts the printing of blocks.
\<close>

section \<open>Blocks\<close>

datatype confString = StrLiteral string | StrVar string

text \<open>The line of the block and its fields. The value of a variable assignment is \<open>None\<close> when the
  code leaves it as \<open>malloc\<close> returned it.\<close>

datatype confBlock =
    BlockCmd int confString "(int \<times> confString) list"
  | BlockSet int string "confString option"
  | BlockMenu int string "confBlock list"

section \<open>The parser\<close>

type_synonym 's lexer = "'s \<Rightarrow> (confToken \<times> 's) option"
type_synonym ('s, 'a) parsed = "('a option \<times> 's) option"

definition parseToken :: "'s lexer \<Rightarrow> 's \<Rightarrow> ('s, confToken) parsed" where
  "parseToken lx s = do {
     (tok, s) \<leftarrow> lx s;
     Some (if tok_type tok = TokError then None else Some tok, s) }"

definition parseExpect :: "'s lexer \<Rightarrow> tokType \<Rightarrow> 's \<Rightarrow> ('s, confToken) parsed" where
  "parseExpect lx type s = do {
     (tok, s) \<leftarrow> parseToken lx s;
     Some (case tok of None \<Rightarrow> None | Some tok \<Rightarrow> if tok_type tok \<noteq> type then None else Some tok, s) }"

text \<open>A routine's early \<open>return NULL\<close>.\<close>

definition on_tok :: "('s, 'a) parsed \<Rightarrow> ('a \<Rightarrow> 's \<Rightarrow> ('s, 'b) parsed) \<Rightarrow> ('s, 'b) parsed" where
  "on_tok r k = (case r of None \<Rightarrow> None | Some (None, s) \<Rightarrow> Some (None, s) | Some (Some a, s) \<Rightarrow> k a s)"

lemma on_tok_bind:
  "on_tok r k = Option.bind r (\<lambda>p. case fst p of None \<Rightarrow> Some (None, snd p) | Some a \<Rightarrow> k a (snd p))"
  by (auto simp: on_tok_def split: option.splits)

lemma on_tok_mono [partial_function_mono]:
  assumes "mono_option (\<lambda>f. r f)" and "\<And>a s. mono_option (\<lambda>f. k f a s)"
  shows "mono_option (\<lambda>f. on_tok (r f) (k f))"
  unfolding on_tok_bind
proof (rule bind_mono [OF assms(1)])
  fix p
  show "mono_option (\<lambda>f. case fst p of None \<Rightarrow> Some (None, snd p) | Some a \<Rightarrow> k f a (snd p))"
    by (cases "fst p") (simp_all add: assms(2) option.const_mono)
qed

text \<open>The string behind a dollar sign: an opening brace, an identifier, a closing brace. The token
  that is current afterwards is the closing brace.\<close>

definition parseVar :: "'s lexer \<Rightarrow> 's \<Rightarrow> ('s, confString) parsed" where
  "parseVar lx s =
     on_tok (parseExpect lx TokOBrace s) (\<lambda>_ s.
     on_tok (parseExpect lx TokId s) (\<lambda>tok s.
     case tok_semVal tok of None \<Rightarrow> None
     | Some v \<Rightarrow> on_tok (parseExpect lx TokEBrace s) (\<lambda>_ s. Some (Some (StrVar v), s))))"

text \<open>The literal a token's semantic value becomes.\<close>

definition literal_of :: "confToken \<Rightarrow> 's \<Rightarrow> ('s, confString) parsed" where
  "literal_of tok s = (case tok_semVal tok of None \<Rightarrow> None | Some v \<Rightarrow> Some (Some (StrLiteral v), s))"

text \<open>The arguments of a command up to the end of the line; the result is the token there.\<close>

partial_function (option) parseArgs ::
  "'s lexer \<Rightarrow> confToken \<Rightarrow> (int \<times> confString) list \<Rightarrow> 's \<Rightarrow>
   ('s, (int \<times> confString) list \<times> confToken) parsed" where
  "parseArgs lx tok args s =
     (if tok_type tok = TokNewline \<or> tok_type tok = TokEof then Some (Some (args, tok), s)
      else if tok_type tok \<notin> {TokDollar, TokId, TokStr, TokLiteral} then Some (None, s)
      else on_tok (if tok_type tok = TokDollar then parseVar lx s else literal_of tok s) (\<lambda>str s.
        (case parseToken lx s of
           None \<Rightarrow> None
         | Some (None, s) \<Rightarrow> None
         | Some (Some tok', s) \<Rightarrow> parseArgs lx tok' (args @ [(tok_line tok, str)]) s)))"

text \<open>The command with the list \<open>blocks\<close> it is added to; the result is the new list and the token
  that ended the command. The token it starts with is an identifier, a string or a dollar.\<close>

definition parseCmd ::
  "'s lexer \<Rightarrow> confBlock list \<Rightarrow> confToken \<Rightarrow> 's \<Rightarrow> ('s, confBlock list \<times> confToken) parsed" where
  "parseCmd lx blocks tok s =
     on_tok (if tok_type tok = TokDollar then parseVar lx s else literal_of tok s) (\<lambda>cmd s.
     on_tok (parseToken lx s) (\<lambda>tok' s.
     on_tok (parseArgs lx tok' [] s) (\<lambda>(args, tok') s.
       Some (Some (blocks @ [BlockCmd (tok_line tok) cmd args], tok'), s))))"

text \<open>The value in an assignment: the token behind the identifier is not checked for \<open>NULL\<close>, and
  one of another type leaves the value unset.\<close>

definition parseSet ::
  "'s lexer \<Rightarrow> confBlock list \<Rightarrow> 's \<Rightarrow> ('s, confBlock list) parsed" where
  "parseSet lx blocks s =
     on_tok (parseExpect lx TokId s) (\<lambda>id s.
     case tok_semVal id of
       None \<Rightarrow> None
     | Some var \<Rightarrow>
         (case parseToken lx s of
            None \<Rightarrow> None
          | Some (None, s) \<Rightarrow> None
          | Some (Some tok, s) \<Rightarrow>
              if tok_type tok \<in> {TokStr, TokId, TokLiteral} then
                on_tok (literal_of tok s) (\<lambda>val s.
                  Some (Some (blocks @ [BlockSet (tok_line id) var (Some val)]), s))
              else if tok_type tok = TokDollar then
                on_tok (parseVar lx s) (\<lambda>val s.
                  Some (Some (blocks @ [BlockSet (tok_line id) var (Some val)]), s))
              else Some (Some (blocks @ [BlockSet (tok_line id) var None]), s)))"

text \<open>\<open>parseInternal\<close> from the current token on; \<open>insideMenu\<close> is the context's flag, which the
  code sets around the recursion. The result is the list and the ending token. A missing opening
  brace behind the name of a menu entry is reported but not acted upon.\<close>

partial_function (option) parseInternal ::
  "'s lexer \<Rightarrow> tokType \<Rightarrow> confBlock list \<Rightarrow> confToken \<Rightarrow> bool \<Rightarrow> 's \<Rightarrow>
   ('s, confBlock list \<times> confToken) parsed" where
  "parseInternal lx ender blocks tok insideMenu s =
     (if tok_type tok = ender then Some (Some (blocks, tok), s)
      else if tok_type tok \<in> {TokId, TokStr, TokDollar} then
        on_tok (parseCmd lx blocks tok s) (\<lambda>p s.
        on_tok (parseToken lx s) (\<lambda>tok s. parseInternal lx ender (fst p) tok insideMenu s))
      else if tok_type tok = TokSet then
        on_tok (parseSet lx blocks s) (\<lambda>blocks s.
        on_tok (parseToken lx s) (\<lambda>tok s. parseInternal lx ender blocks tok insideMenu s))
      else if tok_type tok = TokMenuEntry \<and> \<not> insideMenu then
        on_tok (parseExpect lx TokId s) (\<lambda>name s.
        (case tok_semVal name of
           None \<Rightarrow> None
         | Some n \<Rightarrow>
             (case parseExpect lx TokOBrace s of
                None \<Rightarrow> None
              | Some (_, s) \<Rightarrow>
                  on_tok (parseToken lx s) (\<lambda>tok s.
                  on_tok (parseInternal lx TokEBrace [] tok True s) (\<lambda>m s.
                  on_tok (parseToken lx s) (\<lambda>tok s.
                    parseInternal lx ender (blocks @ [BlockMenu (tok_line name) n (fst m)]) tok False s))))))
      else if tok_type tok = TokNewline then
        on_tok (parseToken lx s) (\<lambda>tok s. parseInternal lx ender blocks tok insideMenu s)
      else Some (None, s))"

text \<open>The lexer as the parser's token source: its state is the context with what it reads
  from.\<close>

definition conf_lex :: "('f confOps \<times> 'f confCtx) lexer" where
  "conf_lex s = (case s of (ops, ctx) \<Rightarrow> do {
     (tok, ctx) \<leftarrow> confLex ops ctx;
     Some (tok, (ops, ctx)) })"

text \<open>\<open>confLexDestroy\<close> of lex.c: it calls \<open>StrRefDestroy\<close> on \<open>ctx->line\<close>, whatever the context
  reads from. \<open>line\<close> shares its place in the context's union with \<open>confFile\<close>, so the pointer is
  that of the line's \<open>StringRef_t\<close> in a line context and that of the \<open>NbFile_t\<close> in a file context.
  \<open>StrRefDestroy\<close> is not in the repository (libnex): \<open>destroy\<close> stands for it, \<open>None\<close> when it
  faults; what the pointer is, it gets as an argument.\<close>

datatype linePtr = PtrLine | PtrFile

definition confLexDestroy :: "(linePtr \<Rightarrow> 'f \<Rightarrow> 'f option) \<Rightarrow> 'f confCtx \<Rightarrow> 'f confCtx option" where
  "confLexDestroy destroy ctx = do {
     f \<leftarrow> destroy (if cx_isFile ctx then PtrFile else PtrLine) (cx_file ctx);
     Some (ctx\<lparr>cx_file := f\<rparr>) }"

text \<open>The lexer is destroyed when \<open>parseInternal\<close> has returned, with a list or with \<open>NULL\<close>, but
  not when the first token is an error.\<close>

definition NbConfParse ::
  "(linePtr \<Rightarrow> 'f \<Rightarrow> 'f option) \<Rightarrow> 'f confOps \<Rightarrow> bool \<Rightarrow> 'f \<Rightarrow> string \<Rightarrow>
   ('f confOps \<times> 'f confCtx, confBlock list) parsed" where
  "NbConfParse destroy ops isFile f line =
     on_tok (parseToken conf_lex (ops, confLexInit isFile f line)) (\<lambda>tok s. do {
       (res, s) \<leftarrow> parseInternal conf_lex TokEof [] tok False s;
       ctx \<leftarrow> confLexDestroy destroy (snd s);
       Some (map_option fst res, (fst s, ctx)) })"

section \<open>The token source\<close>

text \<open>\<open>yields s ts\<close>: the lexer in the state \<open>s\<close> returns the tokens \<open>ts\<close> next, none of them an
  error.\<close>

locale token_source =
  fixes lx :: "'s lexer"
    and yields :: "'s \<Rightarrow> confToken list \<Rightarrow> bool"
  assumes next_token: "yields s (t # ts) \<Longrightarrow> \<exists>s'. lx s = Some (t, s') \<and> yields s' ts"
    and no_error: "yields s (t # ts) \<Longrightarrow> tok_type t \<noteq> TokError"
begin

lemma token:
  assumes "yields s (t # ts)"
  shows "\<exists>s'. parseToken lx s = Some (Some t, s') \<and> yields s' ts"
  using next_token [OF assms] no_error [OF assms] by (auto simp: parseToken_def)

lemma expect:
  assumes "yields s (t # ts)" and "tok_type t = type"
  shows "\<exists>s'. parseExpect lx type s = Some (Some t, s') \<and> yields s' ts"
  using token [OF assms(1)] assms(2) by (auto simp: parseExpect_def)

end

section \<open>Printing blocks\<close>

text \<open>The tokens of a string in an argument or value, of a command's name, and of a block, on the
  line the block records.\<close>

definition var_toks :: "int \<Rightarrow> string \<Rightarrow> confToken list" where
  "var_toks l v = [mk_tok TokOBrace l None, mk_tok TokId l (Some v), mk_tok TokEBrace l None]"

fun str_toks :: "tokType \<Rightarrow> int \<Rightarrow> confString \<Rightarrow> confToken list" where
  "str_toks t l (StrLiteral s) = [mk_tok t l (Some s)]"
| "str_toks t l (StrVar v) = mk_tok TokDollar l None # var_toks l v"

fun arg_toks :: "(int \<times> confString) list \<Rightarrow> confToken list" where
  "arg_toks [] = []"
| "arg_toks ((l, a) # args) = str_toks TokLiteral l a @ arg_toks args"

definition nl_tok :: "int \<Rightarrow> confToken" where
  "nl_tok l = mk_tok TokNewline (l + 1) None"

fun block_toks :: "confBlock \<Rightarrow> confToken list" where
  "block_toks (BlockCmd l cmd args) = str_toks TokId l cmd @ arg_toks args @ [nl_tok l]"
| "block_toks (BlockSet l var (Some val)) =
     [mk_tok TokSet l (Some ''set''), mk_tok TokId l (Some var)] @ str_toks TokLiteral l val @ [nl_tok l]"
| "block_toks (BlockSet l var None) = []"
| "block_toks (BlockMenu l name bs) =
     [mk_tok TokMenuEntry l (Some ''menuentry''), mk_tok TokId l (Some name), mk_tok TokOBrace l None] @
     concat (map block_toks bs) @
     [mk_tok TokEBrace (l + int (length bs)) None, nl_tok (l + int (length bs))]"

text \<open>Blocks that can be written: values are set, and menu entries are not nested.\<close>

fun plain_block :: "confBlock \<Rightarrow> bool" where
  "plain_block (BlockCmd l cmd args) = True"
| "plain_block (BlockSet l var val) = (val \<noteq> None)"
| "plain_block (BlockMenu l name bs) = False"

fun writable :: "confBlock \<Rightarrow> bool" where
  "writable (BlockMenu l name bs) = list_all plain_block bs"
| "writable b = plain_block b"

lemma on_tok_simps [simp]:
  "on_tok (Some (Some a, s)) k = k a s"
  "on_tok (Some (None, s)) k = Some (None, s)"
  by (simp_all add: on_tok_def)

lemma mk_tok_simps [simp]:
  "tok_type (mk_tok t l v) = t" "tok_line (mk_tok t l v) = l" "tok_semVal (mk_tok t l v) = v"
  by (simp_all add: mk_tok_def)

context token_source begin

lemma parse_var:
  assumes "yields s (var_toks l v @ ts)"
  shows "\<exists>s'. parseVar lx s = Some (Some (StrVar v), s') \<and> yields s' ts"
proof -
  have "yields s (mk_tok TokOBrace l None # mk_tok TokId l (Some v) # mk_tok TokEBrace l None # ts)"
    using assms by (simp add: var_toks_def)
  from expect [OF this] obtain s1 where
    1: "parseExpect lx TokOBrace s = Some (Some (mk_tok TokOBrace l None), s1)"
    "yields s1 (mk_tok TokId l (Some v) # mk_tok TokEBrace l None # ts)"
    by auto
  obtain s2 where 2: "parseExpect lx TokId s1 = Some (Some (mk_tok TokId l (Some v)), s2)"
    "yields s2 (mk_tok TokEBrace l None # ts)"
    using expect [OF 1(2)] by auto
  obtain s3 where 3: "parseExpect lx TokEBrace s2 = Some (Some (mk_tok TokEBrace l None), s3)"
    "yields s3 ts"
    using expect [OF 2(2)] by auto
  from 1 2 3 show ?thesis by (simp add: parseVar_def)
qed

text \<open>A string from its first token on, in the three places where one is read.\<close>

lemma parse_str:
  assumes "str_toks t l a = tok # ts1" and "yields s (ts1 @ ts)" and "t \<noteq> TokDollar"
  shows "\<exists>s'. (if tok_type tok = TokDollar then parseVar lx s else literal_of tok s) =
    Some (Some a, s') \<and> yields s' ts"
  using assms parse_var [of s l _ ts] by (cases a) (auto simp: literal_of_def)

lemma str_toks_type:
  "str_toks t l a = tok # ts1 \<Longrightarrow> tok_type tok = (case a of StrLiteral _ \<Rightarrow> t | StrVar _ \<Rightarrow> TokDollar) \<and>
     tok_line tok = l"
  by (cases a) auto

lemma str_toks_Cons: "\<exists>tok ts1. str_toks t l a = tok # ts1"
  by (cases a) auto

lemma parse_args:
  assumes "tok_type e = TokNewline"
  shows "yields s ts1 \<Longrightarrow> tok # ts1 = arg_toks args @ e # ts \<Longrightarrow>
    \<exists>s'. parseArgs lx tok acc s = Some (Some (acc @ args, e), s') \<and> yields s' ts"
proof (induction args arbitrary: tok ts1 acc s)
  case Nil
  then show ?case using assms by (simp add: parseArgs.simps [of lx e])
next
  case (Cons a args)
  obtain l str where a: "a = (l, str)" by (cases a)
  obtain tok0 us where toks: "str_toks TokLiteral l str = tok0 # us"
    using str_toks_Cons by blast
  obtain t2 vs where rest: "arg_toks args @ e # ts = t2 # vs"
    by (cases "arg_toks args @ e # ts") auto
  have tok: "tok = tok0" and y: "yields s (us @ t2 # vs)"
    using Cons.prems toks rest by (simp_all add: a)
  have type: "tok_type tok \<in> {TokDollar, TokLiteral}" "tok_line tok = l"
    using str_toks_type [OF toks] tok by (auto split: confString.splits)
  obtain s1 where 1: "(if tok_type tok = TokDollar then parseVar lx s else literal_of tok s) =
      Some (Some str, s1)" "yields s1 (t2 # vs)"
    using parse_str [OF toks y] tok by auto
  obtain s2 where 2: "parseToken lx s1 = Some (Some t2, s2)" "yields s2 vs"
    using token [OF 1(2)] by blast
  have "parseArgs lx tok acc s = parseArgs lx t2 (acc @ [(l, str)]) s2"
    using 1 2 type by (subst parseArgs.simps) auto
  with Cons.IH [OF 2(2) rest [symmetric], of "acc @ [(l, str)]"] show ?case by (simp add: a)
qed

lemma parse_cmd:
  assumes "yields s ts1" and "tok # ts1 = block_toks (BlockCmd l cmd args) @ ts"
  shows "\<exists>s'. parseCmd lx blocks tok s = Some (Some (blocks @ [BlockCmd l cmd args], nl_tok l), s') \<and>
    yields s' ts"
proof -
  obtain tok0 us where toks: "str_toks TokId l cmd = tok0 # us"
    using str_toks_Cons by blast
  obtain t2 vs where rest: "arg_toks args @ nl_tok l # ts = t2 # vs"
    by (cases "arg_toks args @ nl_tok l # ts") auto
  have tok: "tok = tok0" and y: "yields s (us @ t2 # vs)"
    using assms toks rest by simp_all
  obtain s1 where 1: "(if tok_type tok = TokDollar then parseVar lx s else literal_of tok s) =
      Some (Some cmd, s1)" "yields s1 (t2 # vs)"
    using parse_str [OF toks y] tok by auto
  obtain s2 where 2: "parseToken lx s1 = Some (Some t2, s2)" "yields s2 vs"
    using token [OF 1(2)] by blast
  obtain s3 where 3: "parseArgs lx t2 [] s2 = Some (Some (args, nl_tok l), s3)" "yields s3 ts"
    using parse_args [OF _ 2(2) rest [symmetric], of "[]"] by (auto simp: nl_tok_def)
  have "tok_line tok = l" using str_toks_type [OF toks] tok by simp
  with 1(1) 2(1) 3 show ?thesis by (simp add: parseCmd_def)
qed

lemma parse_set:
  assumes "yields s (mk_tok TokId l (Some var) # str_toks TokLiteral l val @ ts)"
  shows "\<exists>s'. parseSet lx blocks s = Some (Some (blocks @ [BlockSet l var (Some val)]), s') \<and> yields s' ts"
proof -
  obtain s1 where 1: "parseExpect lx TokId s = Some (Some (mk_tok TokId l (Some var)), s1)"
    "yields s1 (str_toks TokLiteral l val @ ts)"
    using expect [OF assms] by auto
  obtain tok us where toks: "str_toks TokLiteral l val = tok # us"
    using str_toks_Cons by blast
  obtain s2 where 2: "parseToken lx s1 = Some (Some tok, s2)" "yields s2 (us @ ts)"
    using token [of s1 tok] 1(2) toks by auto
  obtain s3 where 3: "(if tok_type tok = TokDollar then parseVar lx s2 else literal_of tok s2) =
      Some (Some val, s3)" "yields s3 ts"
    using parse_str [OF toks 2(2)] by auto
  show ?thesis
    using 1(1) 2(1) 3 str_toks_type [OF toks]
    by (auto simp: parseSet_def split: confString.splits)
qed

end

context token_source begin

text \<open>One block, up to the token behind its line end.\<close>

lemma parse_plain:
  assumes "plain_block b" and "yields s ts1" and "tok # ts1 = block_toks b @ t # ts"
    and "ender = TokEof \<or> ender = TokEBrace"
  shows "\<exists>s'. parseInternal lx ender blocks tok inside s = parseInternal lx ender (blocks @ [b]) t inside s' \<and>
    yields s' ts"
proof (cases b)
  case (BlockCmd l cmd args)
  obtain s1 where 1: "parseCmd lx blocks tok s = Some (Some (blocks @ [b], nl_tok l), s1)" "yields s1 (t # ts)"
    using parse_cmd [OF assms(2), of tok l cmd args "t # ts" blocks] assms(3) BlockCmd by auto
  obtain s2 where 2: "parseToken lx s1 = Some (Some t, s2)" "yields s2 ts"
    using token [OF 1(2)] by blast
  obtain tok0 us where toks: "str_toks TokId l cmd = tok0 # us"
    using str_toks_Cons by blast
  have "tok_type tok = TokId \<or> tok_type tok = TokDollar"
    using str_toks_type [OF toks] assms(3) toks BlockCmd by (auto split: confString.splits)
  then have "parseInternal lx ender blocks tok inside s = parseInternal lx ender (blocks @ [b]) t inside s2"
    using 1(1) 2(1) assms(4) by (subst parseInternal.simps) auto
  with 2(2) show ?thesis by blast
next
  case (BlockSet l var v)
  then obtain val where v: "v = Some val" using assms(1) by auto
  have tok: "tok = mk_tok TokSet l (Some ''set'')"
    and y: "yields s (mk_tok TokId l (Some var) # str_toks TokLiteral l val @ (nl_tok l # t # ts))"
    using assms(2,3) BlockSet v by auto
  obtain s1 where 1: "parseSet lx blocks s = Some (Some (blocks @ [b]), s1)" "yields s1 (nl_tok l # t # ts)"
    using parse_set [OF y, of blocks] BlockSet v by auto
  obtain s2 where 2: "parseToken lx s1 = Some (Some (nl_tok l), s2)" "yields s2 (t # ts)"
    using token [OF 1(2)] by blast
  obtain s3 where 3: "parseToken lx s2 = Some (Some t, s3)" "yields s3 ts"
    using token [OF 2(2)] by blast
  have "parseInternal lx ender blocks tok inside s = parseInternal lx ender (blocks @ [b]) (nl_tok l) inside s2"
    using 1(1) 2(1) assms(4) tok by (subst parseInternal.simps) auto
  also have "\<dots> = parseInternal lx ender (blocks @ [b]) t inside s3"
    using 3(1) assms(4) by (subst parseInternal.simps) (auto simp: nl_tok_def)
  finally show ?thesis using 3(2) by blast
next
  case BlockMenu
  with assms(1) show ?thesis by simp
qed

lemma parse_plains:
  assumes "ender = TokEof \<or> ender = TokEBrace" and "tok_type e = ender"
  shows "list_all plain_block bs \<Longrightarrow> yields s ts1 \<Longrightarrow> tok # ts1 = concat (map block_toks bs) @ e # ts \<Longrightarrow>
    \<exists>s'. parseInternal lx ender blocks tok inside s = Some (Some (blocks @ bs, e), s') \<and> yields s' ts"
proof (induction bs arbitrary: tok ts1 blocks s)
  case Nil
  then show ?case using assms by (simp add: parseInternal.simps [of lx _ _ e])
next
  case (Cons b bs)
  obtain t vs where t: "concat (map block_toks bs) @ e # ts = t # vs"
    by (cases "concat (map block_toks bs) @ e # ts") auto
  obtain s1 where 1: "parseInternal lx ender blocks tok inside s =
      parseInternal lx ender (blocks @ [b]) t inside s1" "yields s1 vs"
    using parse_plain [of b s ts1 tok t vs ender blocks inside] Cons.prems assms(1) t by auto
  obtain s2 where "parseInternal lx ender (blocks @ [b]) t inside s1 =
      Some (Some ((blocks @ [b]) @ bs, e), s2)" "yields s2 ts"
    using Cons.IH [OF _ 1(2) t [symmetric], of "blocks @ [b]"] Cons.prems(1) by auto
  with 1(1) show ?case by auto
qed

lemma parse_menu:
  assumes "list_all plain_block bs" and "yields s ts1"
    and "tok # ts1 = block_toks (BlockMenu l name bs) @ t # ts" and "ender = TokEof"
  shows "\<exists>s'. parseInternal lx ender blocks tok False s =
      parseInternal lx ender (blocks @ [BlockMenu l name bs]) t False s' \<and> yields s' ts"
proof -
  let ?l = "l + int (length bs)"
  let ?e = "mk_tok TokEBrace ?l None"
  obtain t1 vs where t1: "concat (map block_toks bs) @ ?e # nl_tok ?l # t # ts = t1 # vs"
    by (cases "concat (map block_toks bs) @ ?e # nl_tok ?l # t # ts") auto
  have tok: "tok = mk_tok TokMenuEntry l (Some ''menuentry'')"
    and y: "yields s (mk_tok TokId l (Some name) # mk_tok TokOBrace l None # t1 # vs)"
    using assms(2,3) t1 by auto
  obtain s1 where 1: "parseExpect lx TokId s = Some (Some (mk_tok TokId l (Some name)), s1)"
    "yields s1 (mk_tok TokOBrace l None # t1 # vs)"
    using expect [OF y] by auto
  obtain s2 where 2: "parseExpect lx TokOBrace s1 = Some (Some (mk_tok TokOBrace l None), s2)"
    "yields s2 (t1 # vs)"
    using expect [OF 1(2)] by auto
  obtain s3 where 3: "parseToken lx s2 = Some (Some t1, s3)" "yields s3 vs"
    using token [OF 2(2)] by blast
  obtain s4 where 4: "parseInternal lx TokEBrace [] t1 True s3 = Some (Some (bs, ?e), s4)"
    "yields s4 (nl_tok ?l # t # ts)"
    using parse_plains [OF _ _ assms(1) 3(2) t1 [symmetric], of TokEBrace "[]" True] by auto
  obtain s5 where 5: "parseToken lx s4 = Some (Some (nl_tok ?l), s5)" "yields s5 (t # ts)"
    using token [OF 4(2)] by blast
  obtain s6 where 6: "parseToken lx s5 = Some (Some t, s6)" "yields s6 ts"
    using token [OF 5(2)] by blast
  let ?b = "BlockMenu l name bs"
  have "parseInternal lx ender blocks tok False s = parseInternal lx ender (blocks @ [?b]) (nl_tok ?l) False s5"
    using 1(1) 2(1) 3(1) 4(1) 5(1) tok assms(4) by (subst parseInternal.simps) simp
  also have "\<dots> = parseInternal lx ender (blocks @ [?b]) t False s6"
    using 6(1) assms(4) by (subst parseInternal.simps) (simp add: nl_tok_def)
  finally show ?thesis using 6(2) by blast
qed

lemma parse_blocks:
  assumes "tok_type e = TokEof"
  shows "list_all writable bs \<Longrightarrow> yields s ts1 \<Longrightarrow> tok # ts1 = concat (map block_toks bs) @ e # ts \<Longrightarrow>
    \<exists>s'. parseInternal lx TokEof blocks tok False s = Some (Some (blocks @ bs, e), s') \<and> yields s' ts"
proof (induction bs arbitrary: tok ts1 blocks s)
  case Nil
  then show ?case using assms by (simp add: parseInternal.simps [of lx _ _ e])
next
  case (Cons b bs)
  obtain t vs where t: "concat (map block_toks bs) @ e # ts = t # vs"
    by (cases "concat (map block_toks bs) @ e # ts") auto
  have toks: "tok # ts1 = block_toks b @ t # vs" using Cons.prems(3) t by simp
  have "\<exists>s1. parseInternal lx TokEof blocks tok False s =
      parseInternal lx TokEof (blocks @ [b]) t False s1 \<and> yields s1 vs"
  proof (cases b)
    case (BlockMenu l name ms)
    then show ?thesis
      using parse_menu [of ms s ts1 tok l name t vs TokEof blocks] Cons.prems toks by auto
  qed (use parse_plain [of b s ts1 tok t vs TokEof blocks False] Cons.prems toks in auto)
  then obtain s1 where 1: "parseInternal lx TokEof blocks tok False s =
      parseInternal lx TokEof (blocks @ [b]) t False s1" "yields s1 vs" by blast
  obtain s2 where "parseInternal lx TokEof (blocks @ [b]) t False s1 =
      Some (Some ((blocks @ [b]) @ bs, e), s2)" "yields s2 ts"
    using Cons.IH [OF _ 1(2) t [symmetric], of "blocks @ [b]"] Cons.prems(1) by auto
  with 1(1) show ?case by auto
qed

end

section \<open>The lexer is a token source\<close>

text \<open>The tokens of a text.\<close>

fun text_toks :: "string \<Rightarrow> int \<Rightarrow> confToken list \<Rightarrow> bool" where
  "text_toks s l [] = True"
| "text_toks s l (t # ts) =
     (case t_lex s l of None \<Rightarrow> False
      | Some (t', s', l') \<Rightarrow> t' = t \<and> tok_type t \<noteq> TokError \<and> text_toks s' l' ts)"

definition conf_yields :: "('f confOps \<times> 'f confCtx) \<Rightarrow> confToken list \<Rightarrow> bool" where
  "conf_yields s ts \<longleftrightarrow> (case s of (ops, ctx) \<Rightarrow>
     \<exists>tx str l. reads_text ops tx \<and> holds tx ctx str l \<and> text_toks str l ts)"

interpretation conf: token_source conf_lex conf_yields
proof
  fix s :: "'f confOps \<times> 'f confCtx" and t ts
  assume y: "conf_yields s (t # ts)"
  obtain ops ctx where s: "s = (ops, ctx)" by (cases s)
  obtain tx str l str' l' where tx: "reads_text ops tx" and h: "holds tx ctx str l"
    and t: "t_lex str l = Some (t, str', l')" "tok_type t \<noteq> TokError" "text_toks str' l' ts"
    using y by (auto simp: conf_yields_def s split: option.splits prod.splits)
  obtain ctx' where "confLex ops ctx = Some (t, ctx')" "holds tx ctx' str' l'"
    using confLex_text [OF tx h] t(1) by (auto simp: lexes_to_def)
  then show "\<exists>s'. conf_lex s = Some (t, s') \<and> conf_yields s' ts"
    using tx t(3) by (auto simp: conf_lex_def conf_yields_def s)
  show "tok_type t \<noteq> TokError" by (rule t(2))
qed

section \<open>Writing blocks as text\<close>

definition valid_name :: "string \<Rightarrow> bool" where
  "valid_name w \<longleftrightarrow> w \<noteq> [] \<and> length w < LEX_STR_MAX \<and> hd w \<noteq> CHR ''#'' \<and> w \<noteq> ''set'' \<and>
     w \<noteq> ''menuentry'' \<and> list_all (\<lambda>c. \<not> lexIsSpace c \<and> \<not> lexIsToken c \<and> c \<noteq> backslash \<and> c \<noteq> NUL) w"

fun render_str :: "confString \<Rightarrow> string" where
  "render_str (StrLiteral s) = CHR 0x22 # quote CHR 0x22 s @ [CHR 0x22]"
| "render_str (StrVar v) = ''${'' @ v @ ''}''"

fun render_head :: "confString \<Rightarrow> string" where
  "render_head (StrLiteral s) = s"
| "render_head (StrVar v) = render_str (StrVar v)"

fun render_args :: "(int \<times> confString) list \<Rightarrow> string" where
  "render_args [] = []"
| "render_args ((l, a) # args) = CHR '' '' # render_str a @ render_args args"

fun render :: "confBlock \<Rightarrow> string" where
  "render (BlockCmd l cmd args) = render_head cmd @ render_args args @ [newline]"
| "render (BlockSet l var (Some val)) = ''set '' @ var @ '' '' @ render_str val @ [newline]"
| "render (BlockSet l var None) = []"
| "render (BlockMenu l name bs) = ''menuentry '' @ name @ '' {'' @ concat (map render bs) @ ''}'' @ [newline]"

text \<open>The strings a text can hold, and blocks whose lines are those of the text from line \<open>l\<close>
  on.\<close>

fun valid_str :: "confString \<Rightarrow> bool" where
  "valid_str (StrLiteral s) = (length s < LEX_STR_MAX \<and> NUL \<notin> set s)"
| "valid_str (StrVar v) = valid_name v"

fun valid_head :: "confString \<Rightarrow> bool" where
  "valid_head (StrLiteral s) = valid_name s"
| "valid_head (StrVar v) = valid_name v"

fun valid_block :: "int \<Rightarrow> confBlock \<Rightarrow> bool" where
  "valid_block l (BlockCmd l' cmd args) =
     (l' = l \<and> valid_head cmd \<and> list_all (\<lambda>(l', a). l' = l \<and> valid_str a) args)"
| "valid_block l (BlockSet l' var val) =
     (l' = l \<and> valid_name var \<and> (case val of None \<Rightarrow> False | Some v \<Rightarrow> valid_str v))"
| "valid_block l (BlockMenu l' name bs) = False"

fun valid_plains :: "int \<Rightarrow> confBlock list \<Rightarrow> bool" where
  "valid_plains l [] = True"
| "valid_plains l (b # bs) = (valid_block l b \<and> valid_plains (l + 1) bs)"

fun block_lines :: "confBlock \<Rightarrow> int" where
  "block_lines (BlockMenu l name bs) = int (length bs) + 1"
| "block_lines b = 1"

fun valid_blocks :: "int \<Rightarrow> confBlock list \<Rightarrow> bool" where
  "valid_blocks l [] = True"
| "valid_blocks l (b # bs) =
     ((case b of BlockMenu l' name ms \<Rightarrow> l' = l \<and> valid_name name \<and> valid_plains l ms
       | _ \<Rightarrow> valid_block l b) \<and> valid_blocks (l + block_lines b) bs)"

text \<open>\<open>lexes s l ts s' l'\<close>: the tokens \<open>ts\<close> lead from one place of the text to the other.\<close>

fun lexes :: "string \<Rightarrow> int \<Rightarrow> confToken list \<Rightarrow> string \<Rightarrow> int \<Rightarrow> bool" where
  "lexes s l [] s' l' = (s = s' \<and> l = l')"
| "lexes s l (t # ts) s' l' =
     (case t_lex s l of None \<Rightarrow> False
      | Some (t', s1, l1) \<Rightarrow> t' = t \<and> tok_type t \<noteq> TokError \<and> lexes s1 l1 ts s' l')"

lemma lexes_append: "lexes s l ts s1 l1 \<Longrightarrow> lexes s1 l1 us s2 l2 \<Longrightarrow> lexes s l (ts @ us) s2 l2"
  by (induction ts arbitrary: s l) (auto split: option.splits prod.splits)

lemma lexes_text_toks: "lexes s l ts s1 l1 \<Longrightarrow> text_toks s1 l1 us \<Longrightarrow> text_toks s l (ts @ us)"
  by (induction ts arbitrary: s l) (auto split: option.splits prod.splits)

text \<open>The characters of the rendering.\<close>

lemma char_facts [simp]:
  "lexIsSpace CHR '' ''" "\<not> lexIsSpace CHR 0x22" "\<not> lexIsToken CHR '' ''"
  "lexIsToken CHR ''$''" "lexIsToken CHR ''{''" "lexIsToken CHR ''}''" "lexIsToken CHR 0x22"
  by (simp_all add: lexIsSpace_def lexIsToken_def newline_def creturn_def)

lemma t_lex_space [simp]: "t_lex (CHR '' '' # s) l = t_lex s l"
  by (simp add: t_lex.simps(2))

lemma t_lex_newline [simp]: "t_lex (newline # s) l = Some (nl_tok l, s, l + 1)"
  by (simp add: t_lex.simps(2) nl_tok_def) (simp add: newline_def)

lemma t_lex_punct [simp]:
  "t_lex (CHR ''$'' # s) l = Some (mk_tok TokDollar l None, s, l)"
  "t_lex (CHR ''{'' # s) l = Some (mk_tok TokOBrace l None, s, l)"
  "t_lex (CHR ''}'' # s) l = Some (mk_tok TokEBrace l None, s, l)"
  by (simp_all add: t_lex.simps(2) newline_def creturn_def punct_type_def)

lemma t_ident_word:
  assumes "lexIsSpace d \<or> lexIsToken d"
  shows "list_all (\<lambda>c. \<not> lexIsSpace c \<and> \<not> lexIsToken c \<and> c \<noteq> backslash \<and> c \<noteq> NUL) (c # w) \<Longrightarrow>
    length (sem @ c # w) < LEX_STR_MAX \<Longrightarrow>
    t_ident c sem (w @ d # s) l = Some (sem @ c # w, d # s, l)"
proof (induction w arbitrary: c sem)
  case Nil
  then show ?case using assms by (subst t_ident.simps, subst t_ident.simps) simp
next
  case (Cons e w)
  have "t_ident e (sem @ [c]) (w @ d # s) l = Some ((sem @ [c]) @ e # w, d # s, l)"
    using Cons.prems by (intro Cons.IH) simp_all
  then show ?case using Cons.prems by (subst t_ident.simps) simp
qed

text \<open>Words, keywords included.\<close>

lemma t_lex_word:
  assumes "w \<noteq> []" "length w < LEX_STR_MAX" "hd w \<noteq> CHR ''#''"
    "list_all (\<lambda>c. \<not> lexIsSpace c \<and> \<not> lexIsToken c \<and> c \<noteq> backslash \<and> c \<noteq> NUL) w"
    and "lexIsSpace d \<or> lexIsToken d"
  shows "t_lex (w @ d # s) l = Some (mk_tok (keyword_type w) l (Some w), d # s, l)"
proof -
  obtain c v where w: "w = c # v" using assms(1) by (cases w) auto
  have id: "t_ident c [] (v @ d # s) l = Some (c # v, d # s, l)"
    using t_ident_word [OF assms(5), of c v "[]"] assms(2,4) w by simp
  have c: "\<not> lexIsSpace c" "\<not> lexIsToken c" "c \<noteq> CHR ''#''"
    using assms(3,4) w by auto
  then have "punct_type c = None" "c \<noteq> CHR 0x22" "c \<noteq> CHR 0x27"
    "c \<notin> {CHR '' '', CHR 0x0B, CHR 0x0C, CHR 0x09, newline, creturn}"
    by (auto simp: punct_type_def lexIsToken_def lexIsSpace_def)
  with c id show ?thesis by (simp add: t_lex.simps(2) w)
qed

lemma t_lex_name:
  "valid_name w \<Longrightarrow> lexIsSpace d \<or> lexIsToken d \<Longrightarrow>
   t_lex (w @ d # s) l = Some (mk_tok TokId l (Some w), d # s, l)"
  by (simp add: t_lex_word valid_name_def keyword_type_def)

lemma t_lex_set: "t_lex (''set '' @ s) l = Some (mk_tok TokSet l (Some ''set''), CHR '' '' # s, l)"
  using t_lex_word [of "''set''" "CHR '' ''" s l]
  by (simp add: LEX_STR_MAX_def keyword_type_def lexIsSpace_def lexIsToken_def newline_def
      creturn_def backslash_def NUL_def)

lemma t_lex_menuentry:
  "t_lex (''menuentry '' @ s) l = Some (mk_tok TokMenuEntry l (Some ''menuentry''), CHR '' '' # s, l)"
  using t_lex_word [of "''menuentry''" "CHR '' ''" s l]
  by (simp add: LEX_STR_MAX_def keyword_type_def lexIsSpace_def lexIsToken_def newline_def
      creturn_def backslash_def NUL_def)

lemma str_lexes:
  assumes "valid_str a"
  shows "lexes (render_str a @ rest) l (str_toks TokLiteral l a) rest l"
proof (cases a)
  case (StrLiteral s)
  then show ?thesis
    using assms t_lex_quoted [of "CHR 0x22" s rest l] by simp
next
  case (StrVar v)
  then show ?thesis
    using assms t_lex_name [of v "CHR ''}''" rest l] by (simp add: var_toks_def)
qed

lemma head_lexes:
  assumes "valid_head a" and "lexIsSpace d"
  shows "lexes (render_head a @ d # rest) l (str_toks TokId l a) (d # rest) l"
proof (cases a)
  case (StrLiteral s)
  then show ?thesis using assms t_lex_name [of s d rest l] by simp
next
  case (StrVar v)
  then show ?thesis
    using assms t_lex_name [of v "CHR ''}''" "d # rest" l] by (simp add: var_toks_def)
qed

lemma lexes_space [simp]: "ts \<noteq> [] \<Longrightarrow> lexes (CHR '' '' # s) l ts s' l' = lexes s l ts s' l'"
  by (cases ts) auto

lemma str_toks_nonempty [simp]: "str_toks t l a \<noteq> []"
  by (cases a) auto

lemma args_lexes:
  "list_all (\<lambda>(l', a). l' = l \<and> valid_str a) args \<Longrightarrow>
   lexes (render_args args @ newline # rest) l (arg_toks args @ [nl_tok l]) rest (l + 1)"
proof (induction args)
  case Nil
  then show ?case by (simp add: nl_tok_def)
next
  case (Cons x args)
  obtain a where x: "x = (l, a)" "valid_str a" using Cons.prems by (cases x) auto
  have "lexes (render_str a @ render_args args @ newline # rest) l (str_toks TokLiteral l a)
      (render_args args @ newline # rest) l"
    by (rule str_lexes [OF x(2)])
  then have "lexes (render_str a @ render_args args @ newline # rest) l
      (str_toks TokLiteral l a @ arg_toks args @ [nl_tok l]) rest (l + 1)"
    by (rule lexes_append) (use Cons in auto)
  then show ?case by (simp add: x)
qed

lemma args_start: "\<exists>d r. lexIsSpace d \<and> render_args args @ newline # rest = d # r"
  by (cases args rule: render_args.cases) auto

lemma block_lexes:
  assumes "valid_block l b"
  shows "lexes (render b @ rest) l (block_toks b) rest (l + 1)"
proof (cases b)
  case (BlockCmd l' cmd args)
  obtain d r where d: "lexIsSpace d" "render_args args @ newline # rest = d # r"
    using args_start by blast
  have "lexes (render_head cmd @ d # r) l (str_toks TokId l cmd) (d # r) l"
    using assms BlockCmd d(1) by (intro head_lexes) auto
  moreover have "lexes (d # r) l (arg_toks args @ [nl_tok l]) rest (l + 1)"
    using args_lexes [of l args rest] assms BlockCmd d(2) by auto
  ultimately show ?thesis
    using lexes_append [of "render_head cmd @ d # r" l "str_toks TokId l cmd"] assms BlockCmd d(2) by auto
next
  case (BlockSet l' var v)
  then obtain val where v: "v = Some val" "valid_str val" "l' = l" "valid_name var"
    using assms by (auto split: option.splits)
  have "lexes (render_str val @ newline # rest) l (str_toks TokLiteral l val) (newline # rest) l"
    by (rule str_lexes [OF v(2)])
  then have "lexes (render_str val @ newline # rest) l (str_toks TokLiteral l val @ [nl_tok l]) rest (l + 1)"
    by (rule lexes_append) (simp add: nl_tok_def)
  then have "lexes (var @ CHR '' '' # render_str val @ newline # rest) l
      (mk_tok TokId l (Some var) # str_toks TokLiteral l val @ [nl_tok l]) rest (l + 1)"
    using t_lex_name [OF v(4), of "CHR '' ''"] by simp
  then show ?thesis
    using t_lex_set [of "var @ CHR '' '' # render_str val @ newline # rest" l] BlockSet v by simp
next
  case BlockMenu
  with assms show ?thesis by simp
qed

lemma plains_lexes:
  "valid_plains l bs \<Longrightarrow>
   lexes (concat (map render bs) @ rest) l (concat (map block_toks bs)) rest (l + int (length bs))"
proof (induction bs arbitrary: l)
  case Nil
  then show ?case by simp
next
  case (Cons b bs)
  have "lexes (render b @ concat (map render bs) @ rest) l (block_toks b)
      (concat (map render bs) @ rest) (l + 1)"
    using Cons.prems by (intro block_lexes) simp
  moreover have "lexes (concat (map render bs) @ rest) (l + 1) (concat (map block_toks bs)) rest
      (l + 1 + int (length bs))"
    using Cons by simp
  ultimately show ?case
    using lexes_append by (fastforce simp: add.assoc)
qed

lemma menu_lexes:
  assumes "valid_name name" and "valid_plains l ms"
  shows "lexes (render (BlockMenu l name ms) @ rest) l (block_toks (BlockMenu l name ms)) rest
    (l + int (length ms) + 1)"
proof -
  let ?l = "l + int (length ms)"
  have "lexes (concat (map render ms) @ CHR ''}'' # newline # rest) l
      (concat (map block_toks ms) @ [mk_tok TokEBrace ?l None, nl_tok ?l]) rest (?l + 1)"
    by (rule lexes_append [OF plains_lexes [OF assms(2)]]) (simp add: nl_tok_def)
  then have "lexes (CHR ''{'' # concat (map render ms) @ CHR ''}'' # newline # rest) l
      (mk_tok TokOBrace l None # concat (map block_toks ms) @ [mk_tok TokEBrace ?l None, nl_tok ?l])
      rest (?l + 1)"
    by simp
  then have "lexes (name @ CHR '' '' # CHR ''{'' # concat (map render ms) @ CHR ''}'' # newline # rest) l
      (mk_tok TokId l (Some name) # mk_tok TokOBrace l None # concat (map block_toks ms) @
       [mk_tok TokEBrace ?l None, nl_tok ?l]) rest (?l + 1)"
    using t_lex_name [OF assms(1), of "CHR '' ''"] by simp
  then show ?thesis
    using t_lex_menuentry [of "name @ CHR '' '' # CHR ''{'' # concat (map render ms) @ CHR ''}'' # newline # rest" l]
    by simp
qed

lemma blocks_lexes:
  "valid_blocks l bs \<Longrightarrow> \<exists>l'. lexes (concat (map render bs) @ rest) l (concat (map block_toks bs)) rest l'"
proof (induction bs arbitrary: l)
  case Nil
  then show ?case by simp
next
  case (Cons b bs)
  have "lexes (render b @ concat (map render bs) @ rest) l (block_toks b)
      (concat (map render bs) @ rest) (l + block_lines b)"
  proof (cases b)
    case (BlockMenu l' name ms)
    with Cons.prems menu_lexes [of name l ms] show ?thesis by (simp add: add.assoc)
  next
    case (BlockCmd l' cmd args)
    then have "valid_block l b" "block_lines b = 1" using Cons.prems by simp_all
    with block_lexes [of l b] show ?thesis by simp
  next
    case (BlockSet l' var val)
    then have "valid_block l b" "block_lines b = 1" using Cons.prems by simp_all
    with block_lexes [of l b] show ?thesis by simp
  qed
  moreover obtain l' where "lexes (concat (map render bs) @ rest) (l + block_lines b)
      (concat (map block_toks bs)) rest l'"
    using Cons by auto
  ultimately show ?case
    using lexes_append by fastforce
qed

lemma valid_plain: "valid_block l b \<Longrightarrow> plain_block b"
  by (cases b) (auto split: option.splits)

lemma valid_plains_plain: "valid_plains l bs \<Longrightarrow> list_all plain_block bs"
  by (induction bs arbitrary: l) (auto dest: valid_plain)

lemma valid_blocks_writable: "valid_blocks l bs \<Longrightarrow> list_all writable bs"
proof (induction bs arbitrary: l)
  case (Cons b bs)
  have "writable b"
  proof (cases b)
    case BlockMenu
    with Cons.prems show ?thesis by (auto dest: valid_plains_plain)
  qed (use Cons.prems in \<open>auto split: option.splits\<close>)
  with Cons show ?case by auto
qed simp

text \<open>The call returns \<open>bs\<close> if the last thing it does, \<open>StrRefDestroy\<close> of the file, returns.\<close>

definition parses_to ::
  "(linePtr \<Rightarrow> 'f \<Rightarrow> 'f option) \<Rightarrow> confBlock list \<Rightarrow> ('f confOps \<times> 'f confCtx, confBlock list) parsed \<Rightarrow> bool" where
  "parses_to destroy bs r \<longleftrightarrow> (\<exists>ops ctx. r = (case destroy PtrFile (cx_file ctx) of
     None \<Rightarrow> None
   | Some f \<Rightarrow> Some (Some bs, (ops, ctx\<lparr>cx_file := f\<rparr>))))"

lemma conf_parse_tokens:
  assumes "reads_text ops tx" and "NUL \<notin> set (tx f)"
    and "text_toks (tx f) 1 (concat (map block_toks bs) @ [e])" and "tok_type e = TokEof"
    and "list_all writable bs"
  shows "parses_to destroy bs (NbConfParse destroy ops True f line)"
proof -
  let ?s = "(ops, confLexInit True f line)"
  obtain t us where t: "concat (map block_toks bs) @ e # [] = t # us"
    by (cases "concat (map block_toks bs) @ [e]") auto
  have "conf_yields ?s (t # us)"
    using confLexInit_text [of tx f line] assms(1-3) t by (auto simp: conf_yields_def)
  then obtain s1 where s1: "parseToken conf_lex ?s = Some (Some t, s1)" "conf_yields s1 us"
    using conf.token by blast
  obtain s2 where s2: "parseInternal conf_lex TokEof [] t False s1 = Some (Some ([] @ bs, e), s2)"
    "conf_yields s2 []"
    using conf.parse_blocks [OF assms(4,5) s1(2) t [symmetric], of "[]"] by blast
  have "cx_isFile (snd s2)"
    using s2(2) by (auto simp: conf_yields_def dest: holds_file)
  with s1(1) s2(1) show ?thesis
    unfolding parses_to_def NbConfParse_def
    by (intro exI [of _ "fst s2"] exI [of _ "snd s2"]) (simp add: confLexDestroy_def split: option.splits)
qed

section \<open>Properties\<close>

lemma conf_parse_rendered:
  assumes "reads_text ops tx" and "NUL \<notin> set (tx f)"
    and "tx f = concat (map render bs)" and "valid_blocks 1 bs"
  shows "parses_to destroy bs (NbConfParse destroy ops True f line)"
proof -
  obtain l' where "lexes (concat (map render bs) @ []) 1 (concat (map block_toks bs)) [] l'"
    using blocks_lexes [OF assms(4), of "[]"] by blast
  moreover have "text_toks [] l' [mk_tok TokEof l' None]"
    by (simp add: t_lex.simps)
  ultimately have "text_toks (tx f) 1 (concat (map block_toks bs) @ [mk_tok TokEof l' None])"
    using assms(3) lexes_text_toks by fastforce
  then show ?thesis
    using conf_parse_tokens [OF assms(1,2)] valid_blocks_writable [OF assms(4)] by simp
qed

text \<open>
  C14: the parser inverts the printer. A file that holds the text of a list of blocks (commands
  with names, variables and quoted arguments, assignments, menu entries with such blocks inside,
  each block numbered with its line) is parsed to exactly that list, however the file is cut into
  buffers. Before it returns the list, \<open>NbConfParse\<close> always calls \<open>StrRefDestroy\<close> on the pointer to
  the file object, which is not a string reference: the list is returned if and only if that call
  returns, for every behaviour \<open>destroy\<close> of it.
\<close>

theorem conf_roundtrip:
  assumes "reads_text ops tx" and "NUL \<notin> set (tx f)"
    and "tx f = concat (map render bs)" and "valid_blocks 1 bs"
  shows "\<exists>ops' ctx. NbConfParse destroy ops True f line =
    (case destroy PtrFile (cx_file ctx) of
       None \<Rightarrow> None
     | Some f' \<Rightarrow> Some (Some bs, (ops', ctx\<lparr>cx_file := f'\<rparr>)))"
  using conf_parse_rendered [OF assms] by (simp add: parses_to_def)

definition sample_blocks :: "confBlock list" where
  "sample_blocks = [BlockSet 1 ''root'' (Some (StrLiteral ''hd 0'')),
     BlockMenu 2 ''os'' [BlockCmd 2 (StrLiteral ''boot'') [(2, StrVar ''root''), (2, StrLiteral ''q'')]]]"

lemma sample_text: "concat (map render sample_blocks) =
    ''set root \"hd 0\"'' @ [newline] @ ''menuentry os {boot ${root} \"q\"'' @ [newline] @ ''}'' @ [newline]"
  by (simp add: sample_blocks_def backslash_def)

lemma sample_no_nul: "NUL \<notin> set (concat (map render sample_blocks))"
  by (simp add: sample_text) (simp add: NUL_def newline_def)

lemma sample_valid: "valid_blocks 1 sample_blocks"
  by (simp add: sample_blocks_def valid_name_def LEX_STR_MAX_def NUL_def lexIsSpace_def
      lexIsToken_def newline_def creturn_def backslash_def)

text \<open>A \<open>StrRefDestroy\<close> that does not notice what it destroys, and one that faults on all but
  string references.\<close>

definition lenient :: "linePtr \<Rightarrow> 'f \<Rightarrow> 'f option" where "lenient p f = Some f"

definition strict :: "linePtr \<Rightarrow> 'f \<Rightarrow> 'f option" where "strict p f = (if p = PtrLine then Some f else None)"

definition sample_pieces :: "string list" where
  "sample_pieces = [''set root'', '' \"hd 0\"'' @ [newline] @ ''menu'',
     ''entry os {boot ${root} \"q\"'' @ [newline] @ ''}'' @ [newline]]"

theorem conf_roundtrip_witness:
  "(\<exists>s. NbConfParse lenient some_pieces True sample_pieces [] = Some (Some sample_blocks, s)) \<and>
   NbConfParse strict some_pieces True sample_pieces [] = None"
proof -
  have cat: "concat sample_pieces = concat (map render sample_blocks)"
    by (simp add: sample_text sample_pieces_def)
  have "NUL \<notin> set (concat sample_pieces)" unfolding cat by (rule sample_no_nul)
  note run = conf_roundtrip [OF some_pieces_text this cat sample_valid]
  show ?thesis
    using run [of lenient "[]"] run [of strict "[]"] by (auto simp: lenient_def strict_def)
qed

lemma t_comment_none: "newline \<notin> set s \<Longrightarrow> creturn \<notin> set s \<Longrightarrow> t_comment s l = None"
  by (induction s) auto

text \<open>A configuration that consists of a comment without a line end is not an empty list of
  blocks: the lexer returns a token of type \<open>NONE\<close> for it, and \<open>NbConfParse\<close> returns \<open>NULL\<close>.\<close>

lemma comment_at_end_rejected:
  assumes "reads_text ops tx" and "tx f = CHR ''#'' # s"
    and "newline \<notin> set s" and "creturn \<notin> set s" and "NUL \<notin> set s"
  shows "\<exists>st. NbConfParse lenient ops True f line = Some (None, st)"
proof -
  let ?ctx = "confLexInit True f line"
  have "holds tx ?ctx (tx f) 1"
    using assms(2,5) by (intro confLexInit_text) (simp add: NUL_def)
  moreover have "t_lex (tx f) 1 = Some (mk_tok TokNone 0 None, [], 1)"
    using assms(2) t_comment_none [OF assms(3,4)] by (simp add: t_lex.simps newline_def creturn_def)
  ultimately obtain ctx' where "confLex ops ?ctx = Some (mk_tok TokNone 0 None, ctx')"
    using confLex_text [OF assms(1)] by (fastforce simp: lexes_to_def)
  then have "parseToken conf_lex (ops, ?ctx) = Some (Some (mk_tok TokNone 0 None), (ops, ctx'))"
    by (simp add: parseToken_def conf_lex_def)
  then show ?thesis
    by (simp add: NbConfParse_def parseInternal.simps [of _ _ _ "mk_tok TokNone 0 None"]
        confLexDestroy_def lenient_def)
qed

end
