(* ===== verification/FatTable.thy ===== *)
theory FatTable
  imports Prelude "HOL-Library.Monad_Syntax"
begin

text \<open>
  The boot loader's FAT driver (\<open>source/nexboot/src/filesys/fat.c\<close>), first part: the mounted file
  system, the file allocation table with its cache of sectors, cluster chains, and reading the
  blocks of an open file.

  The volume is the argument \<open>fe_read\<close>, what \<open>NB_VOLUME_READ_SECTORS\<close> puts into the buffer for a
  start sector and a count. The arrays of libnex are the arguments \<open>fe_cache\<close> and \<open>fe_dirs\<close>. Buffers
  from \<open>malloc\<close> live in a store and are named by their index in it, their uninitialised bytes are
  \<open>None\<close>. A failed \<open>assert\<close>, a division by zero and a read outside a buffer are \<open>None\<close>.
\<close>

unbundle bit_operations_syntax

section \<open>State\<close>

datatype volFs = VOLUME_FS_FAT12 | VOLUME_FS_FAT16 | VOLUME_FS_FAT32 | VOLUME_FS_EXT2
  | VOLUME_FS_FAT | VOLUME_FS_ISO9660

type_synonym volRead = "u64 \<Rightarrow> nat \<Rightarrow> byte list option"
type_synonym buf = "byte option list"

text \<open>The operations of \<open>libnex/array.h\<close> that the driver uses: whether every element is allocated,
  \<open>ArrayFindFreeElement\<close> (\<open>None\<close> is \<open>ARRAY_ERROR\<close>), the element behind the pointer of
  \<open>ArrayGetElement\<close> read and overwritten, and the elements in the order \<open>ArrayIterate\<close> visits them.\<close>

record ('e, 'a) arrayOps =
  ar_full :: "'a \<Rightarrow> bool"
  ar_find :: "'a \<Rightarrow> (nat \<times> 'a) option"
  ar_get :: "'a \<Rightarrow> nat \<Rightarrow> 'e"
  ar_put :: "'a \<Rightarrow> nat \<Rightarrow> 'e \<Rightarrow> 'a"
  ar_list :: "'a \<Rightarrow> 'e list"

text \<open>\<open>FatCacheEnt_t\<close>; \<open>fce_data\<close> names a buffer.\<close>

record fatCacheEnt =
  fce_data :: nat
  fce_sector :: u32

text \<open>\<open>FatDirBuffer_t\<close>; a directory entry is its 32 bytes, as the code reads them through two
  structures.\<close>

record fatDirBuffer =
  fdb_dirEnt :: "byte list"
  fdb_name :: "byte list"
  fdb_cluster :: u32

text \<open>\<open>NbFileSys_t\<close> with the \<open>FatMountInfo_t\<close> it points to, and the store of buffers.\<close>

record ('c, 'd) fatFs =
  fs_type :: volFs
  fs_blockSz :: u16
  fm_dir :: "byte list"
  fm_fatCache :: 'c
  fm_dirBuffer :: 'd
  fm_fatBase :: u64
  fm_fatSz :: u32
  fm_dataBase :: u64
  fm_rootDir :: u32
  fm_rootDirSz :: u32
  fm_sectPerCluster :: u16
  fm_sectorSz :: u16
  fs_heap :: "buf list"

text \<open>\<open>FatFile_t\<close>.\<close>

record fatFile =
  lastReadCluster :: u32
  lastReadPos :: u32
  startCluster :: u32

record ('c, 'd) fatEnv =
  fe_read :: volRead
  fe_cache :: "(fatCacheEnt, 'c) arrayOps"
  fe_dirs :: "(fatDirBuffer, 'd) arrayOps"

definition UINT32_MAX :: u32 where
  "UINT32_MAX = 0xFFFFFFFF"

section \<open>Buffers\<close>

text \<open>A little-endian value of \<open>w\<close> bytes at an offset in a buffer.\<close>

fun buf_le :: "nat \<Rightarrow> buf \<Rightarrow> nat \<Rightarrow> nat option" where
  "buf_le 0 b i = Some 0"
| "buf_le (Suc w) b i =
     (if length b \<le> i then None
      else do {
        x \<leftarrow> b ! i;
        v \<leftarrow> buf_le w b (Suc i);
        Some (unat x + 256 * v) })"

text \<open>The buffer after bytes were read into it at an offset.\<close>

definition buf_put :: "buf \<Rightarrow> nat \<Rightarrow> byte list \<Rightarrow> buf" where
  "buf_put b i bs = take i b @ map Some bs @ drop (i + length bs) b"

section \<open>The cache of table sectors\<close>

definition fatCacheSector ::
  "('c, 'd) fatEnv \<Rightarrow> ('c, 'd) fatFs \<Rightarrow> nat \<Rightarrow> u32 \<Rightarrow> bool \<times> ('c, 'd) fatFs" where
  "fatCacheSector env fs sector sectorIdx =
     (let ops = fe_cache env;
          ent = \<lparr>fce_data = sector, fce_sector = sectorIdx\<rparr>
      in if ar_full ops (fm_fatCache fs)
         then (True, fs\<lparr>fm_fatCache := ar_put ops (fm_fatCache fs) 0 ent\<rparr>)
         else (case ar_find ops (fm_fatCache fs) of
                 None \<Rightarrow> (False, fs)
               | Some (pos, cache) \<Rightarrow> (True, fs\<lparr>fm_fatCache := ar_put ops cache pos ent\<rparr>)))"

definition fatFindCache :: "('c, 'd) fatEnv \<Rightarrow> ('c, 'd) fatFs \<Rightarrow> u32 \<Rightarrow> nat option" where
  "fatFindCache env fs sectorIdx =
     map_option fce_data
       (find (\<lambda>cache. fce_sector cache = sectorIdx) (ar_list (fe_cache env) (fm_fatCache fs)))"

section \<open>The file allocation table\<close>

definition fatTabOffset :: "volFs \<Rightarrow> u32 \<Rightarrow> u32" where
  "fatTabOffset type cluster =
     (case type of
        VOLUME_FS_FAT32 \<Rightarrow> cluster * 4
      | VOLUME_FS_FAT16 \<Rightarrow> cluster * 2
      | VOLUME_FS_FAT12 \<Rightarrow> cluster + cluster div 2
      | _ \<Rightarrow> 0)"

text \<open>The buffer of a sector of the table, from the cache or read and cached; \<open>None\<close> where the
  function gives up with \<open>UINT32_MAX\<close>.\<close>

definition fatGetSector ::
  "('c, 'd) fatEnv \<Rightarrow> ('c, 'd) fatFs \<Rightarrow> u64 \<Rightarrow> nat option \<times> ('c, 'd) fatFs" where
  "fatGetSector env fs fatSector =
     (case fatFindCache env fs (ucast fatSector) of
        Some p \<Rightarrow> (Some p, fs)
      | None \<Rightarrow>
          (let p = length (fs_heap fs);
               fat = replicate (unat (fm_sectorSz fs) * 2) None;
               fs = fs\<lparr>fs_heap := fs_heap fs @ [fat]\<rparr>
           in case fe_read env fatSector 1 of
                None \<Rightarrow> (None, fs)
              | Some bs \<Rightarrow>
                  (let fs = fs\<lparr>fs_heap := (fs_heap fs)[p := buf_put fat 0 bs]\<rparr>
                   in case fatCacheSector env fs p (ucast fatSector) of
                        (True, fs) \<Rightarrow> (Some p, fs)
                      | (False, fs) \<Rightarrow> (None, fs))))"

definition fatReadNextCluster ::
  "('c, 'd) fatEnv \<Rightarrow> ('c, 'd) fatFs \<Rightarrow> u32 \<Rightarrow> (u32 \<times> ('c, 'd) fatFs) option" where
  "fatReadNextCluster env fs cluster =
     (let tabOff = fatTabOffset (fs_type fs) cluster;
          sz = ucast (fm_sectorSz fs)
      in if tabOff = 0 \<or> sz = 0 then None
         else
           (let fatSector = fm_fatBase fs + ucast (tabOff div sz);
                off = unat (tabOff mod sz)
            in case fatGetSector env fs fatSector of
                 (None, fs) \<Rightarrow> Some (UINT32_MAX, fs)
               | (Some p, fs) \<Rightarrow>
                   (case fs_type fs of
                      VOLUME_FS_FAT32 \<Rightarrow> do {
                        v \<leftarrow> buf_le 4 (fs_heap fs ! p) off;
                        Some (of_nat v AND 0x0FFFFFFF, fs) }
                    | VOLUME_FS_FAT16 \<Rightarrow> do {
                        v \<leftarrow> buf_le 2 (fs_heap fs ! p) off;
                        Some (of_nat v, fs) }
                    | VOLUME_FS_FAT12 \<Rightarrow>
                        (case (if off = unat (fm_sectorSz fs) - 1
                               then map_option (\<lambda>bs. fs\<lparr>fs_heap := (fs_heap fs)
                                        [p := buf_put (fs_heap fs ! p) (unat (fm_sectorSz fs)) bs]\<rparr>)
                                      (fe_read env (fatSector + 1) 1)
                               else Some fs) of
                           None \<Rightarrow> Some (UINT32_MAX, fs)
                         | Some fs \<Rightarrow> do {
                             v \<leftarrow> buf_le 2 (fs_heap fs ! p) off;
                             Some (if odd cluster then of_nat (drop_bit 4 v)
                                   else of_nat v AND 0x0FFF, fs) })
                    | _ \<Rightarrow> Some (UINT32_MAX, fs))))"

definition fatIsClusterEof :: "volFs \<Rightarrow> u32 \<Rightarrow> bool option" where
  "fatIsClusterEof type cluster =
     (case type of
        VOLUME_FS_FAT12 \<Rightarrow> Some (0x0FF8 \<le> cluster)
      | VOLUME_FS_FAT16 \<Rightarrow> Some (0xFFF8 \<le> cluster)
      | VOLUME_FS_FAT32 \<Rightarrow> Some (0x0FFFFFF8 \<le> cluster)
      | _ \<Rightarrow> None)"

definition fatIsClusterBad :: "volFs \<Rightarrow> u32 \<Rightarrow> bool option" where
  "fatIsClusterBad type cluster =
     (case type of
        VOLUME_FS_FAT12 \<Rightarrow> Some (cluster = 0x0FF7)
      | VOLUME_FS_FAT16 \<Rightarrow> Some (cluster = 0xFFF7)
      | VOLUME_FS_FAT32 \<Rightarrow> Some (cluster = 0x0FFFFFF7)
      | _ \<Rightarrow> None)"

section \<open>Reading an open file\<close>

text \<open>The sector number is computed in 32 bits.\<close>

definition fatReadCluster ::
  "('c, 'd) fatEnv \<Rightarrow> ('c, 'd) fatFs \<Rightarrow> u32 \<Rightarrow> byte list option" where
  "fatReadCluster env fs cluster =
     (let sectorNum = ucast (ucast ((cluster - 2) * ucast (fm_sectPerCluster fs)) + fm_dataBase fs) :: u32
      in fe_read env (ucast sectorNum) (unat (fm_sectPerCluster fs)))"

lemma unat_Suc_less: "(x :: 'a::len word) < y \<Longrightarrow> unat (x + 1) = Suc (unat x)"
proof -
  assume "x < y"
  then have "unat x + 1 < 2 ^ LENGTH('a)"
    using Suc_leI [THEN le_less_trans, OF _ unsigned_less [of y, where ?'a = nat]]
    by (simp add: word_less_nat_alt)
  then show ?thesis by (simp add: unat_word_ariths)
qed

function follow_loop ::
  "('c, 'd) fatEnv \<Rightarrow> u32 \<Rightarrow> u32 \<Rightarrow> u32 \<Rightarrow> ('c, 'd) fatFs \<Rightarrow> (u32 \<times> ('c, 'd) fatFs) option" where
  "follow_loop env clusterPos curPos cluster fs =
     (if curPos < clusterPos then do {
        (cluster, fs) \<leftarrow> fatReadNextCluster env fs cluster;
        bad \<leftarrow> fatIsClusterBad (fs_type fs) cluster;
        eof \<leftarrow> fatIsClusterEof (fs_type fs) cluster;
        (if bad \<or> eof then Some (UINT32_MAX, fs)
         else follow_loop env clusterPos (curPos + 1) cluster fs) }
      else Some (cluster, fs))"
  by pat_completeness auto
termination
  by (relation "measure (\<lambda>(_, clusterPos, curPos, _, _). unat clusterPos - unat curPos)")
     (auto simp: unat_Suc_less word_less_nat_alt)

declare follow_loop.simps [simp del]

definition fatFollowClusterChain ::
  "('c, 'd) fatEnv \<Rightarrow> ('c, 'd) fatFs \<Rightarrow> fatFile \<Rightarrow> u32 \<Rightarrow>
   (u32 \<times> fatFile \<times> ('c, 'd) fatFs) option" where
  "fatFollowClusterChain env fs file clusterPos =
     (let file = (if lastReadCluster file = 0 then file\<lparr>lastReadCluster := startCluster file\<rparr>
                  else file)
      in do {
        (cluster, fs) \<leftarrow> follow_loop env clusterPos (lastReadPos file) (lastReadCluster file) fs;
        Some (cluster, file, fs) })"

text \<open>The first component is what was read into the block buffer, \<open>None\<close> for the result \<open>false\<close>.\<close>

definition FatReadFileBlock ::
  "('c, 'd) fatEnv \<Rightarrow> ('c, 'd) fatFs \<Rightarrow> fatFile \<Rightarrow> u32 \<Rightarrow>
   (byte list option \<times> fatFile \<times> ('c, 'd) fatFs) option" where
  "FatReadFileBlock env fs file pos =
     (if fs_blockSz fs = 0 then None
      else
        (let fileClusterNum = pos div ucast (fs_blockSz fs)
         in if fileClusterNum = lastReadPos file \<and> lastReadCluster file \<noteq> 0
            then Some (fatReadCluster env fs (lastReadCluster file), file, fs)
            else
              (let file = (if fileClusterNum \<le> lastReadPos file
                           then file\<lparr>lastReadCluster := 0, lastReadPos := 0\<rparr> else file)
               in do {
                 (cluster, file, fs) \<leftarrow> fatFollowClusterChain env fs file fileClusterNum;
                 (if cluster = UINT32_MAX then Some (None, file, fs)
                  else
                    (let file = file\<lparr>lastReadCluster := cluster, lastReadPos := fileClusterNum\<rparr>
                     in Some (fatReadCluster env fs cluster, file, fs))) })))"

section \<open>What the table holds\<close>

text \<open>The bytes of the table: byte \<open>n\<close> is in the sector \<open>n div sz\<close> behind the table's first.\<close>

definition table_byte :: "volRead \<Rightarrow> u64 \<Rightarrow> nat \<Rightarrow> nat \<Rightarrow> byte option" where
  "table_byte rd base sz n = map_option (\<lambda>bs. bs ! (n mod sz)) (rd (base + of_nat (n div sz)) 1)"

fun table_le :: "(nat \<Rightarrow> byte option) \<Rightarrow> nat \<Rightarrow> nat \<Rightarrow> nat option" where
  "table_le tb 0 n = Some 0"
| "table_le tb (Suc w) n = do {
     x \<leftarrow> tb n;
     v \<leftarrow> table_le tb w (Suc n);
     Some (unat x + 256 * v) }"

text \<open>The entry of a cluster: 28 bits of a 4-byte word, a 2-byte word, or 12 bits of the two bytes
  at one and a half times the cluster.\<close>

definition fat_entry :: "volFs \<Rightarrow> (nat \<Rightarrow> byte option) \<Rightarrow> nat \<Rightarrow> nat option" where
  "fat_entry type tb c =
     (case type of
        VOLUME_FS_FAT32 \<Rightarrow> map_option (\<lambda>v. v mod 2 ^ 28) (table_le tb 4 (4 * c))
      | VOLUME_FS_FAT16 \<Rightarrow> table_le tb 2 (2 * c)
      | VOLUME_FS_FAT12 \<Rightarrow>
          map_option (\<lambda>v. if odd c then v div 16 else v mod 2 ^ 12) (table_le tb 2 (c + c div 2))
      | _ \<Rightarrow> None)"

text \<open>The documented behaviour of the arrays: an overwritten element replaces what was there, a
  free element is found while the array is not full, and nothing else appears.\<close>

definition array_laws :: "('e, 'a) arrayOps \<Rightarrow> bool" where
  "array_laws ops \<longleftrightarrow>
     (\<forall>a e. ar_full ops a \<longrightarrow> set (ar_list ops (ar_put ops a 0 e)) \<subseteq> insert e (set (ar_list ops a))) \<and>
     (\<forall>a. \<not> ar_full ops a \<longrightarrow> ar_find ops a \<noteq> None) \<and>
     (\<forall>a a' i e. ar_find ops a = Some (i, a') \<longrightarrow>
        set (ar_list ops (ar_put ops a' i e)) \<subseteq> insert e (set (ar_list ops a)))"

text \<open>A read returns whole sectors.\<close>

definition vol_laws :: "volRead \<Rightarrow> nat \<Rightarrow> bool" where
  "vol_laws rd sz \<longleftrightarrow> (\<forall>s n bs. rd s n = Some bs \<longrightarrow> length bs = n * sz)"

text \<open>Every cached sector's buffer starts with what the sector holds.\<close>

definition holds_sector :: "volRead \<Rightarrow> nat \<Rightarrow> buf list \<Rightarrow> nat \<Rightarrow> u64 \<Rightarrow> bool" where
  "holds_sector rd sz h p s \<longleftrightarrow>
     p < length h \<and> length (h ! p) = 2 * sz \<and> (\<exists>bs. rd s 1 = Some bs \<and> take sz (h ! p) = map Some bs)"

definition cache_ok :: "('c, 'd) fatEnv \<Rightarrow> ('c, 'd) fatFs \<Rightarrow> bool" where
  "cache_ok env fs \<longleftrightarrow>
     (\<forall>e \<in> set (ar_list (fe_cache env) (fm_fatCache fs)).
        holds_sector (fe_read env) (unat (fm_sectorSz fs)) (fs_heap fs) (fce_data e)
          (ucast (fce_sector e)))"

text \<open>Two states of the file system that differ in the cache only.\<close>

definition same_fs :: "('c, 'd) fatFs \<Rightarrow> ('c, 'd) fatFs \<Rightarrow> bool" where
  "same_fs fs fs' \<longleftrightarrow> (\<exists>c h. fs' = fs\<lparr>fm_fatCache := c, fs_heap := h\<rparr>)"

lemma same_fs_refl [simp]: "same_fs fs fs"
  by (auto simp: same_fs_def intro!: exI [of _ "fm_fatCache fs"] exI [of _ "fs_heap fs"])

lemma same_fs_trans [trans]: "same_fs a b \<Longrightarrow> same_fs b c \<Longrightarrow> same_fs a c"
  by (clarsimp simp: same_fs_def) (intro exI, rule refl)

lemma same_fsD:
  assumes "same_fs fs fs'"
  shows "fs_type fs' = fs_type fs" "fs_blockSz fs' = fs_blockSz fs" "fm_fatBase fs' = fm_fatBase fs"
    "fm_dataBase fs' = fm_dataBase fs" "fm_sectPerCluster fs' = fm_sectPerCluster fs"
    "fm_sectorSz fs' = fm_sectorSz fs" "fm_dirBuffer fs' = fm_dirBuffer fs" "fm_dir fs' = fm_dir fs"
    "fm_rootDir fs' = fm_rootDir fs" "fm_rootDirSz fs' = fm_rootDirSz fs"
  using assms by (auto simp: same_fs_def)

lemma same_fs_heap [simp]: "same_fs fs (fs\<lparr>fs_heap := h\<rparr>)"
  by (auto simp: same_fs_def intro!: exI [of _ "fm_fatCache fs"] exI [of _ h])

lemma same_fs_cache [simp]: "same_fs fs (fs\<lparr>fm_fatCache := c\<rparr>)"
  by (auto simp: same_fs_def intro!: exI [of _ c] exI [of _ "fs_heap fs"])

lemma ucast_u32_id: "s < 2 ^ 32 \<Longrightarrow> ucast (ucast s :: u32) = (s :: u64)"
proof (rule iffD2 [OF word_unat_eq_iff])
  assume "s < 2 ^ 32"
  then have "unat s < 2 ^ 32" by (simp add: word_less_nat_alt)
  then show "unat (ucast (ucast s :: u32) :: u64) = unat s"
    by (simp add: unsigned_ucast_eq unsigned_take_bit_eq take_bit_nat_eq_self)
qed

section \<open>The cache\<close>

lemma buf_put_take [simp]: "i \<le> length b \<Longrightarrow> take i (buf_put b i bs) = take i b"
  by (simp add: buf_put_def)

lemma buf_put_length [simp]: "i + length bs \<le> length b \<Longrightarrow> length (buf_put b i bs) = length b"
  by (simp add: buf_put_def)

lemma holds_sector_append: "holds_sector rd sz h p s \<Longrightarrow> holds_sector rd sz (h @ hs) p s"
  by (auto simp: holds_sector_def nth_append)

lemma holds_sector_put:
  assumes "holds_sector rd sz h p s" and "vol_laws rd sz" and "rd s' 1 = Some bs"
  shows "holds_sector rd sz (h[q := buf_put (h ! q) sz bs]) p s"
  using assms by (cases "p = q") (auto simp: holds_sector_def vol_laws_def)

lemma fatCacheSector_ok:
  assumes laws: "array_laws (fe_cache env)" and c: "cache_ok env fs"
    and p: "holds_sector (fe_read env) (unat (fm_sectorSz fs)) (fs_heap fs) p (ucast s)"
    and r: "fatCacheSector env fs p s = (b, fs')"
  shows "b \<and> cache_ok env fs' \<and> same_fs fs fs' \<and> fs_heap fs' = fs_heap fs"
proof -
  let ?e = "\<lparr>fce_data = p, fce_sector = s\<rparr>"
  have *: "cache_ok env (fs\<lparr>fm_fatCache := c'\<rparr>)"
    if "set (ar_list (fe_cache env) c') \<subseteq> insert ?e (set (ar_list (fe_cache env) (fm_fatCache fs)))" for c'
    using that c p by (auto simp: cache_ok_def)
  show ?thesis
    using r laws * by (auto simp: fatCacheSector_def array_laws_def Let_def split: if_splits option.splits)
qed

lemma fatFindCache_ok:
  assumes "cache_ok env fs" and "fatFindCache env fs s = Some p"
  shows "holds_sector (fe_read env) (unat (fm_sectorSz fs)) (fs_heap fs) p (ucast s)"
  using assms by (auto simp: fatFindCache_def cache_ok_def find_Some_iff)

lemma fatGetSector_ok:
  assumes laws: "array_laws (fe_cache env)" and vol: "vol_laws (fe_read env) (unat (fm_sectorSz fs))"
    and c: "cache_ok env fs" and s: "s < 2 ^ 32" and r: "fatGetSector env fs s = (r, fs')"
  shows "cache_ok env fs' \<and> same_fs fs fs' \<and> (r = None \<longleftrightarrow> fe_read env s 1 = None) \<and>
    (\<forall>p. r = Some p \<longrightarrow> holds_sector (fe_read env) (unat (fm_sectorSz fs)) (fs_heap fs') p s)"
proof (cases "fatFindCache env fs (ucast s)")
  case (Some p)
  have "ucast (ucast s :: u32) = s"
    using s by (rule ucast_u32_id)
  with fatFindCache_ok [OF c Some] c r Some show ?thesis
    by (auto simp: fatGetSector_def holds_sector_def)
next
  case None
  let ?sz = "unat (fm_sectorSz fs)" and ?p = "length (fs_heap fs)"
  let ?fat = "replicate (?sz * 2) None"
  show ?thesis
  proof (cases "fe_read env s 1")
    case rd: None
    have "cache_ok env (fs\<lparr>fs_heap := fs_heap fs @ [?fat]\<rparr>)"
      using c by (auto simp: cache_ok_def intro: holds_sector_append)
    with None rd r show ?thesis by (auto simp: fatGetSector_def Let_def)
  next
    case rd: (Some bs)
    have s32: "ucast (ucast s :: u32) = s"
      using s by (rule ucast_u32_id)
    have len: "length bs = ?sz" using vol rd by (auto simp: vol_laws_def)
    let ?h = "(fs_heap fs @ [buf_put ?fat 0 bs])"
    have hs: "holds_sector (fe_read env) ?sz ?h ?p s"
      using rd len by (auto simp: holds_sector_def buf_put_def)
    have c1: "cache_ok env (fs\<lparr>fs_heap := ?h\<rparr>)"
      using c by (auto simp: cache_ok_def intro: holds_sector_append)
    obtain b fs2 where cs: "fatCacheSector env (fs\<lparr>fs_heap := ?h\<rparr>) ?p (ucast s) = (b, fs2)"
      by fastforce
    have "b \<and> cache_ok env fs2 \<and> same_fs (fs\<lparr>fs_heap := ?h\<rparr>) fs2 \<and> fs_heap fs2 = ?h"
      using fatCacheSector_ok [OF laws c1 _ cs] hs s32 by simp
    moreover from this have "same_fs fs fs2"
      by (blast intro: same_fs_trans same_fs_heap)
    ultimately show ?thesis
      using None rd r cs hs by (auto simp: fatGetSector_def Let_def)
  qed
qed

section \<open>Table entries\<close>

text \<open>The geometry the table is read with: the first sector is at most at the greatest value of the
  16-bit field it comes from, and entries of two and four bytes do not cross sectors.\<close>

definition fat_geom :: "('c, 'd) fatFs \<Rightarrow> bool" where
  "fat_geom fs \<longleftrightarrow>
     fs_type fs \<in> {VOLUME_FS_FAT12, VOLUME_FS_FAT16, VOLUME_FS_FAT32} \<and>
     0 < unat (fm_sectorSz fs) \<and> 4 dvd unat (fm_sectorSz fs) \<and> unat (fm_fatBase fs) < 2 ^ 16"

definition fs_table :: "('c, 'd) fatEnv \<Rightarrow> ('c, 'd) fatFs \<Rightarrow> nat \<Rightarrow> byte option" where
  "fs_table env fs = table_byte (fe_read env) (fm_fatBase fs) (unat (fm_sectorSz fs))"

lemma buf_le_table:
  "(\<And>j. j < w \<Longrightarrow> i + j < length b \<and> b ! (i + j) = Some (f j) \<and> tb (n + j) = Some (f j)) \<Longrightarrow>
   \<exists>v. buf_le w b i = Some v \<and> table_le tb w n = Some v"
proof (induction w arbitrary: i n f)
  case 0
  then show ?case by simp
next
  case (Suc w)
  have "i < length b" and "b ! i = Some (f 0)" and "tb n = Some (f 0)"
    using Suc.prems [of 0] by auto
  moreover have "\<exists>v. buf_le w b (Suc i) = Some v \<and> table_le tb w (Suc n) = Some v"
    using Suc.prems [of "Suc _"] by (intro Suc.IH [where f = "f \<circ> Suc"]) auto
  ultimately show ?case by auto
qed

text \<open>A value inside one sector.\<close>

lemma buf_le_sector:
  assumes h: "holds_sector rd sz h p (base + of_nat (n div sz))" and fit: "n mod sz + w \<le> sz"
  shows "\<exists>v. buf_le w (h ! p) (n mod sz) = Some v \<and> table_le (table_byte rd base sz) w n = Some v"
proof -
  obtain bs where rd: "rd (base + of_nat (n div sz)) 1 = Some bs"
    and tk: "take sz (h ! p) = map Some bs" and len: "length (h ! p) = 2 * sz"
    using h by (auto simp: holds_sector_def)
  show ?thesis
  proof (rule buf_le_table [where f = "\<lambda>j. bs ! (n mod sz + j)"])
  fix j assume j: "j < w"
  have lt: "n mod sz + j < sz" using j fit by linarith
  then have "(n + j) div sz = n div sz" and md: "(n + j) mod sz = n mod sz + j"
    by (simp_all add: div_add1_eq [of n j] mod_add_eq mod_add_left_eq [of n sz j, symmetric])
  then have "table_byte rd base sz (n + j) = Some (bs ! (n mod sz + j))"
    using rd by (simp add: table_byte_def)
  moreover have "length bs = sz"
    using arg_cong [OF tk, of length] len by simp
  then have "(h ! p) ! (n mod sz + j) = Some (bs ! (n mod sz + j))"
    using tk lt by (metis nth_map nth_take)
  ultimately show "n mod sz + j < length (h ! p) \<and> (h ! p) ! (n mod sz + j) = Some (bs ! (n mod sz + j))
      \<and> table_byte rd base sz (n + j) = Some (bs ! (n mod sz + j))"
    using lt len by simp
  qed
qed

text \<open>A two-byte value that starts with the last byte of a sector, with the next sector behind it.\<close>

lemma buf_le_span:
  assumes h: "holds_sector rd sz h p (base + of_nat (n div sz))" and last: "n mod sz = sz - 1"
    and sz: "0 < sz" and rd': "rd (base + of_nat (n div sz) + 1) 1 = Some bs'" and vol: "vol_laws rd sz"
  shows "\<exists>v. buf_le 2 (buf_put (h ! p) sz bs') (n mod sz) = Some v \<and>
    table_le (table_byte rd base sz) 2 n = Some v"
proof -
  obtain bs where rd: "rd (base + of_nat (n div sz)) 1 = Some bs"
    and tk: "take sz (h ! p) = map Some bs" and len: "length (h ! p) = 2 * sz"
    using h by (auto simp: holds_sector_def)
  have bs: "length bs = sz" "length bs' = sz" using vol rd rd' by (auto simp: vol_laws_def)
  let ?b = "buf_put (h ! p) sz bs'"
  have b: "?b = map Some (bs @ bs')"
    using len bs tk by (simp add: buf_put_def)
  have dm: "Suc n mod sz = 0" "Suc n div sz = Suc (n div sz)"
    using last sz by (simp_all add: mod_Suc div_Suc)
  show ?thesis
  proof (rule buf_le_table [where f = "\<lambda>j. (bs @ bs') ! (n mod sz + j)"])
  fix j :: nat assume "j < 2"
  then consider "j = 0" | "j = 1" by linarith
  then show "n mod sz + j < length ?b \<and> ?b ! (n mod sz + j) = Some ((bs @ bs') ! (n mod sz + j))
      \<and> table_byte rd base sz (n + j) = Some ((bs @ bs') ! (n mod sz + j))"
  proof cases
    case 1
    then show ?thesis using last sz bs rd b by (simp add: table_byte_def nth_append)
  next
    case 2
    have "table_byte rd base sz (Suc n) = Some (bs' ! 0)"
      using rd' by (simp only: table_byte_def dm) (simp add: ac_simps)
    then show ?thesis using 2 last sz bs b by (simp add: nth_append)
  qed
  qed
qed

lemma unat_ucast_u16 [simp]: "unat (ucast (x :: u16) :: u32) = unat x"
  using unsigned_less [of x, where ?'a = nat] by (simp add: unsigned_ucast_eq take_bit_nat_eq_self)

text \<open>The offset into the table, free of overflow for clusters of at most 28 bits.\<close>

lemma fatTabOffset_bytes:
  assumes "unat c < 2 ^ 28"
  shows "unat (fatTabOffset VOLUME_FS_FAT32 c) = 4 * unat c"
    and "unat (fatTabOffset VOLUME_FS_FAT16 c) = 2 * unat c"
    and "unat (fatTabOffset VOLUME_FS_FAT12 c) = unat c + unat c div 2"
  using assms
  by (simp_all add: fatTabOffset_def unat_word_ariths unat_div_distrib)

definition tab_bytes :: "volFs \<Rightarrow> nat \<Rightarrow> nat" where
  "tab_bytes type c =
     (case type of VOLUME_FS_FAT32 \<Rightarrow> 4 * c | VOLUME_FS_FAT16 \<Rightarrow> 2 * c | _ \<Rightarrow> c + c div 2)"

lemma fatTabOffset_unat:
  "type \<in> {VOLUME_FS_FAT12, VOLUME_FS_FAT16, VOLUME_FS_FAT32} \<Longrightarrow> unat c < 2 ^ 28 \<Longrightarrow>
   unat (fatTabOffset type c) = tab_bytes type (unat c)"
  by (auto simp: fatTabOffset_bytes tab_bytes_def)

text \<open>The sector and the offset in it that the code computes.\<close>

lemma tab_sector:
  assumes g: "fat_geom fs" and c: "unat c < 2 ^ 28"
  defines "sz \<equiv> ucast (fm_sectorSz fs) :: u32" and "t \<equiv> fatTabOffset (fs_type fs) c"
    and "n \<equiv> tab_bytes (fs_type fs) (unat c)"
  shows "fm_fatBase fs + ucast (t div sz) = fm_fatBase fs + of_nat (n div unat (fm_sectorSz fs))"
    and "unat (t mod sz) = n mod unat (fm_sectorSz fs)"
    and "fm_fatBase fs + of_nat (n div unat (fm_sectorSz fs)) < 2 ^ 32"
    and "sz \<noteq> 0"
proof -
  have n: "unat t = n" using g c by (simp add: t_def n_def fat_geom_def fatTabOffset_unat)
  have sz: "unat sz = unat (fm_sectorSz fs)" by (simp add: sz_def)
  have "unat (t div sz) = n div unat (fm_sectorSz fs)" using n sz by (simp add: unat_div_distrib)
  then have "(ucast (t div sz) :: u64) = of_nat (n div unat (fm_sectorSz fs))"
    by (metis of_nat_unat)
  then show "fm_fatBase fs + ucast (t div sz) = fm_fatBase fs + of_nat (n div unat (fm_sectorSz fs))"
    by simp
  show "unat (t mod sz) = n mod unat (fm_sectorSz fs)" using n sz by (simp add: unat_mod_distrib)
  have "n div unat (fm_sectorSz fs) \<le> n" by (rule div_le_dividend)
  moreover have "n < 2 ^ 30" using c by (auto simp: n_def tab_bytes_def split: volFs.splits)
  ultimately have small: "n div unat (fm_sectorSz fs) < 2 ^ 30" by linarith
  have "unat (fm_fatBase fs + of_nat (n div unat (fm_sectorSz fs))) =
    unat (fm_fatBase fs) + n div unat (fm_sectorSz fs)"
    using g small by (intro unat_addr_add) (simp add: fat_geom_def)
  then show "fm_fatBase fs + of_nat (n div unat (fm_sectorSz fs)) < 2 ^ 32"
    using g small by (simp add: word_less_nat_alt fat_geom_def)
  show "sz \<noteq> 0" using g sz by (auto simp: fat_geom_def)
qed

lemma of_nat_low_bits:
  assumes "mask k = (m :: u32)"
  shows "(of_nat v :: u32) AND m = of_nat (v mod 2 ^ k)"
proof -
  have "(of_nat v :: u32) AND m = take_bit k (of_nat v)" by (simp add: take_bit_eq_mask assms)
  also have "\<dots> = of_nat (v mod 2 ^ k)" by (simp only: take_bit_of_nat) (simp only: take_bit_eq_mod)
  finally show ?thesis .
qed

lemma of_nat_mask: "(of_nat v :: u32) AND 0x0FFFFFFF = of_nat (v mod 2 ^ 28)"
  "(of_nat v :: u32) AND 0x0FFF = of_nat (v mod 2 ^ 12)"
  by (rule of_nat_low_bits, simp add: mask_eq_exp_minus_1)+

lemma table_le_None: "tb n = None \<Longrightarrow> 0 < w \<Longrightarrow> table_le tb w n = None"
  by (cases w) auto

lemma even_unat: "even (unat (w :: 'a::len word)) \<longleftrightarrow> even w"
proof -
  have "bit (unat w) 0 \<longleftrightarrow> bit w 0" by (simp only: bit_unsigned_iff) simp
  then show ?thesis by (simp add: bit_0)
qed

lemma mod_fit:
  assumes "w dvd n" and "w dvd sz" and "0 < sz"
  shows "n mod sz + w \<le> (sz :: nat)"
proof -
  have "w dvd n mod sz" using assms by (simp add: dvd_mod)
  then obtain a where a: "n mod sz = w * a" by (auto elim: dvdE)
  obtain b where b: "sz = w * b" using assms(2) by (auto elim: dvdE)
  have "a < b" using a b assms(3) by (metis mod_less_divisor mult_less_cancel1)
  then have "w * Suc a \<le> w * b" by (intro mult_le_mono2) simp
  then show ?thesis using a b by simp
qed

lemma table_byte_Suc_sector:
  assumes "n mod sz = sz - 1" and "0 < sz"
  shows "table_byte rd base sz (Suc n) = map_option (\<lambda>bs. bs ! 0) (rd (base + of_nat (n div sz) + 1) 1)"
proof -
  have "Suc n mod sz = 0" "Suc n div sz = Suc (n div sz)"
    using assms by (simp_all add: mod_Suc div_Suc)
  then show ?thesis by (simp only: table_byte_def) (simp add: ac_simps)
qed

lemma cache_ok_span:
  assumes "cache_ok env fs" and "vol_laws (fe_read env) (unat (fm_sectorSz fs))" and "fe_read env s' 1 = Some bs"
  shows "cache_ok env (fs\<lparr>fs_heap := (fs_heap fs)[p := buf_put (fs_heap fs ! p) (unat (fm_sectorSz fs)) bs]\<rparr>)"
  using assms by (auto simp: cache_ok_def intro: holds_sector_put)

text \<open>Reading the table is looking up the entry, whatever is cached.\<close>

lemma fatReadNextCluster_entry:
  assumes laws: "array_laws (fe_cache env)" and vol: "vol_laws (fe_read env) (unat (fm_sectorSz fs))"
    and c: "cache_ok env fs" and g: "fat_geom fs" and k: "0 < unat k" "unat k < 2 ^ 28"
  shows "\<exists>fs'. fatReadNextCluster env fs k =
      Some (case fat_entry (fs_type fs) (fs_table env fs) (unat k) of
              None \<Rightarrow> UINT32_MAX | Some e \<Rightarrow> of_nat e, fs') \<and> cache_ok env fs' \<and> same_fs fs fs'"
proof -
  let ?sz = "unat (fm_sectorSz fs)" and ?rd = "fe_read env"
  define n where "n = tab_bytes (fs_type fs) (unat k)"
  define s where "s = fm_fatBase fs + of_nat (n div ?sz)"
  note ts = tab_sector [OF g k(2), folded n_def]
  have t0: "fatTabOffset (fs_type fs) k \<noteq> 0"
  proof
    assume "fatTabOffset (fs_type fs) k = 0"
    then have "tab_bytes (fs_type fs) (unat k) = 0"
      using fatTabOffset_unat [OF _ k(2)] g by (metis fat_geom_def unat_0)
    then show False using k g by (auto simp: tab_bytes_def fat_geom_def)
  qed
  obtain r fs1 where get: "fatGetSector env fs s = (r, fs1)" by fastforce
  have s: "s < 2 ^ 32" using ts(3) by (simp add: s_def)
  note ok = fatGetSector_ok [OF laws vol c s get]
  note code = fatReadNextCluster_def [of env fs k, unfolded Let_def ts(1,2), folded s_def]
  have sz: "0 < ?sz" "4 dvd ?sz" using g by (auto simp: fat_geom_def)
  show ?thesis
  proof (cases r)
    case None
    then have "table_byte ?rd (fm_fatBase fs) ?sz n = None"
      using ok by (simp add: table_byte_def s_def)
    then have "fat_entry (fs_type fs) (fs_table env fs) (unat k) = None"
      using g by (auto simp: fat_entry_def fs_table_def n_def tab_bytes_def fat_geom_def table_le_None)
    then show ?thesis using code get None ok t0 ts(4) by simp
  next
    case (Some p)
    then have h: "holds_sector ?rd ?sz (fs_heap fs1) p s" using ok by simp
    have same: "same_fs fs fs1" using ok by simp
    consider (f32) "fs_type fs = VOLUME_FS_FAT32" | (f16) "fs_type fs = VOLUME_FS_FAT16"
      | (f12) "fs_type fs = VOLUME_FS_FAT12" using g by (auto simp: fat_geom_def)
    then show ?thesis
    proof cases
      case f32
      have "n mod ?sz + 4 \<le> ?sz" using sz by (intro mod_fit) (simp_all add: n_def tab_bytes_def f32)
      then obtain v where v: "buf_le 4 (fs_heap fs1 ! p) (n mod ?sz) = Some v" "table_le (fs_table env fs) 4 n = Some v"
        unfolding fs_table_def using buf_le_sector [OF h [unfolded s_def]] by blast
      then have "fat_entry (fs_type fs) (fs_table env fs) (unat k) = Some (v mod 2 ^ 28)"
        by (simp add: fat_entry_def f32 n_def tab_bytes_def)
      then show ?thesis
        using code get Some ok t0 ts(4) v same_fsD(1) [OF same] f32 of_nat_mask(1) [of v] by simp
    next
      case f16
      have "2 dvd ?sz" using sz(2) by (metis dvd_trans dvd_triv_left numeral_Bit0 mult_2)
      then have "n mod ?sz + 2 \<le> ?sz" using sz by (intro mod_fit) (simp_all add: n_def tab_bytes_def f16)
      then obtain v where v: "buf_le 2 (fs_heap fs1 ! p) (n mod ?sz) = Some v" "table_le (fs_table env fs) 2 n = Some v"
        unfolding fs_table_def using buf_le_sector [OF h [unfolded s_def]] by blast
      then have "fat_entry (fs_type fs) (fs_table env fs) (unat k) = Some v"
        by (simp add: fat_entry_def f16 n_def tab_bytes_def)
      then show ?thesis
        using code get Some ok t0 ts(4) v same_fsD(1) [OF same] f16 by simp
    next
      case f12
      define span where "span \<longleftrightarrow> n mod ?sz = ?sz - 1"
      have entry: "fat_entry (fs_type fs) (fs_table env fs) (unat k) =
          map_option (\<lambda>v. if odd k then v div 16 else v mod 2 ^ 12) (table_le (fs_table env fs) 2 n)"
        by (simp add: fat_entry_def f12 n_def tab_bytes_def even_unat)
      note same1 = same_fsD [OF same]
      have code': "fatReadNextCluster env fs k =
          (case (if n mod ?sz = ?sz - 1
                 then map_option (\<lambda>bs. fs1\<lparr>fs_heap := (fs_heap fs1)
                          [p := buf_put (fs_heap fs1 ! p) ?sz bs]\<rparr>) (?rd (s + 1) 1)
                 else Some fs1) of
             None \<Rightarrow> Some (UINT32_MAX, fs1)
           | Some fs2 \<Rightarrow> do {
               v \<leftarrow> buf_le 2 (fs_heap fs2 ! p) (n mod ?sz);
               Some (if odd k then of_nat (drop_bit 4 v) else of_nat v AND 0x0FFF, fs2) })"
        using t0 ts(4) by (simp add: code get Some f12 same1)
      show ?thesis
      proof (cases "n mod ?sz = ?sz - 1 \<and> ?rd (s + 1) 1 = None")
        case True
        then have "table_le (fs_table env fs) 2 n = None"
          using sz by (simp add: numeral_2_eq_2 fs_table_def table_byte_Suc_sector s_def split: bind_splits)
        then show ?thesis using code' True ok entry by simp
      next
        case False
        define fs2 where "fs2 = (if n mod ?sz = ?sz - 1
          then fs1\<lparr>fs_heap := (fs_heap fs1)[p := buf_put (fs_heap fs1 ! p) ?sz (the (?rd (s + 1) 1))]\<rparr>
          else fs1)"
        have two: "2 dvd ?sz" using sz(2) by (metis dvd_trans dvd_triv_left numeral_Bit0 mult_2)
        have "\<exists>v. buf_le 2 (fs_heap fs2 ! p) (n mod ?sz) = Some v \<and> table_le (fs_table env fs) 2 n = Some v"
        proof (cases "n mod ?sz = ?sz - 1")
          case True
          with False obtain bs where "?rd (s + 1) 1 = Some bs" by auto
          with True show ?thesis
            using buf_le_span [OF h [unfolded s_def] True sz(1) _ vol] h
            by (simp add: fs2_def fs_table_def s_def holds_sector_def)
        next
          case inside: False
          have "n mod ?sz < ?sz" using sz(1) by simp
          with inside have "n mod ?sz + 2 \<le> ?sz" by linarith
          with inside show ?thesis
            using buf_le_sector [OF h [unfolded s_def]] by (simp add: fs2_def fs_table_def)
        qed
        then obtain v where v: "buf_le 2 (fs_heap fs2 ! p) (n mod ?sz) = Some v"
          "table_le (fs_table env fs) 2 n = Some v" by blast
        have "cache_ok env fs2 \<and> same_fs fs1 fs2"
          using ok vol False cache_ok_span [of env fs1 "s + 1" _ p] by (auto simp: fs2_def same1)
        moreover have "(if n mod ?sz = ?sz - 1
            then map_option (\<lambda>bs. fs1\<lparr>fs_heap := (fs_heap fs1)[p := buf_put (fs_heap fs1 ! p) ?sz bs]\<rparr>)
              (?rd (s + 1) 1) else Some fs1) = Some fs2"
          using False by (auto simp: fs2_def)
        ultimately show ?thesis
          using code' entry v same_fs_trans [OF same] of_nat_mask(2) [of v]
          by (simp add: drop_bit_eq_div)
      qed
    qed
  qed
qed

section \<open>Cluster chains\<close>

text \<open>The least table value that is not a cluster: the bad mark, with the end marks above it.\<close>

definition bad_mark :: "volFs \<Rightarrow> nat" where
  "bad_mark type = (case type of VOLUME_FS_FAT12 \<Rightarrow> 0xFF7 | VOLUME_FS_FAT16 \<Rightarrow> 0xFFF7 | _ \<Rightarrow> 0xFFFFFF7)"

text \<open>The cluster \<open>n\<close> links behind the first one of a file; \<open>None\<close> behind its end, behind a bad
  cluster and behind a sector that cannot be read.\<close>

fun cluster_at :: "('c, 'd) fatEnv \<Rightarrow> ('c, 'd) fatFs \<Rightarrow> nat \<Rightarrow> nat \<Rightarrow> nat option" where
  "cluster_at env fs start 0 = Some start"
| "cluster_at env fs start (Suc n) = do {
     c \<leftarrow> cluster_at env fs start n;
     e \<leftarrow> fat_entry (fs_type fs) (fs_table env fs) c;
     (if bad_mark (fs_type fs) \<le> e then None else Some e) }"

lemma same_fs_spec:
  assumes "same_fs fs fs'"
  shows "fat_geom fs' = fat_geom fs" "fs_table env fs' = fs_table env fs"
    "cluster_at env fs' start n = cluster_at env fs start n"
proof -
  note s = same_fsD [OF assms]
  show "fat_geom fs' = fat_geom fs" and t: "fs_table env fs' = fs_table env fs"
    by (simp_all add: fat_geom_def fs_table_def s)
  show "cluster_at env fs' start n = cluster_at env fs start n"
    by (induction n) (simp_all add: s t)
qed

lemma table_le_bound: "table_le tb w n = Some v \<Longrightarrow> v < 256 ^ w"
proof (induction w arbitrary: n v)
  case 0
  then show ?case by simp
next
  case (Suc w)
  obtain x u where "tb n = Some x" and u: "table_le tb w (Suc n) = Some u" and "v = unat x + 256 * u"
    using Suc.prems by (auto split: bind_splits)
  moreover have "u < 256 ^ w" using u by (rule Suc.IH)
  moreover have "unat x < 256" by simp
  moreover have "u + 1 \<le> 256 ^ w" using \<open>u < 256 ^ w\<close> by simp
  ultimately have "v < 256 * 256 ^ w" by linarith
  then show ?case by simp
qed

lemma fat_entry_bound:
  assumes "fat_entry type tb c = Some e" and "type \<in> {VOLUME_FS_FAT12, VOLUME_FS_FAT16, VOLUME_FS_FAT32}"
  shows "e < 2 ^ 28"
proof -
  have two: "v < 2 ^ 16" if "table_le tb 2 n = Some v" for n v
    using table_le_bound [OF that] by simp
  consider "type = VOLUME_FS_FAT32" | "type = VOLUME_FS_FAT16" | "type = VOLUME_FS_FAT12"
    using assms(2) by auto
  then show ?thesis
  proof cases
    case 1
    then show ?thesis using assms(1) by (auto simp: fat_entry_def)
  next
    case 2
    then have "table_le tb 2 (2 * c) = Some e" using assms(1) by (simp add: fat_entry_def)
    then have "e < 2 ^ 16" by (rule two)
    then show ?thesis by simp
  next
    case 3
    then obtain v where v: "table_le tb 2 (c + c div 2) = Some v"
      and e: "e = (if odd c then v div 16 else v mod 2 ^ 12)"
      using assms(1) by (auto simp: fat_entry_def)
    have "e \<le> v" using e by simp
    with two [OF v] show ?thesis by simp
  qed
qed

text \<open>The tests for bad and end marks are one comparison.\<close>

lemma fat_marks:
  assumes "type \<in> {VOLUME_FS_FAT12, VOLUME_FS_FAT16, VOLUME_FS_FAT32}"
  obtains bad eof where "fatIsClusterBad type c = Some bad" and "fatIsClusterEof type c = Some eof"
    and "bad \<or> eof \<longleftrightarrow> bad_mark type \<le> unat c"
proof -
  have eq: "c = w \<longleftrightarrow> unat c = unat w" for w by (simp add: word_unat_eq_iff)
  show thesis
    using assms by (intro that [of "the (fatIsClusterBad type c)" "the (fatIsClusterEof type c)"])
      (auto simp: fatIsClusterBad_def fatIsClusterEof_def bad_mark_def word_le_nat_alt eq)
qed

text \<open>The setting of the reads: the arrays and the volume behave, the cache is sound, and the
  chain of the file stays among the clusters whose sector number fits 32 bits.\<close>

definition chain_ok :: "('c, 'd) fatEnv \<Rightarrow> ('c, 'd) fatFs \<Rightarrow> u32 \<Rightarrow> bool" where
  "chain_ok env fs start \<longleftrightarrow>
     (\<forall>n c. cluster_at env fs (unat start) n = Some c \<longrightarrow>
        2 \<le> c \<and> c < 2 ^ 28 \<and> unat (fm_dataBase fs) + (c - 2) * unat (fm_sectPerCluster fs) < 2 ^ 32)"

definition fat_ok :: "('c, 'd) fatEnv \<Rightarrow> ('c, 'd) fatFs \<Rightarrow> bool" where
  "fat_ok env fs \<longleftrightarrow>
     array_laws (fe_cache env) \<and> vol_laws (fe_read env) (unat (fm_sectorSz fs)) \<and> cache_ok env fs \<and>
     fat_geom fs"

lemma cluster_at_end: "cluster_at env fs start n = None \<Longrightarrow> n \<le> m \<Longrightarrow> cluster_at env fs start m = None"
proof (induction m)
  case 0
  then show ?case by simp
next
  case (Suc m)
  then show ?case by (cases "n = Suc m") auto
qed

lemma chain_ok_same: "same_fs fs fs' \<Longrightarrow> chain_ok env fs' start = chain_ok env fs start"
  by (simp add: chain_ok_def same_fs_spec same_fsD)

lemma fat_ok_same: "fat_ok env fs \<Longrightarrow> same_fs fs fs' \<Longrightarrow> cache_ok env fs' \<Longrightarrow> fat_ok env fs'"
  by (simp add: fat_ok_def same_fs_spec same_fsD)

definition cluster_val :: "nat option \<Rightarrow> u32" where
  "cluster_val r = (case r of None \<Rightarrow> UINT32_MAX | Some c \<Rightarrow> of_nat c)"

text \<open>Following the chain from any cluster on it.\<close>

lemma follow_loop_ok:
  assumes "fat_ok env fs" and "chain_ok env fs start" and "curPos \<le> clusterPos"
    and "cluster_at env fs (unat start) (unat curPos) = Some (unat cluster)"
  shows "\<exists>fs'. follow_loop env clusterPos curPos cluster fs =
      Some (cluster_val (cluster_at env fs (unat start) (unat clusterPos)), fs') \<and>
    cache_ok env fs' \<and> same_fs fs fs'"
  using assms
proof (induction env clusterPos curPos cluster fs rule: follow_loop.induct)
  case (1 env clusterPos curPos cluster fs)
  note ok = "1.prems"(1) and ch = "1.prems"(2) and le = "1.prems"(3) and at = "1.prems"(4)
  show ?case
  proof (cases "curPos < clusterPos")
    case False
    with le have "curPos = clusterPos" by simp
    with at ok show ?thesis by (simp add: follow_loop.simps [of env clusterPos] cluster_val_def fat_ok_def)
  next
    case lt: True
    have k: "0 < unat cluster" "unat cluster < 2 ^ 28" using ch at by (force simp: chain_ok_def)+
    let ?e = "fat_entry (fs_type fs) (fs_table env fs) (unat cluster)"
    obtain fs1 where rd: "fatReadNextCluster env fs cluster =
        Some (case ?e of None \<Rightarrow> UINT32_MAX | Some e \<Rightarrow> of_nat e, fs1)"
      and c1: "cache_ok env fs1" and s1: "same_fs fs fs1"
      using fatReadNextCluster_entry [OF _ _ _ _ k, of env fs] ok by (auto simp: fat_ok_def)
    let ?next = "case ?e of None \<Rightarrow> UINT32_MAX | Some e \<Rightarrow> of_nat e"
    have ty: "fs_type fs \<in> {VOLUME_FS_FAT12, VOLUME_FS_FAT16, VOLUME_FS_FAT32}"
      using ok by (simp add: fat_ok_def fat_geom_def)
    obtain bad eof where m: "fatIsClusterBad (fs_type fs) ?next = Some bad"
      "fatIsClusterEof (fs_type fs) ?next = Some eof" "bad \<or> eof \<longleftrightarrow> bad_mark (fs_type fs) \<le> unat ?next"
      by (rule fat_marks [OF ty])
    have un: "unat ?next = (case ?e of None \<Rightarrow> 2 ^ 32 - 1 | Some e \<Rightarrow> e)"
    proof (cases ?e)
      case (Some e)
      then have "e < 2 ^ 28" by (rule fat_entry_bound [OF _ ty])
      with Some show ?thesis by (simp add: unat_of_nat take_bit_eq_mod)
    qed (simp add: UINT32_MAX_def)
    have at1: "cluster_at env fs (unat start) (unat (curPos + 1)) =
        (if bad \<or> eof then None else Some (unat ?next))"
      using at m(3) un by (auto simp: unat_Suc_less [OF lt] bad_mark_def split: option.splits volFs.splits)
    have le1: "curPos + 1 \<le> clusterPos" using lt by (simp add: inc_le)
    have step: "follow_loop env clusterPos curPos cluster fs =
        (if bad \<or> eof then Some (UINT32_MAX, fs1) else follow_loop env clusterPos (curPos + 1) ?next fs1)"
      using lt rd m(1,2) by (simp add: follow_loop.simps [of env clusterPos curPos] same_fsD(1) [OF s1])
    show ?thesis
    proof (cases "bad \<or> eof")
      case True
      then have "cluster_at env fs (unat start) (unat clusterPos) = None"
        using at1 cluster_at_end le1 by (metis word_le_nat_alt)
      with True step c1 s1 show ?thesis by (simp add: cluster_val_def)
    next
      case False
      have "\<exists>fs'. follow_loop env clusterPos (curPos + 1) ?next fs1 =
          Some (cluster_val (cluster_at env fs1 (unat start) (unat clusterPos)), fs') \<and>
        cache_ok env fs' \<and> same_fs fs1 fs'"
        using False lt rd m at1 fat_ok_same [OF ok s1 c1] ch le1 s1
        by (intro "1.IH") (auto simp: same_fsD(1) [OF s1] chain_ok_same same_fs_spec)
      with False step show ?thesis using same_fs_trans [OF s1] same_fs_spec(3) [OF s1] by auto
    qed
  qed
qed

section \<open>Reading blocks\<close>

text \<open>The first sector of a cluster, as the driver computes it.\<close>

lemma fatReadCluster_sector:
  assumes "2 \<le> unat c" and "unat (fm_dataBase fs) + (unat c - 2) * unat (fm_sectPerCluster fs) < 2 ^ 32"
  shows "fatReadCluster env fs c = fe_read env
    (of_nat (unat (fm_dataBase fs) + (unat c - 2) * unat (fm_sectPerCluster fs))) (unat (fm_sectPerCluster fs))"
proof -
  let ?n = "(unat c - 2) * unat (fm_sectPerCluster fs)" and ?d = "unat (fm_dataBase fs)"
  have "unat (c - 2) = unat c - 2" using assms(1) by (simp add: unat_sub_if')
  then have "unat ((c - 2) * ucast (fm_sectPerCluster fs)) = ?n"
    using assms(2) by (simp add: unat_word_ariths)
  then have "(ucast ((c - 2) * ucast (fm_sectPerCluster fs)) :: u64) = of_nat ?n"
    by (metis of_nat_unat)
  then have u: "ucast ((c - 2) * ucast (fm_sectPerCluster fs)) + fm_dataBase fs = of_nat (?d + ?n)"
    by simp
  have "(of_nat (?d + ?n) :: u64) < 2 ^ 32"
    using assms(2) by (simp add: word_less_nat_alt unat_of_nat take_bit_nat_eq_self del: of_nat_add)
  then show ?thesis
    by (simp add: fatReadCluster_def u ucast_u32_id del: of_nat_add)
qed

text \<open>What the block at a position of the file reads as: the sectors of the cluster that many
  links behind its first one, and \<open>None\<close> where there is no such cluster.\<close>

definition file_block :: "('c, 'd) fatEnv \<Rightarrow> ('c, 'd) fatFs \<Rightarrow> u32 \<Rightarrow> u32 \<Rightarrow> byte list option" where
  "file_block env fs start pos = do {
     c \<leftarrow> cluster_at env fs (unat start) (unat pos div unat (fs_blockSz fs));
     fe_read env (of_nat (unat (fm_dataBase fs) + (c - 2) * unat (fm_sectPerCluster fs)))
       (unat (fm_sectPerCluster fs)) }"

text \<open>The hint of an open file: the cluster that was read last is the one at its position.\<close>

definition hint_ok :: "('c, 'd) fatEnv \<Rightarrow> ('c, 'd) fatFs \<Rightarrow> fatFile \<Rightarrow> bool" where
  "hint_ok env fs file \<longleftrightarrow>
     (if lastReadCluster file = 0 then lastReadPos file = 0
      else cluster_at env fs (unat (startCluster file)) (unat (lastReadPos file)) =
             Some (unat (lastReadCluster file)))"

lemma fatReadCluster_at:
  assumes "chain_ok env fs start" and "cluster_at env fs (unat start) n = Some c"
  shows "fatReadCluster env fs (of_nat c) = fe_read env
    (of_nat (unat (fm_dataBase fs) + (c - 2) * unat (fm_sectPerCluster fs))) (unat (fm_sectPerCluster fs))"
proof -
  have c: "2 \<le> c" "c < 2 ^ 28" "unat (fm_dataBase fs) + (c - 2) * unat (fm_sectPerCluster fs) < 2 ^ 32"
    using assms by (auto simp: chain_ok_def)
  then have "unat (of_nat c :: u32) = c" by (simp add: unat_of_nat take_bit_nat_eq_self)
  with c show ?thesis using fatReadCluster_sector [of "of_nat c" fs env] by simp
qed

lemma FatReadFileBlock_block:
  assumes ok: "fat_ok env fs" and ch: "chain_ok env fs (startCluster file)" and h: "hint_ok env fs file"
    and bs: "0 < fs_blockSz fs"
  shows "\<exists>file' fs'. FatReadFileBlock env fs file pos =
      Some (file_block env fs (startCluster file) pos, file', fs') \<and>
    cache_ok env fs' \<and> same_fs fs fs' \<and> hint_ok env fs file' \<and> startCluster file' = startCluster file"
proof -
  let ?start = "startCluster file" and ?n = "pos div ucast (fs_blockSz fs)"
  have n: "unat ?n = unat pos div unat (fs_blockSz fs)" by (simp add: unat_div_distrib)
  have "cluster_at env fs (unat ?start) 0 = Some (unat ?start)" by simp
  then have start: "?start \<noteq> 0" using ch unfolding chain_ok_def by fastforce
  show ?thesis
  proof (cases "?n = lastReadPos file \<and> lastReadCluster file \<noteq> 0")
    case True
    then have "cluster_at env fs (unat ?start) (unat ?n) = Some (unat (lastReadCluster file))"
      using h by (simp add: hint_ok_def)
    then have "fatReadCluster env fs (lastReadCluster file) = file_block env fs ?start pos"
      using fatReadCluster_at [OF ch] by (fastforce simp: file_block_def n)
    with True bs h ok show ?thesis by (auto simp: FatReadFileBlock_def fat_ok_def)
  next
    case False
    define f1 where "f1 = (if ?n \<le> lastReadPos file then file\<lparr>lastReadCluster := 0, lastReadPos := 0\<rparr> else file)"
    define f2 where "f2 = (if lastReadCluster f1 = 0 then f1\<lparr>lastReadCluster := startCluster f1\<rparr> else f1)"
    have f2: "startCluster f2 = ?start" "lastReadPos f2 \<le> ?n"
      "cluster_at env fs (unat ?start) (unat (lastReadPos f2)) = Some (unat (lastReadCluster f2))"
      "lastReadCluster f2 \<noteq> 0"
      using h start by (auto simp: f1_def f2_def hint_ok_def)
    obtain fs' where fl: "follow_loop env ?n (lastReadPos f2) (lastReadCluster f2) fs =
        Some (cluster_val (cluster_at env fs (unat ?start) (unat ?n)), fs')"
      and c': "cache_ok env fs'" and s': "same_fs fs fs'"
      using follow_loop_ok [OF ok ch f2(2,3)] by blast
    let ?r = "cluster_val (cluster_at env fs (unat ?start) (unat ?n))"
    have code: "FatReadFileBlock env fs file pos =
        (if ?r = UINT32_MAX then Some (None, f2, fs')
         else Some (fatReadCluster env fs' ?r, f2\<lparr>lastReadCluster := ?r, lastReadPos := ?n\<rparr>, fs'))"
      using False bs fl by (auto simp: FatReadFileBlock_def fatFollowClusterChain_def Let_def f1_def [symmetric]
          f2_def [symmetric])
    show ?thesis
    proof (cases "cluster_at env fs (unat ?start) (unat ?n)")
      case None
      then show ?thesis using code c' s' f2 by (auto simp: cluster_val_def file_block_def n hint_ok_def)
    next
      case (Some c)
      then have c: "2 \<le> c" "c < 2 ^ 28" using ch by (auto simp: chain_ok_def)
      then have uc: "unat (of_nat c :: u32) = c" by (simp add: unat_of_nat take_bit_nat_eq_self)
      have "unat UINT32_MAX = 2 ^ 32 - 1" by (simp add: UINT32_MAX_def)
      then have "of_nat c \<noteq> UINT32_MAX" using uc c by auto
      moreover have "of_nat c \<noteq> (0 :: u32)" using uc c by auto
      moreover have "fatReadCluster env fs' (of_nat c) = file_block env fs ?start pos"
        using fatReadCluster_at [OF ch Some] Some n
        by (simp add: file_block_def fatReadCluster_def same_fsD [OF s'])
      ultimately show ?thesis
        using code Some c' s' f2 uc n by (auto simp: cluster_val_def hint_ok_def)
    qed
  qed
qed

text \<open>Reading the blocks at a list of positions of an open file, one after the other.\<close>

fun read_blocks ::
  "('c, 'd) fatEnv \<Rightarrow> u32 list \<Rightarrow> fatFile \<Rightarrow> ('c, 'd) fatFs \<Rightarrow>
   (byte list option list \<times> fatFile \<times> ('c, 'd) fatFs) option" where
  "read_blocks env [] file fs = Some ([], file, fs)"
| "read_blocks env (pos # ps) file fs = do {
     (r, file, fs) \<leftarrow> FatReadFileBlock env fs file pos;
     (rs, file, fs) \<leftarrow> read_blocks env ps file fs;
     Some (r # rs, file, fs) }"

lemma hint_ok_same: "same_fs fs fs' \<Longrightarrow> hint_ok env fs' file = hint_ok env fs file"
  by (simp add: hint_ok_def same_fs_spec)

lemma file_block_same: "same_fs fs fs' \<Longrightarrow> file_block env fs' start pos = file_block env fs start pos"
  by (simp add: file_block_def same_fs_spec same_fsD)

lemma read_blocks_any_hint:
  assumes "fat_ok env fs" and "chain_ok env fs (startCluster fl)" and "hint_ok env fs fl"
    and "0 < fs_blockSz fs"
  shows "\<exists>file' fs'. read_blocks env ps fl fs =
    Some (map (file_block env fs (startCluster fl)) ps, file', fs')"
  using assms
proof (induction ps arbitrary: fl fs)
  case Nil
  then show ?case by simp
next
  case (Cons pos ps)
  obtain f1 fs1 where r: "FatReadFileBlock env fs fl pos =
      Some (file_block env fs (startCluster fl) pos, f1, fs1)"
    and c: "cache_ok env fs1" and s: "same_fs fs fs1" and h: "hint_ok env fs f1"
    and st: "startCluster f1 = startCluster fl"
    using FatReadFileBlock_block [OF Cons.prems] by blast
  obtain f2 fs2 where "read_blocks env ps f1 fs1 =
      Some (map (file_block env fs1 (startCluster f1)) ps, f2, fs2)"
    using Cons.IH [of fs1 f1] fat_ok_same [OF Cons.prems(1) s c] Cons.prems h s st
    by (auto simp: chain_ok_same hint_ok_same same_fsD)
  with r show ?case by (simp add: st file_block_same [OF s])
qed

text \<open>C15: Whatever blocks of an open file are read, in whatever order, each read gives the sectors
  of the cluster that the table has at that position of the file's chain (or fails where the chain
  is shorter), although the driver starts from the cluster it read last and keeps sectors of the
  table in a bounded cache. The table's entries of 12, 16 and 28 bits are decoded as the format
  has them, across sector boundaries too.\<close>

theorem read_blocks_chain:
  assumes "array_laws (fe_cache env)" and "vol_laws (fe_read env) (unat (fm_sectorSz fs))"
    and "fat_geom fs" and "cache_ok env fs" and "chain_ok env fs start" and "0 < fs_blockSz fs"
  shows "\<exists>file fs'. read_blocks env ps \<lparr>lastReadCluster = 0, lastReadPos = 0, startCluster = start\<rparr> fs =
    Some (map (file_block env fs start) ps, file, fs')"
  using read_blocks_any_hint [of env fs "\<lparr>lastReadCluster = 0, lastReadPos = 0, startCluster = start\<rparr>" ps] assms
  by (simp add: fat_ok_def hint_ok_def)

section \<open>A concrete volume\<close>

text \<open>An array as a list with a greatest length.\<close>

definition bounded_array :: "nat \<Rightarrow> 'e \<Rightarrow> ('e, 'e list) arrayOps" where
  "bounded_array n e0 = \<lparr>ar_full = (\<lambda>a. n \<le> length a), ar_find = (\<lambda>a. Some (length a, a)),
     ar_get = (\<lambda>a i. if i < length a then a ! i else e0),
     ar_put = (\<lambda>a i e. if i < length a then a[i := e] else a @ [e]), ar_list = (\<lambda>a. a)\<rparr>"

lemma bounded_array_laws: "array_laws (bounded_array n e0)"
  by (auto simp: array_laws_def bounded_array_def dest: subsetD [OF set_update_subset_insert])

text \<open>Sectors of four bytes: the table starts in sector 1, entry 2 (the cluster 3) crosses into
  sector 2, and the clusters 2 and 3 are the sectors 3 and 4.\<close>

definition vol12 :: volRead where
  "vol12 s n =
     (if n \<noteq> 1 then None
      else if s = 1 then Some [0xF0, 0xFF, 0xFF, 0x03]
      else if s = 2 then Some [0xF0, 0xFF, 0, 0]
      else if s = 3 then Some [1, 2, 3, 4]
      else if s = 4 then Some [5, 6, 7, 8]
      else None)"

definition env12 :: "(fatCacheEnt list, fatDirBuffer list) fatEnv" where
  "env12 = \<lparr>fe_read = vol12, fe_cache = bounded_array 64 \<lparr>fce_data = 0, fce_sector = 0\<rparr>,
     fe_dirs = bounded_array 256 \<lparr>fdb_dirEnt = [], fdb_name = replicate 256 0, fdb_cluster = 0\<rparr>\<rparr>"

definition fs12 :: "(fatCacheEnt list, fatDirBuffer list) fatFs" where
  "fs12 = \<lparr>fs_type = VOLUME_FS_FAT12, fs_blockSz = 4, fm_dir = [0, 0, 0, 0], fm_fatCache = [],
     fm_dirBuffer = [], fm_fatBase = 1, fm_fatSz = 2, fm_dataBase = 3, fm_rootDir = 3, fm_rootDirSz = 0,
     fm_sectPerCluster = 1, fm_sectorSz = 4, fs_heap = []\<rparr>"

lemma table_le_2: "table_le tb 2 n = do { x \<leftarrow> tb n; y \<leftarrow> tb (Suc n); Some (unat x + 256 * unat y) }"
  by (simp add: numeral_2_eq_2)

lemma entry12: "fat_entry VOLUME_FS_FAT12 (fs_table env12 fs12) 2 = Some 3"
  "fat_entry VOLUME_FS_FAT12 (fs_table env12 fs12) 3 = Some 0xFFF"
  by (simp_all add: fat_entry_def fs_table_def table_byte_def env12_def fs12_def vol12_def table_le_2)

lemma cluster12: "cluster_at env12 fs12 2 n = (if n = 0 then Some 2 else if n = 1 then Some 3 else None)"
proof (cases n)
  case (Suc k)
  have two: "cluster_at env12 fs12 2 (Suc (Suc 0)) = None"
    using entry12 by (simp add: bad_mark_def fs12_def)
  show ?thesis
  proof (cases k)
    case 0
    with Suc entry12 show ?thesis by (simp add: bad_mark_def fs12_def)
  next
    case (Suc j)
    with \<open>n = Suc k\<close> cluster_at_end [OF two, of n] show ?thesis by simp
  qed
qed simp

theorem read_blocks_chain_witness:
  "\<exists>file fs'. read_blocks env12 [4, 0, 5, 9] \<lparr>lastReadCluster = 0, lastReadPos = 0, startCluster = 2\<rparr> fs12 =
     Some ([Some [5, 6, 7, 8], Some [1, 2, 3, 4], Some [5, 6, 7, 8], None], file, fs')"
proof -
  have "array_laws (fe_cache env12)" by (simp add: env12_def bounded_array_laws)
  moreover have "vol_laws (fe_read env12) (unat (fm_sectorSz fs12))"
    by (simp add: vol_laws_def env12_def vol12_def fs12_def)
  moreover have "fat_geom fs12" by (simp add: fat_geom_def fs12_def)
  moreover have "cache_ok env12 fs12" by (simp add: cache_ok_def fs12_def env12_def bounded_array_def)
  moreover have "chain_ok env12 fs12 2" by (simp add: chain_ok_def cluster12) (simp add: fs12_def)
  moreover have "0 < fs_blockSz fs12" by (simp add: fs12_def)
  moreover have "map (file_block env12 fs12 2) [4, 0, 5, 9] =
      [Some [5, 6, 7, 8], Some [1, 2, 3, 4], Some [5, 6, 7, 8], None]"
    by (simp add: file_block_def cluster12) (simp add: fs12_def env12_def vol12_def)
  ultimately show ?thesis
    using read_blocks_chain [of env12 fs12 2 "[4, 0, 5, 9]"] by metis
qed

end
