(* ===== verification/FatDir.thy ===== *)
theory FatDir
  imports FatTable
begin

text \<open>
  The FAT driver of the boot loader, second part: short and long names, directories and their
  buffer of entries, and the operations of the file system on paths
  (\<open>source/nexboot/src/filesys/fat.c\<close>).

  A directory in memory is the bytes that were read; its entries are 32 bytes each, and a name in
  an array is the array's bytes. \<open>char\<close> is signed, as on the x86 targets. Accesses outside an
  array, and the search for a period behind the end of a name, are \<open>None\<close>; so is a loop that
  does not end.
\<close>

section \<open>Directory entries\<close>

definition byte_of :: "byte list \<Rightarrow> nat \<Rightarrow> byte option" where
  "byte_of bs n = (if n < length bs then Some (bs ! n) else None)"

text \<open>A little-endian field of a structure.\<close>

definition le_field :: "byte list \<Rightarrow> nat \<Rightarrow> nat \<Rightarrow> nat" where
  "le_field ent i w = le_val (take w (drop i ent))"

definition FAT_DIR_HIDDEN :: byte where "FAT_DIR_HIDDEN = 2"
definition FAT_DIR_VOL_ID :: byte where "FAT_DIR_VOL_ID = 8"
definition FAT_DIR_IS_DIR :: byte where "FAT_DIR_IS_DIR = 16"
definition FAT_DIR_LFN :: byte where "FAT_DIR_LFN = 15"

text \<open>\<open>FatDirEntry_t\<close>: the fields of an entry's 32 bytes.\<close>

definition dirName :: "byte list \<Rightarrow> byte list" where "dirName ent = take 11 ent"
definition dirAttr :: "byte list \<Rightarrow> byte" where "dirAttr ent = ent ! 11"
definition dirCluster :: "byte list \<Rightarrow> u32" where
  "dirCluster ent = of_nat (le_field ent 26 2) OR push_bit 16 (of_nat (le_field ent 20 2))"
definition dirFileSz :: "byte list \<Rightarrow> u32" where "dirFileSz ent = of_nat (le_field ent 28 4)"

definition dir_ent :: "byte list \<Rightarrow> nat \<Rightarrow> byte list option" where
  "dir_ent dir i = (if 32 * i + 32 \<le> length dir then Some (take 32 (drop (32 * i) dir)) else None)"

definition fatIsValidFile :: "byte list \<Rightarrow> bool" where
  "fatIsValidFile ent \<longleftrightarrow>
     \<not> (ent ! 0 = 0xE5 \<or> dirAttr ent AND FAT_DIR_HIDDEN \<noteq> 0 \<or> dirAttr ent AND FAT_DIR_VOL_ID \<noteq> 0)"

definition fatIsLfn :: "byte list \<Rightarrow> bool" where
  "fatIsLfn ent \<longleftrightarrow> dirAttr ent AND FAT_DIR_LFN = FAT_DIR_LFN"

section \<open>Short names\<close>

text \<open>The string in an array: its bytes up to the first NUL.\<close>

definition c_string :: "byte list \<Rightarrow> byte list" where
  "c_string bs = takeWhile (\<lambda>b. b \<noteq> 0) bs"

text \<open>The table of valid characters by its zeros.\<close>

definition fatValidChars :: "byte \<Rightarrow> bool" where
  "fatValidChars c \<longleftrightarrow>
     c \<notin> {34, 42, 43, 44, 46, 47, 58, 59, 60, 61, 62, 63, 91, 92, 93, 124}"

definition char83 :: "byte \<Rightarrow> byte" where
  "char83 c =
     (if 97 \<le> sint c \<and> sint c \<le> 122 then c - 32
      else if sint c < 0x20 \<or> \<not> fatValidChars c then 95
      else c)"

text \<open>The 11 bytes of the short name of a string without NUL. The search for the period goes on
  behind the string when there is none.\<close>

definition fileTo83 :: "byte list \<Rightarrow> byte list option" where
  "fileTo83 s =
     (if s = [46] then Some (46 # replicate 10 32)
      else if s = [46, 46] then Some (46 # 46 # replicate 9 32)
      else
        (let base = takeWhile (\<lambda>c. c \<noteq> 46) (take 8 s);
             i = length base;
             out = map char83 base @ replicate (11 - i) 32
         in if i < length s
            then (case dropWhile (\<lambda>c. c \<noteq> 46) (drop i s) of
                    [] \<Rightarrow> None
                  | _ # rest \<Rightarrow>
                      (let ext = map char83 (take 3 rest)
                       in Some (take (11 - length ext) out @ ext)))
            else Some out))"

text \<open>The string of the 11 bytes of a short name.\<close>

definition file83ToName :: "byte list \<Rightarrow> byte list" where
  "file83ToName nm =
     (if take 2 nm = [46, 46] then [46, 46]
      else if take 1 nm = [46] then [46]
      else
        (let base = takeWhile (\<lambda>c. c \<noteq> 32) (take 8 nm);
             rest = dropWhile (\<lambda>c. c = 32) (take (11 - length base) (drop (length base) nm))
         in if rest = [] then base else base @ 46 # rest))"

section \<open>Long names\<close>

text \<open>The characters of an entry of a long name: their place in its 13, the unit that is compared
  with the padding, and the unit that is stored. The last two compare \<open>name2\<close>, not \<open>name3\<close>.\<close>

definition lfn_chars :: "byte list \<Rightarrow> (nat \<times> nat \<times> nat) list" where
  "lfn_chars ent =
     map (\<lambda>j. (j, le_field ent (1 + 2 * j) 2, le_field ent (1 + 2 * j) 2)) [0..<5] @
     map (\<lambda>j. (j, le_field ent (14 + 2 * (j - 5)) 2, le_field ent (14 + 2 * (j - 5)) 2)) [5..<11] @
     map (\<lambda>j. (j, le_field ent (14 + 2 * (j - 11)) 2, le_field ent (28 + 2 * (j - 11)) 2)) [11..<13]"

fun lfn_store :: "byte list \<Rightarrow> nat \<Rightarrow> (nat \<times> nat \<times> nat) list \<Rightarrow> byte list option" where
  "lfn_store name b [] = Some name"
| "lfn_store name b ((j, chk, v) # cs) =
     (if chk = 0xFFFF then lfn_store name b cs
      else if b + j < length name then lfn_store (name[b + j := of_nat v]) b cs
      else None)"

text \<open>The place of the entry's first character: its order is a byte, and the first is number 1.\<close>

definition lfn_base :: "byte list \<Rightarrow> nat" where
  "lfn_base ent = unat ((ent ! 0 AND 0x3F) - 1) * 13"

text \<open>The entries from an index on, to the first that does not belong to a long name.\<close>

function fatParseLfn :: "byte list \<Rightarrow> nat \<Rightarrow> byte list \<Rightarrow> (nat \<times> byte list) option" where
  "fatParseLfn dir i lfnName =
     (case dir_ent dir i of
        None \<Rightarrow> None
      | Some ent \<Rightarrow>
          if fatIsLfn ent then do {
            lfnName \<leftarrow> lfn_store lfnName (lfn_base ent) (lfn_chars ent);
            (n, lfnName) \<leftarrow> fatParseLfn dir (i + 1) lfnName;
            Some (n + 1, lfnName) }
          else Some (0, lfnName))"
  by pat_completeness auto
termination
  by (relation "measure (\<lambda>(dir, i, _). length dir - 32 * i)") (auto simp: dir_ent_def split: if_splits)

declare fatParseLfn.simps [simp del]

section \<open>The buffer of directory entries\<close>

text \<open>\<open>name\<close> is the memory from the name on. \<open>strlen\<close> must find its end there, and the entry's
  array must hold it.\<close>

definition fatBufferDirEnt ::
  "('c, 'd) fatEnv \<Rightarrow> ('c, 'd) fatFs \<Rightarrow> byte list \<Rightarrow> byte list \<Rightarrow> u32 \<Rightarrow>
   (bool \<times> ('c, 'd) fatFs) option" where
  "fatBufferDirEnt env fs name ent cluster =
     (let ops = fe_dirs env;
          s = c_string name
      in case (if ar_full ops (fm_dirBuffer fs) then Some (0, fm_dirBuffer fs)
               else ar_find ops (fm_dirBuffer fs)) of
           None \<Rightarrow> Some (False, fs)
         | Some (pos, dirs) \<Rightarrow>
             if length s = length name \<or> 256 \<le> length s then None
             else
               (let old = ar_get ops dirs pos;
                    new = \<lparr>fdb_dirEnt = ent,
                      fdb_name = s @ [0] @ drop (length s + 1) (fdb_name old),
                      fdb_cluster = cluster\<rparr>
                in Some (True, fs\<lparr>fm_dirBuffer := ar_put ops dirs pos new\<rparr>)))"

definition fatFindBufferDir ::
  "('c, 'd) fatEnv \<Rightarrow> ('c, 'd) fatFs \<Rightarrow> byte list \<Rightarrow> u32 \<Rightarrow> byte list option" where
  "fatFindBufferDir env fs name cluster =
     map_option fdb_dirEnt
       (find (\<lambda>buf. fdb_cluster buf = cluster \<and> take 11 (fdb_name buf) = take 11 name)
         (ar_list (fe_dirs env) (fm_dirBuffer fs)))"

section \<open>Finding an entry\<close>

text \<open>The loop over a directory that was read, from index \<open>i\<close>. The loop reads the entry behind the
  last one before it compares the size; the value has no effect. A long name has at least one
  entry, so the count of its entries is never 0: the test only shows that the recursion ends.\<close>

function find_in_dir ::
  "('c, 'd) fatEnv \<Rightarrow> byte list \<Rightarrow> byte list \<Rightarrow> byte list \<Rightarrow> u32 \<Rightarrow> nat \<Rightarrow>
   nat \<Rightarrow> bool \<Rightarrow> byte list \<Rightarrow> ('c, 'd) fatFs \<Rightarrow> (byte list option \<times> ('c, 'd) fatFs) option" where
  "find_in_dir env dir name name83 cluster dirSz i foundLfn lfnName fs =
     (if dirSz \<le> 32 * i then Some (None, fs)
      else case dir_ent dir i of
        None \<Rightarrow> None
      | Some ent \<Rightarrow>
          if ent ! 0 = 0 then Some (None, fs)
          else if fatIsLfn ent then
            (case fatParseLfn dir i lfnName of
               None \<Rightarrow> None
             | Some (n, lfnName) \<Rightarrow>
                 if n = 0 then None
                 else find_in_dir env dir name name83 cluster dirSz (i + n) True lfnName fs)
          else do {
            let nameToCheck = (if foundLfn then lfnName else drop (32 * i) dir);
            (ok, fs) \<leftarrow> (if fatIsValidFile ent \<and> fatFindBufferDir env fs nameToCheck cluster = None
                        then fatBufferDirEnt env fs nameToCheck ent cluster else Some (True, fs));
            (if \<not> ok then Some (None, fs)
             else if (if foundLfn then c_string nameToCheck = name else take 11 nameToCheck = name83)
             then Some (Some ent, fs)
             else find_in_dir env dir name name83 cluster dirSz (i + 1) False lfnName fs) })"
  by pat_completeness auto
termination
  by (relation "measure (\<lambda>(_, _, _, _, _, dirSz, i, _, _, _). dirSz - 32 * i)") auto

declare find_in_dir.simps [simp del]

definition fatFindInDir ::
  "('c, 'd) fatEnv \<Rightarrow> ('c, 'd) fatFs \<Rightarrow> byte list \<Rightarrow> byte list \<Rightarrow> u32 \<Rightarrow> nat \<Rightarrow>
   (byte list option \<times> ('c, 'd) fatFs) option" where
  "fatFindInDir env fs dir name cluster dirSz =
     (let s = c_string name
      in case fileTo83 s of
           None \<Rightarrow> None
         | Some name83 \<Rightarrow> find_in_dir env dir s name83 cluster dirSz 0 False (replicate 256 0) fs)"

section \<open>Paths\<close>

text \<open>The parser's \<open>oldName\<close> is the rest of the path; \<open>name\<close> is the array of the component.\<close>

record pathPart =
  pp_oldName :: "byte list"
  pp_name :: "byte list"
  pp_isLastPart :: bool

definition parsePath :: "pathPart \<Rightarrow> pathPart option" where
  "parsePath part =
     (let rest = (case pp_oldName part of c # cs \<Rightarrow> if c = 47 then cs else c # cs | [] \<Rightarrow> []);
          name = takeWhile (\<lambda>c. c \<noteq> 47) rest;
          rest = dropWhile (\<lambda>c. c \<noteq> 47) rest;
          rest = (case rest of c # cs \<Rightarrow> cs | [] \<Rightarrow> [])
      in if 256 \<le> length name then None
         else Some \<lparr>pp_oldName = rest, pp_name = name @ replicate (256 - length name) 0,
                    pp_isLastPart = (rest = [] \<or> pp_isLastPart part)\<rparr>)"

section \<open>Looking a name up\<close>

text \<open>The clusters of a directory, read into the mount's buffer one after the other. An entry
  that was found is given up when the table cannot be read afterwards.\<close>

partial_function (option) find_dir_clusters ::
  "('c, 'd) fatEnv \<Rightarrow> byte list \<Rightarrow> u32 \<Rightarrow> u32 \<Rightarrow> ('c, 'd) fatFs \<Rightarrow>
   (byte list option \<times> ('c, 'd) fatFs) option" where
  "find_dir_clusters env name ocluster cluster fs =
     (case fatReadCluster env fs cluster of
        None \<Rightarrow> Some (None, fs)
      | Some dir \<Rightarrow> do {
          (ent, fs) \<leftarrow> fatFindInDir env (fs\<lparr>fm_dir := dir\<rparr>) dir name ocluster
                        (unat (ucast (fm_sectPerCluster fs) * ucast (fm_sectorSz fs) :: u32));
          (cluster, fs) \<leftarrow> fatReadNextCluster env fs cluster;
          (if cluster = UINT32_MAX then Some (None, fs)
           else do {
             eof \<leftarrow> fatIsClusterEof (fs_type fs) cluster;
             bad \<leftarrow> fatIsClusterBad (fs_type fs) cluster;
             (if eof \<or> bad \<or> ent \<noteq> None then Some (ent, fs)
              else find_dir_clusters env name ocluster cluster fs) }) })"

definition fatFindDirCluster ::
  "('c, 'd) fatEnv \<Rightarrow> ('c, 'd) fatFs \<Rightarrow> u32 \<Rightarrow> byte list \<Rightarrow>
   (byte list option \<times> ('c, 'd) fatFs) option" where
  "fatFindDirCluster env fs cluster name =
     (if cluster = 0 then Some (None, fs) else find_dir_clusters env name cluster cluster fs)"

text \<open>The sectors of the root directory of a FAT12 or FAT16 volume.\<close>

partial_function (option) find_root_sectors ::
  "('c, 'd) fatEnv \<Rightarrow> byte list \<Rightarrow> u64 \<Rightarrow> ('c, 'd) fatFs \<Rightarrow>
   (byte list option \<times> ('c, 'd) fatFs) option" where
  "find_root_sectors env name sector fs =
     (case fe_read env sector 1 of
        None \<Rightarrow> Some (None, fs)
      | Some dir \<Rightarrow> do {
          (ent, fs) \<leftarrow> fatFindInDir env (fs\<lparr>fm_dir := dir @ drop (length dir) (fm_dir fs)\<rparr>)
                        (dir @ drop (length dir) (fm_dir fs)) name 0 (unat (fm_sectorSz fs));
          let sector = sector + 1;
          (if sector - ucast (fm_rootDir fs) = ucast (fm_rootDirSz fs) \<or> ent \<noteq> None
           then Some (ent, fs) else find_root_sectors env name sector fs) })"

definition fatFindRootDir ::
  "('c, 'd) fatEnv \<Rightarrow> ('c, 'd) fatFs \<Rightarrow> byte list \<Rightarrow>
   (byte list option \<times> ('c, 'd) fatFs) option" where
  "fatFindRootDir env fs name =
     (if fs_type fs = VOLUME_FS_FAT32
      then (case fatFindBufferDir env fs name (fm_rootDir fs) of
              Some ent \<Rightarrow> Some (Some ent, fs)
            | None \<Rightarrow> fatFindDirCluster env fs (fm_rootDir fs) name)
      else (case fatFindBufferDir env fs name 0 of
              Some ent \<Rightarrow> Some (Some ent, fs)
            | None \<Rightarrow> find_root_sectors env name (ucast (fm_rootDir fs)) fs))"

definition fatFindDir ::
  "('c, 'd) fatEnv \<Rightarrow> ('c, 'd) fatFs \<Rightarrow> byte list \<Rightarrow> byte list \<Rightarrow>
   (byte list option \<times> ('c, 'd) fatFs) option" where
  "fatFindDir env fs parent name =
     (let cluster = dirCluster parent
      in if cluster = 0 then fatFindRootDir env fs name
         else (case fatFindBufferDir env fs name cluster of
                 Some ent \<Rightarrow> Some (Some ent, fs)
               | None \<Rightarrow> fatFindDirCluster env fs cluster name))"

text \<open>A component of a path, looked up in the current directory (\<open>None\<close> is the root).\<close>

definition find_part ::
  "('c, 'd) fatEnv \<Rightarrow> ('c, 'd) fatFs \<Rightarrow> byte list option \<Rightarrow> byte list \<Rightarrow>
   (byte list option \<times> ('c, 'd) fatFs) option" where
  "find_part env fs curDir name =
     (case curDir of None \<Rightarrow> fatFindRootDir env fs name | Some d \<Rightarrow> fatFindDir env fs d name)"

definition is_dir :: "byte list \<Rightarrow> bool" where
  "is_dir ent \<longleftrightarrow> dirAttr ent AND FAT_DIR_IS_DIR \<noteq> 0"

text \<open>The walk along a path to the entry of its last component, which \<open>FatOpenFile\<close> and
  \<open>FatGetFileInfo\<close> share: every component but the last must be a directory.\<close>

partial_function (option) walk_path ::
  "('c, 'd) fatEnv \<Rightarrow> pathPart \<Rightarrow> byte list option \<Rightarrow> ('c, 'd) fatFs \<Rightarrow>
   (byte list option \<times> ('c, 'd) fatFs) option" where
  "walk_path env part curDir fs = do {
     part \<leftarrow> parsePath part;
     (r, fs) \<leftarrow> find_part env fs curDir (pp_name part);
     (case r of
        None \<Rightarrow> Some (None, fs)
      | Some ent \<Rightarrow>
          if pp_isLastPart part then Some (Some ent, fs)
          else if \<not> is_dir ent then Some (None, fs)
          else walk_path env part (Some ent) fs) }"

definition part0 :: "byte list \<Rightarrow> pathPart" where
  "part0 path = \<lparr>pp_oldName = path, pp_name = replicate 256 0, pp_isLastPart = False\<rparr>"

section \<open>The operations of the file system\<close>

text \<open>The first result is the opened file with its size, \<open>None\<close> for \<open>false\<close>.\<close>

definition FatOpenFile ::
  "('c, 'd) fatEnv \<Rightarrow> ('c, 'd) fatFs \<Rightarrow> byte list \<Rightarrow>
   ((fatFile \<times> u32) option \<times> ('c, 'd) fatFs) option" where
  "FatOpenFile env fs path = do {
     (r, fs) \<leftarrow> walk_path env (part0 path) None fs;
     Some (case r of
             None \<Rightarrow> (None, fs)
           | Some ent \<Rightarrow>
               if is_dir ent then (None, fs)
               else (Some (\<lparr>lastReadCluster = 0, lastReadPos = 0, startCluster = dirCluster ent\<rparr>,
                           dirFileSz ent), fs)) }"

datatype fileType = NB_FILE_FILE | NB_FILE_DIR

definition type_of_ent :: "byte list \<Rightarrow> fileType" where
  "type_of_ent ent = (if is_dir ent then NB_FILE_DIR else NB_FILE_FILE)"

definition FatGetFileInfo ::
  "('c, 'd) fatEnv \<Rightarrow> ('c, 'd) fatFs \<Rightarrow> byte list \<Rightarrow>
   ((u32 \<times> fileType) option \<times> ('c, 'd) fatFs) option" where
  "FatGetFileInfo env fs path = do {
     (r, fs) \<leftarrow> walk_path env (part0 path) None fs;
     Some (map_option (\<lambda>ent. (dirFileSz ent, type_of_ent ent)) r, fs) }"

section \<open>Iterating over a directory\<close>

text \<open>\<open>NbDirIter_t\<close> with the \<open>FatDirIter_t\<close> in its internal bytes.\<close>

record dirIter =
  it_name :: "byte list"
  it_type :: fileType
  it_dir :: "byte list"
  it_curCluster :: u32
  it_curIdx :: u32

text \<open>An array after a string and its terminator were written to its front.\<close>

definition put_string :: "byte list \<Rightarrow> byte list \<Rightarrow> byte list" where
  "put_string arr s = s @ [0] @ drop (length s + 1) arr"

text \<open>\<open>file83ToName\<close> clears 13 bytes of its output first.\<close>

definition put_name83 :: "byte list \<Rightarrow> byte list \<Rightarrow> byte list" where
  "put_name83 arr ent =
     put_string (replicate 13 0 @ drop 13 arr) (file83ToName (dirName ent))"

text \<open>What a step to the next entry gives: an error, the end, or an entry.\<close>

datatype nextEnt = NextError | NextFinished | NextEnt "byte list"

text \<open>The part of both loops behind the read of a further sector or cluster: the entry at
  \<open>offset\<close>, with its long name before it. The result is the entry if it is one of a file, or
  \<open>None\<close> to go on from the offset, index and name it comes with.\<close>

datatype scan = ScanEnd | ScanAt "byte list option" nat u32 "byte list"

definition scan_entry :: "byte list \<Rightarrow> nat \<Rightarrow> u32 \<Rightarrow> byte list \<Rightarrow> scan option" where
  "scan_entry dir offset dirIdx nameOut = do {
     ent \<leftarrow> dir_ent dir offset;
     (if ent ! 0 = 0 then Some ScanEnd
      else do {
        (res, nameOut) \<leftarrow> (if fatIsLfn ent then fatParseLfn dir offset nameOut
                          else Some (0, nameOut));
        let foundLfn = fatIsLfn ent;
        let offset = offset + res;
        let dirIdx = dirIdx + of_nat res;
        ent \<leftarrow> dir_ent dir offset;
        Some (if fatIsValidFile ent
              then ScanAt (Some ent) offset dirIdx
                     (if foundLfn then nameOut else put_name83 nameOut ent)
              else ScanAt None offset dirIdx nameOut) }) }"

text \<open>The root directory of FAT12 and FAT16. The loop does not look at the directory's size.\<close>

partial_function (option) next_root_loop ::
  "('c, 'd) fatEnv \<Rightarrow> nat \<Rightarrow> u32 \<Rightarrow> nat \<Rightarrow> dirIter \<Rightarrow> (nextEnt \<times> dirIter) option" where
  "next_root_loop env entInSect sector offset iter = (
     let iter = iter\<lparr>it_curIdx := it_curIdx iter + 1\<rparr>;
         offset = offset + 1
     in case (if entInSect \<le> offset
              then map_option (\<lambda>bs. (sector + 1, 0, iter\<lparr>it_dir := bs @ drop (length bs) (it_dir iter)\<rparr>))
                     (fe_read env (ucast (sector + 1)) 1)
              else Some (sector, offset, iter)) of
          None \<Rightarrow> Some (NextError, iter)
        | Some (sector, offset, iter) \<Rightarrow>
            (case scan_entry (it_dir iter) offset (it_curIdx iter) (it_name iter) of
               None \<Rightarrow> None
             | Some ScanEnd \<Rightarrow> Some (NextFinished, iter)
             | Some (ScanAt r offset idx name) \<Rightarrow>
                 (let iter = iter\<lparr>it_name := name, it_curIdx := idx\<rparr>
                  in case r of
                       Some ent \<Rightarrow> Some (NextEnt ent, iter)
                     | None \<Rightarrow> next_root_loop env entInSect sector offset iter)))"

definition fatNextEntryRootDir ::
  "('c, 'd) fatEnv \<Rightarrow> ('c, 'd) fatFs \<Rightarrow> dirIter \<Rightarrow> (nextEnt \<times> dirIter) option" where
  "fatNextEntryRootDir env fs iter =
     (let entInSect = unat (fm_sectorSz fs) div 32
      in if entInSect = 0 then None
         else next_root_loop env entInSect
                (fm_rootDir fs + of_nat (unat (it_curIdx iter) div entInSect))
                (unat (it_curIdx iter) mod entInSect) iter)"

text \<open>A directory of clusters.\<close>

partial_function (option) next_loop ::
  "('c, 'd) fatEnv \<Rightarrow> nat \<Rightarrow> nat \<Rightarrow> dirIter \<Rightarrow> ('c, 'd) fatFs \<Rightarrow>
   (nextEnt \<times> dirIter \<times> ('c, 'd) fatFs) option" where
  "next_loop env entInCluster offset iter fs = (
     let iter = iter\<lparr>it_curIdx := it_curIdx iter + 1\<rparr>;
         offset = offset + 1
     in do {
       (r, offset, iter, fs) \<leftarrow>
         (if entInCluster \<le> offset \<or> (offset = 1 \<and> entInCluster \<le> unat (it_curIdx iter))
          then do {
            (cluster, fs) \<leftarrow> fatReadNextCluster env fs (it_curCluster iter);
            let iter = iter\<lparr>it_curCluster := cluster\<rparr>;
            bad \<leftarrow> fatIsClusterBad (fs_type fs) cluster;
            eof \<leftarrow> fatIsClusterEof (fs_type fs) cluster;
            Some (if bad then (Some NextError, offset, iter, fs)
                  else if eof then (Some NextFinished, offset, iter, fs)
                  else (case fatReadCluster env fs cluster of
                          None \<Rightarrow> (Some NextError, offset, iter, fs)
                        | Some dir \<Rightarrow> (None, 0, iter\<lparr>it_dir := dir\<rparr>, fs))) }
          else Some (None, offset, iter, fs));
       (case r of
          Some res \<Rightarrow> Some (res, iter, fs)
        | None \<Rightarrow>
            (case scan_entry (it_dir iter) offset (it_curIdx iter) (it_name iter) of
               None \<Rightarrow> None
             | Some ScanEnd \<Rightarrow> Some (NextFinished, iter, fs)
             | Some (ScanAt r offset idx name) \<Rightarrow>
                 (let iter = iter\<lparr>it_name := name, it_curIdx := idx\<rparr>
                  in case r of
                       Some ent \<Rightarrow> Some (NextEnt ent, iter, fs)
                     | None \<Rightarrow> next_loop env entInCluster offset iter fs))) })"

definition fatNextEntry ::
  "('c, 'd) fatEnv \<Rightarrow> ('c, 'd) fatFs \<Rightarrow> dirIter \<Rightarrow> (nextEnt \<times> dirIter \<times> ('c, 'd) fatFs) option" where
  "fatNextEntry env fs iter =
     (if it_curCluster iter = 0
      then map_option (\<lambda>(r, iter). (r, iter, fs)) (fatNextEntryRootDir env fs iter)
      else
        (let entInCluster = unat (fs_blockSz fs) div 32
         in if entInCluster = 0 then None
            else next_loop env entInCluster (unat (it_curIdx iter) mod entInCluster) iter fs))"

text \<open>The first part of the directory and its cluster; \<open>None\<close> when a read fails.\<close>

definition fatStartReadDir ::
  "('c, 'd) fatEnv \<Rightarrow> ('c, 'd) fatFs \<Rightarrow> u32 \<Rightarrow> (byte list \<times> u32) option" where
  "fatStartReadDir env fs first =
     (if first = 0 \<and> fs_type fs \<noteq> VOLUME_FS_FAT32
      then map_option (\<lambda>dir. (dir, 0)) (fe_read env (ucast (fm_rootDir fs)) 1)
      else
        (let first = (if first = 0 then fm_rootDir fs else first)
         in map_option (\<lambda>dir. (dir, first)) (fatReadCluster env fs first)))"

definition FatReadDir ::
  "('c, 'd) fatEnv \<Rightarrow> ('c, 'd) fatFs \<Rightarrow> dirIter \<Rightarrow> (bool \<times> dirIter \<times> ('c, 'd) fatFs) option" where
  "FatReadDir env fs iter = do {
     (r, iter, fs) \<leftarrow> fatNextEntry env fs iter;
     Some (case r of
             NextError \<Rightarrow> (False, iter, fs)
           | NextFinished \<Rightarrow> (True, iter\<lparr>it_name := (it_name iter)[0 := 0]\<rparr>, fs)
           | NextEnt ent \<Rightarrow> (True, iter\<lparr>it_type := type_of_ent ent\<rparr>, fs)) }"

text \<open>The walk of \<open>FatGetDir\<close> to the first cluster of the directory. A path without a component is
  the root directory.\<close>

partial_function (option) walk_dir ::
  "('c, 'd) fatEnv \<Rightarrow> pathPart \<Rightarrow> byte list option \<Rightarrow> u32 \<Rightarrow> ('c, 'd) fatFs \<Rightarrow>
   (u32 option \<times> ('c, 'd) fatFs) option" where
  "walk_dir env part curDir cluster fs =
     (if pp_isLastPart part then Some (Some cluster, fs)
      else do {
        part \<leftarrow> parsePath part;
        (if curDir = None \<and> pp_isLastPart part \<and> pp_name part ! 0 = 0
         then Some (Some (if fs_type fs = VOLUME_FS_FAT32 then fm_rootDir fs else cluster), fs)
         else do {
           (r, fs) \<leftarrow> find_part env fs curDir (pp_name part);
           (case r of
              None \<Rightarrow> Some (None, fs)
            | Some ent \<Rightarrow>
                if \<not> is_dir ent then Some (None, fs)
                else walk_dir env part (Some ent) (dirCluster ent) fs) }) })"

text \<open>\<open>iter\<close> is the caller's iterator; the result is it filled, or \<open>None\<close> for \<open>false\<close>.\<close>

definition FatGetDir ::
  "('c, 'd) fatEnv \<Rightarrow> ('c, 'd) fatFs \<Rightarrow> byte list \<Rightarrow> dirIter \<Rightarrow>
   (dirIter option \<times> ('c, 'd) fatFs) option" where
  "FatGetDir env fs path iter = do {
     (r, fs) \<leftarrow> walk_dir env (part0 path) None 0 fs;
     (case r of
        None \<Rightarrow> Some (None, fs)
      | Some cluster \<Rightarrow>
          (case fatStartReadDir env fs cluster of
             None \<Rightarrow> Some (None, fs)
           | Some (dir, cluster) \<Rightarrow>
               (let iter = iter\<lparr>it_dir := dir, it_curCluster := cluster, it_curIdx := 0\<rparr>
                in do {
                  ent \<leftarrow> dir_ent dir 0;
                  (if ent ! 0 = 0
                   then Some (Some (iter\<lparr>it_name := (it_name iter)[0 := 0]\<rparr>), fs)
                   else if fatIsLfn ent then do {
                     (res, name) \<leftarrow> fatParseLfn dir 0 (it_name iter);
                     ent \<leftarrow> dir_ent dir res;
                     Some (Some (iter\<lparr>it_name := name, it_curIdx := of_nat res,
                                      it_type := type_of_ent ent\<rparr>), fs) }
                   else if \<not> fatIsValidFile ent then do {
                     (r, iter, fs) \<leftarrow> fatNextEntry env fs iter;
                     Some (case r of
                             NextFinished \<Rightarrow> (Some (iter\<lparr>it_name := (it_name iter)[0 := 0]\<rparr>), fs)
                           | NextError \<Rightarrow> (None, fs)
                           | NextEnt ent \<Rightarrow> (Some (iter\<lparr>it_type := type_of_ent ent\<rparr>), fs)) }
                   else Some (Some (iter\<lparr>it_name := put_name83 (it_name iter) ent,
                                         it_type := type_of_ent ent\<rparr>), fs)) }))) }"

section \<open>Short names and strings\<close>




lemma takeWhile_all: "(\<And>x. x \<in> set xs \<Longrightarrow> P x) \<Longrightarrow> takeWhile P xs = xs"
  by (simp add: takeWhile_eq_all_conv)

lemma takeWhile_stop: "(\<And>x. x \<in> set xs \<Longrightarrow> P x) \<Longrightarrow> \<not> P y \<Longrightarrow> takeWhile P (xs @ y # ys) = xs"
  by (induction xs) auto

lemma takeWhile_take_drop: "xs = takeWhile P (take n xs) @ drop (length (takeWhile P (take n xs))) xs"
proof -
  have "takeWhile P (take n xs) = take (length (takeWhile P (take n xs))) (take n xs)"
    by (rule takeWhile_eq_take)
  also have "\<dots> = take (length (takeWhile P (take n xs))) xs"
    using order_trans [OF length_takeWhile_le [of P "take n xs"], of n] by (simp add: min_absorb1)
  finally have "takeWhile P (take n xs) = take (length (takeWhile P (take n xs))) xs" .
  then show ?thesis by (metis append_take_drop_id)
qed

definition base83 :: "byte list \<Rightarrow> byte list" where
  "base83 s = takeWhile (\<lambda>c. c \<noteq> 46) (take 8 s)"

lemma base83_length: "length (base83 s) \<le> 8"
  unfolding base83_def by (rule order_trans [OF length_takeWhile_le]) simp

lemma fileTo83_plain:
  assumes "s \<noteq> [46]" and "s \<noteq> [46, 46]"
  shows "fileTo83 s =
    (if length (base83 s) < length s
     then (case dropWhile (\<lambda>c. c \<noteq> 46) (drop (length (base83 s)) s) of
             [] \<Rightarrow> None
           | _ # rest \<Rightarrow> Some (take (11 - length (take 3 rest)) (map char83 (base83 s) @
               replicate (11 - length (base83 s)) 32) @ map char83 (take 3 rest)))
     else Some (map char83 (base83 s) @ replicate (11 - length (base83 s)) 32))"
  using assms by (simp only: fileTo83_def base83_def Let_def if_False length_map)

lemma fileTo83_length:
  assumes "fileTo83 s = Some nm"
  shows "length nm = 11"
proof -
  consider "s = [46]" | "s = [46, 46]" | (plain) "s \<noteq> [46]" "s \<noteq> [46, 46]" by blast
  then show ?thesis
  proof cases
    case plain
    note f = assms [unfolded fileTo83_plain [OF plain]]
    have b: "length (base83 s) + (11 - length (base83 s)) = 11" using base83_length [of s] by simp
    show ?thesis
    proof (cases "length (base83 s) < length s")
      case False
      with f b show ?thesis by auto
    next
      case True
      with f obtain d rest where "dropWhile (\<lambda>c. c \<noteq> 46) (drop (length (base83 s)) s) = d # rest"
        by (cases "dropWhile (\<lambda>c. c \<noteq> 46) (drop (length (base83 s)) s)") auto
      with f True b show ?thesis by auto
    qed
  qed (use assms in \<open>auto simp: fileTo83_def\<close>)
qed

text \<open>The conversion of a file name to a short name reads behind the end of the name exactly
  when the name has more than eight characters and no period: the search for the period has no
  bound.\<close>

theorem fileTo83_overrun: "fileTo83 s = None \<longleftrightarrow> 8 < length s \<and> 46 \<notin> set s"
proof -
  consider "s = [46]" | "s = [46, 46]" | (plain) "s \<noteq> [46]" "s \<noteq> [46, 46]" by blast
  then show ?thesis
  proof cases
    case plain
    have dot: "dropWhile (\<lambda>c. c \<noteq> 46) xs = [] \<longleftrightarrow> 46 \<notin> set xs" for xs :: "byte list"
      by (auto simp: dropWhile_eq_Nil_conv)
    have f: "fileTo83 s = None \<longleftrightarrow> length (base83 s) < length s \<and> 46 \<notin> set (drop (length (base83 s)) s)"
      unfolding dot [symmetric]
      by (cases "dropWhile (\<lambda>c. c \<noteq> 46) (drop (length (base83 s)) s)")
        (simp_all only: fileTo83_plain [OF plain] list.case split: if_split, auto)
    have nodot: "46 \<notin> set (base83 s)"
      unfolding base83_def by (auto dest: set_takeWhileD)
    have "s = base83 s @ drop (length (base83 s)) s"
      unfolding base83_def by (rule takeWhile_take_drop)
    then have g: "46 \<in> set s \<longleftrightarrow> 46 \<in> set (drop (length (base83 s)) s)"
      using nodot by (metis Un_iff set_append)
    show ?thesis
    proof (cases "46 \<in> set s")
      case True
      with f g show ?thesis by simp
    next
      case False
      then have "base83 s = take 8 s"
        unfolding base83_def by (intro takeWhile_all) (auto dest: in_set_takeD)
      with f g False show ?thesis by auto
    qed
  qed (simp_all add: fileTo83_def)
qed








section \<open>The layout of long names\<close>

text \<open>The units of part \<open>k\<close> of a long name: its characters, a NUL behind the last one if the part
  has room for it, and the padding.\<close>

definition lfn_unit :: "byte list \<Rightarrow> nat \<Rightarrow> nat \<Rightarrow> nat" where
  "lfn_unit name k j =
     (let p = 13 * k + j in if p < length name then unat (name ! p)
      else if p = length name then 0 else 0xFFFF)"

definition unit_lo :: "nat \<Rightarrow> byte" where "unit_lo v = of_nat (v mod 256)"
definition unit_hi :: "nat \<Rightarrow> byte" where "unit_hi v = of_nat (v div 256)"
definition unit_bytes :: "nat \<Rightarrow> byte list" where "unit_bytes v = [unit_lo v, unit_hi v]"

text \<open>The entry of a part: its order (counted from 1), the units, the attribute, and a checksum.\<close>

definition lfn_entry :: "byte \<Rightarrow> byte \<Rightarrow> (nat \<Rightarrow> nat) \<Rightarrow> byte list" where
  "lfn_entry order chk u =
     [order] @ concat (map (\<lambda>j. unit_bytes (u j)) [0..<5]) @ [FAT_DIR_LFN, 0, chk] @
     concat (map (\<lambda>j. unit_bytes (u j)) [5..<11]) @ [0, 0] @
     concat (map (\<lambda>j. unit_bytes (u j)) [11..<13])"

definition lfn_parts :: "byte list \<Rightarrow> nat" where
  "lfn_parts name = (length name + 12) div 13"

text \<open>The entries of the parts below \<open>n\<close>, the last one first and marked as the last.\<close>

fun lfn_entries :: "byte list \<Rightarrow> byte \<Rightarrow> nat \<Rightarrow> byte list" where
  "lfn_entries name chk 0 = []"
| "lfn_entries name chk (Suc k) =
     lfn_entry (of_nat (Suc k) OR (if Suc k = lfn_parts name then 0x40 else 0)) chk (lfn_unit name k) @
     lfn_entries name chk k"

lemma unit_val: "v < 65536 \<Longrightarrow> unat (unit_lo v) + 256 * unat (unit_hi v) = v"
  by (simp add: unit_lo_def unit_hi_def unat_of_nat take_bit_eq_mod)

lemma le_field_2: "i + 1 < length ent \<Longrightarrow> le_field ent i 2 = unat (ent ! i) + 256 * unat (ent ! (i + 1))"
  by (simp add: le_field_def numeral_2_eq_2 take_Suc_conv_app_nth)

lemma upt_lists: "[0..<5] = [0, 1, 2, 3, 4]" "[5..<11] = [5, 6, 7, 8, 9, 10]" "[11..<13] = [11, 12 :: nat]"
  "[0..<13] = [0, 1, 2, 3, 4, 5, 6, 7, 8, 9, 10, 11, 12 :: nat]"
  by (simp_all add: upt_rec)

lemma lfn_entry_list:
  "lfn_entry order chk u =
    [order, unit_lo (u 0), unit_hi (u 0), unit_lo (u 1), unit_hi (u 1), unit_lo (u 2),
     unit_hi (u 2), unit_lo (u 3), unit_hi (u 3), unit_lo (u 4), unit_hi (u 4), FAT_DIR_LFN, 0,
     chk, unit_lo (u 5), unit_hi (u 5), unit_lo (u 6), unit_hi (u 6), unit_lo (u 7),
     unit_hi (u 7), unit_lo (u 8), unit_hi (u 8), unit_lo (u 9), unit_hi (u 9), unit_lo (u 10),
     unit_hi (u 10), 0, 0, unit_lo (u 11), unit_hi (u 11), unit_lo (u 12), unit_hi (u 12)]"
  by (simp add: lfn_entry_def unit_bytes_def upt_lists)

lemma lfn_entry_length [simp]: "length (lfn_entry order chk u) = 32"
  by (simp add: lfn_entry_list)

lemma lfn_entry_fields:
  "lfn_entry order chk u ! 0 = order" "dirAttr (lfn_entry order chk u) = FAT_DIR_LFN"
  by (simp_all add: lfn_entry_list dirAttr_def)

lemma lfn_entry_chars:
  assumes "\<And>j. j < 13 \<Longrightarrow> u j < 65536"
  shows "lfn_chars (lfn_entry order chk u) =
    map (\<lambda>j. (j, u (if j < 11 then j else j - 6), u j)) [0..<13]"
proof -
  have v: "unat (unit_lo (u j)) + 256 * unat (unit_hi (u j)) = u j" if "j < 13" for j
    using assms [OF that] by (rule unit_val)
  show ?thesis
    by (simp add: lfn_chars_def upt_lists le_field_2 lfn_entry_list v)
qed

lemma lfn_store_nth:
  assumes "b + n \<le> length name" and "m \<le> n"
  shows "\<exists>name'. lfn_store name b (map (\<lambda>j. (j, c j, g j)) [m..<n]) = Some name' \<and>
    length name' = length name \<and>
    (\<forall>p < length name. name' ! p =
       (if b + m \<le> p \<and> p < b + n \<and> c (p - b) \<noteq> 0xFFFF then of_nat (g (p - b)) else name ! p))"
  using assms
proof (induction "n - m" arbitrary: m name)
  case 0
  then show ?case by (intro exI [of _ name]) auto
next
  case (Suc k)
  then have lt: "m < n" and k: "k = n - Suc m" by simp_all
  define nm where "nm = (if c m = 0xFFFF then name else name[b + m := of_nat (g m)])"
  have nm: "length nm = length name" by (simp add: nm_def)
  have st: "lfn_store name b (map (\<lambda>j. (j, c j, g j)) [m..<n]) =
      lfn_store nm b (map (\<lambda>j. (j, c j, g j)) [Suc m..<n])"
    using lt Suc.prems by (simp add: upt_conv_Cons nm_def)
  obtain name' where n': "lfn_store nm b (map (\<lambda>j. (j, c j, g j)) [Suc m..<n]) = Some name'"
    "length name' = length name"
    "\<And>p. p < length name \<Longrightarrow> name' ! p =
       (if b + Suc m \<le> p \<and> p < b + n \<and> c (p - b) \<noteq> 0xFFFF then of_nat (g (p - b)) else nm ! p)"
    using Suc.hyps(1) [of "Suc m" nm, unfolded nm] k Suc.prems lt by auto
  have "name' ! p = (if b + m \<le> p \<and> p < b + n \<and> c (p - b) \<noteq> 0xFFFF then of_nat (g (p - b)) else name ! p)"
    if "p < length name" for p
    using n'(3) [OF that] lt that by (cases "p = b + m") (auto simp: nm_def)
  with n' st show ?case by auto
qed

lemma lfn_order_base:
  assumes "k < 63"
  shows "lfn_base (lfn_entry (of_nat (Suc k) OR (if b then 0x40 else 0)) chk u) = k * 13"
proof -
  let ?a = "of_nat (Suc k) :: byte"
  have "(?a OR 0x40) AND 0x3F = (?a AND 0x3F) OR (0x40 AND 0x3F)"
    by (rule bit.conj_disj_distrib2)
  then have "(?a OR (if b then 0x40 else 0)) AND 0x3F = ?a AND 0x3F" by simp
  also have "\<dots> = take_bit 6 ?a" by (simp add: take_bit_eq_mask mask_eq_exp_minus_1)
  also have "\<dots> = ?a"
    using assms by (simp only: take_bit_of_nat) (simp add: take_bit_nat_eq_self del: of_nat_Suc)
  finally have "((?a OR (if b then 0x40 else 0)) AND 0x3F) - 1 = of_nat k" by simp
  then show ?thesis
    using assms by (simp add: lfn_base_def lfn_entry_fields unat_of_nat take_bit_nat_eq_self)
qed

lemma lfn_unit_bound: "lfn_unit name k j < 65536"
  by (auto simp: lfn_unit_def Let_def intro: less_trans [OF unat_byte_less])

text \<open>An entry stores its part of the name and the NUL behind it.\<close>

lemma lfn_store_part:
  assumes "13 * k + 13 \<le> length nm" and "13 * k < length name"
  shows "\<exists>nm'. lfn_store nm (k * 13) (lfn_chars (lfn_entry order chk (lfn_unit name k))) = Some nm' \<and>
    length nm' = length nm \<and>
    (\<forall>p < length nm. nm' ! p =
       (if 13 * k \<le> p \<and> p < 13 * k + 13 \<and> p < length name then name ! p
        else if 13 * k \<le> p \<and> p < 13 * k + 13 \<and> p = length name then 0
        else if 13 * k \<le> p \<and> p < 13 * k + 13 then nm' ! p else nm ! p))"
proof -
  let ?u = "lfn_unit name k"
  let ?c = "\<lambda>j. ?u (if j < 11 then j else j - 6)"
  obtain nm' where st: "lfn_store nm (13 * k) (map (\<lambda>j. (j, ?c j, ?u j)) [0..<13]) = Some nm'"
    and len: "length nm' = length nm"
    and nth: "\<And>p. p < length nm \<Longrightarrow> nm' ! p =
       (if 13 * k + 0 \<le> p \<and> p < 13 * k + 13 \<and> ?c (p - 13 * k) \<noteq> 0xFFFF
        then of_nat (?u (p - 13 * k)) else nm ! p)"
    using lfn_store_nth [of "13 * k" 13 nm 0 ?c ?u] assms(1) by auto
  have small: "unat (name ! p) \<noteq> 65535" for p
    using unat_byte_less [of "name ! p"] by linarith
  have "nm' ! p =
       (if 13 * k \<le> p \<and> p < 13 * k + 13 \<and> p < length name then name ! p
        else if 13 * k \<le> p \<and> p < 13 * k + 13 \<and> p = length name then 0
        else if 13 * k \<le> p \<and> p < 13 * k + 13 then nm' ! p else nm ! p)"
    if p: "p < length nm" for p
  proof (cases "13 * k \<le> p \<and> p < 13 * k + 13 \<and> p \<le> length name")
    case True
    then obtain j where j: "p = 13 * k + j" "j < 13" "13 * k + j \<le> length name"
      by (metis le_Suc_ex add_less_cancel_left)
    have "?c j \<noteq> 65535"
      using j assms(2) small by (auto simp: lfn_unit_def Let_def)
    then show ?thesis using nth [OF p] j by (auto simp: lfn_unit_def Let_def)
  next
    case False
    then show ?thesis using nth [OF p] by auto
  qed
  with st len show ?thesis by (auto simp: lfn_entry_chars lfn_unit_bound mult.commute)
qed

lemma dir_ent_drop: "dir_ent dir i = (if 32 \<le> length (drop (32 * i) dir) then Some (take 32 (drop (32 * i) dir)) else None)"
  by (auto simp: dir_ent_def)

lemma fatParseLfn_parts:
  assumes "drop (32 * i) dir = lfn_entries name chk n @ rest" and "32 \<le> length rest"
    and "\<not> fatIsLfn (take 32 rest)" and "n \<le> lfn_parts name" and "length name \<le> 247"
    and "length nm = 256" and "\<forall>p. 13 * n \<le> p \<and> p < length name \<longrightarrow> nm ! p = name ! p"
    and "nm ! length name = 0"
  shows "\<exists>nm'. fatParseLfn dir i nm = Some (n, nm') \<and> length nm' = 256 \<and>
    (\<forall>p < length name. nm' ! p = name ! p) \<and> nm' ! length name = 0"
  using assms
proof (induction n arbitrary: i nm)
  case 0
  then show ?case by (auto simp: fatParseLfn.simps [of dir i] dir_ent_drop)
next
  case (Suc k)
  let ?o = "of_nat (Suc k) OR (if Suc k = lfn_parts name then 0x40 else 0)"
  let ?ent = "lfn_entry ?o chk (lfn_unit name k)"
  have parts: "13 * k < length name" "k < 19"
    using Suc.prems(4,5) by (auto simp: lfn_parts_def)
  have ent: "dir_ent dir i = Some ?ent"
    using Suc.prems(1) by (simp add: dir_ent_drop)
  have rest: "drop (32 * (i + 1)) dir = lfn_entries name chk k @ rest"
  proof -
    have "drop (32 * (i + 1)) dir = drop 32 (drop (32 * i) dir)" by (simp add: add.commute)
    then show ?thesis using Suc.prems(1) by simp
  qed
  obtain nm1 where nm1: "lfn_store nm (lfn_base ?ent) (lfn_chars ?ent) = Some nm1" "length nm1 = 256"
    and at: "\<And>p. p < 256 \<Longrightarrow> nm1 ! p =
       (if 13 * k \<le> p \<and> p < 13 * k + 13 \<and> p < length name then name ! p
        else if 13 * k \<le> p \<and> p < 13 * k + 13 \<and> p = length name then 0
        else if 13 * k \<le> p \<and> p < 13 * k + 13 then nm1 ! p else nm ! p)"
  proof -
    have "lfn_base ?ent = k * 13" using parts by (intro lfn_order_base) simp
    moreover have "13 * k + 13 \<le> length nm" using parts(2) Suc.prems(6) by simp
    ultimately show thesis
      using lfn_store_part [of k nm name ?o chk] parts(1) Suc.prems(6) that by (metis (no_types))
  qed
  have "nm1 ! p = name ! p" if "13 * k \<le> p" "p < length name" for p
    using at [of p] that Suc.prems(5,7) by (cases "p < 13 * k + 13") auto
  moreover have "nm1 ! length name = 0"
    using at [of "length name"] Suc.prems(5,8)
    by (cases "13 * k \<le> length name \<and> length name < 13 * k + 13") simp_all
  ultimately have "\<exists>nm2. fatParseLfn dir (i + 1) nm1 = Some (k, nm2) \<and> length nm2 = 256 \<and>
    (\<forall>p < length name. nm2 ! p = name ! p) \<and> nm2 ! length name = 0"
    using Suc.prems(4) nm1(2) by (intro Suc.IH [OF rest Suc.prems(2,3) _ Suc.prems(5)]) simp_all
  then obtain nm2 where nm2: "fatParseLfn dir (i + 1) nm1 = Some (k, nm2)" "length nm2 = 256"
    "\<forall>p < length name. nm2 ! p = name ! p" "nm2 ! length name = 0"
    by blast
  have "fatIsLfn ?ent" by (simp add: fatIsLfn_def lfn_entry_fields)
  then show ?case
    using nm1 nm2 ent by (auto simp: fatParseLfn.simps [of dir i])
qed

lemma c_string_nth:
  assumes "\<forall>p < length name. arr ! p = name ! p" and "arr ! length name = 0" and "length name < length arr"
    and "0 \<notin> set name"
  shows "c_string arr = name"
proof -
  have "c_string arr = take (length name) arr"
    unfolding c_string_def using assms by (intro takeWhile_eq_take_P_nth) (auto simp: in_set_conv_nth)
  then show ?thesis using assms by (auto intro: nth_equalityI)
qed

text \<open>C17: The entries of a long name, its parts stored last part first and 13 characters to an entry
  as the format has them, are read back as the name; the reading stops at the short entry behind
  them. (Names end within 247 characters here: the last entry of a longer one stores its padding
  behind the end of the array.)\<close>

theorem long_name_roundtrip:
  assumes "drop (32 * i) dir = lfn_entries name chk (lfn_parts name) @ rest" and "32 \<le> length rest"
    and "\<not> fatIsLfn (take 32 rest)" and "length name \<le> 247" and "0 \<notin> set name"
  shows "map_option (map_prod id c_string) (fatParseLfn dir i (replicate 256 0)) =
    Some (lfn_parts name, name)"
proof -
  have "length name \<le> 13 * lfn_parts name" unfolding lfn_parts_def by presburger
  then have vac: "\<forall>p. 13 * lfn_parts name \<le> p \<and> p < length name \<longrightarrow> replicate 256 0 ! p = name ! p"
    by auto
  obtain nm where "fatParseLfn dir i (replicate 256 0) = Some (lfn_parts name, nm)" "length nm = 256"
    "\<forall>p < length name. nm ! p = name ! p" "nm ! length name = 0"
    using fatParseLfn_parts [OF assms(1-3) order_refl assms(4), of "replicate 256 0"] vac assms(4)
    by auto
  then show ?thesis using c_string_nth [of name nm] assms(4,5) by simp
qed

definition long14 :: "byte list" where
  "long14 = [107, 101, 114, 110, 101, 108, 45, 120, 56, 54, 46, 101, 108, 102]"

theorem long_name_roundtrip_witness:
  "map_option (map_prod id c_string)
     (fatParseLfn (lfn_entries long14 0 2 @ replicate 32 65) 0 (replicate 256 0)) = Some (2, long14)"
proof -
  have "lfn_parts long14 = 2" by (simp add: lfn_parts_def long14_def)
  then show ?thesis
    using long_name_roundtrip [of 0 "lfn_entries long14 0 2 @ replicate 32 65" long14 0 "replicate 32 65"]
    by (simp add: long14_def fatIsLfn_def dirAttr_def FAT_DIR_LFN_def)
qed

section \<open>Files in a root directory of short names\<close>

text \<open>The entries of a directory of \<open>n\<close> places from place \<open>i\<close> on, to its end mark.\<close>

definition ents_from :: "byte list \<Rightarrow> nat \<Rightarrow> nat \<Rightarrow> byte list list" where
  "ents_from dir n i = takeWhile (\<lambda>e. e ! 0 \<noteq> 0) (map (\<lambda>j. take 32 (drop (32 * j) dir)) [i..<n])"

text \<open>An entry of a file with a short name; the byte behind its attribute, which the format
  reserves, ends the copy of its name into the buffer.\<close>

definition short_ent :: "byte list \<Rightarrow> bool" where
  "short_ent e \<longleftrightarrow> \<not> fatIsLfn e \<and> 0 \<in> set e"

definition same_vol :: "('c, 'd) fatFs \<Rightarrow> ('c, 'd) fatFs \<Rightarrow> bool" where
  "same_vol fs fs' \<longleftrightarrow> (\<exists>d b. fs' = fs\<lparr>fm_dir := d, fm_dirBuffer := b\<rparr>)"

lemma same_vol_dirs [simp]: "same_vol fs (fs\<lparr>fm_dirBuffer := b\<rparr>)"
  unfolding same_vol_def by (intro exI [of _ "fm_dir fs"] exI [of _ b]) simp

lemma same_vol_dir [simp]: "same_vol fs (fs\<lparr>fm_dir := d\<rparr>)"
  unfolding same_vol_def by (intro exI [of _ d] exI [of _ "fm_dirBuffer fs"]) simp

lemma same_vol_refl [simp]: "same_vol fs fs"
  unfolding same_vol_def by (intro exI [of _ "fm_dir fs"] exI [of _ "fm_dirBuffer fs"]) simp

lemma same_vol_trans [trans]: "same_vol a b \<Longrightarrow> same_vol b c \<Longrightarrow> same_vol a c"
  by (clarsimp simp: same_vol_def) (intro exI, rule refl)

lemma ents_from_step:
  "i < n \<Longrightarrow> ents_from dir n i = (let e = take 32 (drop (32 * i) dir) in if e ! 0 = 0 then [] else e # ents_from dir n (Suc i))"
  by (simp add: ents_from_def upt_conv_Cons)

lemma fatBufferDirEnt_ok:
  assumes "array_laws (fe_dirs env)" and "\<exists>k < 256. k < length name \<and> name ! k = 0"
  shows "\<exists>fs'. fatBufferDirEnt env fs name ent cluster = Some (True, fs') \<and> same_vol fs fs'"
proof -
  obtain k where k: "k < 256" "k < length name" "name ! k = 0" using assms(2) by auto
  have "length (c_string name) \<le> k"
  proof (rule ccontr)
    assume "\<not> length (c_string name) \<le> k"
    then have "name ! k \<noteq> 0"
      unfolding c_string_def using nth_length_takeWhile takeWhile_nth
      by (metis (mono_tags, lifting) not_le nth_mem set_takeWhileD)
    with k show False by simp
  qed
  then have c: "length (c_string name) \<noteq> length name" "\<not> 256 \<le> length (c_string name)" using k by auto
  show ?thesis
  proof (cases "ar_full (fe_dirs env) (fm_dirBuffer fs)")
    case True
    then show ?thesis using c by (simp add: fatBufferDirEnt_def Let_def)
  next
    case False
    then obtain i a where "ar_find (fe_dirs env) (fm_dirBuffer fs) = Some (i, a)"
      using assms(1) by (auto simp: array_laws_def)
    with False c show ?thesis by (simp add: fatBufferDirEnt_def Let_def)
  qed
qed

lemma find_in_dir_short:
  assumes "array_laws (fe_dirs env)" and "32 * n \<le> length dir" and "i \<le> n"
    and "\<forall>e \<in> set (ents_from dir n i). short_ent e"
  shows "\<exists>fs'. find_in_dir env dir s name83 cl (32 * n) i False lfn fs =
      Some (find (\<lambda>e. take 11 e = name83) (ents_from dir n i), fs') \<and> same_vol fs fs'"
  using assms
proof (induction "n - i" arbitrary: i fs)
  case 0
  then show ?case by (subst find_in_dir.simps) (simp add: ents_from_def)
next
  case (Suc k)
  then have i: "i < n" and k: "k = n - (i + 1)" by simp_all
  let ?e = "take 32 (drop (32 * i) dir)"
  have ent: "dir_ent dir i = Some ?e" using i Suc.prems(2) by (simp add: dir_ent_def)
  show ?case
  proof (cases "?e ! 0 = 0")
    case True
    then show ?thesis
      using i ent by (simp add: find_in_dir.simps [of env dir s name83 cl "32 * n" i] ents_from_step)
  next
    case False
    then have ents: "ents_from dir n i = ?e # ents_from dir n (Suc i)" using i by (simp add: ents_from_step)
    then have se: "short_ent ?e" using Suc.prems(4) by simp
    then obtain j where "j < length ?e" "?e ! j = 0" by (auto simp: short_ent_def in_set_conv_nth)
    then have "j < 256 \<and> j < length (drop (32 * i) dir) \<and> drop (32 * i) dir ! j = 0" by simp
    then have "\<exists>j < 256. j < length (drop (32 * i) dir) \<and> drop (32 * i) dir ! j = 0" by blast
    from fatBufferDirEnt_ok [OF Suc.prems(1) this]
    obtain fs1 where b: "(if fatIsValidFile ?e \<and> fatFindBufferDir env fs (drop (32 * i) dir) cl = None
        then fatBufferDirEnt env fs (drop (32 * i) dir) ?e cl else Some (True, fs)) = Some (True, fs1)"
      and s1: "same_vol fs fs1"
      by (metis same_vol_refl)
    have t: "take 11 (drop (32 * i) dir) = take 11 ?e" by simp
    have step: "find_in_dir env dir s name83 cl (32 * n) i False lfn fs =
        (if take 11 ?e = name83 then Some (Some ?e, fs1)
         else find_in_dir env dir s name83 cl (32 * n) (i + 1) False lfn fs1)"
      using i ent False se b
      by (simp add: find_in_dir.simps [of env dir s name83 cl "32 * n" i] short_ent_def t del: take_take)
    obtain fs2 where "find_in_dir env dir s name83 cl (32 * n) (i + 1) False lfn fs1 =
        Some (find (\<lambda>e. take 11 e = name83) (ents_from dir n (i + 1)), fs2)" and "same_vol fs1 fs2"
      using Suc.hyps(1) [of "i + 1" fs1] k Suc.prems i ents by auto
    with step ents s1 show ?thesis using same_vol_trans [OF s1] by auto
  qed
qed

lemma same_volD:
  assumes "same_vol fs fs'"
  shows "fs_type fs' = fs_type fs" "fm_sectorSz fs' = fm_sectorSz fs" "fm_rootDir fs' = fm_rootDir fs"
    "fm_rootDirSz fs' = fm_rootDirSz fs" "fm_fatBase fs' = fm_fatBase fs"
    "fm_dataBase fs' = fm_dataBase fs" "fm_sectPerCluster fs' = fm_sectPerCluster fs"
    "fs_blockSz fs' = fs_blockSz fs" "fm_fatCache fs' = fm_fatCache fs" "fs_heap fs' = fs_heap fs"
  using assms by (auto simp: same_vol_def)

lemma ents_from_append:
  assumes "length bs = 32 * n"
  shows "ents_from (bs @ cs) n i = ents_from bs n i"
proof -
  have "take 32 (drop (32 * j) (bs @ cs)) = take 32 (drop (32 * j) bs)" if "j < n" for j
    using that assms by simp
  then show ?thesis unfolding ents_from_def
    by (intro arg_cong [where f = "takeWhile _"] map_cong) auto
qed

lemma find_append: "find P (xs @ ys) = (case find P xs of None \<Rightarrow> find P ys | Some x \<Rightarrow> Some x)"
  by (induction xs) auto

text \<open>The search of the sectors of the root directory from sector number \<open>j\<close> of it on.\<close>

lemma find_root_sectors_ok:
  assumes "array_laws (fe_dirs env)" and "fileTo83 (c_string name) = Some nm"
    and "unat (fm_sectorSz fs) = 32 * n" and "secs \<noteq> []"
    and "j + length secs = unat (fm_rootDirSz fs)"
    and "\<forall>k < length secs. fe_read env (ucast (fm_rootDir fs) + of_nat (j + k)) 1 = Some (secs ! k)"
    and "\<forall>s \<in> set secs. length s = 32 * n \<and> (\<forall>e \<in> set (ents_from s n 0). short_ent e)"
  shows "\<exists>fs'. find_root_sectors env name (ucast (fm_rootDir fs) + of_nat j) fs =
      Some (find (\<lambda>e. take 11 e = nm) (concat (map (\<lambda>s. ents_from s n 0) secs)), fs') \<and> same_vol fs fs'"
  using assms
proof (induction secs arbitrary: j fs)
  case Nil
  then show ?case by simp
next
  case (Cons s secs)
  let ?P = "\<lambda>e. take 11 e = nm" and ?sect = "ucast (fm_rootDir fs) + of_nat j :: u64"
  have rd: "fe_read env ?sect 1 = Some s" using Cons.prems(6) by (auto dest: spec [of _ 0])
  have s: "length s = 32 * n" "\<forall>e \<in> set (ents_from s n 0). short_ent e" using Cons.prems(7) by auto
  let ?dir = "s @ drop (length s) (fm_dir fs)"
  let ?fs0 = "fs\<lparr>fm_dir := ?dir\<rparr>"
  obtain fs1 where f: "find_in_dir env ?dir (c_string name) nm 0 (32 * n) 0 False (replicate 256 0) ?fs0 =
      Some (find ?P (ents_from s n 0), fs1)" and s1: "same_vol ?fs0 fs1"
    using find_in_dir_short [OF Cons.prems(1), of n ?dir 0 "c_string name" nm 0 "replicate 256 0" ?fs0] s
    by (auto simp: ents_from_append)
  have s1': "same_vol fs fs1" using same_vol_trans [OF same_vol_dir s1] .
  note v = same_volD [OF s1']
  have last: "?sect + 1 - ucast (fm_rootDir fs) = ucast (fm_rootDirSz fs) \<longleftrightarrow> secs = []"
  proof -
    have "unat (fm_rootDirSz fs) < 2 ^ 32" using unsigned_less [of "fm_rootDirSz fs", where ?'a = nat] by simp
    then have lt: "j + 1 < 2 ^ 64" using Cons.prems(5) by simp
    have "?sect + 1 - ucast (fm_rootDir fs) = (of_nat (j + 1) :: u64)" by simp
    moreover have "unat (of_nat (j + 1) :: u64) = j + 1"
      using lt by (simp only: unat_of_nat) (simp add: take_bit_nat_eq_self)
    moreover have "unat (ucast (fm_rootDirSz fs) :: u64) = unat (fm_rootDirSz fs)"
      by (simp add: unsigned_ucast_eq take_bit_nat_eq_self \<open>unat (fm_rootDirSz fs) < 2 ^ 32\<close>
        less_trans [OF \<open>unat (fm_rootDirSz fs) < 2 ^ 32\<close>])
    ultimately have "?sect + 1 - ucast (fm_rootDir fs) = ucast (fm_rootDirSz fs) \<longleftrightarrow>
        j + 1 = unat (fm_rootDirSz fs)"
      by (simp only: word_unat_eq_iff)
    also have "\<dots> \<longleftrightarrow> secs = []" using Cons.prems(5) by (cases secs) simp_all
    finally show ?thesis .
  qed
  have step: "find_root_sectors env name ?sect fs =
      (if secs = [] \<or> find ?P (ents_from s n 0) \<noteq> None then Some (find ?P (ents_from s n 0), fs1)
       else find_root_sectors env name (?sect + 1) fs1)"
    using rd f last Cons.prems(2,3) v(3,4)
    by (subst find_root_sectors.simps) (simp add: fatFindInDir_def Let_def)
  show ?case
  proof (cases "secs = [] \<or> find ?P (ents_from s n 0) \<noteq> None")
    case True
    with step s1' show ?thesis by (auto simp: find_append split: option.splits)
  next
    case False
    have "\<exists>fs'. find_root_sectors env name (ucast (fm_rootDir fs1) + of_nat (Suc j)) fs1 =
      Some (find ?P (concat (map (\<lambda>s. ents_from s n 0) secs)), fs') \<and> same_vol fs1 fs'"
    proof (rule Cons.IH)
      show "\<forall>k < length secs. fe_read env (ucast (fm_rootDir fs1) + of_nat (Suc j + k)) 1 = Some (secs ! k)"
        using Cons.prems(6) v(3) by (auto dest: spec [of _ "Suc _"] simp: ac_simps)
    qed (use False Cons.prems v in auto)
    with False step show ?thesis
      using same_vol_trans [OF s1'] v(3) by (auto simp: find_append ac_simps)
  qed
qed

lemma parsePath_single:
  assumes "47 \<notin> set path" and "length path < 256"
  shows "parsePath (part0 path) =
    Some \<lparr>pp_oldName = [], pp_name = path @ replicate (256 - length path) 0, pp_isLastPart = True\<rparr>"
proof -
  have rest: "(case path of [] \<Rightarrow> [] | c # cs \<Rightarrow> if c = 47 then cs else c # cs) = path"
    using assms(1) by (cases path) auto
  have tw: "takeWhile (\<lambda>c. c \<noteq> 47) path = path" using assms(1) by (intro takeWhile_all) auto
  have dw: "dropWhile (\<lambda>c. c \<noteq> 47) path = []" using assms(1) by (auto simp: dropWhile_eq_Nil_conv)
  show ?thesis using assms(2) by (simp add: parsePath_def part0_def Let_def rest tw dw)
qed

lemma c_string_padded: "0 \<notin> set s \<Longrightarrow> 0 < n \<Longrightarrow> c_string (s @ replicate n 0) = s"
  unfolding c_string_def by (cases n) (auto intro: takeWhile_stop)

lemma fat_ok_vol: "fat_ok env fs \<Longrightarrow> same_vol fs fs' \<Longrightarrow> fat_ok env fs'"
  by (auto simp: same_vol_def fat_ok_def cache_ok_def fat_geom_def)

lemma cluster_at_vol: "same_vol fs fs' \<Longrightarrow> cluster_at env fs' start n = cluster_at env fs start n"
  by (induction n) (simp_all add: same_volD fs_table_def)

text \<open>A path of one component is looked up in the root directory.\<close>

lemma walk_root:
  assumes "47 \<notin> set path" and "length path < 256"
  shows "walk_path env (part0 path) None fs = fatFindRootDir env fs (path @ replicate (256 - length path) 0)"
  using parsePath_single [OF assms]
  by (cases "fatFindRootDir env fs (path @ replicate (256 - length path) 0)")
    (auto simp: walk_path.simps [of env "part0 path"] find_part_def split: option.splits)

lemma chain_ok_vol: "same_vol fs fs' \<Longrightarrow> chain_ok env fs' start = chain_ok env fs start"
  by (simp add: chain_ok_def cluster_at_vol same_volD)

lemma file_block_vol: "same_vol fs fs' \<Longrightarrow> file_block env fs' start = file_block env fs start"
  by (intro ext) (simp add: file_block_def cluster_at_vol same_volD)

text \<open>A root directory of whole sectors with short names only, and opening a file by its name in it.\<close>

definition short_root :: "('c, 'd) fatEnv \<Rightarrow> ('c, 'd) fatFs \<Rightarrow> nat \<Rightarrow> byte list list \<Rightarrow> bool" where
  "short_root env fs n secs \<longleftrightarrow>
     fs_type fs \<in> {VOLUME_FS_FAT12, VOLUME_FS_FAT16} \<and> array_laws (fe_dirs env) \<and>
     ar_list (fe_dirs env) (fm_dirBuffer fs) = [] \<and> unat (fm_sectorSz fs) = 32 * n \<and>
     secs \<noteq> [] \<and> length secs = unat (fm_rootDirSz fs) \<and>
     (\<forall>k < length secs. fe_read env (ucast (fm_rootDir fs) + of_nat k) 1 = Some (secs ! k)) \<and>
     (\<forall>s \<in> set secs. length s = 32 * n \<and> (\<forall>e \<in> set (ents_from s n 0). short_ent e))"

definition root_entry :: "nat \<Rightarrow> byte list list \<Rightarrow> byte list \<Rightarrow> byte list option" where
  "root_entry n secs nm = find (\<lambda>e. take 11 e = nm) (concat (map (\<lambda>s. ents_from s n 0) secs))"

lemma open_root:
  assumes "short_root env fs n secs" and "0 \<notin> set path" "47 \<notin> set path" "length path < 256"
    and "fileTo83 path = Some nm"
  shows "\<exists>fs1. FatOpenFile env fs path = Some (case root_entry n secs nm of None \<Rightarrow> (None, fs1)
      | Some ent \<Rightarrow> if is_dir ent then (None, fs1)
          else (Some (\<lparr>lastReadCluster = 0, lastReadPos = 0, startCluster = dirCluster ent\<rparr>, dirFileSz ent), fs1)) \<and>
    same_vol fs fs1"
proof -
  note r = assms(1) [unfolded short_root_def]
  let ?name = "path @ replicate (256 - length path) 0"
  have cs: "c_string ?name = path" using assms(2,4) by (simp add: c_string_padded)
  obtain fs1 where root: "find_root_sectors env ?name (ucast (fm_rootDir fs)) fs = Some (root_entry n secs nm, fs1)"
    and s1: "same_vol fs fs1"
    using find_root_sectors_ok [of env ?name nm fs n secs 0] cs assms(5) r unfolding root_entry_def by auto
  have "fatFindBufferDir env fs ?name 0 = None" using r by (simp add: fatFindBufferDir_def)
  then have "walk_path env (part0 path) None fs = Some (root_entry n secs nm, fs1)"
    using root r by (auto simp: walk_root [OF assms(3,4)] fatFindRootDir_def)
  then show ?thesis using s1 by (auto simp: FatOpenFile_def)
qed

text \<open>C18: On a freshly mounted FAT12 or FAT16 volume whose root directory has short names only,
  opening a file by its name finds the first entry, over all the sectors of the directory, whose 11
  bytes are the short form of the name. It fails when there is none or it is a directory;
  otherwise the file has the entry's size, and reading its blocks in any order gives the clusters
  of the chain that starts at the entry's cluster.\<close>

theorem open_root_file:
  assumes "fs_type fs \<in> {VOLUME_FS_FAT12, VOLUME_FS_FAT16}" and "fat_ok env fs"
    and "array_laws (fe_dirs env)" and "ar_list (fe_dirs env) (fm_dirBuffer fs) = []"
    and "0 \<notin> set path" "47 \<notin> set path" "length path < 256" and "fileTo83 path = Some nm"
    and "unat (fm_sectorSz fs) = 32 * n" "0 < fs_blockSz fs" and "secs \<noteq> []" "length secs = unat (fm_rootDirSz fs)"
    and "\<forall>k < length secs. fe_read env (ucast (fm_rootDir fs) + of_nat k) 1 = Some (secs ! k)"
    and "\<forall>s \<in> set secs. length s = 32 * n \<and> (\<forall>e \<in> set (ents_from s n 0). short_ent e)"
  shows "\<exists>r fs1. FatOpenFile env fs path = Some (r, fs1) \<and>
    (case find (\<lambda>e. take 11 e = nm) (concat (map (\<lambda>s. ents_from s n 0) secs)) of
       None \<Rightarrow> r = None
     | Some e \<Rightarrow>
         if is_dir e then r = None
         else \<exists>f. r = Some (f, dirFileSz e) \<and>
           (chain_ok env fs (dirCluster e) \<longrightarrow>
             (\<forall>ps. \<exists>f' fs2. read_blocks env ps f fs1 =
               Some (map (file_block env fs (dirCluster e)) ps, f', fs2))))"
proof -
  have root: "short_root env fs n secs"
    unfolding short_root_def using assms(1,3,4,9,11-14) by blast
  obtain fs1 where op: "FatOpenFile env fs path = Some (case root_entry n secs nm of None \<Rightarrow> (None, fs1)
      | Some ent \<Rightarrow> if is_dir ent then (None, fs1)
          else (Some (\<lparr>lastReadCluster = 0, lastReadPos = 0, startCluster = dirCluster ent\<rparr>, dirFileSz ent), fs1))"
    and s1: "same_vol fs fs1"
    using open_root [OF root assms(5-8)] by blast
  have rd: "\<exists>f' fs2. read_blocks env ps \<lparr>lastReadCluster = 0, lastReadPos = 0, startCluster = dirCluster e\<rparr> fs1 =
      Some (map (file_block env fs (dirCluster e)) ps, f', fs2)" if "chain_ok env fs (dirCluster e)" for e ps
    using read_blocks_any_hint [OF fat_ok_vol [OF assms(2) s1],
        of "\<lparr>lastReadCluster = 0, lastReadPos = 0, startCluster = dirCluster e\<rparr>" ps] assms(10) that
    by (simp add: hint_ok_def chain_ok_vol [OF s1] file_block_vol [OF s1] same_volD [OF s1])
  show ?thesis using op rd unfolding root_entry_def by (auto split: option.splits)
qed

text \<open>A volume with sectors of 32 bytes: the table in sector 1, the root directory in the sectors 2
  and 3 with one entry each, and cluster 2 in sector 4.\<close>

definition ent_a :: "byte list" where
  "ent_a = [65] @ replicate 10 32 @ [32] @ replicate 20 0"

definition ent_nexke :: "byte list" where
  "ent_nexke = [78, 69, 88, 75, 69, 32, 32, 32, 69, 76, 70] @ [32] @ replicate 14 0 @ [2, 0, 20, 0, 0, 0]"

definition vol_root :: volRead where
  "vol_root s n =
     (if n \<noteq> 1 then None
      else if s = 1 then Some ([0xF0, 0xFF, 0xFF, 0xFF, 0x0F] @ replicate 27 0)
      else if s = 2 then Some ent_a
      else if s = 3 then Some ent_nexke
      else if s = 4 then Some (replicate 32 7)
      else None)"

definition env_root :: "(fatCacheEnt list, fatDirBuffer list) fatEnv" where
  "env_root = env12\<lparr>fe_read := vol_root\<rparr>"

definition fs_root :: "(fatCacheEnt list, fatDirBuffer list) fatFs" where
  "fs_root = fs12\<lparr>fs_blockSz := 32, fm_dir := replicate 32 0, fm_fatSz := 1, fm_dataBase := 4,
     fm_rootDir := 2, fm_rootDirSz := 2, fm_sectorSz := 32\<rparr>"

definition nexke_elf :: "byte list" where
  "nexke_elf = [110, 101, 120, 107, 101, 46, 101, 108, 102]"

lemma ents_root: "ents_from ent_a (Suc 0) 0 = [ent_a]" "ents_from ent_nexke (Suc 0) 0 = [ent_nexke]"
  by (simp_all add: ents_from_def ent_a_def ent_nexke_def)

lemma short_root: "short_ent ent_a" "short_ent ent_nexke"
  by (simp_all add: short_ent_def fatIsLfn_def dirAttr_def FAT_DIR_LFN_def ent_a_def ent_nexke_def nth_append)

lemma nexke83: "fileTo83 nexke_elf = Some (take 11 ent_nexke)"
  by code_simp

lemma chain_root: "cluster_at env_root fs_root 2 n = (if n = 0 then Some 2 else None)"
proof (cases n)
  case (Suc k)
  have one: "cluster_at env_root fs_root 2 (Suc 0) = None"
    by (simp add: fs_root_def fs12_def fs_table_def fat_entry_def table_le_2 table_byte_def env_root_def
        env12_def vol_root_def bad_mark_def)
  show ?thesis using cluster_at_end [OF one, of n] Suc by simp
qed simp

lemma fs_root_simps: "fs_type fs_root = VOLUME_FS_FAT12" "unat (fm_sectorSz fs_root) = 32" "fs_blockSz fs_root = 32"
  "unat (fm_rootDirSz fs_root) = 2" "fm_rootDir fs_root = 2" "fm_dirBuffer fs_root = []"
  by (simp_all add: fs_root_def fs12_def)

lemma fat_ok_root: "fat_ok env_root fs_root"
proof -
  have "vol_laws vol_root 32" by (simp add: vol_laws_def vol_root_def ent_a_def ent_nexke_def)
  then show ?thesis
    by (simp add: fat_ok_def fs_root_simps fat_geom_def env_root_def env12_def bounded_array_laws cache_ok_def)
      (simp add: fs_root_def fs12_def bounded_array_def)
qed

lemma chain_ok_root: "chain_ok env_root fs_root 2"
  by (simp add: chain_ok_def chain_root) (simp add: fs_root_def fs12_def)

lemma root_dirs: "array_laws (fe_dirs env_root)" "ar_list (fe_dirs env_root) [] = []"
  by (simp_all add: env_root_def env12_def bounded_array_laws) (simp add: bounded_array_def)

lemma root_secs: "\<forall>k < length [ent_a, ent_nexke]. fe_read env_root (ucast (fm_rootDir fs_root) + of_nat k) 1 =
    Some ([ent_a, ent_nexke] ! k)"
  by (simp add: fs_root_simps env_root_def vol_root_def less_Suc_eq)

lemma root_ents: "\<forall>s \<in> set [ent_a, ent_nexke]. length s = 32 * 1 \<and> (\<forall>e \<in> set (ents_from s 1 0). short_ent e)"
  by (simp add: ents_root short_root) (simp add: ent_a_def ent_nexke_def)

lemma root_short: "short_root env_root fs_root 1 [ent_a, ent_nexke]"
  unfolding short_root_def using root_dirs root_secs root_ents by (simp add: fs_root_simps)

lemma root_nexke: "root_entry 1 [ent_a, ent_nexke] (take 11 ent_nexke) = Some ent_nexke"
  by (simp add: root_entry_def ents_root) (simp add: ent_a_def ent_nexke_def)

theorem open_root_file_witness:
  "\<exists>f fs1. FatOpenFile env_root fs_root nexke_elf = Some (Some (f, 20), fs1) \<and>
     (\<exists>f' fs2. read_blocks env_root [0] f fs1 = Some ([Some (replicate 32 7)], f', fs2))"
proof -
  have f: "\<not> is_dir ent_nexke" "dirFileSz ent_nexke = 20" "dirCluster ent_nexke = 2"
    by code_simp+
  have block: "file_block env_root fs_root 2 0 = Some (replicate 32 7)"
    by (simp add: file_block_def chain_root) (simp add: fs_root_def fs12_def env_root_def vol_root_def)
  have path: "0 \<notin> set nexke_elf" "47 \<notin> set nexke_elf" "length nexke_elf < 256"
    by (simp_all add: nexke_elf_def)
  obtain r fs1 where r: "FatOpenFile env_root fs_root nexke_elf = Some (r, fs1)"
    and v: "case root_entry 1 [ent_a, ent_nexke] (take 11 ent_nexke) of None \<Rightarrow> r = None | Some e \<Rightarrow> if is_dir e then r = None
       else \<exists>f. r = Some (f, dirFileSz e) \<and> (chain_ok env_root fs_root (dirCluster e) \<longrightarrow>
         (\<forall>ps. \<exists>f' fs2. read_blocks env_root ps f fs1 =
           Some (map (file_block env_root fs_root (dirCluster e)) ps, f', fs2)))"
    using open_root_file [OF _ fat_ok_root root_dirs(1) _ path nexke83 _ _ _ _ root_secs root_ents]
      fs_root_simps root_dirs(2) unfolding root_entry_def by (simp del: find.simps) blast
  then obtain f where "r = Some (f, 20)"
    and "\<forall>ps. \<exists>f' fs2. read_blocks env_root ps f fs1 = Some (map (file_block env_root fs_root 2) ps, f', fs2)"
    using f chain_ok_root unfolding root_nexke by auto
  then show ?thesis using r block by (metis (no_types, lifting) list.simps(8,9))
qed

section \<open>Long names with the same first eleven characters\<close>

text \<open>A long name's entries and the short entry of its file.\<close>

definition file_ent :: "byte list \<Rightarrow> bool" where
  "file_ent e \<longleftrightarrow> length e = 32 \<and> e ! 0 \<noteq> 0 \<and> \<not> fatIsLfn e \<and> fatIsValidFile e \<and> \<not> is_dir e"

definition lfn_group :: "byte list \<Rightarrow> byte \<Rightarrow> byte list \<Rightarrow> byte list" where
  "lfn_group name chk e = lfn_entries name chk (lfn_parts name) @ e"

lemma lfn_entries_length: "length (lfn_entries name chk n) = 32 * n"
  by (induction n) simp_all

lemma lfn_order_nonzero: "k < 63 \<Longrightarrow> of_nat (Suc k) OR (if b then 0x40 else 0) \<noteq> (0 :: byte)"
proof
  assume "k < 63" and z: "of_nat (Suc k) OR (if b then 0x40 else 0) = (0 :: byte)"
  then have "of_nat (Suc k) = (0 :: byte)" by (cases b) (simp_all add: or_eq_0_iff del: of_nat_Suc)
  then have "unat (of_nat (Suc k) :: byte) = 0" by simp
  with \<open>k < 63\<close> show False by (simp add: unat_of_nat take_bit_nat_eq_self del: of_nat_Suc)
qed

lemma lfn_entries_first:
  assumes "1 \<le> length name" and "length name \<le> 247"
  shows "\<exists>e tl. lfn_entries name chk (lfn_parts name) = e @ tl \<and> length e = 32 \<and> e ! 0 \<noteq> 0 \<and> fatIsLfn e"
proof -
  obtain k where k: "lfn_parts name = Suc k" using assms(1) by (cases "lfn_parts name") (auto simp: lfn_parts_def)
  then have "k < 63" using assms(2) by (auto simp: lfn_parts_def)
  let ?e = "lfn_entry (of_nat (Suc k) OR (if Suc k = lfn_parts name then 0x40 else 0)) chk (lfn_unit name k)"
  have "?e ! 0 \<noteq> 0" using lfn_order_nonzero [OF \<open>k < 63\<close>] unfolding lfn_entry_fields by blast
  moreover have "fatIsLfn ?e" by (simp add: fatIsLfn_def lfn_entry_fields)
  moreover have "lfn_entries name chk (lfn_parts name) = ?e @ lfn_entries name chk k"
    using k by (simp del: of_nat_Suc)
  ultimately show ?thesis using lfn_entry_length by blast
qed

text \<open>A group in the loop over the directory: the name is put together, the file is buffered under
  it, and the loop ends there or goes on behind the group.\<close>

lemma find_in_dir_group:
  assumes d: "drop (32 * i) dir = lfn_group nm chk e @ rest" and e: "file_ent e"
    and nm: "1 \<le> length nm" "length nm \<le> 247" "0 \<notin> set nm"
    and L0: "length L0 = 256" "L0 ! length nm = 0"
    and sz: "32 * (i + lfn_parts nm + 1) \<le> dirSz" "dirSz \<le> length dir"
  shows "\<exists>L. length L = 256 \<and> c_string L = nm \<and> (\<forall>p < length nm. L ! p = nm ! p) \<and> L ! length nm = 0 \<and>
    find_in_dir env dir name name83 cl dirSz i False L0 fs = do {
      (ok, fs) \<leftarrow> (if fatFindBufferDir env fs L cl = None then fatBufferDirEnt env fs L e cl
                  else Some (True, fs));
      (if \<not> ok then Some (None, fs)
       else if nm = name then Some (Some e, fs)
       else find_in_dir env dir name name83 cl dirSz (i + lfn_parts nm + 1) False L fs) }"
proof -
  let ?n = "lfn_parts nm"
  have e': "length e = 32" "e ! 0 \<noteq> 0" "\<not> fatIsLfn e" "fatIsValidFile e" using e by (auto simp: file_ent_def)
  have n: "0 < ?n" "length nm \<le> 13 * ?n" using nm(1) unfolding lfn_parts_def by presburger+
  obtain L where L: "fatParseLfn dir i L0 = Some (?n, L)" "length L = 256"
    "\<forall>p < length nm. L ! p = nm ! p" "L ! length nm = 0"
    using fatParseLfn_parts [of i dir nm chk ?n "e @ rest" L0] d e' nm L0 n(2)
    unfolding lfn_group_def by fastforce
  have cs: "c_string L = nm" using c_string_nth [OF L(3,4)] L(2) nm by simp
  obtain e1 tl where e1: "lfn_entries nm chk ?n = e1 @ tl" "length e1 = 32" "e1 ! 0 \<noteq> 0" "fatIsLfn e1"
    using lfn_entries_first [OF nm(1,2)] by blast
  have "dir_ent dir i = Some e1" using d e1 by (simp add: dir_ent_drop lfn_group_def)
  then have s1: "find_in_dir env dir name name83 cl dirSz i False L0 fs =
      find_in_dir env dir name name83 cl dirSz (i + ?n) True L fs"
    using e1(3,4) L(1) n sz(1) by (subst find_in_dir.simps) simp
  have "drop (32 * (i + ?n)) dir = drop (32 * ?n) (drop (32 * i) dir)" by (simp add: algebra_simps)
  then have "drop (32 * (i + ?n)) dir = e @ rest"
    using d by (simp add: lfn_group_def lfn_entries_length)
  then have "dir_ent dir (i + ?n) = Some e" using e' by (simp add: dir_ent_drop)
  then have s2: "find_in_dir env dir name name83 cl dirSz (i + ?n) True L fs = do {
      (ok, fs) \<leftarrow> (if fatFindBufferDir env fs L cl = None then fatBufferDirEnt env fs L e cl
                  else Some (True, fs));
      (if \<not> ok then Some (None, fs)
       else if nm = name then Some (Some e, fs)
       else find_in_dir env dir name name83 cl dirSz (i + ?n + 1) False L fs) }"
    using e' sz(1) cs by (subst find_in_dir.simps) (simp cong: if_cong)
  show ?thesis using L cs s1 s2 by auto
qed

lemma take_eq_nth: "n \<le> length xs \<Longrightarrow> n \<le> length ys \<Longrightarrow> (\<forall>p < n. xs ! p = ys ! p) \<Longrightarrow> take n xs = take n ys"
  by (intro nth_equalityI) auto

text \<open>The lookup in a root directory of one sector.\<close>

lemma open_one_sector:
  assumes "fs_type fs \<in> {VOLUME_FS_FAT12, VOLUME_FS_FAT16}" and "fm_rootDirSz fs = 1"
    and "fe_read env (ucast (fm_rootDir fs)) 1 = Some dir"
    and "47 \<notin> set path" and "length path < 256"
    and "fatFindBufferDir env fs (path @ replicate (256 - length path) 0) 0 = None"
    and "fatFindInDir env (fs\<lparr>fm_dir := dir @ drop (length dir) (fm_dir fs)\<rparr>)
      (dir @ drop (length dir) (fm_dir fs)) (path @ replicate (256 - length path) 0) 0
      (unat (fm_sectorSz fs)) = Some (Some e, fs1)"
    and "same_vol fs fs1" and "\<not> is_dir e"
  shows "FatOpenFile env fs path = Some (Some (\<lparr>lastReadCluster = 0, lastReadPos = 0,
    startCluster = dirCluster e\<rparr>, dirFileSz e), fs1)"
proof -
  have "find_root_sectors env (path @ replicate (256 - length path) 0) (ucast (fm_rootDir fs)) fs =
      Some (Some e, fs1)"
    using assms by (subst find_root_sectors.simps) simp
  then show ?thesis
    using assms by (auto simp: FatOpenFile_def walk_root fatFindRootDir_def)
qed

text \<open>C19: The buffer of directory entries compares eleven bytes of a name. In a root directory with two
  files whose long names differ but start with the same eleven characters, opening the second gives
  the second file on a fresh volume, but the first file after that one was opened.\<close>

theorem long_names_collide:
  assumes "fs_type fs \<in> {VOLUME_FS_FAT12, VOLUME_FS_FAT16}" and "fm_rootDirSz fs = 1"
    and "fe_dirs env = bounded_array 256 e0" and "fm_dirBuffer fs = []"
    and "fe_read env (ucast (fm_rootDir fs)) 1 = Some (lfn_group a ca ea @ lfn_group b cb eb @ rest)"
    and "length (lfn_group a ca ea @ lfn_group b cb eb @ rest) = unat (fm_sectorSz fs)"
    and "file_ent ea" and "file_ent eb" and "a \<noteq> b" and "take 11 a = take 11 b"
    and "11 \<le> length a" "length a = length b" "length a \<le> 247"
    and "0 \<notin> set a" "47 \<notin> set a" "0 \<notin> set b" "47 \<notin> set b"
    and "fileTo83 a \<noteq> None" "fileTo83 b \<noteq> None"
  shows "(\<exists>fs1. FatOpenFile env fs b = Some (Some (\<lparr>lastReadCluster = 0, lastReadPos = 0,
      startCluster = dirCluster eb\<rparr>, dirFileSz eb), fs1)) \<and>
    (\<exists>r fs1 fs2. FatOpenFile env fs a = Some (r, fs1) \<and>
      FatOpenFile env fs1 b = Some (Some (\<lparr>lastReadCluster = 0, lastReadPos = 0,
        startCluster = dirCluster ea\<rparr>, dirFileSz ea), fs2))"
proof -
  let ?secs = "lfn_group a ca ea @ lfn_group b cb eb @ rest"
  let ?dir = "?secs @ drop (length ?secs) (fm_dir fs)"
  let ?fs0 = "fs\<lparr>fm_dir := ?dir\<rparr>"
  let ?pad = "\<lambda>s. s @ replicate (256 - length s) 0 :: byte list"
  define sz where "sz = unat (fm_sectorSz fs)"
  have ea: "length ea = 32" "\<not> is_dir ea" and eb: "length eb = 32" "\<not> is_dir eb"
    using assms(7,8) by (auto simp: file_ent_def)
  have len: "32 * (lfn_parts a + 1) + 32 * (lfn_parts b + 1) \<le> sz" "sz \<le> length ?dir"
    using assms(6) ea eb by (auto simp: sz_def lfn_group_def lfn_entries_length)
  have da: "drop (32 * 0) ?dir = lfn_group a ca ea @ (lfn_group b cb eb @ rest @ drop (length ?secs) (fm_dir fs))"
    by simp
  have db: "drop (32 * (0 + lfn_parts a + 1)) ?dir = lfn_group b cb eb @ (rest @ drop (length ?secs) (fm_dir fs))"
    using ea by (simp add: lfn_group_def lfn_entries_length)
  define new where "new = \<lparr>fdb_dirEnt = ea, fdb_name = a @ [0] @ drop (length a + 1) (fdb_name e0),
    fdb_cluster = 0\<rparr>"
  define fsa where "fsa = ?fs0\<lparr>fm_dirBuffer := [new]\<rparr>"
  have a1: "1 \<le> length a" "1 \<le> length b" "length b \<le> 247" using assms(11-13) by auto
  have buf: "fatBufferDirEnt env ?fs0 L ea 0 = Some (True, fsa)" if "length L = 256" "c_string L = a" for L
    using that assms(3,4,13)
    by (simp add: fatBufferDirEnt_def Let_def bounded_array_def fsa_def new_def)
  have hit: "fatFindBufferDir env fsa L 0 = Some ea" if "take 11 L = take 11 b" for L
    using that assms(3,10,11) by (simp add: fatFindBufferDir_def fsa_def bounded_array_def new_def)
  have miss: "fatFindBufferDir env ?fs0 L 0 = None" "fatFindBufferDir env fs L 0 = None" for L
    using assms(3,4) by (simp_all add: fatFindBufferDir_def bounded_array_def)
  have vol: "same_vol fs fsa"
    unfolding fsa_def using same_vol_trans [OF same_vol_dir same_vol_dirs] .
  have first: "\<exists>L. length L = 256 \<and> L ! length b = 0 \<and>
      find_in_dir env ?dir name n83 0 sz 0 False (replicate 256 0) ?fs0 =
      (if a = name then Some (Some ea, fsa)
       else find_in_dir env ?dir name n83 0 sz (0 + lfn_parts a + 1) False L fsa)" for name n83
  proof -
    obtain L where "length L = 256" "c_string L = a" "L ! length a = 0"
      and "find_in_dir env ?dir name n83 0 sz 0 False (replicate 256 0) ?fs0 = do {
        (ok, fs) \<leftarrow> (if fatFindBufferDir env ?fs0 L 0 = None then fatBufferDirEnt env ?fs0 L ea 0
                    else Some (True, ?fs0));
        (if \<not> ok then Some (None, fs)
         else if a = name then Some (Some ea, fs)
         else find_in_dir env ?dir name n83 0 sz (0 + lfn_parts a + 1) False L fs) }"
      using find_in_dir_group [OF da assms(7) a1(1) assms(13,14), of "replicate 256 0" sz env name n83 0 ?fs0]
        len assms(13) by auto
    then show ?thesis using buf miss(1) assms(12) by auto
  qed
  have second: "find_in_dir env ?dir b n83 0 sz (0 + lfn_parts a + 1) False L fsa = Some (Some eb, fsa)"
    if L: "length L = 256" "L ! length b = 0" for L n83
  proof -
    obtain L' where L': "length L' = 256" "\<forall>p < length b. L' ! p = b ! p"
      and "find_in_dir env ?dir b n83 0 sz (0 + lfn_parts a + 1) False L fsa = do {
        (ok, fs) \<leftarrow> (if fatFindBufferDir env fsa L' 0 = None then fatBufferDirEnt env fsa L' eb 0
                    else Some (True, fsa));
        (if \<not> ok then Some (None, fs)
         else if b = b then Some (Some eb, fs)
         else find_in_dir env ?dir b n83 0 sz (0 + lfn_parts a + 1 + lfn_parts b + 1) False L' fs) }"
      using find_in_dir_group [OF db assms(8) a1(2,3) assms(16) L, of sz env b n83 0 fsa] len by auto
    moreover have "take 11 L' = take 11 b" using L' assms(11,12) by (intro take_eq_nth) auto
    ultimately show ?thesis using hit by simp
  qed
  have cs: "c_string (?pad a) = a" "c_string (?pad b) = b"
    using assms(12-14,16) by (simp_all add: c_string_padded)
  obtain na nb where n83: "fileTo83 a = Some na" "fileTo83 b = Some nb" using assms(18,19) by auto
  obtain L where L: "length L = 256" "L ! length b = 0"
    and "find_in_dir env ?dir b nb 0 sz 0 False (replicate 256 0) ?fs0 =
      (if a = b then Some (Some ea, fsa)
       else find_in_dir env ?dir b nb 0 sz (0 + lfn_parts a + 1) False L fsa)"
    using first by blast
  with second [OF L] assms(9) have fb: "fatFindInDir env ?fs0 ?dir (?pad b) 0 sz = Some (Some eb, fsa)"
    using n83 cs by (simp add: fatFindInDir_def)
  have fa: "fatFindInDir env ?fs0 ?dir (?pad a) 0 sz = Some (Some ea, fsa)"
    using first [of a na] n83 cs by (auto simp: fatFindInDir_def)
  have "FatOpenFile env fs b = Some (Some (\<lparr>lastReadCluster = 0, lastReadPos = 0,
      startCluster = dirCluster eb\<rparr>, dirFileSz eb), fsa)"
    using assms(12,13) by (intro open_one_sector [OF assms(1,2,5,17) _ miss(2) fb [unfolded sz_def] vol eb(2)]) simp
  moreover have "FatOpenFile env fs a = Some (Some (\<lparr>lastReadCluster = 0, lastReadPos = 0,
      startCluster = dirCluster ea\<rparr>, dirFileSz ea), fsa)"
    using assms(13) by (intro open_one_sector [OF assms(1,2,5,15) _ miss(2) fa [unfolded sz_def] vol ea(2)]) simp
  moreover have "FatOpenFile env fsa b = Some (Some (\<lparr>lastReadCluster = 0, lastReadPos = 0,
      startCluster = dirCluster ea\<rparr>, dirFileSz ea), fsa)"
  proof -
    have "take 11 (?pad b) = take 11 b" using assms(11,12) by simp
    moreover have "length b < 256" using a1(3) by simp
    ultimately show ?thesis
      using hit assms(1) ea(2) by (auto simp: FatOpenFile_def walk_root [OF assms(17)] fatFindRootDir_def same_volD [OF vol])
  qed
  ultimately show ?thesis by blast
qed

text \<open>The names \<open>kernel-0.1-a.elf\<close> and \<open>kernel-0.1-b.elf\<close>, of 10 and 20 bytes.\<close>

definition kernel_a :: "byte list" where
  "kernel_a = [107, 101, 114, 110, 101, 108, 45, 48, 46, 49, 45, 97, 46, 101, 108, 102]"

definition kernel_b :: "byte list" where
  "kernel_b = [107, 101, 114, 110, 101, 108, 45, 48, 46, 49, 45, 98, 46, 101, 108, 102]"

definition ent_kernel :: "byte \<Rightarrow> byte \<Rightarrow> byte list" where
  "ent_kernel c sz =
     [75, 69, 82, 78, 69, 76, 126, c, 69, 76, 70, 32] @ replicate 14 0 @ [c, 0, sz, 0, 0, 0]"

definition dir_long :: "byte list" where
  "dir_long = lfn_group kernel_a 0 (ent_kernel 49 10) @ lfn_group kernel_b 0 (ent_kernel 50 20) @
     replicate 64 0"

definition env_long :: "(fatCacheEnt list, fatDirBuffer list) fatEnv" where
  "env_long = env12\<lparr>fe_read := (\<lambda>s n. if n = 1 \<and> s = 2 then Some dir_long else None)\<rparr>"

definition fs_long :: "(fatCacheEnt list, fatDirBuffer list) fatFs" where
  "fs_long = fs_root\<lparr>fm_dir := replicate 256 0, fm_rootDirSz := 1, fm_sectorSz := 256\<rparr>"

lemma file_ent_kernel: "file_ent (ent_kernel 49 10)" "file_ent (ent_kernel 50 20)"
  "dirFileSz (ent_kernel 49 10) = 10" "dirFileSz (ent_kernel 50 20) = 20"
  by code_simp+

theorem long_names_collide_witness:
  "(\<exists>f fs1. FatOpenFile env_long fs_long kernel_b = Some (Some (f, 20), fs1)) \<and>
   (\<exists>r f fs1 fs2. FatOpenFile env_long fs_long kernel_a = Some (r, fs1) \<and>
      FatOpenFile env_long fs1 kernel_b = Some (Some (f, 10), fs2))"
proof -
  have "lfn_parts kernel_a = 2" "lfn_parts kernel_b = 2"
    by (simp_all add: lfn_parts_def kernel_a_def kernel_b_def)
  then have "length dir_long = 256"
    by (simp add: dir_long_def lfn_group_def lfn_entries_length) (simp add: ent_kernel_def)
  moreover have "fileTo83 kernel_a \<noteq> None" "fileTo83 kernel_b \<noteq> None"
    by code_simp+
  ultimately show ?thesis
    using long_names_collide [of fs_long env_long "\<lparr>fdb_dirEnt = [], fdb_name = replicate 256 0, fdb_cluster = 0\<rparr>"
        kernel_a 0 "ent_kernel 49 10" kernel_b 0 "ent_kernel 50 20" "replicate 64 0"] file_ent_kernel
    by (fastforce simp: fs_long_def fs_root_def fs12_def env_long_def env12_def dir_long_def kernel_a_def kernel_b_def)
qed

end
