(* ===== verification/FatMount.thy ===== *)
theory FatMount
  imports FatDir
begin

text \<open>
  The FAT driver of the boot loader, third part: reading the parameters of a volume from its boot
  sector and mounting it (\<open>FatMountFs\<close> in \<open>source/nexboot/src/filesys/fat.c\<close>).

  The boot sector is the bytes that were read; \<open>Bpb_t\<close>, \<open>Bpb16_t\<close>, \<open>Bpb32_t\<close> and the structures of
  the sector around them are packed, and their fields are read by their offsets. Buffers are
  allocated without failing.
\<close>

section \<open>The parameter block\<close>

record bpb =
  bpb_bytesPerSector :: nat
  bpb_sectPerCluster :: nat
  bpb_resvdSectors :: nat
  bpb_numFats :: nat
  bpb_rootEntCount :: nat
  bpb_totalSect16 :: nat
  bpb_fatSz16 :: nat
  bpb_totalSect32 :: nat
  bpb32_fatSz32 :: nat
  bpb32_rootCluster :: nat
  mbr_bootSig :: nat

text \<open>The fields the driver reads. The last two groups are those of \<open>Bpb32_t\<close> and the signature,
  which both layouts have at 510.\<close>

definition read_bpb :: "byte list \<Rightarrow> bpb" where
  "read_bpb mbr =
     \<lparr>bpb_bytesPerSector = le_field mbr 11 2, bpb_sectPerCluster = le_field mbr 13 1,
      bpb_resvdSectors = le_field mbr 14 2, bpb_numFats = le_field mbr 16 1,
      bpb_rootEntCount = le_field mbr 17 2, bpb_totalSect16 = le_field mbr 19 2,
      bpb_fatSz16 = le_field mbr 22 2, bpb_totalSect32 = le_field mbr 32 4,
      bpb32_fatSz32 = le_field mbr 36 4, bpb32_rootCluster = le_field mbr 44 4,
      mbr_bootSig = le_field mbr 510 2\<rparr>"

definition MBR_BOOTSIG :: nat where "MBR_BOOTSIG = 0xAA55"

section \<open>The type of the file system\<close>

text \<open>The size of the root directory in sectors, in the 64 bits of \<open>size_t\<close> and cut to 32.\<close>

definition rootDirSects :: "bpb \<Rightarrow> u32 \<Rightarrow> u32" where
  "rootDirSects b sectorSz = ucast ((of_nat (bpb_rootEntCount b) * 32 + (ucast (sectorSz - 1) :: u64)) div ucast sectorSz)"

text \<open>The type by the count of clusters. \<open>None\<close> is the failed assertion on a size of 0, and the
  division by a cluster of 0 sectors.\<close>

definition fat_type :: "bpb \<Rightarrow> u32 \<Rightarrow> volFs option" where
  "fat_type b sectorSz =
     (if bpb_rootEntCount b = 0 then Some VOLUME_FS_FAT32
      else if bpb_fatSz16 b = 0 \<or> bpb_sectPerCluster b = 0 then None
      else
        (let fatSize = of_nat (bpb_fatSz16 b);
             sectorCount = of_nat (if bpb_totalSect16 b \<noteq> 0 then bpb_totalSect16 b else bpb_totalSect32 b);
             dataSectors = sectorCount - (of_nat (bpb_resvdSectors b) + of_nat (bpb_numFats b) * fatSize +
               rootDirSects b sectorSz);
             clusterCount = dataSectors div (of_nat (bpb_sectPerCluster b) :: u32)
         in Some (if clusterCount < 4085 then VOLUME_FS_FAT12
                  else if clusterCount < 65525 then VOLUME_FS_FAT16
                  else VOLUME_FS_FAT)))"

section \<open>Mounting\<close>

text \<open>\<open>newCache\<close> and \<open>newDirs\<close> are the arrays \<open>ArrayCreate\<close> makes, \<open>buf\<close> the memory allocated for the
  directory. The result is the mounted file system, \<open>Some None\<close> for \<open>false\<close>.\<close>

definition FatMountFs ::
  "('c, 'd) fatEnv \<Rightarrow> u32 \<Rightarrow> volFs \<Rightarrow> 'c \<Rightarrow> 'd \<Rightarrow> (nat \<Rightarrow> byte list) \<Rightarrow> ('c, 'd) fatFs option option" where
  "FatMountFs env sectorSz type newCache newDirs buf =
     (if sectorSz = 0 then None
      else case fe_read env 0 1 of
        None \<Rightarrow> Some None
      | Some mbr \<Rightarrow>
          if length mbr < 512 then None
          else
            (let b = read_bpb mbr
             in case (if type = VOLUME_FS_FAT then fat_type b sectorSz else Some type) of
                  None \<Rightarrow> None
                | Some type \<Rightarrow>
                    if mbr_bootSig b \<noteq> MBR_BOOTSIG then Some None
                    else
                      (let fatBase = of_nat (bpb_resvdSectors b);
                           isFat32 = (type = VOLUME_FS_FAT32);
                           fatSz = (of_nat (if isFat32 then bpb32_fatSz32 b else bpb_fatSz16 b) :: u32);
                           fats = of_nat (bpb_numFats b) * fatSz;
                           rootDirSz = (if isFat32 then 0 else rootDirSects b sectorSz);
                           rootDir = (if isFat32 then of_nat (bpb32_rootCluster b) else ucast fatBase + fats);
                           dataBase = (fatBase + ucast fats + ucast rootDirSz :: u64);
                           spc = of_nat (bpb_sectPerCluster b);
                           dirSz = unat (ucast spc * ucast (ucast sectorSz :: u16) :: u32)
                       in Some (Some \<lparr>fs_type = type, fs_blockSz = ucast (sectorSz * ucast spc),
                            fm_dir = buf dirSz, fm_fatCache = newCache, fm_dirBuffer = newDirs,
                            fm_fatBase = fatBase, fm_fatSz = fatSz, fm_dataBase = dataBase,
                            fm_rootDir = rootDir, fm_rootDirSz = rootDirSz, fm_sectPerCluster = spc,
                            fm_sectorSz = ucast sectorSz, fs_heap = []\<rparr>))))"

section \<open>The geometry of a mounted volume\<close>

text \<open>The layout of a FAT12 or FAT16 volume in unbounded numbers: the sectors of its root directory,
  the first sector of its data, its sectors, and its clusters.\<close>

definition root_sects :: "bpb \<Rightarrow> nat \<Rightarrow> nat" where
  "root_sects b sz = (bpb_rootEntCount b * 32 + (sz - 1)) div sz"

definition data_start :: "bpb \<Rightarrow> nat \<Rightarrow> nat" where
  "data_start b sz = bpb_resvdSectors b + bpb_numFats b * bpb_fatSz16 b + root_sects b sz"

definition vol_sects :: "bpb \<Rightarrow> nat" where
  "vol_sects b = (if bpb_totalSect16 b \<noteq> 0 then bpb_totalSect16 b else bpb_totalSect32 b)"

definition vol_clusters :: "bpb \<Rightarrow> nat \<Rightarrow> nat" where
  "vol_clusters b sz = (vol_sects b - data_start b sz) div bpb_sectPerCluster b"

lemma le_field_bound: "le_field bs i w < 256 ^ w"
proof -
  have "le_val xs < 256 ^ length xs" for xs
  proof (induction xs)
    case (Cons x xs)
    have "unat x < 256" by simp
    with Cons have "unat x + 256 * le_val xs < 256 * 256 ^ length xs" by linarith
    then show ?case by simp
  qed simp
  then have "le_field bs i w < 256 ^ length (take w (drop i bs))" unfolding le_field_def .
  also have "\<dots> \<le> 256 ^ w" by (intro power_increasing) simp_all
  finally show ?thesis .
qed

lemma bpb_bounds:
  "bpb_sectPerCluster (read_bpb mbr) < 256" "bpb_resvdSectors (read_bpb mbr) < 65536"
  "bpb_numFats (read_bpb mbr) < 256" "bpb_rootEntCount (read_bpb mbr) < 65536"
  "bpb_fatSz16 (read_bpb mbr) < 65536" "vol_sects (read_bpb mbr) < 2 ^ 32"
  using le_field_bound [of mbr 13 1] le_field_bound [of mbr 14 2] le_field_bound [of mbr 16 1]
    le_field_bound [of mbr 17 2] le_field_bound [of mbr 19 2] le_field_bound [of mbr 22 2]
    le_field_bound [of mbr 32 4]
  by (auto simp: read_bpb_def vol_sects_def)

lemma rootDirSects_val:
  assumes "bpb_rootEntCount b < 65536" and "0 < sectorSz"
  shows "unat (rootDirSects b sectorSz) = root_sects b (unat sectorSz)"
proof -
  let ?sz = "unat sectorSz"
  have sz: "0 < ?sz" "?sz < 2 ^ 32"
    using assms(2) unsigned_less [of sectorSz, where ?'a = nat] by (simp_all add: unat_gt_0)
  have "unat (sectorSz - 1) = ?sz - 1" using sz by (simp add: unat_sub_if')
  then have u: "unat (ucast (sectorSz - 1) :: u64) = ?sz - 1"
    using sz by (simp add: unsigned_ucast_eq take_bit_nat_eq_self)
  have e: "unat (of_nat (bpb_rootEntCount b) * 32 :: u64) = bpb_rootEntCount b * 32"
    using assms(1) by (simp add: unat_word_ariths unat_of_nat take_bit_nat_eq_self)
  have s: "unat (of_nat (bpb_rootEntCount b) * 32 + ucast (sectorSz - 1) :: u64) =
      bpb_rootEntCount b * 32 + (?sz - 1)"
    using assms(1) sz u e by (simp add: unat_word_ariths(1))
  have z: "unat (ucast sectorSz :: u64) = ?sz"
    using sz by (simp add: unsigned_ucast_eq take_bit_nat_eq_self)
  have q: "root_sects b ?sz < 2 ^ 32"
  proof -
    have "root_sects b ?sz * ?sz \<le> bpb_rootEntCount b * 32 + (?sz - 1)" by (simp add: root_sects_def)
    also have "\<dots> < 2097152 + ?sz" using assms(1) sz by linarith
    finally have "root_sects b ?sz * ?sz < 2097152 * ?sz + ?sz" using sz(1)
      by (metis add_le_cancel_right less_le_trans mult.right_neutral mult_le_mono2 Suc_leI One_nat_def)
    then have "root_sects b ?sz * ?sz < (2097152 + 1) * ?sz" by (simp add: algebra_simps)
    then have "root_sects b ?sz < 2097152 + 1" using sz(1) by (metis mult_less_cancel2)
    then show ?thesis by simp
  qed
  have "unat ((of_nat (bpb_rootEntCount b) * 32 + ucast (sectorSz - 1) :: u64) div ucast sectorSz) = root_sects b ?sz"
    by (simp only: unat_div_distrib s z root_sects_def)
  then show ?thesis
    using q by (simp add: rootDirSects_def unsigned_ucast_eq take_bit_nat_eq_self)
qed

lemma rootDirSects_of_nat:
  "bpb_rootEntCount b < 65536 \<Longrightarrow> 0 < sectorSz \<Longrightarrow> rootDirSects b sectorSz = of_nat (root_sects b (unat sectorSz))"
  by (metis of_nat_unat rootDirSects_val ucast_id)

lemma fat_type_clusters:
  assumes b: "b = read_bpb mbr" and sz: "0 < sectorSz"
    and "bpb_rootEntCount b \<noteq> 0" "bpb_fatSz16 b \<noteq> 0" "bpb_sectPerCluster b \<noteq> 0"
    and fits: "data_start b (unat sectorSz) \<le> vol_sects b"
  shows "fat_type b sectorSz =
    Some (if vol_clusters b (unat sectorSz) < 4085 then VOLUME_FS_FAT12
          else if vol_clusters b (unat sectorSz) < 65525 then VOLUME_FS_FAT16 else VOLUME_FS_FAT)"
proof -
  let ?D = "data_start b (unat sectorSz)" and ?T = "vol_sects b" and ?spc = "bpb_sectPerCluster b"
  have r: "rootDirSects b sectorSz = of_nat (root_sects b (unat sectorSz))"
    using bpb_bounds(4) [of mbr] sz b by (intro rootDirSects_of_nat) auto
  let ?q = "(of_nat (?T - ?D) :: u32) div of_nat ?spc"
  have "of_nat ?T - (of_nat (bpb_resvdSectors b) + of_nat (bpb_numFats b) * of_nat (bpb_fatSz16 b) +
      rootDirSects b sectorSz) = (of_nat (?T - ?D) :: u32)"
    using fits by (simp add: r data_start_def of_nat_diff)
  then have code: "fat_type b sectorSz = Some (if ?q < 4085 then VOLUME_FS_FAT12
      else if ?q < 65525 then VOLUME_FS_FAT16 else VOLUME_FS_FAT)"
    using assms(3-5) by (simp only: fat_type_def Let_def vol_sects_def if_False simp_thms)
  have q: "unat ?q = vol_clusters b (unat sectorSz)"
  proof -
    have "?T - ?D < 2 ^ 32" using bpb_bounds(6) [of mbr] b by simp
    moreover have "?spc < 2 ^ 32" using bpb_bounds(1) [of mbr] b by simp
    ultimately show ?thesis
      by (simp add: unat_div_distrib unat_of_nat take_bit_nat_eq_self vol_clusters_def del: of_nat_diff)
  qed
  show ?thesis unfolding code by (simp add: word_less_nat_alt q)
qed

text \<open>C20: Mounting a volume whose boot sector describes a FAT12 or FAT16 layout finds its type by the
  number of clusters and the places of the tables, the root directory and the data without
  overflow; every cluster lies inside the volume; and when the type is known the state is one the
  table can be read from. (With 65525 clusters or more the type stays unknown.)\<close>

theorem mount_geometry:
  assumes "fe_read env 0 1 = Some mbr" "512 \<le> length mbr" "b = read_bpb mbr" "mbr_bootSig b = MBR_BOOTSIG"
    and "0 < sectorSz" "sectorSz < 65536" "4 dvd unat sectorSz"
    and "bpb_rootEntCount b \<noteq> 0" "bpb_fatSz16 b \<noteq> 0" "bpb_sectPerCluster b \<noteq> 0"
    and "data_start b (unat sectorSz) \<le> vol_sects b"
    and "ar_list (fe_cache env) newCache = []"
  shows "\<exists>fs. FatMountFs env sectorSz VOLUME_FS_FAT newCache newDirs buf = Some (Some fs) \<and>
    fs_type fs = (if vol_clusters b (unat sectorSz) < 4085 then VOLUME_FS_FAT12
                  else if vol_clusters b (unat sectorSz) < 65525 then VOLUME_FS_FAT16 else VOLUME_FS_FAT) \<and>
    unat (fm_rootDir fs) = bpb_resvdSectors b + bpb_numFats b * bpb_fatSz16 b \<and>
    unat (fm_rootDirSz fs) = root_sects b (unat sectorSz) \<and>
    unat (fm_dataBase fs) = data_start b (unat sectorSz) \<and>
    (\<forall>c < vol_clusters b (unat sectorSz).
       unat (fm_dataBase fs) + c * unat (fm_sectPerCluster fs) + unat (fm_sectPerCluster fs) \<le> vol_sects b) \<and>
    (vol_clusters b (unat sectorSz) < 65525 \<longrightarrow> fat_geom fs) \<and> cache_ok env fs"
proof -
  let ?sz = "unat sectorSz" and ?spc = "bpb_sectPerCluster b"
  let ?type = "if vol_clusters b ?sz < 4085 then VOLUME_FS_FAT12
    else if vol_clusters b ?sz < 65525 then VOLUME_FS_FAT16 else VOLUME_FS_FAT"
  note bounds = bpb_bounds [of mbr, folded assms(3)]
  have ty: "fat_type b sectorSz = Some ?type"
    by (rule fat_type_clusters [OF assms(3,5,8-11)])
  have r: "rootDirSects b sectorSz = of_nat (root_sects b ?sz)"
    by (rule rootDirSects_of_nat [OF bounds(4) assms(5)])
  have D: "data_start b ?sz < 2 ^ 32" using assms(11) bounds(6) by simp
  then have parts: "bpb_resvdSectors b + bpb_numFats b * bpb_fatSz16 b < 2 ^ 32" "root_sects b ?sz < 2 ^ 32"
    "bpb_numFats b * bpb_fatSz16 b < 2 ^ 32"
    by (simp_all add: data_start_def)
  have rb: "unat (ucast (of_nat (bpb_resvdSectors b) :: u64) + of_nat (bpb_numFats b) * of_nat (bpb_fatSz16 b) :: u32)
      = bpb_resvdSectors b + bpb_numFats b * bpb_fatSz16 b"
  proof -
    have "ucast (of_nat (bpb_resvdSectors b) :: u64) = (of_nat (bpb_resvdSectors b) :: u32)"
      using bounds(2) by (simp add: word_unat_eq_iff unsigned_ucast_eq unat_of_nat take_bit_nat_eq_self)
    then have "ucast (of_nat (bpb_resvdSectors b) :: u64) + of_nat (bpb_numFats b) * of_nat (bpb_fatSz16 b) =
        (of_nat (bpb_resvdSectors b + bpb_numFats b * bpb_fatSz16 b) :: u32)" by simp
    then show ?thesis using parts(1) by (simp only: unat_of_nat) (simp add: take_bit_nat_eq_self)
  qed
  have db: "unat (of_nat (bpb_resvdSectors b) + ucast (of_nat (bpb_numFats b) * of_nat (bpb_fatSz16 b) :: u32) +
      ucast (of_nat (root_sects b ?sz) :: u32) :: u64) = data_start b ?sz"
  proof -
    have "(ucast (of_nat n :: u32) :: u64) = of_nat n" if "n < 2 ^ 32" for n
      using that by (simp add: word_unat_eq_iff unsigned_ucast_eq unat_of_nat take_bit_nat_eq_self)
    then have "of_nat (bpb_resvdSectors b) + ucast (of_nat (bpb_numFats b) * of_nat (bpb_fatSz16 b) :: u32) +
        ucast (of_nat (root_sects b ?sz) :: u32) = (of_nat (data_start b ?sz) :: u64)"
      using parts by (simp add: data_start_def flip: of_nat_mult)
    then show ?thesis using D by (simp only: unat_of_nat) (simp add: take_bit_nat_eq_self)
  qed
  have spc: "unat (of_nat ?spc :: u16) = ?spc" using bounds(1) by (simp add: unat_of_nat take_bit_nat_eq_self)
  have sz16: "unat (ucast sectorSz :: u16) = ?sz"
    using assms(6) by (simp add: unsigned_ucast_eq word_less_nat_alt take_bit_nat_eq_self)
  have inside: "data_start b ?sz + c * ?spc + ?spc \<le> vol_sects b" if "c < vol_clusters b ?sz" for c
  proof -
    have "Suc c * ?spc \<le> vol_clusters b ?sz * ?spc" using that by (intro mult_le_mono1) simp
    also have "\<dots> \<le> vol_sects b - data_start b ?sz" by (simp add: vol_clusters_def)
    finally show ?thesis using assms(11) by simp
  qed
  have fb: "unat (of_nat (bpb_resvdSectors b) :: u64) < 2 ^ 16"
    using bounds(2) by (simp add: unat_of_nat take_bit_nat_eq_self)
  have n32: "?type \<noteq> VOLUME_FS_FAT32" by simp
  have pos: "0 < ?sz" using assms(5) by (simp add: word_less_nat_alt)
  show ?thesis
    using assms(1,2,4,5,7,12) pos ty n32 rb db spc sz16 inside fb r parts(2)
    by (auto simp: FatMountFs_def Let_def assms(3) [symmetric] fat_geom_def cache_ok_def unat_of_nat
        take_bit_nat_eq_self simp del: of_nat_mult)
qed

text \<open>The boot sector of a 1.44 MB floppy disk.\<close>

definition floppy_mbr :: "byte list" where
  "floppy_mbr = replicate 11 0 @ [0, 2, 1, 1, 0, 2, 224, 0, 64, 11, 240, 9, 0] @ replicate 486 0 @ [0x55, 0xAA]"

definition env_floppy :: "(fatCacheEnt list, fatDirBuffer list) fatEnv" where
  "env_floppy = env12\<lparr>fe_read := (\<lambda>s n. if s = 0 \<and> n = 1 then Some floppy_mbr else None)\<rparr>"

lemma floppy_bpb:
  "bpb_rootEntCount (read_bpb floppy_mbr) = 224" "bpb_fatSz16 (read_bpb floppy_mbr) = 9"
  "bpb_sectPerCluster (read_bpb floppy_mbr) = 1" "bpb_resvdSectors (read_bpb floppy_mbr) = 1"
  "bpb_numFats (read_bpb floppy_mbr) = 2" "bpb_totalSect16 (read_bpb floppy_mbr) = 2880"
  "mbr_bootSig (read_bpb floppy_mbr) = MBR_BOOTSIG"
  by (simp_all add: read_bpb_def floppy_mbr_def le_field_def MBR_BOOTSIG_def)

theorem mount_geometry_witness:
  "\<exists>fs. FatMountFs env_floppy 512 VOLUME_FS_FAT [] [] (\<lambda>n. replicate n 0) = Some (Some fs) \<and>
     fs_type fs = VOLUME_FS_FAT12 \<and> unat (fm_rootDir fs) = 19 \<and> unat (fm_rootDirSz fs) = 14 \<and>
     unat (fm_dataBase fs) = 33 \<and> fat_geom fs \<and> cache_ok env_floppy fs"
proof -
  have l: "root_sects (read_bpb floppy_mbr) 512 = 14" "data_start (read_bpb floppy_mbr) 512 = 33"
    "vol_sects (read_bpb floppy_mbr) = 2880" "vol_clusters (read_bpb floppy_mbr) 512 = 2847"
    by (simp_all add: root_sects_def data_start_def vol_sects_def vol_clusters_def floppy_bpb)
  have "length floppy_mbr = 512" by (simp add: floppy_mbr_def)
  moreover have "fe_read env_floppy 0 1 = Some floppy_mbr" "ar_list (fe_cache env_floppy) [] = []"
    by (simp_all add: env_floppy_def env12_def bounded_array_def)
  ultimately show ?thesis
    using mount_geometry [of env_floppy floppy_mbr "read_bpb floppy_mbr" 512 "[]" "[]" "\<lambda>n. replicate n 0"] floppy_bpb l
    by auto
qed

end
