(* ===== verification/AddrSpace.thy ===== *)
theory AddrSpace
  imports Prelude "HOL-Library.Monad_Syntax"
begin

text \<open>
  Address spaces of the kernel (\<open>source/nexke/mm/space.c\<close>): a space is a list of entries sorted by
  address, linked in both directions, between an empty entry at its start and one at its end.

  Entries live in a heap of records; a freed entry leaves the heap, so that touching it afterwards
  is a fault. The caches of entries (\<open>MmCacheAlloc\<close>, \<open>MmCacheFree\<close>) and \<open>MmDeRefObject\<close> are arguments over
  a state of their own. \<open>NULL\<close> is address 0. \<open>None\<close> stands for a fault, a failed assertion, a lock
  that is held already, the panic on exhausted memory, and a loop that does not end.
\<close>

section \<open>State\<close>

text \<open>\<open>MmSpaceEntry_t\<close>.\<close>

record spaceEntry =
  se_vaddr :: u64
  se_count :: u64
  se_obj :: addr
  se_next :: addr
  se_prev :: addr

type_synonym entries = "addr \<rightharpoonup> spaceEntry"

text \<open>\<open>MmSpace_t\<close>, with the heap of entries and the state of the other components.\<close>

record 'x memSpace =
  ms_startAddr :: u64
  ms_endAddr :: u64
  ms_numEntries :: u64
  ms_entryList :: addr
  ms_faultHint :: addr
  ms_lock :: bool
  ms_isKernel :: bool
  ms_entries :: entries
  ms_ext :: 'x

record 'x spaceEnv =
  sv_allocSpace :: "'x \<Rightarrow> addr \<times> 'x"
  sv_freeSpace :: "addr \<Rightarrow> 'x \<Rightarrow> 'x"
  sv_alloc :: "'x \<Rightarrow> addr \<times> 'x"
  sv_free :: "addr \<Rightarrow> 'x \<Rightarrow> 'x"
  sv_deref :: "addr \<Rightarrow> 'x \<Rightarrow> 'x"

definition MM_SPACE_USER_START :: u64 where "MM_SPACE_USER_START = 0x10000"
definition NEXKE_USER_ADDR_END :: u64 where "NEXKE_USER_ADDR_END = 0x7FFFFFFFFFFF"

definition lock_space :: "'x memSpace \<Rightarrow> 'x memSpace option" where
  "lock_space st = (if ms_lock st then None else Some (st\<lparr>ms_lock := True\<rparr>))"

definition unlock_space :: "'x memSpace \<Rightarrow> 'x memSpace option" where
  "unlock_space st = (if ms_lock st then Some (st\<lparr>ms_lock := False\<rparr>) else None)"

definition upd_entry :: "entries \<Rightarrow> addr \<Rightarrow> (spaceEntry \<Rightarrow> spaceEntry) \<Rightarrow> entries option" where
  "upd_entry h p f = (case h p of None \<Rightarrow> None | Some e \<Rightarrow> Some (h(p \<mapsto> f e)))"

section \<open>Operations\<close>

definition mmEntryEnd :: "spaceEntry \<Rightarrow> u64" where
  "mmEntryEnd e = se_vaddr e + se_count e * NEXKE_CPU_PAGESZ"

text \<open>\<open>new\<close> is a cleared entry.\<close>

definition empty_entry :: "u64 \<Rightarrow> spaceEntry" where
  "empty_entry v = \<lparr>se_vaddr = v, se_count = 0, se_obj = 0, se_next = 0, se_prev = 0\<rparr>"

definition MmCreateSpace :: "'x spaceEnv \<Rightarrow> 'x \<Rightarrow> (addr \<times> 'x memSpace) option" where
  "MmCreateSpace env x =
     (case sv_allocSpace env x of (newSpace, x) \<Rightarrow>
       if newSpace = 0 then None
       else case sv_alloc env x of (fake, x) \<Rightarrow>
        if fake = 0 then None
        else case sv_alloc env x of (fakeEnd, x) \<Rightarrow>
          if fakeEnd = 0 then None
          else do {
            let h = [fake \<mapsto> empty_entry MM_SPACE_USER_START];
            let h = h(fakeEnd \<mapsto> empty_entry NEXKE_USER_ADDR_END);
            h \<leftarrow> upd_entry h fakeEnd (\<lambda>e. e\<lparr>se_prev := fake\<rparr>);
            h \<leftarrow> upd_entry h fake (\<lambda>e. e\<lparr>se_next := fakeEnd\<rparr>);
            Some (newSpace,
              \<lparr>ms_startAddr = MM_SPACE_USER_START, ms_endAddr = NEXKE_USER_ADDR_END, ms_numEntries = 0,
               ms_entryList = fake, ms_faultHint = 0, ms_lock = False, ms_isKernel = False,
               ms_entries = h, ms_ext = x\<rparr>) })"

definition mmAddEntry :: "'x memSpace \<Rightarrow> addr \<Rightarrow> addr \<Rightarrow> 'x memSpace option" where
  "mmAddEntry st prec new = do {
     let h = ms_entries st;
     p \<leftarrow> h prec;
     h \<leftarrow> upd_entry h new (\<lambda>e. e\<lparr>se_next := se_next p\<rparr>);
     h \<leftarrow> upd_entry h new (\<lambda>e. e\<lparr>se_prev := prec\<rparr>);
     n \<leftarrow> h new;
     h \<leftarrow> upd_entry h (se_next n) (\<lambda>e. e\<lparr>se_prev := new\<rparr>);
     n \<leftarrow> h new;
     h \<leftarrow> upd_entry h (se_prev n) (\<lambda>e. e\<lparr>se_next := new\<rparr>);
     Some (st\<lparr>ms_entries := h, ms_numEntries := ms_numEntries st + 1\<rparr>) }"

definition mmRemoveEntry :: "'x memSpace \<Rightarrow> addr \<Rightarrow> 'x memSpace option" where
  "mmRemoveEntry st entry = do {
     let h = ms_entries st;
     e \<leftarrow> h entry;
     h \<leftarrow> upd_entry h (se_next e) (\<lambda>n. n\<lparr>se_prev := se_prev e\<rparr>);
     e \<leftarrow> h entry;
     h \<leftarrow> upd_entry h (se_prev e) (\<lambda>p. p\<lparr>se_next := se_next e\<rparr>);
     Some (st\<lparr>ms_entries := h, ms_numEntries := ms_numEntries st - 1\<rparr>) }"

partial_function (option) find_entry_loop :: "u64 \<Rightarrow> entries \<Rightarrow> u64 \<Rightarrow> addr \<Rightarrow> addr option" where
  "find_entry_loop endAddr h a cur = do {
     e \<leftarrow> h cur;
     (if se_vaddr e = endAddr then Some 0
      else if se_vaddr e \<le> a \<and> a \<le> mmEntryEnd e then Some cur
      else do {
        n \<leftarrow> h (se_next e);
        (if mmEntryEnd e < a \<and> a < se_vaddr n then Some cur
         else if a < se_vaddr n then Some 0
         else find_entry_loop endAddr h a (se_next e)) }) }"

definition mmFindEntryUnlocked :: "'x memSpace \<Rightarrow> u64 \<Rightarrow> addr option" where
  "mmFindEntryUnlocked st a = find_entry_loop (ms_endAddr st) (ms_entries st) a (ms_entryList st)"

text \<open>The entry before the first hole of \<open>size\<close> bytes, and the hole's address.\<close>

partial_function (option) find_hole :: "u64 \<Rightarrow> entries \<Rightarrow> u64 \<Rightarrow> u64 \<Rightarrow> addr \<Rightarrow> (addr \<times> u64) option" where
  "find_hole endAddr h hint sz cur = do {
     e \<leftarrow> h cur;
     (if se_vaddr e = endAddr then Some (0, hint)
      else do {
        n \<leftarrow> h (se_next e);
        (if sz \<le> se_vaddr n - mmEntryEnd e then Some (cur, mmEntryEnd e)
         else find_hole endAddr h hint sz (se_next e)) }) }"

definition mmFindFree :: "'x memSpace \<Rightarrow> u64 \<Rightarrow> u64 \<Rightarrow> (addr \<times> u64) option" where
  "mmFindFree st hint numPages =
     (if ms_endAddr st < hint \<and> hint < ms_startAddr st then Some (0, hint)
      else do {
        cur \<leftarrow> (if hint = 0 then Some (ms_entryList st) else mmFindEntryUnlocked st hint);
        find_hole (ms_endAddr st) (ms_entries st) hint (numPages * NEXKE_CPU_PAGESZ) cur })"

definition MmAllocSpace ::
  "'x spaceEnv \<Rightarrow> 'x memSpace \<Rightarrow> addr \<Rightarrow> u64 \<Rightarrow> u64 \<Rightarrow> (addr \<times> 'x memSpace) option" where
  "MmAllocSpace env st obj hintAddr numPages = do {
     st \<leftarrow> (if ms_isKernel st then None else lock_space st);
     (prev, a) \<leftarrow> mmFindFree st hintAddr numPages;
     (prev, a) \<leftarrow> (if prev = 0 then mmFindFree st 0 numPages else Some (prev, a));
     (if prev = 0 then do { st \<leftarrow> unlock_space st; Some (0, st) }
      else case sv_alloc env (ms_ext st) of (new, x) \<Rightarrow>
        if new = 0 then None
        else do {
          let e = \<lparr>se_vaddr = a, se_count = numPages, se_obj = obj, se_next = 0, se_prev = 0\<rparr>;
          st \<leftarrow> mmAddEntry (st\<lparr>ms_entries := (ms_entries st)(new \<mapsto> e), ms_ext := x\<rparr>) prev new;
          st \<leftarrow> unlock_space st;
          Some (new, st) }) }"

definition MmFreeSpace :: "'x spaceEnv \<Rightarrow> 'x memSpace \<Rightarrow> addr \<Rightarrow> 'x memSpace option" where
  "MmFreeSpace env st entry = do {
     st \<leftarrow> lock_space st;
     st \<leftarrow> (if ms_isKernel st then None else mmRemoveEntry st entry);
     e \<leftarrow> ms_entries st entry;
     unlock_space (st\<lparr>ms_entries := (ms_entries st)(entry := None),
                      ms_ext := sv_free env entry (sv_deref env (se_obj e) (ms_ext st))\<rparr>) }"

definition MmFindSpaceEntry :: "'x memSpace \<Rightarrow> u64 \<Rightarrow> (addr \<times> 'x memSpace) option" where
  "MmFindSpaceEntry st a = do {
     st \<leftarrow> lock_space st;
     entry \<leftarrow> mmFindEntryUnlocked st a;
     st \<leftarrow> unlock_space st;
     Some (entry, st) }"

partial_function (option) fault_loop :: "u64 \<Rightarrow> entries \<Rightarrow> u64 \<Rightarrow> addr \<Rightarrow> addr option" where
  "fault_loop endAddr h a cur =
     (if cur = 0 then Some 0
      else do {
        e \<leftarrow> h cur;
        (if se_vaddr e = endAddr then Some 0
         else if se_vaddr e \<le> a \<and> a \<le> mmEntryEnd e then Some cur
         else fault_loop endAddr h a (se_next e)) })"

definition MmFindFaultEntry :: "'x memSpace \<Rightarrow> u64 \<Rightarrow> (addr \<times> 'x memSpace) option" where
  "MmFindFaultEntry st a = do {
     hit \<leftarrow> (if ms_faultHint st = 0 then Some False
            else do {
              e \<leftarrow> ms_entries st (ms_faultHint st);
              Some (se_vaddr e \<le> a \<and> a \<le> mmEntryEnd e) });
     (if hit then Some (ms_faultHint st, st)
      else do {
        cur \<leftarrow> fault_loop (ms_endAddr st) (ms_entries st) a (ms_entryList st);
        Some (cur, if cur = 0 then st else st\<lparr>ms_faultHint := cur\<rparr>) }) }"

text \<open>The loop of \<open>MmDestroySpace\<close> over the entries, which frees an entry before it reads its link.\<close>

partial_function (option) destroy_loop :: "'x spaceEnv \<Rightarrow> addr \<Rightarrow> 'x memSpace \<Rightarrow> 'x memSpace option" where
  "destroy_loop env cur st = do {
     e \<leftarrow> ms_entries st cur;
     (if se_vaddr e = ms_endAddr st then Some st
      else do {
        st \<leftarrow> MmFreeSpace env st cur;
        e \<leftarrow> ms_entries st cur;
        destroy_loop env (se_next e) st }) }"

definition MmDestroySpace :: "'x spaceEnv \<Rightarrow> addr \<Rightarrow> 'x memSpace \<Rightarrow> 'x option" where
  "MmDestroySpace env space st =
     (if ms_isKernel st then None
      else do {
        st \<leftarrow> destroy_loop env (ms_entryList st) st;
        e \<leftarrow> ms_entries st (ms_entryList st);
        let x = sv_free env (se_next e) (ms_ext st);
        let x = sv_free env (ms_entryList st) x;
        Some (sv_freeSpace env space x) })"

text \<open>The kernel's space is one entry over all of it.\<close>

definition MmCreateKernelSpace ::
  "'x spaceEnv \<Rightarrow> u64 \<Rightarrow> u64 \<Rightarrow> addr \<Rightarrow> u64 \<Rightarrow> 'x memSpace \<Rightarrow> 'x memSpace option" where
  "MmCreateKernelSpace env startAddr endAddr kernelObj count st =
     (case sv_alloc env (ms_ext st) of (entry, x) \<Rightarrow>
        if entry = 0 then None
        else Some (st\<lparr>ms_startAddr := startAddr, ms_endAddr := endAddr, ms_numEntries := 0,
          ms_entryList := entry, ms_faultHint := 0,
          ms_entries := (ms_entries st)(entry \<mapsto> \<lparr>se_vaddr = startAddr, se_count = count,
            se_obj = kernelObj, se_next = 0, se_prev = 0\<rparr>), ms_ext := x\<rparr>))"

section \<open>The list of a space\<close>

text \<open>An entry as the list sees it: its pointer, address, count of pages and object.\<close>

type_synonym item = "addr \<times> u64 \<times> u64 \<times> addr"

definition va :: "item \<Rightarrow> nat" where "va i = unat (fst (snd i))"
definition pages :: "item \<Rightarrow> nat" where "pages i = unat (fst (snd (snd i)))"
definition top_of :: "item \<Rightarrow> nat" where "top_of i = va i + pages i * 4096"

definition first_ptr :: "item list \<Rightarrow> addr \<Rightarrow> addr" where
  "first_ptr xs nxt = (case xs of [] \<Rightarrow> nxt | i # _ \<Rightarrow> fst i)"

definition last_ptr :: "addr \<Rightarrow> item list \<Rightarrow> addr" where
  "last_ptr prv xs = (if xs = [] then prv else fst (last xs))"

fun dll :: "entries \<Rightarrow> addr \<Rightarrow> item list \<Rightarrow> addr \<Rightarrow> bool" where
  "dll h prv [] nxt = True"
| "dll h prv ((p, v, c, ob) # xs) nxt =
     (h p = Some \<lparr>se_vaddr = v, se_count = c, se_obj = ob, se_next = first_ptr xs nxt, se_prev = prv\<rparr> \<and>
      dll h p xs nxt)"

text \<open>A space in order: the first entry is empty and at its start, the last at its end; the others
  are not empty, and each ends before the next one starts.\<close>

definition space_ok :: "'x memSpace \<Rightarrow> item list \<Rightarrow> bool" where
  "space_ok st xs \<longleftrightarrow>
     2 \<le> length xs \<and> ms_entryList st = fst (hd xs) \<and> distinct (map fst xs) \<and> 0 \<notin> fst ` set xs \<and>
     ms_entries st 0 = None \<and> dll (ms_entries st) 0 xs 0 \<and>
     fst (snd (hd xs)) = ms_startAddr st \<and> fst (snd (last xs)) = ms_endAddr st \<and>
     ms_startAddr st < ms_endAddr st \<and> pages (hd xs) = 0 \<and>
     (\<forall>i \<in> set (tl (butlast xs)). 0 < pages i) \<and> sorted_wrt (\<lambda>i j. top_of i \<le> va j) xs"

lemma first_ptr_simps [simp]: "first_ptr [] nxt = nxt" "first_ptr (i # xs) nxt = fst i"
  by (simp_all add: first_ptr_def)

lemma last_ptr_simps [simp]: "last_ptr prv [] = prv" "last_ptr prv (xs @ [i]) = fst i"
  by (simp_all add: last_ptr_def)

lemma last_ptr_Cons [simp]: "last_ptr prv (i # xs) = last_ptr (fst i) xs"
  by (simp add: last_ptr_def)

lemma first_ptr_append [simp]: "first_ptr (xs @ ys) nxt = first_ptr xs (first_ptr ys nxt)"
  by (cases xs) simp_all

lemma dll_append: "dll h prv (xs @ ys) nxt \<longleftrightarrow> dll h prv xs (first_ptr ys nxt) \<and> dll h (last_ptr prv xs) ys nxt"
  by (induction h prv xs nxt rule: dll.induct) auto

lemma dll_cong: "(\<And>i. i \<in> set xs \<Longrightarrow> h' (fst i) = h (fst i)) \<Longrightarrow> dll h' prv xs nxt = dll h prv xs nxt"
proof (induction xs arbitrary: prv)
  case Nil
  then show ?case by simp
next
  case (Cons i xs)
  have "h' (fst i) = h (fst i)" using Cons.prems by simp
  moreover have "dll h' p xs nxt = dll h p xs nxt" for p using Cons by simp
  ultimately show ?case by (cases i) simp
qed

lemma dll_entry: "dll h prv (i # xs) nxt \<Longrightarrow> \<exists>e. h (fst i) = Some e \<and> se_vaddr e = fst (snd i) \<and>
    se_count e = fst (snd (snd i)) \<and> se_next e = first_ptr xs nxt \<and> se_prev e = prv \<and> dll h (fst i) xs nxt"
  by (cases i) auto

lemma va_le_top: "va i \<le> top_of i" by (simp add: top_of_def)

text \<open>Every entry but the last starts below the end, and its end does not wrap.\<close>

lemma space_below:
  assumes "space_ok st (xs @ i # j # ys)"
  shows "top_of i \<le> va j" "va j \<le> unat (ms_endAddr st)" "va i < unat (ms_endAddr st)"
    "top_of i \<le> unat (ms_endAddr st)"
proof -
  let ?l = "last (xs @ i # j # ys)"
  have s: "sorted_wrt (\<lambda>i j. top_of i \<le> va j) (xs @ i # j # ys)" and l: "va ?l = unat (ms_endAddr st)"
    using assms by (auto simp: space_ok_def va_def)
  show ij: "top_of i \<le> va j" using s by (auto simp: sorted_wrt_append)
  have "?l = j \<or> ?l \<in> set ys" by auto
  then show j: "va j \<le> unat (ms_endAddr st)"
    using s l va_le_top [of j] by (auto simp: sorted_wrt_append)
  show ti: "top_of i \<le> unat (ms_endAddr st)" using ij j by simp
  show "va i < unat (ms_endAddr st)"
  proof (cases xs)
    case Nil
    then show ?thesis using assms by (simp add: space_ok_def va_def word_less_nat_alt)
  next
    case (Cons x xs')
    then have "i \<in> set (tl (butlast (xs @ i # j # ys)))" by (simp add: butlast_append)
    then have "0 < pages i" using assms unfolding space_ok_def by blast
    then have "va i < top_of i" by (simp add: top_of_def)
    with ti show ?thesis by simp
  qed
qed

lemma entry_end:
  assumes "se_vaddr e = fst (snd i)" and "se_count e = fst (snd (snd i))" and "top_of i < 2 ^ 64"
  shows "unat (mmEntryEnd e) = top_of i"
proof -
  have "unat (se_count e * NEXKE_CPU_PAGESZ) = pages i * 4096"
    using assms by (simp add: NEXKE_CPU_PAGESZ_def unat_word_ariths pages_def top_of_def)
  then show ?thesis
    using assms by (simp add: mmEntryEnd_def unat_word_ariths(1) top_of_def va_def)
qed

lemma end_bound: "unat (ms_endAddr st) < 2 ^ 64" by (rule unat_u64_less)

lemma va_end: "va i < unat (ms_endAddr st) \<Longrightarrow> fst (snd i) \<noteq> ms_endAddr st"
  by (auto simp: va_def)

text \<open>A new space is in order.\<close>

lemma MmCreateSpace_ok:
  assumes "sv_allocSpace env x = (p, x1)" "p \<noteq> 0" and "sv_alloc env x1 = (f, x2)" "f \<noteq> 0"
    and "sv_alloc env x2 = (g, x3)" "g \<noteq> 0" "g \<noteq> f"
  shows "\<exists>st. MmCreateSpace env x = Some (p, st) \<and>
    space_ok st [(f, MM_SPACE_USER_START, 0, 0), (g, NEXKE_USER_ADDR_END, 0, 0)] \<and>
    \<not> ms_lock st \<and> \<not> ms_isKernel st \<and> ms_faultHint st = 0 \<and> ms_ext st = x3 \<and>
    ms_startAddr st = MM_SPACE_USER_START \<and> ms_endAddr st = NEXKE_USER_ADDR_END"
  using assms
  by (simp add: MmCreateSpace_def upd_entry_def space_ok_def empty_entry_def MM_SPACE_USER_START_def
      NEXKE_USER_ADDR_END_def pages_def top_of_def va_def Let_def)

text \<open>A space to evaluate: two entries of one and two pages, the second right behind the first.\<close>

definition demo_env :: "addr spaceEnv" where
  "demo_env = \<lparr>sv_allocSpace = (\<lambda>x. (x, x + 0x40)), sv_freeSpace = (\<lambda>p x. x),
     sv_alloc = (\<lambda>x. (x, x + 0x40)), sv_free = (\<lambda>p x. x), sv_deref = (\<lambda>p x. x)\<rparr>"

definition demo_items :: "item list" where
  "demo_items = [(0x40, 0x10000, 0, 0), (0x80, 0x10000, 1, 7), (0xC0, 0x11000, 2, 8), (0x100, 0x7FFFFFFFFFFF, 0, 0)]"

definition demo_space :: "addr memSpace" where
  "demo_space = \<lparr>ms_startAddr = 0x10000, ms_endAddr = 0x7FFFFFFFFFFF, ms_numEntries = 2,
     ms_entryList = 0x40, ms_faultHint = 0, ms_lock = False, ms_isKernel = False,
     ms_entries =
       [0x40 \<mapsto> \<lparr>se_vaddr = 0x10000, se_count = 0, se_obj = 0, se_next = 0x80, se_prev = 0\<rparr>,
        0x80 \<mapsto> \<lparr>se_vaddr = 0x10000, se_count = 1, se_obj = 7, se_next = 0xC0, se_prev = 0x40\<rparr>,
        0xC0 \<mapsto> \<lparr>se_vaddr = 0x11000, se_count = 2, se_obj = 8, se_next = 0x100, se_prev = 0x80\<rparr>,
        0x100 \<mapsto> \<lparr>se_vaddr = 0x7FFFFFFFFFFF, se_count = 0, se_obj = 0, se_next = 0, se_prev = 0xC0\<rparr>],
     ms_ext = 0x140\<rparr>"

lemma demo_space_ok: "space_ok demo_space demo_items"
  by (simp add: space_ok_def demo_space_def demo_items_def pages_def top_of_def va_def)

section \<open>Finding a hole\<close>

text \<open>Every hole between neighbours is smaller than \<open>sz\<close>.\<close>

fun gaps_below :: "nat \<Rightarrow> item list \<Rightarrow> bool" where
  "gaps_below sz (i # j # xs) = (va j - top_of i < sz \<and> gaps_below sz (j # xs))"
| "gaps_below sz xs = True"

text \<open>The search from any entry on: the first hole that is large enough, or none.\<close>

lemma find_hole_ok:
  assumes "space_ok st (pre @ xs)" and "xs \<noteq> []"
  shows "(gaps_below (unat sz) xs \<and> find_hole (ms_endAddr st) (ms_entries st) hint sz (fst (hd xs)) = Some (0, hint)) \<or>
    (\<exists>us i j vs. xs = us @ i # j # vs \<and> gaps_below (unat sz) (us @ [i]) \<and> unat sz \<le> va j - top_of i \<and>
       find_hole (ms_endAddr st) (ms_entries st) hint sz (fst (hd xs)) = Some (fst i, of_nat (top_of i)))"
  using assms
proof (induction xs arbitrary: pre)
  case Nil
  then show ?case by simp
next
  case (Cons i xs)
  have d: "dll (ms_entries st) (last_ptr 0 pre) (i # xs) 0"
    using Cons.prems(1) by (simp add: space_ok_def dll_append)
  then obtain e where e: "ms_entries st (fst i) = Some e" "se_vaddr e = fst (snd i)"
    "se_count e = fst (snd (snd i))" "se_next e = first_ptr xs 0" and d': "dll (ms_entries st) (fst i) xs 0"
    using dll_entry [OF d] by blast
  show ?case
  proof (cases xs)
    case Nil
    then have "se_vaddr e = ms_endAddr st" using Cons.prems(1) e by (simp add: space_ok_def)
    with Nil e show ?thesis by (subst find_hole.simps) simp
  next
    case (Cons j ys)
    note b = space_below [OF Cons.prems(1) [unfolded Cons]]
    have ne: "se_vaddr e \<noteq> ms_endAddr st" using va_end [OF b(3)] e by simp
    obtain n where n: "ms_entries st (fst j) = Some n" "se_vaddr n = fst (snd j)"
      using dll_entry [OF d' [unfolded Cons]] by blast
    have top: "unat (mmEntryEnd e) = top_of i"
      using e b(4) end_bound [of st] by (intro entry_end) auto
    then have me: "of_nat (top_of i) = mmEntryEnd e" by (metis of_nat_unat ucast_id)
    have gap: "unat (se_vaddr n - mmEntryEnd e) = va j - top_of i"
      using top n b(1) by (simp add: unat_sub_if' va_def)
    have step: "find_hole (ms_endAddr st) (ms_entries st) hint sz (fst i) =
        (if unat sz \<le> va j - top_of i then Some (fst i, of_nat (top_of i))
         else find_hole (ms_endAddr st) (ms_entries st) hint sz (fst j))"
      using e ne n Cons gap me by (subst find_hole.simps) (simp add: word_le_nat_alt)
    show ?thesis
    proof (cases "unat sz \<le> va j - top_of i")
      case True
      then show ?thesis using step Cons
        by (intro disjI2 exI [of _ "[]"] exI [of _ i] exI [of _ j] exI [of _ ys]) simp
    next
      case False
      have "space_ok st ((pre @ [i]) @ xs)" using Cons.prems(1) by simp
      moreover have "xs \<noteq> []" using Cons by simp
      ultimately consider "gaps_below (unat sz) xs \<and>
          find_hole (ms_endAddr st) (ms_entries st) hint sz (fst (hd xs)) = Some (0, hint)"
        | us a c vs where "xs = us @ a # c # vs" "gaps_below (unat sz) (us @ [a])" "unat sz \<le> va c - top_of a"
          "find_hole (ms_endAddr st) (ms_entries st) hint sz (fst (hd xs)) = Some (fst a, of_nat (top_of a))"
        using Cons.IH [of "pre @ [i]"] by blast
      then show ?thesis
      proof cases
        case 1
        then show ?thesis using step Cons False by (intro disjI1) simp
      next
        case u: 2
        then have "gaps_below (unat sz) ((i # us) @ [a])"
          using Cons False by (cases us) auto
        moreover have "fst (hd xs) = fst j" using Cons by simp
        then have "find_hole (ms_endAddr st) (ms_entries st) hint sz (fst (hd (i # xs))) =
            Some (fst a, of_nat (top_of a))"
          using step False u(4) by simp
        moreover have "i # xs = (i # us) @ a # c # vs" using u(1) by simp
        ultimately show ?thesis using u(3) by blast
      qed
    qed
  qed
qed

text \<open>The entry a hint leads to is one that has a successor.\<close>

lemma find_entry_ok:
  assumes "space_ok st (pre @ i # xs)" and "va i \<le> unat a" and "a < ms_endAddr st" and "xs \<noteq> []"
  shows "\<exists>us k l vs. i # xs = us @ k # l # vs \<and>
    find_entry_loop (ms_endAddr st) (ms_entries st) a (fst i) = Some (fst k)"
  using assms
proof (induction xs arbitrary: pre i)
  case Nil
  then show ?case by simp
next
  case (Cons j xs)
  note b = space_below [OF Cons.prems(1)]
  have d: "dll (ms_entries st) (last_ptr 0 pre) (i # j # xs) 0"
    using Cons.prems(1) by (simp add: space_ok_def dll_append)
  obtain e where e: "ms_entries st (fst i) = Some e" "se_vaddr e = fst (snd i)"
    "se_count e = fst (snd (snd i))" "se_next e = fst j" and d': "dll (ms_entries st) (fst i) (j # xs) 0"
    using dll_entry [OF d] by auto
  obtain n where n: "ms_entries st (fst j) = Some n" "se_vaddr n = fst (snd j)"
    using dll_entry [OF d'] by blast
  have ne: "se_vaddr e \<noteq> ms_endAddr st" using va_end [OF b(3)] e by simp
  have le: "se_vaddr e \<le> a" using Cons.prems(2) e by (simp add: word_le_nat_alt va_def)
  have step: "find_entry_loop (ms_endAddr st) (ms_entries st) a (fst i) =
      (if a \<le> mmEntryEnd e \<or> a < se_vaddr n then Some (fst i)
       else find_entry_loop (ms_endAddr st) (ms_entries st) a (fst j))"
    using e ne n le by (subst find_entry_loop.simps) auto
  show ?case
  proof (cases "a \<le> mmEntryEnd e \<or> a < se_vaddr n")
    case True
    then show ?thesis using step by (metis append_Nil)
  next
    case False
    then have va: "va j \<le> unat a" using n by (simp add: word_le_nat_alt va_def not_less)
    moreover have "space_ok st ((pre @ [i]) @ j # xs)" using Cons.prems(1) by simp
    moreover have "xs \<noteq> []"
    proof
      assume "xs = []"
      then have "va j = unat (ms_endAddr st)" using Cons.prems(1) by (simp add: space_ok_def va_def)
      with va Cons.prems(3) show False by (simp add: word_less_nat_alt)
    qed
    ultimately obtain us k l vs where "j # xs = us @ k # l # vs"
      "find_entry_loop (ms_endAddr st) (ms_entries st) a (fst j) = Some (fst k)"
      using Cons.IH [of "pre @ [i]" j] Cons.prems(3) by blast
    then show ?thesis using step False by (metis append_Cons)
  qed
qed

section \<open>Inserting and removing\<close>

lemma mmAddEntry_ok:
  assumes d: "dll (ms_entries st) 0 (xs @ i # j # ys) 0" and dist: "distinct (map fst (xs @ i # j # ys))"
    and n: "n \<notin> fst ` set (xs @ i # j # ys)" "ms_entries st n = Some e" "0 \<noteq> n" "0 \<notin> fst ` set (xs @ i # j # ys)"
  shows "\<exists>h. mmAddEntry st (fst i) n = Some (st\<lparr>ms_entries := h, ms_numEntries := ms_numEntries st + 1\<rparr>) \<and>
    dll h 0 (xs @ i # (n, se_vaddr e, se_count e, se_obj e) # j # ys) 0 \<and> h 0 = ms_entries st 0"
proof -
  let ?h = "ms_entries st"
  obtain p v c ob where i: "i = (p, v, c, ob)" by (cases i)
  obtain q w k oq where j: "j = (q, w, k, oq)" by (cases j)
  have hp: "?h p = Some \<lparr>se_vaddr = v, se_count = c, se_obj = ob, se_next = q, se_prev = last_ptr 0 xs\<rparr>"
    and hq: "?h q = Some \<lparr>se_vaddr = w, se_count = k, se_obj = oq, se_next = first_ptr ys 0, se_prev = p\<rparr>"
    and dx: "dll ?h 0 xs p" and dy: "dll ?h q ys 0"
    using d by (simp_all add: dll_append i j)
  have ne: "p \<noteq> q" "n \<noteq> p" "n \<noteq> q" "p \<notin> fst ` set xs" "q \<notin> fst ` set xs" "p \<notin> fst ` set ys"
    "q \<notin> fst ` set ys" "n \<notin> fst ` set xs" "n \<notin> fst ` set ys" "p \<noteq> 0" "q \<noteq> 0"
    using dist n by (auto simp: i j)
  let ?h' = "?h(n \<mapsto> e\<lparr>se_next := q, se_prev := p\<rparr>,
      q \<mapsto> \<lparr>se_vaddr = w, se_count = k, se_obj = oq, se_next = first_ptr ys 0, se_prev = n\<rparr>,
      p \<mapsto> \<lparr>se_vaddr = v, se_count = c, se_obj = ob, se_next = n, se_prev = last_ptr 0 xs\<rparr>)"
  have "mmAddEntry st p n = Some (st\<lparr>ms_entries := ?h', ms_numEntries := ms_numEntries st + 1\<rparr>)"
    using ne hp hq n(2) by (simp add: mmAddEntry_def upd_entry_def fun_upd_twist)
  moreover have "dll ?h' 0 xs p"
    using ne dx by (subst dll_cong [where h = ?h]) auto
  moreover have "dll ?h' q ys 0"
    using ne dy by (subst dll_cong [where h = ?h]) auto
  ultimately show ?thesis
    using ne n(3) by (intro exI [of _ ?h']) (auto simp: dll_append i j)
qed

lemma mmRemoveEntry_ok:
  assumes d: "dll (ms_entries st) 0 (xs @ i # k # j # ys) 0" and dist: "distinct (map fst (xs @ i # k # j # ys))"
    and z: "0 \<notin> fst ` set (xs @ i # k # j # ys)"
  shows "\<exists>h. mmRemoveEntry st (fst k) = Some (st\<lparr>ms_entries := h, ms_numEntries := ms_numEntries st - 1\<rparr>) \<and>
    dll (h(fst k := None)) 0 (xs @ i # j # ys) 0 \<and> h 0 = ms_entries st 0 \<and> h (fst k) = ms_entries st (fst k)"
proof -
  let ?h = "ms_entries st"
  obtain p v c ob where i: "i = (p, v, c, ob)" by (cases i)
  obtain q w kk oq where j: "j = (q, w, kk, oq)" by (cases j)
  obtain r u m orr where k: "k = (r, u, m, orr)" by (cases k)
  have hp: "?h p = Some \<lparr>se_vaddr = v, se_count = c, se_obj = ob, se_next = r, se_prev = last_ptr 0 xs\<rparr>"
    and hr: "?h r = Some \<lparr>se_vaddr = u, se_count = m, se_obj = orr, se_next = q, se_prev = p\<rparr>"
    and hq: "?h q = Some \<lparr>se_vaddr = w, se_count = kk, se_obj = oq, se_next = first_ptr ys 0, se_prev = r\<rparr>"
    and dx: "dll ?h 0 xs p" and dy: "dll ?h q ys 0"
    using d by (simp_all add: dll_append i j k)
  have ne: "p \<noteq> q" "r \<noteq> p" "r \<noteq> q" "p \<notin> fst ` set xs" "q \<notin> fst ` set xs" "p \<notin> fst ` set ys"
    "q \<notin> fst ` set ys" "r \<notin> fst ` set xs" "r \<notin> fst ` set ys" "p \<noteq> 0" "q \<noteq> 0" "r \<noteq> 0"
    using dist z by (auto simp: i j k)
  let ?h' = "?h(q \<mapsto> \<lparr>se_vaddr = w, se_count = kk, se_obj = oq, se_next = first_ptr ys 0, se_prev = p\<rparr>,
      p \<mapsto> \<lparr>se_vaddr = v, se_count = c, se_obj = ob, se_next = q, se_prev = last_ptr 0 xs\<rparr>)"
  have "mmRemoveEntry st r = Some (st\<lparr>ms_entries := ?h', ms_numEntries := ms_numEntries st - 1\<rparr>)"
    using ne hp hq hr by (simp add: mmRemoveEntry_def upd_entry_def)
  moreover have "dll (?h'(r := None)) 0 xs p"
    using ne dx by (subst dll_cong [where h = ?h]) auto
  moreover have "dll (?h'(r := None)) q ys 0"
    using ne dy by (subst dll_cong [where h = ?h]) auto
  ultimately show ?thesis
    using ne by (intro exI [of _ ?h']) (auto simp: dll_append i j k)
qed

section \<open>Allocating and freeing\<close>

text \<open>An entry between two neighbours with room for it keeps the space in order.\<close>

lemma space_ok_insert:
  assumes ok: "space_ok st (xs @ i # j # ys)" and k: "top_of i \<le> va k" "top_of k \<le> va j" "0 < pages k"
    and p: "fst k \<noteq> 0" "fst k \<notin> fst ` set (xs @ i # j # ys)"
    and st': "ms_entryList st' = ms_entryList st" "ms_startAddr st' = ms_startAddr st"
      "ms_endAddr st' = ms_endAddr st" "ms_entries st' 0 = None" "dll (ms_entries st') 0 (xs @ i # k # j # ys) 0"
  shows "space_ok st' (xs @ i # k # j # ys)"
proof -
  have s: "sorted_wrt (\<lambda>i j. top_of i \<le> va j) (xs @ i # j # ys)" using ok by (simp add: space_ok_def)
  have "\<forall>a \<in> set xs. top_of a \<le> va k"
  proof
    fix a assume "a \<in> set xs"
    then have "top_of a \<le> va i" using s by (auto simp: sorted_wrt_append)
    then show "top_of a \<le> va k" using k(1) va_le_top [of i] by simp
  qed
  moreover have "\<forall>a \<in> set ys. top_of k \<le> va a"
  proof
    fix a assume "a \<in> set ys"
    then have "top_of j \<le> va a" using s by (auto simp: sorted_wrt_append)
    then show "top_of k \<le> va a" using k(2) va_le_top [of j] by simp
  qed
  ultimately have "sorted_wrt (\<lambda>i j. top_of i \<le> va j) (xs @ i # k # j # ys)"
    using s k by (auto simp: sorted_wrt_append)
  moreover have "\<forall>a \<in> set (tl (butlast (xs @ i # k # j # ys))). 0 < pages a"
    using ok k(3) by (cases xs) (auto simp: space_ok_def butlast_append split: if_splits)
  moreover have "hd (xs @ i # k # j # ys) = hd (xs @ i # j # ys)" by (cases xs) auto
  moreover have "distinct (map fst (xs @ i # k # j # ys))" using ok p by (auto simp: space_ok_def)
  moreover have "0 \<notin> fst ` set (xs @ i # k # j # ys)" using ok p(1) by (auto simp: space_ok_def)
  ultimately show ?thesis using ok st' unfolding space_ok_def by (auto simp del: hd_append)
qed

text \<open>The search for free space, with or without a hint.\<close>

lemma mmFindFree_ok:
  assumes ok: "space_ok st xs" and "hint = 0 \<or> (ms_startAddr st \<le> hint \<and> hint < ms_endAddr st)"
  shows "(\<exists>us i j vs. xs = us @ i # j # vs \<and> unat (numPages * NEXKE_CPU_PAGESZ) \<le> va j - top_of i \<and>
      mmFindFree st hint numPages = Some (fst i, of_nat (top_of i))) \<or>
    mmFindFree st hint numPages = Some (0, hint) \<and>
      (hint = 0 \<longrightarrow> gaps_below (unat (numPages * NEXKE_CPU_PAGESZ)) xs)"
proof -
  let ?sz = "numPages * NEXKE_CPU_PAGESZ"
  have lt: "ms_startAddr st < ms_endAddr st" and ne: "xs \<noteq> []" and hd: "ms_entryList st = fst (hd xs)"
    using ok by (auto simp: space_ok_def)
  have "\<exists>us vs. xs = us @ vs \<and> vs \<noteq> [] \<and> (hint = 0 \<longrightarrow> us = []) \<and>
      mmFindFree st hint numPages = find_hole (ms_endAddr st) (ms_entries st) hint ?sz (fst (hd vs))"
  proof (cases "hint = 0")
    case True
    then have "mmFindFree st hint numPages = find_hole (ms_endAddr st) (ms_entries st) hint ?sz (fst (hd xs))"
      using hd lt by (auto simp: mmFindFree_def)
    then show ?thesis using ne by (metis append_Nil)
  next
    case False
    obtain i ys where xs: "xs = i # ys" "ys \<noteq> []"
    proof (cases xs)
      case (Cons i ys)
      moreover have "ys \<noteq> []" using ok Cons by (auto simp: space_ok_def)
      ultimately show thesis using that by blast
    qed (use ne in simp)
    have "va i \<le> unat hint" using ok False assms(2) xs by (simp add: space_ok_def va_def word_le_nat_alt)
    then obtain us k l vs where u: "xs = us @ k # l # vs"
      "find_entry_loop (ms_endAddr st) (ms_entries st) hint (fst i) = Some (fst k)"
      using find_entry_ok [of st "[]" i ys hint] ok assms(2) False xs by auto
    have "\<not> (ms_endAddr st < hint \<and> hint < ms_startAddr st)" using lt by auto
    moreover have "ms_entryList st = fst i" using hd xs(1) by simp
    ultimately have "mmFindFree st hint numPages = find_hole (ms_endAddr st) (ms_entries st) hint ?sz (fst (hd (k # l # vs)))"
      using u(2) False by (auto simp: mmFindFree_def mmFindEntryUnlocked_def)
    then show ?thesis using u(1) False by blast
  qed
  then obtain us vs where v: "xs = us @ vs" "vs \<noteq> []" "hint = 0 \<longrightarrow> us = []"
    "mmFindFree st hint numPages = find_hole (ms_endAddr st) (ms_entries st) hint ?sz (fst (hd vs))" by blast
  consider "gaps_below (unat ?sz) vs" "mmFindFree st hint numPages = Some (0, hint)"
    | as i j bs where "vs = as @ i # j # bs" "unat ?sz \<le> va j - top_of i"
      "mmFindFree st hint numPages = Some (fst i, of_nat (top_of i))"
    using find_hole_ok [OF ok [unfolded v(1)] v(2), of ?sz hint] unfolding v(4) [symmetric] by blast
  then show ?thesis
  proof cases
    case 1
    then show ?thesis using v(1,3) by auto
  next
    case 2
    then have "xs = (us @ as) @ i # j # bs" using v(1) by simp
    with 2 show ?thesis by blast
  qed
qed

text \<open>C21: Allocating in a space in order keeps it in order. The new entry fills a hole between two
  neighbours from the end of the first one, so it is disjoint from every other entry and inside the
  space; only the entries' links change, and the lock is free again. If it fails nothing has
  changed, and no hole of the space was large enough, whatever the hint.\<close>

theorem alloc_space:
  assumes "space_ok st xs" and "\<not> ms_lock st" "\<not> ms_isKernel st"
    and "hint = 0 \<or> (ms_startAddr st \<le> hint \<and> hint < ms_endAddr st)"
    and "0 < numPages" "unat numPages * 4096 < 2 ^ 64"
    and "sv_alloc env (ms_ext st) = (n, x)" "n \<noteq> 0" "n \<notin> fst ` set xs"
  shows "(gaps_below (unat numPages * 4096) xs \<and> MmAllocSpace env st ob hint numPages = Some (0, st)) \<or>
    (\<exists>us i j vs v st'. xs = us @ i # j # vs \<and> MmAllocSpace env st ob hint numPages = Some (n, st') \<and>
       space_ok st' (us @ i # (n, v, numPages, ob) # j # vs) \<and> unat v = top_of i \<and>
       (\<forall>k \<in> set xs. top_of k \<le> unat v \<or> unat v + unat numPages * 4096 \<le> va k) \<and>
       \<not> ms_lock st' \<and> ms_ext st' = x)"
proof -
  let ?st = "st\<lparr>ms_lock := True\<rparr>"
  have ok: "space_ok ?st xs" using assms(1) by (simp add: space_ok_def)
  have sz: "unat (numPages * NEXKE_CPU_PAGESZ) = unat numPages * 4096"
    using assms(6) by (simp add: NEXKE_CPU_PAGESZ_def unat_word_ariths)
  have same: "st\<lparr>ms_lock := False\<rparr> = st" using assms(2) by (cases st) simp
  have ms_same: "ms_startAddr ?st = ms_startAddr st" "ms_endAddr ?st = ms_endAddr st" by simp_all
  consider (none) "mmFindFree ?st hint numPages = Some (0, hint)" "mmFindFree ?st 0 numPages = Some (0, 0)"
      "gaps_below (unat numPages * 4096) xs"
    | (hole) us i j vs where "xs = us @ i # j # vs" "unat numPages * 4096 \<le> va j - top_of i"
      "mmFindFree ?st hint numPages = Some (fst i, of_nat (top_of i)) \<or>
       mmFindFree ?st hint numPages = Some (0, hint) \<and> mmFindFree ?st 0 numPages = Some (fst i, of_nat (top_of i))"
    using mmFindFree_ok [OF ok, of hint numPages] mmFindFree_ok [OF ok, of 0 numPages] assms(4)
    unfolding sz ms_same by metis
  then show ?thesis
  proof cases
    case none
    then have "MmAllocSpace env st ob hint numPages = Some (0, st)"
      using assms(2,3) same by (simp add: MmAllocSpace_def lock_space_def unlock_space_def)
    with none show ?thesis by blast
  next
    case hole
    let ?v = "of_nat (top_of i) :: u64"
    let ?k = "(n, ?v, numPages, ob)"
    let ?e = "\<lparr>se_vaddr = ?v, se_count = numPages, se_obj = ob, se_next = 0, se_prev = 0\<rparr>"
    let ?st1 = "?st\<lparr>ms_entries := (ms_entries ?st)(n \<mapsto> ?e), ms_ext := x\<rparr>"
    note b = space_below [OF ok [unfolded hole(1)]]
    have v: "unat ?v = top_of i"
      using b(4) end_bound [of ?st] by (simp add: unat_of_nat take_bit_nat_eq_self)
    have vk: "va ?k = top_of i" using v by (simp only: va_def fst_conv snd_conv)
    then have top: "top_of ?k = top_of i + unat numPages * 4096"
      by (simp only: top_of_def [of ?k] pages_def fst_conv snd_conv)
    have np: "0 < unat numPages" using assms(5) by (simp add: word_less_nat_alt)
    have fit: "top_of ?k \<le> va j" using top hole(2) b(1) np by simp
    have dist: "distinct (map fst xs)" "0 \<notin> fst ` set xs" "ms_entries st 0 = None"
      using assms(1) by (auto simp: space_ok_def)
    have d: "dll (ms_entries st) 0 (us @ i # j # vs) 0" using assms(1) hole(1) by (simp add: space_ok_def)
    have "dll (ms_entries ?st1) 0 (us @ i # j # vs) 0"
      using d assms(9) hole(1) by (subst dll_cong [where h = "ms_entries st"]) auto
    then obtain h where h: "mmAddEntry ?st1 (fst i) n =
        Some (?st1\<lparr>ms_entries := h, ms_numEntries := ms_numEntries ?st1 + 1\<rparr>)"
      "dll h 0 (us @ i # ?k # j # vs) 0" "h 0 = ms_entries ?st1 0"
      using mmAddEntry_ok [of ?st1 us i j vs n ?e] dist assms(8,9) hole(1) by auto
    let ?st' = "?st1\<lparr>ms_entries := h, ms_numEntries := ms_numEntries ?st1 + 1, ms_lock := False\<rparr>"
    have i0: "fst i \<noteq> 0" using dist(2) hole(1) by auto
    have res: "MmAllocSpace env st ob hint numPages = Some (n, ?st')"
      using hole(3) i0 h(1) assms(2,3,7,8)
      by (auto simp: MmAllocSpace_def lock_space_def unlock_space_def Let_def)
    have "space_ok ?st' (us @ i # ?k # j # vs)"
      using space_ok_insert [OF ok [unfolded hole(1)], of ?k ?st'] vk fit np assms(8,9) hole(1) h dist(3)
      by (simp add: pages_def)
    moreover have "\<forall>k \<in> set xs. top_of k \<le> unat ?v \<or> unat ?v + unat numPages * 4096 \<le> va k"
    proof
      fix k assume "k \<in> set xs"
      then consider "k \<in> set us" | "k = i" | "k = j" | "k \<in> set vs" using hole(1) by auto
      then show "top_of k \<le> unat ?v \<or> unat ?v + unat numPages * 4096 \<le> va k"
      proof cases
        case 1
        then have "top_of k \<le> va i" using assms(1) hole(1) by (auto simp: space_ok_def sorted_wrt_append)
        then show ?thesis using v va_le_top [of i] by simp
      next
        case 4
        then have "top_of j \<le> va k" using assms(1) hole(1) by (auto simp: space_ok_def sorted_wrt_append)
        then show ?thesis using v fit top va_le_top [of j] by simp
      qed (use v fit top in auto)
    qed
    moreover have "\<not> ms_lock ?st'" "ms_ext ?st' = x" by simp_all
    ultimately show ?thesis using res hole(1) v by blast
  qed
qed

lemma space_ok_delete:
  assumes ok: "space_ok st (xs @ i # k # j # ys)"
    and st': "ms_entryList st' = ms_entryList st" "ms_startAddr st' = ms_startAddr st"
      "ms_endAddr st' = ms_endAddr st" "ms_entries st' 0 = None" "dll (ms_entries st') 0 (xs @ i # j # ys) 0"
  shows "space_ok st' (xs @ i # j # ys)"
proof -
  have "sorted_wrt (\<lambda>i j. top_of i \<le> va j) (xs @ i # j # ys)"
    using ok by (auto simp: space_ok_def sorted_wrt_append)
  moreover have "\<forall>a \<in> set (tl (butlast (xs @ i # j # ys))). 0 < pages a"
    using ok by (cases xs) (auto simp: space_ok_def butlast_append split: if_splits)
  moreover have "hd (xs @ i # j # ys) = hd (xs @ i # k # j # ys)" by (cases xs) auto
  moreover have "distinct (map fst (xs @ i # j # ys))" using ok by (auto simp: space_ok_def)
  moreover have "0 \<notin> fst ` set (xs @ i # j # ys)" using ok by (auto simp: space_ok_def)
  ultimately show ?thesis using ok st' unfolding space_ok_def by (auto simp del: hd_append)
qed

text \<open>C22: Freeing an entry of a space in order takes exactly it out, drops the reference on its object,
  and leaves the rest in order and unlocked. The fault hint is not looked at: when it names the
  freed entry, the next fault reads freed memory.\<close>

theorem free_space:
  assumes "space_ok st (xs @ i # k # j # ys)" and "\<not> ms_lock st" "\<not> ms_isKernel st"
  shows "\<exists>st'. MmFreeSpace env st (fst k) = Some st' \<and> space_ok st' (xs @ i # j # ys) \<and> \<not> ms_lock st' \<and>
    ms_ext st' = sv_free env (fst k) (sv_deref env (snd (snd (snd k))) (ms_ext st)) \<and>
    (ms_faultHint st = fst k \<longrightarrow> (\<forall>a. MmFindFaultEntry st' a = None))"
proof -
  let ?st = "st\<lparr>ms_lock := True\<rparr>"
  have d: "dll (ms_entries ?st) 0 (xs @ i # k # j # ys) 0" "distinct (map fst (xs @ i # k # j # ys))"
    "0 \<notin> fst ` set (xs @ i # k # j # ys)" "ms_entries st 0 = None"
    using assms(1) by (simp_all add: space_ok_def)
  obtain h where h: "mmRemoveEntry ?st (fst k) = Some (?st\<lparr>ms_entries := h, ms_numEntries := ms_numEntries ?st - 1\<rparr>)"
    "dll (h(fst k := None)) 0 (xs @ i # j # ys) 0" "h 0 = ms_entries ?st 0" "h (fst k) = ms_entries ?st (fst k)"
    using mmRemoveEntry_ok [OF d(1-3)] by blast
  have "dll (ms_entries st) (fst i) (k # j # ys) 0" using d(1) by (cases i) (simp add: dll_append)
  then obtain e where e: "ms_entries st (fst k) = Some e" "se_obj e = snd (snd (snd k))"
    by (cases k) auto
  let ?st' = "?st\<lparr>ms_entries := h(fst k := None), ms_numEntries := ms_numEntries ?st - 1, ms_lock := False,
    ms_ext := sv_free env (fst k) (sv_deref env (se_obj e) (ms_ext st))\<rparr>"
  have "MmFreeSpace env st (fst k) = Some ?st'"
    using assms(2,3) h e by (simp add: MmFreeSpace_def lock_space_def unlock_space_def)
  moreover have "space_ok ?st' (xs @ i # j # ys)"
    using h d(4) by (intro space_ok_delete [OF assms(1)]) auto
  moreover have "MmFindFaultEntry ?st' a = None" if "ms_faultHint st = fst k" for a
  proof -
    have "fst k \<noteq> 0" using d(3) by auto
    then show ?thesis using that by (simp add: MmFindFaultEntry_def)
  qed
  ultimately show ?thesis using e(2) by fastforce
qed

section \<open>Faults\<close>

text \<open>The search takes the first entry that starts at or below the address and ends at or above it;
  the end counts as part of the entry.\<close>

lemma fault_loop_find:
  assumes "space_ok st (pre @ xs)" and "xs \<noteq> []"
  shows "fault_loop (ms_endAddr st) (ms_entries st) a (fst (hd xs)) =
    Some (case find (\<lambda>i. va i \<le> unat a \<and> unat a \<le> top_of i) (butlast xs) of None \<Rightarrow> 0 | Some i \<Rightarrow> fst i)"
  using assms
proof (induction xs arbitrary: pre)
  case Nil
  then show ?case by simp
next
  case (Cons i xs)
  have d: "dll (ms_entries st) (last_ptr 0 pre) (i # xs) 0"
    using Cons.prems(1) by (simp add: space_ok_def dll_append)
  obtain e where e: "ms_entries st (fst i) = Some e" "se_vaddr e = fst (snd i)"
    "se_count e = fst (snd (snd i))" "se_next e = first_ptr xs 0"
    using dll_entry [OF d] by blast
  have p: "fst i \<noteq> 0" using Cons.prems(1) by (auto simp: space_ok_def)
  show ?case
  proof (cases xs)
    case Nil
    then have "se_vaddr e = ms_endAddr st" using Cons.prems(1) e by (simp add: space_ok_def)
    with Nil e p show ?thesis by (subst fault_loop.simps) simp
  next
    case (Cons j ys)
    note b = space_below [OF Cons.prems(1) [unfolded Cons]]
    have ne: "se_vaddr e \<noteq> ms_endAddr st" using va_end [OF b(3)] e by simp
    have top: "unat (mmEntryEnd e) = top_of i"
      using e b(4) end_bound [of st] by (intro entry_end) auto
    have "fault_loop (ms_endAddr st) (ms_entries st) a (fst i) =
        (if va i \<le> unat a \<and> unat a \<le> top_of i then Some (fst i)
         else fault_loop (ms_endAddr st) (ms_entries st) a (fst j))"
      using e ne p Cons top by (subst fault_loop.simps) (simp add: word_le_nat_alt va_def)
    moreover have "space_ok st ((pre @ [i]) @ xs)" using Cons.prems(1) by simp
    ultimately show ?thesis using Cons.IH [of "pre @ [i]"] Cons by simp
  qed
qed

text \<open>The test of the hint, for an address below the end of the space.\<close>

lemma hint_test:
  assumes "space_ok st (us @ h # vs)" and "unat a < unat (ms_endAddr st)"
  shows "\<exists>e. ms_entries st (fst h) = Some e \<and>
    (se_vaddr e \<le> a \<and> a \<le> mmEntryEnd e \<longleftrightarrow> va h \<le> unat a \<and> unat a \<le> top_of h)"
proof -
  have d: "dll (ms_entries st) (last_ptr 0 us) (h # vs) 0"
    using assms(1) by (simp add: space_ok_def dll_append)
  obtain e where e: "ms_entries st (fst h) = Some e" "se_vaddr e = fst (snd h)"
    "se_count e = fst (snd (snd h))"
    using dll_entry [OF d] by blast
  show ?thesis
  proof (cases vs)
    case Nil
    then have "se_vaddr e = ms_endAddr st" using assms(1) e(2) by (simp add: space_ok_def)
    then show ?thesis using e assms(2) by (simp add: word_le_nat_alt va_def)
  next
    case (Cons j ys)
    note b = space_below [OF assms(1) [unfolded Cons]]
    have "unat (mmEntryEnd e) = top_of h"
      using e b(4) end_bound [of st] by (intro entry_end) auto
    then show ?thesis using e by (simp add: word_le_nat_alt va_def)
  qed
qed

text \<open>C23: A page fault at an address of an entry is attributed to that entry, whatever entry the
  hint is on, with one exception: the entry's first address, when the entry before it ends there
  and the hint is not on the entry itself, is attributed to the entry before (which, at the start
  of the space, is the empty first entry). The hint is then on the entry that was found.\<close>

theorem fault_entry:
  assumes "space_ok st (xs @ i # k # j # ys)"
    and "ms_faultHint st \<in> insert 0 (fst ` set (xs @ i # k # j # ys))"
    and "va k \<le> unat a" "unat a < top_of k"
  shows "MmFindFaultEntry st a =
    (let p = fst (if unat a = va k \<and> top_of i = va k \<and> ms_faultHint st \<noteq> fst k then i else k)
     in Some (p, st\<lparr>ms_faultHint := p\<rparr>))"
proof -
  let ?P = "\<lambda>i. va i \<le> unat a \<and> unat a \<le> top_of i" and ?all = "xs @ i # k # j # ys"
  let ?hit = "unat a = va k \<and> top_of i = va k"
  have s: "sorted_wrt (\<lambda>i j. top_of i \<le> va j) ?all" and z: "0 \<notin> fst ` set ?all"
    and hd: "ms_entryList st = fst (hd ?all)" and dist: "distinct (map fst ?all)"
    and mid: "\<forall>m \<in> set (tl (butlast ?all)). 0 < pages m"
    using assms(1) by (auto simp: space_ok_def)
  have xs: "\<not> ?P m" if m: "m \<in> set xs" for m
  proof
    assume P: "?P m"
    have "top_of m \<le> va i" "top_of i \<le> va k" using s m by (auto simp: sorted_wrt_append)
    with P assms(3) va_le_top [of i] have e: "va i = top_of i" "top_of m = top_of i" by linarith+
    then have "pages i = 0" by (simp add: top_of_def)
    moreover have "i \<in> set (tl (butlast ?all))"
      using m by (cases xs) (auto simp: butlast_append)
    ultimately show False using mid by auto
  qed
  have ys: "\<not> ?P m" if "m \<in> set (j # ys)" for m
    using s that assms(4) by (fastforce simp: sorted_wrt_append)
  have "top_of i \<le> va k" using s by (auto simp: sorted_wrt_append)
  then have Pi: "?P i \<longleftrightarrow> ?hit" and Pk: "?P k" using assms(3,4) va_le_top [of i] by auto
  have "find ?P xs = None" using xs by (auto simp: find_None_iff)
  moreover have "find ?P (us @ vs) = (case find ?P us of None \<Rightarrow> find ?P vs | Some x \<Rightarrow> Some x)" for us vs
    by (induction us) auto
  ultimately have "find ?P (butlast ?all) = Some (if ?hit then i else k)"
    using Pi Pk by (simp add: butlast_append)
  then have loop: "fault_loop (ms_endAddr st) (ms_entries st) a (ms_entryList st) =
      Some (fst (if ?hit then i else k))"
    using fault_loop_find [of st "[]" ?all a] assms(1) hd by simp
  have below: "unat a < unat (ms_endAddr st)"
    using assms(1,4) s ys
    by (cases ys rule: rev_cases) (auto simp: space_ok_def sorted_wrt_append va_def)
  show ?thesis
  proof (cases "ms_faultHint st = 0")
    case True
    then show ?thesis using z loop by (auto simp: MmFindFaultEntry_def Let_def)
  next
    case False
    with assms(2) have "ms_faultHint st \<in> fst ` set ?all" by (simp only: insert_iff simp_thms)
    then obtain h where h: "h \<in> set ?all" "ms_faultHint st = fst h" by (elim imageE)
    then obtain us vs where "?all = us @ h # vs" by (meson split_list)
    with hint_test [of st us h vs a] assms(1) below obtain e where
      e: "ms_entries st (fst h) = Some e" "se_vaddr e \<le> a \<and> a \<le> mmEntryEnd e \<longleftrightarrow> ?P h" by auto
    consider "h = k" | "h = i" | "h \<noteq> k" "\<not> ?P h"
      using h(1) xs [of h] ys [of h] by (cases "h \<in> set xs"; cases "h \<in> set (j # ys)") auto
    then show ?thesis
    proof cases
      case 1
      then show ?thesis using e h(2) Pk False by (simp add: MmFindFaultEntry_def Let_def)
    next
      case 2
      have "fst i \<noteq> fst k" using dist by simp
      with 2 show ?thesis using e h(2) Pi z loop False
        by (cases ?hit) (auto simp: MmFindFaultEntry_def Let_def)
    next
      case 3
      have "inj_on fst (set ?all)" using dist unfolding distinct_map by blast
      moreover have "k \<in> set ?all" by simp
      ultimately have "fst h \<noteq> fst k" using 3(1) h(1) by (meson inj_onD)
      with 3 show ?thesis using e h(2) z loop False by (auto simp: MmFindFaultEntry_def Let_def)
    qed
  qed
qed

text \<open>Destroying a space always faults: the loop starts with the empty first entry, and removing that
  entry writes through its null link.\<close>

theorem destroy_faults:
  assumes "space_ok st xs"
  shows "MmDestroySpace env space st = None"
proof -
  obtain i ys where xs: "xs = i # ys" using assms by (cases xs) (auto simp: space_ok_def)
  have d: "dll (ms_entries st) 0 (i # ys) 0" using assms xs by (simp add: space_ok_def)
  obtain e where e: "ms_entries st (fst i) = Some e" "se_vaddr e = fst (snd i)" "se_prev e = 0"
    using dll_entry [OF d] by blast
  have z: "ms_entries st 0 = None" and l: "ms_entryList st = fst i" and nz: "fst i \<noteq> 0"
    and ne: "se_vaddr e \<noteq> ms_endAddr st"
    using assms xs e by (auto simp: space_ok_def)
  have "mmRemoveEntry (st\<lparr>ms_lock := True\<rparr>) (fst i) = None"
    using e z nz
    by (cases "ms_entries st (se_next e)"; cases "se_next e = 0"; cases "se_next e = fst i")
       (simp_all add: mmRemoveEntry_def upd_entry_def Let_def)
  then have "destroy_loop env (fst i) st = None"
    using e ne by (subst destroy_loop.simps) (simp add: MmFreeSpace_def lock_space_def)
  then show ?thesis using l by (simp add: MmDestroySpace_def)
qed

text \<open>An entry of three pages goes behind the two that are there; there is no gap before them.\<close>

theorem alloc_space_witness:
  "\<exists>us i j vs v st'. demo_items = us @ i # j # vs \<and>
     MmAllocSpace demo_env demo_space 9 0x10800 3 = Some (0x140, st') \<and>
     space_ok st' (us @ i # (0x140, v, 3, 9) # j # vs) \<and> unat v = top_of i"
proof -
  have "\<not> gaps_below (3 * 4096) demo_items"
    by (simp add: demo_items_def va_def top_of_def pages_def)
  then show ?thesis
    using alloc_space [OF demo_space_ok, where hint = "0x10800" and numPages = 3 and env = demo_env and
        n = "0x140" and x = "0x180" and ob = 9]
    by (simp add: demo_env_def demo_space_def demo_items_def) blast
qed

theorem free_space_witness:
  "\<exists>st'. MmFreeSpace demo_env (demo_space\<lparr>ms_faultHint := 0x80\<rparr>) 0x80 = Some st' \<and> \<not> ms_lock st' \<and>
     (\<forall>a. MmFindFaultEntry st' a = None)"
proof -
  have ok: "space_ok (demo_space\<lparr>ms_faultHint := 0x80\<rparr>)
      ([] @ (0x40, 0x10000, 0, 0) # (0x80, 0x10000, 1, 7) # (0xC0, 0x11000, 2, 8) # [(0x100, 0x7FFFFFFFFFFF, 0, 0)])"
    using demo_space_ok by (simp add: space_ok_def demo_items_def)
  show ?thesis using free_space [OF ok, where env = demo_env] by (simp add: demo_space_def) blast
qed

text \<open>Without a hint the first page of the second entry is attributed to the first entry; with the
  hint on the second, which the fault on its next page sets, to the second.\<close>

theorem fault_entry_witness:
  "map_option fst (MmFindFaultEntry demo_space 0x11000) = Some 0x80 \<and>
   MmFindFaultEntry demo_space 0x11001 = Some (0xC0, demo_space\<lparr>ms_faultHint := 0xC0\<rparr>) \<and>
   map_option fst (MmFindFaultEntry (demo_space\<lparr>ms_faultHint := 0xC0\<rparr>) 0x11000) = Some 0xC0 \<and>
   map_option fst (MmFindFaultEntry (demo_space\<lparr>ms_faultHint := 0x40\<rparr>) 0x11001) = Some 0xC0"
proof -
  let ?items = "[(0x40, 0x10000, 0, 0)] @ (0x80, 0x10000, 1, 7) # (0xC0, 0x11000, 2, 8) #
      (0x100, 0x7FFFFFFFFFFF, 0, 0) # []"
  have ok: "space_ok (demo_space\<lparr>ms_faultHint := f\<rparr>) ?items" for f
    using demo_space_ok by (simp add: demo_items_def space_ok_def)
  have ok0: "space_ok demo_space ?items" and f: "ms_faultHint demo_space = 0"
    using demo_space_ok by (simp_all add: demo_items_def demo_space_def)
  show ?thesis
    using fault_entry [OF ok0, where a = "0x11000"] fault_entry [OF ok0, where a = "0x11001"]
      fault_entry [OF ok [of "0xC0"], where a = "0x11000"] fault_entry [OF ok [of "0x40"], where a = "0x11001"]
    by (simp add: va_def top_of_def pages_def f)
qed

theorem destroy_faults_witness: "MmDestroySpace demo_env 0 demo_space = None"
  by (rule destroy_faults [OF demo_space_ok])

end
