(* ===== verification/PageAlloc.thy ===== *)
theory PageAlloc
  imports NkList
begin

text \<open>
  The page allocator of the kernel (\<open>source/nexke/mm/page.c\<close>): zones of page frames in an array sorted
  by frame number, the list of free pages of each zone, the hash table of the pages that are in
  memory objects, and the set-up of all this from the loader's memory map.

  Zones and pages live in heaps of records by address, their links in the heap of \<open>NkList\<close>. The slab
  caches, the page tables and the early mapping are arguments over a state of their own. \<open>NULL\<close> is
  address 0. \<open>None\<close> stands for a fault, a failed assertion, a panic, signed overflow, and for
  taking a lock that is held. An index of type \<open>int\<close> that would pass \<open>2 ^ 31 - 1\<close> is signed
  overflow, or is out of what the conversion from \<open>size_t\<close> defines.
\<close>

section \<open>State\<close>

text \<open>\<open>MmZone_t\<close>; its list of free pages is the list at \<open>zone_freeList\<close>.\<close>

record mmZone =
  zn_pfn :: u64
  zn_zoneIdx :: int
  zn_numPages :: u64
  zn_freeCount :: int
  zn_flags :: u32
  zn_pfnMap :: addr
  zn_lock :: bool

text \<open>\<open>MmPage_t\<close>; \<open>link\<close> and \<open>objLink\<close> are at \<open>page_link\<close> and \<open>page_objLink\<close>.\<close>

record mmPage =
  pg_pfn :: u64
  pg_zone :: addr
  pg_flags :: u32
  pg_fixCount :: int
  pg_obj :: addr
  pg_offset :: u64
  pg_maps :: addr
  pg_lock :: bool

definition zone_freeList :: "addr \<Rightarrow> addr" where "zone_freeList zone = zone + 40"
definition page_link :: "addr \<Rightarrow> addr" where "page_link page = page + 48"
definition page_objLink :: "addr \<Rightarrow> addr" where "page_objLink page = page + 64"
definition obj_pageList :: "addr \<Rightarrow> addr" where "obj_pageList obj = obj + 40"
definition sizeof_MmPage :: u64 where "sizeof_MmPage = 88"
definition sizeof_MmPageBucket :: u64 where "sizeof_MmPageBucket = 24"

definition LINK_CONTAINER_page :: "addr \<Rightarrow> addr" where "LINK_CONTAINER_page link = link - 48"

definition MM_ZONE_MMIO :: u32 where "MM_ZONE_MMIO = 2"
definition MM_ZONE_RESVD :: u32 where "MM_ZONE_RESVD = 4"
definition MM_ZONE_RECLAIM :: u32 where "MM_ZONE_RECLAIM = 8"
definition MM_ZONE_ALLOCATABLE :: u32 where "MM_ZONE_ALLOCATABLE = 16"
definition MM_ZONE_NO_GENERIC :: u32 where "MM_ZONE_NO_GENERIC = 32"

definition MM_PAGE_FREE :: u32 where "MM_PAGE_FREE = 1"
definition MM_PAGE_IN_OBJECT :: u32 where "MM_PAGE_IN_OBJECT = 2"
definition MM_PAGE_UNUSABLE :: u32 where "MM_PAGE_UNUSABLE = 4"
definition MM_PAGE_ALLOCED :: u32 where "MM_PAGE_ALLOCED = 8"
definition MM_PAGE_GUARD :: u32 where "MM_PAGE_GUARD = 16"
definition MM_PAGE_FIXED :: u32 where "MM_PAGE_FIXED = 32"

definition MAX_ZONES :: nat where "MAX_ZONES = 1024"

definition has_flag :: "u32 \<Rightarrow> u32 \<Rightarrow> bool" where "has_flag flags f \<longleftrightarrow> flags AND f \<noteq> 0"

text \<open>The variables of page.c, with the heaps. \<open>ps_pageHash\<close> is the address of the hash table, whose
  buckets' lists are at \<open>bucket_list\<close> and whose locks are \<open>ps_bucketLock\<close>.\<close>

record 'x pageState =
  ps_zones :: "addr list"
  ps_numZones :: nat
  ps_zone :: "addr \<rightharpoonup> mmZone"
  ps_page :: "addr \<rightharpoonup> mmPage"
  ps_links :: links
  ps_pfnMapMark :: addr
  ps_freeHint :: addr
  ps_pageHash :: addr
  ps_numBuckets :: u64
  ps_bucketLock :: "u64 \<Rightarrow> bool"
  ps_numPages :: u64
  ps_freePages :: u64
  ps_fixedPages :: u64
  ps_ext :: 'x

text \<open>\<open>pe_allocZone\<close> gives a zone with the memory as it finds it, in which the zone's list head is a
  link; \<open>pe_mapEarly\<close> maps a page, so that the state may have further pages and links.\<close>

record 'x pageEnv =
  pe_allocZone :: "'x pageState \<Rightarrow> addr \<times> 'x pageState"
  pe_freeZone :: "addr \<Rightarrow> 'x \<Rightarrow> 'x"
  pe_allocFake :: "'x pageState \<Rightarrow> addr \<times> 'x pageState"
  pe_freeFake :: "addr \<Rightarrow> 'x \<Rightarrow> 'x"
  pe_fix :: "addr \<Rightarrow> 'x \<Rightarrow> 'x"
  pe_unfix :: "addr \<Rightarrow> 'x \<Rightarrow> 'x"
  pe_mapEarly :: "u64 \<Rightarrow> u64 \<Rightarrow> u32 \<Rightarrow> 'x pageState \<Rightarrow> 'x pageState option"

definition upd_zone :: "addr \<Rightarrow> (mmZone \<Rightarrow> mmZone) \<Rightarrow> 'x pageState \<Rightarrow> 'x pageState option" where
  "upd_zone zone f st = (case ps_zone st zone of None \<Rightarrow> None
     | Some z \<Rightarrow> Some (st\<lparr>ps_zone := (ps_zone st)(zone \<mapsto> f z)\<rparr>))"

definition upd_page :: "addr \<Rightarrow> (mmPage \<Rightarrow> mmPage) \<Rightarrow> 'x pageState \<Rightarrow> 'x pageState option" where
  "upd_page page f st = (case ps_page st page of None \<Rightarrow> None
     | Some p \<Rightarrow> Some (st\<lparr>ps_page := (ps_page st)(page \<mapsto> f p)\<rparr>))"

definition lock_zone :: "addr \<Rightarrow> 'x pageState \<Rightarrow> 'x pageState option" where
  "lock_zone zone st = do {
     z \<leftarrow> ps_zone st zone;
     (if zn_lock z then None else upd_zone zone (\<lambda>z. z\<lparr>zn_lock := True\<rparr>) st) }"

definition unlock_zone :: "addr \<Rightarrow> 'x pageState \<Rightarrow> 'x pageState option" where
  "unlock_zone zone st = do {
     z \<leftarrow> ps_zone st zone;
     (if zn_lock z then upd_zone zone (\<lambda>z. z\<lparr>zn_lock := False\<rparr>) st else None) }"

definition lock_page :: "addr \<Rightarrow> 'x pageState \<Rightarrow> 'x pageState option" where
  "lock_page page st = do {
     p \<leftarrow> ps_page st page;
     (if pg_lock p then None else upd_page page (\<lambda>p. p\<lparr>pg_lock := True\<rparr>) st) }"

definition unlock_page :: "addr \<Rightarrow> 'x pageState \<Rightarrow> 'x pageState option" where
  "unlock_page page st = do {
     p \<leftarrow> ps_page st page;
     (if pg_lock p then upd_page page (\<lambda>p. p\<lparr>pg_lock := False\<rparr>) st else None) }"

text \<open>\<open>n\<close> as the value of an increment or decrement of an \<open>int\<close>, and as a \<open>size_t\<close>.\<close>

definition int_step :: "int \<Rightarrow> int option" where
  "int_step n = (if int32_range n then Some n else None)"

definition size_of_int :: "int \<Rightarrow> u64" where "size_of_int n = word_of_int n"

text \<open>An operation on the links of the state.\<close>

definition with_links :: "(links \<Rightarrow> links option) \<Rightarrow> 'x pageState \<Rightarrow> 'x pageState option" where
  "with_links f st = (case f (ps_links st) of None \<Rightarrow> None | Some h \<Rightarrow> Some (st\<lparr>ps_links := h\<rparr>))"

section \<open>Zones\<close>

definition mmInitPage :: "addr \<Rightarrow> u64 \<Rightarrow> addr \<Rightarrow> 'x pageState \<Rightarrow> 'x pageState option" where
  "mmInitPage page pfn zone st = do {
     st \<leftarrow> upd_page page (\<lambda>p. p\<lparr>pg_zone := zone, pg_pfn := pfn, pg_lock := False, pg_flags := MM_PAGE_FREE\<rparr>) st;
     st \<leftarrow> with_links (\<lambda>h. set_prev h (page_link page) 0) st;
     st \<leftarrow> with_links (\<lambda>h. set_next h (page_link page) 0) st;
     st \<leftarrow> with_links (\<lambda>h. NkListAddFront h (zone_freeList zone) (page_link page)) st;
     upd_page page (\<lambda>p. p\<lparr>pg_maps := 0, pg_fixCount := 0\<rparr>) st }"

definition zone_end :: "mmZone \<Rightarrow> u64" where "zone_end z = zn_pfn z + zn_numPages z"

definition mmZonesOverlap :: "mmZone \<Rightarrow> mmZone \<Rightarrow> bool" where
  "mmZonesOverlap z1 z2 =
     (if (zone_end z1 > zn_pfn z2 \<and> zn_pfn z1 < zn_pfn z2) \<or> (zone_end z2 > zn_pfn z1 \<and> zn_pfn z2 < zn_pfn z1)
      then True
      else if (zn_pfn z1 > zn_pfn z2 \<and> zone_end z1 < zone_end z2) \<or> (zn_pfn z2 > zn_pfn z1 \<and> zone_end z2 < zone_end z1)
      then True
      else False)"

text \<open>Moves the zones from index \<open>i\<close> up to \<open>j - 1\<close> one place up, from the last one on.\<close>

fun shift_up :: "nat \<Rightarrow> nat \<Rightarrow> 'x pageState \<Rightarrow> 'x pageState option" where
  "shift_up 0 i st = Some st"
| "shift_up (Suc j) i st =
     (if j < i then Some st
      else if length (ps_zones st) \<le> Suc j then None
      else do {
        let p = ps_zones st ! j;
        let st = st\<lparr>ps_zones := (ps_zones st)[Suc j := p]\<rparr>;
        z \<leftarrow> ps_zone st p;
        n \<leftarrow> int_step (zn_zoneIdx z + 1);
        st \<leftarrow> upd_zone p (\<lambda>z. z\<lparr>zn_zoneIdx := n\<rparr>) st;
        shift_up j i st })"

text \<open>The loop over the zones \<open>ps\<close> from index \<open>i\<close> on: the index for the new zone, or that it overlaps.\<close>

fun insert_scan :: "mmZone \<Rightarrow> addr list \<Rightarrow> nat \<Rightarrow> 'x pageState \<Rightarrow> (nat \<times> 'x pageState) option option" where
  "insert_scan zone [] i st = Some (Some (i, st))"
| "insert_scan zone (p # ps) i st = do {
     z \<leftarrow> ps_zone st p;
     (if mmZonesOverlap z zone then Some None
      else if zn_pfn zone < zn_pfn z
      then do { st \<leftarrow> shift_up (ps_numZones st) i st; Some (Some (i, st)) }
      else insert_scan zone ps (i + 1) st) }"

definition mmZoneInsert :: "addr \<Rightarrow> 'x pageState \<Rightarrow> (bool \<times> 'x pageState) option" where
  "mmZoneInsert zone st =
     (if MAX_ZONES \<le> ps_numZones st then Some (False, st)
      else do {
        z \<leftarrow> ps_zone st zone;
        r \<leftarrow> insert_scan z (take (ps_numZones st) (ps_zones st)) 0 st;
        (case r of None \<Rightarrow> Some (False, st)
         | Some (zoneIdx, st) \<Rightarrow>
             if length (ps_zones st) \<le> zoneIdx then None
             else do {
               let st = st\<lparr>ps_zones := (ps_zones st)[zoneIdx := zone]\<rparr>;
               st \<leftarrow> upd_zone zone (\<lambda>z. z\<lparr>zn_zoneIdx := int zoneIdx\<rparr>) st;
               Some (True, st\<lparr>ps_numZones := ps_numZones st + 1\<rparr>) }) })"

text \<open>Moves the zones \<open>ps\<close>, whose first one is at index \<open>Suc i\<close>, one place down.\<close>

fun shift_down :: "addr list \<Rightarrow> nat \<Rightarrow> 'x pageState \<Rightarrow> 'x pageState option" where
  "shift_down [] i st = Some st"
| "shift_down (p # ps) i st = do {
     z \<leftarrow> ps_zone st p;
     n \<leftarrow> int_step (zn_zoneIdx z - 1);
     st \<leftarrow> upd_zone p (\<lambda>z. z\<lparr>zn_zoneIdx := n\<rparr>) st;
     shift_down ps (Suc i) (st\<lparr>ps_zones := (ps_zones st)[i := p]\<rparr>) }"

definition mmZoneRemove :: "'x pageEnv \<Rightarrow> addr \<Rightarrow> 'x pageState \<Rightarrow> 'x pageState option" where
  "mmZoneRemove env zone st = do {
     z \<leftarrow> ps_zone st zone;
     let idx = nat (zn_zoneIdx z);
     st \<leftarrow> shift_down (drop (idx + 1) (take (ps_numZones st) (ps_zones st))) idx st;
     let st = st\<lparr>ps_numZones := ps_numZones st - 1\<rparr>;
     Some (st\<lparr>ps_zone := (ps_zone st)(zone := None), ps_ext := pe_freeZone env zone (ps_ext st)\<rparr>) }"

definition mmZoneMerge :: "'x pageEnv \<Rightarrow> addr \<Rightarrow> addr \<Rightarrow> 'x pageState \<Rightarrow> (bool \<times> 'x pageState) option" where
  "mmZoneMerge env z1 z2 st = do {
     a \<leftarrow> ps_zone st z1;
     b \<leftarrow> ps_zone st z2;
     (if zone_end a = zn_pfn b \<and> zn_flags a = zn_flags b
      then if has_flag (zn_flags a) MM_ZONE_ALLOCATABLE \<and>
              \<not> (size_of_int (zn_freeCount a) = zn_numPages a \<and> size_of_int (zn_freeCount b) = zn_numPages b)
           then None
           else do {
             st \<leftarrow> upd_zone z1 (\<lambda>z. z\<lparr>zn_numPages := zn_numPages a + zn_numPages b\<rparr>) st;
             n \<leftarrow> int_step (zn_freeCount a + zn_freeCount b);
             st \<leftarrow> upd_zone z1 (\<lambda>z. z\<lparr>zn_freeCount := n\<rparr>) st;
             st \<leftarrow> mmZoneRemove env z2 st;
             Some (True, st) }
      else Some (False, st)) }"

definition mmZoneSplit :: "'x pageEnv \<Rightarrow> addr \<Rightarrow> u64 \<Rightarrow> u32 \<Rightarrow> 'x pageState \<Rightarrow> 'x pageState option" where
  "mmZoneSplit env zone splitPoint newFlags st = do {
     z \<leftarrow> ps_zone st zone;
     (if size_of_int (zn_freeCount z) \<noteq> zn_numPages z then None
      else if \<not> splitPoint - zn_pfn z \<le> zn_numPages z then None
      else case pe_allocZone env st of (newZone, st) \<Rightarrow>
        if newZone = 0 then None
        else do {
          z \<leftarrow> ps_zone st zone;
          let n = zn_pfn z + zn_numPages z - splitPoint;
          st \<leftarrow> upd_zone newZone (\<lambda>y. y\<lparr>zn_flags := newFlags, zn_pfn := zn_pfn z + splitPoint, zn_numPages := n\<rparr>) st;
          st \<leftarrow> upd_zone zone (\<lambda>z. z\<lparr>zn_numPages := zn_numPages z - n\<rparr>) st;
          (_, st) \<leftarrow> mmZoneInsert zone st;
          Some st }) }"

text \<open>The loop of \<open>mmZoneCreate\<close> over the pages \<open>i\<close> to \<open>i + n - 1\<close> of a zone's map.\<close>

fun init_pages :: "addr \<Rightarrow> u64 \<Rightarrow> addr \<Rightarrow> nat \<Rightarrow> nat \<Rightarrow> 'x pageState \<Rightarrow> 'x pageState option" where
  "init_pages pmap startPfn zone i 0 st = Some st"
| "init_pages pmap startPfn zone i (Suc n) st =
     (if 2 ^ 31 \<le> Suc i then None
      else do {
        st \<leftarrow> mmInitPage (pmap + of_nat i * sizeof_MmPage) (startPfn + of_nat i) zone st;
        init_pages pmap startPfn zone (Suc i) n st })"

definition mmZoneCreate :: "'x pageEnv \<Rightarrow> u64 \<Rightarrow> u64 \<Rightarrow> u32 \<Rightarrow> 'x pageState \<Rightarrow> 'x pageState option" where
  "mmZoneCreate env startPfn numPfns flags st =
     (case pe_allocZone env st of (zone, st) \<Rightarrow>
       if zone = 0 then None
       else do {
         st \<leftarrow> upd_zone zone (\<lambda>z. z\<lparr>zn_flags := flags, zn_numPages := numPfns, zn_pfn := startPfn\<rparr>) st;
         st \<leftarrow> with_links (\<lambda>h. NkListInit h (zone_freeList zone)) st;
         st \<leftarrow> (if has_flag flags MM_ZONE_ALLOCATABLE
               then do {
                 let pmap = ps_pfnMapMark st;
                 st \<leftarrow> upd_zone zone (\<lambda>z. z\<lparr>zn_pfnMap := pmap\<rparr>) st;
                 let st = st\<lparr>ps_pfnMapMark := pmap + numPfns * sizeof_MmPage\<rparr>;
                 st \<leftarrow> init_pages pmap startPfn zone 0 (unat numPfns) st;
                 st \<leftarrow> upd_zone zone (\<lambda>z. z\<lparr>zn_freeCount := to_int32 (uint numPfns)\<rparr>) st;
                 Some (st\<lparr>ps_numPages := ps_numPages st + numPfns, ps_freePages := ps_freePages st + numPfns\<rparr>) }
               else upd_zone zone (\<lambda>z. z\<lparr>zn_pfnMap := 0, zn_freeCount := 0\<rparr>) st);
         (_, st) \<leftarrow> mmZoneInsert zone st;
         Some st })"

definition mmZoneWillWork :: "mmZone \<Rightarrow> u64 \<Rightarrow> u64 \<Rightarrow> u32 \<Rightarrow> bool" where
  "mmZoneWillWork z maxAddr needed bannedFlags =
     (if has_flag (zn_flags z) bannedFlags \<or> \<not> has_flag (zn_flags z) MM_ZONE_ALLOCATABLE then False
      else if zone_end z > maxAddr then False
      else if size_of_int (zn_freeCount z) < needed then False
      else True)"

text \<open>A zone is locked, tried, and unlocked again if it will not do.\<close>

definition try_zone :: "u64 \<Rightarrow> u64 \<Rightarrow> u32 \<Rightarrow> addr \<Rightarrow> 'x pageState \<Rightarrow> (bool \<times> 'x pageState) option" where
  "try_zone maxAddr count bannedFlags zone st = do {
     st \<leftarrow> lock_zone zone st;
     z \<leftarrow> ps_zone st zone;
     (if mmZoneWillWork z maxAddr count bannedFlags then Some (True, st)
      else do { st \<leftarrow> unlock_zone zone st; Some (False, st) }) }"

fun try_zones :: "u64 \<Rightarrow> u64 \<Rightarrow> u32 \<Rightarrow> addr list \<Rightarrow> 'x pageState \<Rightarrow> (addr \<times> 'x pageState) option" where
  "try_zones maxAddr count bannedFlags [] st = Some (0, st)"
| "try_zones maxAddr count bannedFlags (p # ps) st = do {
     (ok, st) \<leftarrow> try_zone maxAddr count bannedFlags p st;
     (if ok then Some (p, st) else try_zones maxAddr count bannedFlags ps st) }"

definition mmZoneFindBest :: "u64 \<Rightarrow> u64 \<Rightarrow> u32 \<Rightarrow> 'x pageState \<Rightarrow> (addr \<times> 'x pageState) option" where
  "mmZoneFindBest maxAddr count bannedFlags st = do {
     let maxAddr = (if maxAddr = 0 then - 1 else maxAddr);
     (ok, st) \<leftarrow> try_zone maxAddr count bannedFlags (ps_freeHint st) st;
     (if ok then Some (ps_freeHint st, st)
      else try_zones maxAddr count bannedFlags (take (ps_numZones st) (ps_zones st)) st) }"

fun find_pfn :: "(addr \<rightharpoonup> mmZone) \<Rightarrow> u64 \<Rightarrow> addr list \<Rightarrow> addr option" where
  "find_pfn zs pfn [] = Some 0"
| "find_pfn zs pfn (p # ps) = do {
     z \<leftarrow> zs p;
     (if zn_pfn z \<le> pfn \<and> zone_end z > pfn then Some p else find_pfn zs pfn ps) }"

definition mmZoneFindByPfn :: "u64 \<Rightarrow> 'x pageState \<Rightarrow> addr option" where
  "mmZoneFindByPfn pfn st = find_pfn (ps_zone st) pfn (take (ps_numZones st) (ps_zones st))"

section \<open>Pages\<close>

definition MmFreePage :: "'x pageEnv \<Rightarrow> addr \<Rightarrow> 'x pageState \<Rightarrow> 'x pageState option" where
  "MmFreePage env page st = do {
     p \<leftarrow> ps_page st page;
     (if pg_fixCount p \<noteq> 0 then None
      else if has_flag (pg_flags p) MM_PAGE_UNUSABLE \<and> pg_zone p = 0
      then Some (st\<lparr>ps_page := (ps_page st)(page := None), ps_ext := pe_freeFake env page (ps_ext st)\<rparr>)
      else do {
        let zone = pg_zone p;
        st \<leftarrow> lock_zone zone st;
        st \<leftarrow> with_links (\<lambda>h. NkListAddFront h (zone_freeList zone) (page_link page)) st;
        z \<leftarrow> ps_zone st zone;
        n \<leftarrow> int_step (zn_freeCount z + 1);
        st \<leftarrow> upd_zone zone (\<lambda>z. z\<lparr>zn_freeCount := n\<rparr>) st;
        let st = st\<lparr>ps_freePages := ps_freePages st + 1\<rparr>;
        st \<leftarrow> upd_page page (\<lambda>p. p\<lparr>pg_flags := MM_PAGE_FREE\<rparr>) st;
        unlock_zone zone st }) }"

definition MmAllocPage :: "'x pageState \<Rightarrow> (addr \<times> 'x pageState) option" where
  "MmAllocPage st = do {
     (zone, st) \<leftarrow> mmZoneFindBest 0 1 MM_ZONE_NO_GENERIC st;
     (if zone = 0 then Some (0, st)
      else do {
        link \<leftarrow> NkListFront (ps_links st) (zone_freeList zone);
        st \<leftarrow> with_links (\<lambda>h. NkListRemove h (zone_freeList zone) link) st;
        (if link = 0 then None
         else do {
           let page = LINK_CONTAINER_page link;
           z \<leftarrow> ps_zone st zone;
           n \<leftarrow> int_step (zn_freeCount z - 1);
           st \<leftarrow> upd_zone zone (\<lambda>z. z\<lparr>zn_freeCount := n\<rparr>) st;
           let st = st\<lparr>ps_freePages := ps_freePages st - 1\<rparr>;
           st \<leftarrow> upd_page page (\<lambda>p. p\<lparr>pg_flags := MM_PAGE_ALLOCED\<rparr>) st;
           st \<leftarrow> unlock_zone zone st;
           Some (page, st) }) }) }"

definition MmFixPage :: "'x pageEnv \<Rightarrow> addr \<Rightarrow> 'x pageState \<Rightarrow> 'x pageState option" where
  "MmFixPage env page st = do {
     p \<leftarrow> ps_page st page;
     (if has_flag (pg_flags p) MM_PAGE_UNUSABLE then Some st
      else do {
        n \<leftarrow> int_step (pg_fixCount p + 1);
        st \<leftarrow> upd_page page (\<lambda>p. p\<lparr>pg_fixCount := n\<rparr>) st;
        (if has_flag (pg_flags p) MM_PAGE_FIXED then Some st
         else do {
           st \<leftarrow> upd_page page (\<lambda>p. p\<lparr>pg_flags := pg_flags p OR MM_PAGE_FIXED\<rparr>) st;
           let st = st\<lparr>ps_fixedPages := ps_fixedPages st + 1\<rparr>;
           Some (st\<lparr>ps_ext := pe_fix env page (ps_ext st)\<rparr>) }) }) }"

definition MmUnfixPage :: "'x pageEnv \<Rightarrow> addr \<Rightarrow> 'x pageState \<Rightarrow> 'x pageState option" where
  "MmUnfixPage env page st = do {
     p \<leftarrow> ps_page st page;
     (if has_flag (pg_flags p) MM_PAGE_UNUSABLE then Some st
      else do {
        n \<leftarrow> int_step (pg_fixCount p - 1);
        st \<leftarrow> upd_page page (\<lambda>p. p\<lparr>pg_fixCount := n\<rparr>) st;
        (if n \<noteq> 0 then Some st
         else do {
           st \<leftarrow> upd_page page (\<lambda>p. p\<lparr>pg_flags := pg_flags p AND NOT MM_PAGE_FIXED\<rparr>) st;
           let st = st\<lparr>ps_fixedPages := ps_fixedPages st - 1\<rparr>;
           Some (st\<lparr>ps_ext := pe_unfix env page (ps_ext st)\<rparr>) }) }) }"

definition MmAllocFixedPage :: "'x pageEnv \<Rightarrow> 'x pageState \<Rightarrow> (addr \<times> 'x pageState) option" where
  "MmAllocFixedPage env st = do {
     (pg, st) \<leftarrow> MmAllocPage st;
     st \<leftarrow> lock_page pg st;
     st \<leftarrow> MmFixPage env pg st;
     st \<leftarrow> unlock_page pg st;
     Some (pg, st) }"

text \<open>A page cleared by \<open>memset\<close>.\<close>

definition zero_page :: mmPage where
  "zero_page = \<lparr>pg_pfn = 0, pg_zone = 0, pg_flags = 0, pg_fixCount = 0, pg_obj = 0, pg_offset = 0,
     pg_maps = 0, pg_lock = False\<rparr>"

definition clear_links :: "addr \<Rightarrow> 'x pageState \<Rightarrow> 'x pageState option" where
  "clear_links page st = do {
     st \<leftarrow> with_links (\<lambda>h. set_prev h (page_link page) 0) st;
     st \<leftarrow> with_links (\<lambda>h. set_next h (page_link page) 0) st;
     st \<leftarrow> with_links (\<lambda>h. set_prev h (page_objLink page) 0) st;
     with_links (\<lambda>h. set_next h (page_objLink page) 0) st }"

definition MmFindPagePfn :: "'x pageEnv \<Rightarrow> u64 \<Rightarrow> 'x pageState \<Rightarrow> (addr \<times> 'x pageState) option" where
  "MmFindPagePfn env pfn st = do {
     zone \<leftarrow> mmZoneFindByPfn pfn st;
     inMap \<leftarrow> (if zone = 0 then Some False
              else do { z \<leftarrow> ps_zone st zone; Some (has_flag (zn_flags z) MM_ZONE_ALLOCATABLE) });
     (if inMap
      then do {
        z \<leftarrow> ps_zone st zone;
        let page = zn_pfnMap z + (pfn - zn_pfn z) * sizeof_MmPage;
        p \<leftarrow> ps_page st page;
        (if pg_pfn p \<noteq> pfn then None else Some (page, st)) }
      else case pe_allocFake env st of (page, st) \<Rightarrow>
        if page = 0 then None
        else do {
          st \<leftarrow> upd_page page (\<lambda>_. zero_page) st;
          st \<leftarrow> clear_links page st;
          st \<leftarrow> upd_page page (\<lambda>p. p\<lparr>pg_flags := MM_PAGE_UNUSABLE\<rparr>) st;
          st \<leftarrow> upd_page page (\<lambda>p. p\<lparr>pg_pfn := pfn\<rparr>) st;
          Some (page, st) }) }"

text \<open>\<open>while (pfnMap->pfn % pfnAlign) ++pfnMap;\<close>\<close>

partial_function (option) align_map :: "(addr \<rightharpoonup> mmPage) \<Rightarrow> u64 \<Rightarrow> addr \<Rightarrow> addr option" where
  "align_map pg pfnAlign pmap =
     (if pfnAlign = 0 then None
      else do {
        p \<leftarrow> pg pmap;
        (if pg_pfn p mod pfnAlign = 0 then Some pmap else align_map pg pfnAlign (pmap + sizeof_MmPage)) })"

text \<open>The loop that counts a run of free pages; what it finds is not used.\<close>

fun run_scan :: "(addr \<rightharpoonup> mmPage) \<Rightarrow> addr \<Rightarrow> nat \<Rightarrow> unit option" where
  "run_scan pg page 0 = Some ()"
| "run_scan pg page (Suc n) = do {
     p \<leftarrow> pg page;
     (if has_flag (pg_flags p) MM_PAGE_FREE then run_scan pg (page + sizeof_MmPage) n else Some ()) }"

fun take_run :: "addr \<Rightarrow> addr \<Rightarrow> nat \<Rightarrow> 'x pageState \<Rightarrow> 'x pageState option" where
  "take_run zone page 0 st = Some st"
| "take_run zone page (Suc n) st = do {
     st \<leftarrow> with_links (\<lambda>h. NkListRemove h (zone_freeList zone) (page_link page)) st;
     st \<leftarrow> upd_page page (\<lambda>p. p\<lparr>pg_flags := MM_PAGE_ALLOCED\<rparr>) st;
     take_run zone (page + sizeof_MmPage) n st }"

partial_function (option) pages_loop ::
  "addr \<Rightarrow> addr \<Rightarrow> u64 \<Rightarrow> u64 \<Rightarrow> u64 \<Rightarrow> 'x pageState \<Rightarrow> (addr \<times> 'x pageState) option" where
  "pages_loop zone pmap pfnAlign count i st = do {
     z \<leftarrow> ps_zone st zone;
     (if 2 ^ 31 \<le> i then None
      else if \<not> i < zn_numPages z then Some (0, st)
      else do {
        let firstPage = pmap + i * sizeof_MmPage;
        p \<leftarrow> ps_page st firstPage;
        (if has_flag (pg_flags p) MM_PAGE_FREE
         then do {
           _ \<leftarrow> run_scan (ps_page st) firstPage (unat count);
           st \<leftarrow> take_run zone firstPage (unat count) st;
           z \<leftarrow> ps_zone st zone;
           let n = to_int32 (uint (size_of_int (zn_freeCount z) - count));
           st \<leftarrow> upd_zone zone (\<lambda>z. z\<lparr>zn_freeCount := n\<rparr>) st;
           st \<leftarrow> unlock_zone zone (st\<lparr>ps_freePages := ps_freePages st - count\<rparr>);
           Some (firstPage, st) }
         else pages_loop zone pmap pfnAlign count (i + pfnAlign) st) }) }"

definition MmAllocPagesAt :: "u64 \<Rightarrow> u64 \<Rightarrow> u64 \<Rightarrow> 'x pageState \<Rightarrow> (addr \<times> 'x pageState) option" where
  "MmAllocPagesAt count maxAddr align st = do {
     (zone, st) \<leftarrow> mmZoneFindBest (maxAddr div NEXKE_CPU_PAGESZ) count 0 st;
     (if zone = 0 then Some (0, st)
      else do {
        z \<leftarrow> ps_zone st zone;
        let pfnAlign = align div NEXKE_CPU_PAGESZ;
        pmap \<leftarrow> align_map (ps_page st) pfnAlign (zn_pfnMap z);
        pages_loop zone pmap pfnAlign count 0 st }) }"

fun free_pages :: "'x pageEnv \<Rightarrow> addr \<Rightarrow> nat \<Rightarrow> 'x pageState \<Rightarrow> 'x pageState option" where
  "free_pages env page 0 st = Some st"
| "free_pages env page (Suc n) st = do {
     st \<leftarrow> MmFreePage env page st;
     free_pages env (page + sizeof_MmPage) n st }"

definition MmFreePages :: "'x pageEnv \<Rightarrow> addr \<Rightarrow> u64 \<Rightarrow> 'x pageState \<Rightarrow> 'x pageState option" where
  "MmFreePages env pages count st = (if 2 ^ 31 \<le> count then None else free_pages env pages (unat count) st)"

definition MmAllocGuardPage :: "'x pageEnv \<Rightarrow> 'x pageState \<Rightarrow> (addr \<times> 'x pageState) option" where
  "MmAllocGuardPage env st =
     (case pe_allocFake env st of (page, st) \<Rightarrow>
       if page = 0 then Some (0, st)
       else do {
         st \<leftarrow> upd_page page (\<lambda>_. zero_page) st;
         st \<leftarrow> clear_links page st;
         st \<leftarrow> upd_page page (\<lambda>p. p\<lparr>pg_flags := MM_PAGE_UNUSABLE OR MM_PAGE_GUARD\<rparr>) st;
         Some (page, st) })"

section \<open>The hash table of pages\<close>

definition MM_GET_BUCKET :: "'x pageState \<Rightarrow> addr \<Rightarrow> u64 \<Rightarrow> u64 option" where
  "MM_GET_BUCKET st obj off =
     (if ps_numBuckets st = 0 then None else Some ((CpuPageAlignDown obj + off) mod ps_numBuckets st))"

definition bucket_list :: "'x pageState \<Rightarrow> u64 \<Rightarrow> addr" where
  "bucket_list st b = ps_pageHash st + b * sizeof_MmPageBucket"

definition lock_bucket :: "u64 \<Rightarrow> 'x pageState \<Rightarrow> 'x pageState option" where
  "lock_bucket b st = (if ps_bucketLock st b then None else Some (st\<lparr>ps_bucketLock := (ps_bucketLock st)(b := True)\<rparr>))"

definition unlock_bucket :: "u64 \<Rightarrow> 'x pageState \<Rightarrow> 'x pageState option" where
  "unlock_bucket b st = (if ps_bucketLock st b then Some (st\<lparr>ps_bucketLock := (ps_bucketLock st)(b := False)\<rparr>) else None)"

definition MmAddPage :: "addr \<Rightarrow> u64 \<Rightarrow> addr \<Rightarrow> 'x pageState \<Rightarrow> 'x pageState option" where
  "MmAddPage obj off page st = do {
     p \<leftarrow> ps_page st page;
     (if has_flag (pg_flags p) MM_PAGE_IN_OBJECT then None
      else do {
        b \<leftarrow> MM_GET_BUCKET st obj off;
        st \<leftarrow> lock_bucket b st;
        st \<leftarrow> with_links (\<lambda>h. NkListAddFront h (bucket_list st b) (page_link page)) st;
        st \<leftarrow> unlock_bucket b st;
        st \<leftarrow> upd_page page (\<lambda>p. p\<lparr>pg_offset := off, pg_obj := obj\<rparr>) st;
        st \<leftarrow> upd_page page (\<lambda>p. p\<lparr>pg_flags := pg_flags p OR MM_PAGE_IN_OBJECT\<rparr>) st;
        with_links (\<lambda>h. NkListAddFront h (obj_pageList obj) (page_objLink page)) st }) }"

partial_function (option) lookup_loop ::
  "'x pageState \<Rightarrow> addr \<Rightarrow> addr \<Rightarrow> u64 \<Rightarrow> addr \<Rightarrow> addr option" where
  "lookup_loop st list obj off iter =
     (if iter = 0 then Some 0
      else do {
        let curPage = LINK_CONTAINER_page iter;
        p \<leftarrow> ps_page st curPage;
        (if pg_offset p = off \<and> pg_obj p = obj then Some curPage
         else do {
           iter \<leftarrow> NkListIterate (ps_links st) list iter;
           lookup_loop st list obj off iter }) })"

definition MmLookupPage :: "addr \<Rightarrow> u64 \<Rightarrow> 'x pageState \<Rightarrow> (addr \<times> 'x pageState) option" where
  "MmLookupPage obj off st = do {
     b \<leftarrow> MM_GET_BUCKET st obj off;
     st \<leftarrow> lock_bucket b st;
     iter \<leftarrow> NkListFront (ps_links st) (bucket_list st b);
     page \<leftarrow> lookup_loop st (bucket_list st b) obj off iter;
     st \<leftarrow> unlock_bucket b st;
     Some (page, st) }"

definition MmRemovePage :: "addr \<Rightarrow> 'x pageState \<Rightarrow> 'x pageState option" where
  "MmRemovePage page st = do {
     p \<leftarrow> ps_page st page;
     (if \<not> has_flag (pg_flags p) MM_PAGE_IN_OBJECT then None
      else do {
        b \<leftarrow> MM_GET_BUCKET st (pg_obj p) (pg_offset p);
        st \<leftarrow> lock_bucket b st;
        st \<leftarrow> with_links (\<lambda>h. NkListRemove h (bucket_list st b) (page_link page)) st;
        st \<leftarrow> unlock_bucket b st;
        st \<leftarrow> with_links (\<lambda>h. NkListRemove h (obj_pageList (pg_obj p)) (page_objLink page)) st;
        upd_page page (\<lambda>p. p\<lparr>pg_offset := 0, pg_obj := 0,
          pg_flags := (pg_flags p OR MM_PAGE_ALLOCED) AND NOT MM_PAGE_IN_OBJECT\<rparr>) st }) }"

section \<open>Set-up from the memory map\<close>

text \<open>\<open>NbMemEntry_t\<close> and its types.\<close>

record memEnt =
  me_base :: u64
  me_sz :: u64
  me_type :: u32

definition NEXBOOT_MEM_FREE :: u32 where "NEXBOOT_MEM_FREE = 1"
definition NEXBOOT_MEM_RESVD :: u32 where "NEXBOOT_MEM_RESVD = 2"
definition NEXBOOT_MEM_ACPI_RECLAIM :: u32 where "NEXBOOT_MEM_ACPI_RECLAIM = 3"
definition NEXBOOT_MEM_ACPI_NVS :: u32 where "NEXBOOT_MEM_ACPI_NVS = 4"
definition NEXBOOT_MEM_MMIO :: u32 where "NEXBOOT_MEM_MMIO = 5"
definition NEXBOOT_MEM_FW_RECLAIM :: u32 where "NEXBOOT_MEM_FW_RECLAIM = 6"
definition NEXBOOT_MEM_BOOT_RECLAIM :: u32 where "NEXBOOT_MEM_BOOT_RECLAIM = 7"

definition NEXKE_PFNMAP_BASE :: u64 where "NEXKE_PFNMAP_BASE = 0xFFFFFFF000000000"
definition NEXKE_PFNMAP_MAX :: u64 where "NEXKE_PFNMAP_MAX = 0xE80000000 - 0x10"

definition usable_ent :: "memEnt \<Rightarrow> bool" where
  "usable_ent e \<longleftrightarrow> me_type e = NEXBOOT_MEM_FREE \<or> me_type e = NEXBOOT_MEM_FW_RECLAIM \<or>
     me_type e = NEXBOOT_MEM_BOOT_RECLAIM"

text \<open>Step 1: the number of page structures and the index behind the last entry to use. The entries
  are those from index \<open>i\<close> on.\<close>

fun count_pfns :: "memEnt list \<Rightarrow> nat \<Rightarrow> u64 \<Rightarrow> nat \<Rightarrow> u64 \<times> nat" where
  "count_pfns [] i numPfns lastMapEnt = (numPfns, lastMapEnt)"
| "count_pfns (e # es) i numPfns lastMapEnt =
     (if me_sz e = 0 \<or> \<not> usable_ent e then count_pfns es (i + 1) numPfns lastMapEnt
      else let numPfns = numPfns + (me_sz e + (NEXKE_CPU_PAGESZ - 1)) div NEXKE_CPU_PAGESZ
           in if numPfns \<ge> NEXKE_PFNMAP_MAX div sizeof_MmPage
              then (NEXKE_PFNMAP_MAX div sizeof_MmPage, i)
              else count_pfns es (i + 1) numPfns lastMapEnt)"

text \<open>Step 2: \<open>while (mmNumBuckets < (numPfns / 2)) mmNumBuckets <<= 1;\<close>\<close>

partial_function (option) grow_buckets :: "u64 \<Rightarrow> u64 \<Rightarrow> u64 option" where
  "grow_buckets numPfns n = (if n < numPfns div 2 then grow_buckets numPfns (push_bit 1 n) else Some n)"

text \<open>Step 3: the maps go to the end of the first entry that is large enough. The product
  \<open>i * NEXKE_CPU_PAGESZ\<close> is an \<open>int\<close>.\<close>

fun map_early :: "'x pageEnv \<Rightarrow> u64 \<Rightarrow> nat \<Rightarrow> nat \<Rightarrow> 'x pageState \<Rightarrow> 'x pageState option" where
  "map_early env mapPhys i 0 st = Some st"
| "map_early env mapPhys i (Suc n) st =
     (if 2 ^ 31 \<le> i * 4096 then None
      else do {
        st \<leftarrow> pe_mapEarly env (NEXKE_PFNMAP_BASE + of_nat (i * 4096)) (mapPhys + of_nat (i * 4096)) 7 st;
        map_early env mapPhys (Suc i) n st })"

fun init_buckets :: "nat \<Rightarrow> nat \<Rightarrow> 'x pageState \<Rightarrow> 'x pageState option" where
  "init_buckets i 0 st = Some st"
| "init_buckets i (Suc n) st =
     (if 2 ^ 31 \<le> Suc i then None
      else do {
        st \<leftarrow> with_links (\<lambda>h. NkListInit h (bucket_list st (of_nat i))) st;
        init_buckets (Suc i) n (st\<lparr>ps_bucketLock := (ps_bucketLock st)(of_nat i := False)\<rparr>) })"

fun place_maps :: "'x pageEnv \<Rightarrow> u64 \<Rightarrow> memEnt list \<Rightarrow> 'x pageState \<Rightarrow> (memEnt list \<times> 'x pageState) option" where
  "place_maps env numPfns [] st = Some ([], st)"
| "place_maps env numPfns (e # es) st =
     (let pageMapSz = numPfns * sizeof_MmPage + ps_numBuckets st * sizeof_MmPageBucket
      in if usable_ent e \<and> me_sz e > pageMapSz
         then do {
           let e = e\<lparr>me_sz := me_sz e - CpuPageAlignUp pageMapSz\<rparr>;
           st \<leftarrow> map_early env (me_base e + me_sz e) 0 (unat (CpuPageAlignUp pageMapSz div NEXKE_CPU_PAGESZ)) st;
           let st = st\<lparr>ps_pageHash := NEXKE_PFNMAP_BASE + numPfns * sizeof_MmPage\<rparr>;
           st \<leftarrow> init_buckets 0 (unat (ps_numBuckets st)) st;
           Some (e # es, st) }
         else do {
           (es, st) \<leftarrow> place_maps env numPfns es st;
           Some (e # es, st) })"

text \<open>Step 4: a zone for each entry.\<close>

definition zone_flags :: "u32 \<Rightarrow> u32" where
  "zone_flags t =
     (if t = NEXBOOT_MEM_RESVD then MM_ZONE_RESVD
      else if t = NEXBOOT_MEM_MMIO then MM_ZONE_MMIO
      else if t = NEXBOOT_MEM_ACPI_NVS then MM_ZONE_RESVD
      else if t = NEXBOOT_MEM_ACPI_RECLAIM then MM_ZONE_RECLAIM
      else MM_ZONE_ALLOCATABLE)"

fun create_zones :: "'x pageEnv \<Rightarrow> memEnt list \<Rightarrow> 'x pageState \<Rightarrow> 'x pageState option" where
  "create_zones env [] st = Some st"
| "create_zones env (e # es) st =
     (if me_sz e = 0 then create_zones env es st
      else do {
        st \<leftarrow> mmZoneCreate env (me_base e div NEXKE_CPU_PAGESZ) (me_sz e div NEXKE_CPU_PAGESZ)
               (zone_flags (me_type e)) st;
        create_zones env es st })"

partial_function (option) merge_zones :: "'x pageEnv \<Rightarrow> nat \<Rightarrow> 'x pageState \<Rightarrow> 'x pageState option" where
  "merge_zones env curZone st =
     (if curZone < ps_numZones st
      then do {
        (merged, st) \<leftarrow> mmZoneMerge env (ps_zones st ! (curZone - 1)) (ps_zones st ! curZone) st;
        merge_zones env (if merged then curZone else curZone + 1) st }
      else Some st)"

definition MM_16M_END :: u64 where "MM_16M_END = 0x1000000"
definition MM_4G_END :: u64 where "MM_4G_END = 0x100000000"

fun reserve_16M :: "'x pageEnv \<Rightarrow> addr list \<Rightarrow> 'x pageState \<Rightarrow> 'x pageState option" where
  "reserve_16M env [] st = Some st"
| "reserve_16M env (p # ps) st = do {
     z \<leftarrow> ps_zone st p;
     (if zone_end z * NEXKE_CPU_PAGESZ < MM_16M_END \<and> has_flag (zn_flags z) MM_ZONE_ALLOCATABLE
      then upd_zone p (\<lambda>z. z\<lparr>zn_flags := zn_flags z OR MM_ZONE_NO_GENERIC\<rparr>) st
      else if zn_pfn z * NEXKE_CPU_PAGESZ < MM_16M_END \<and> has_flag (zn_flags z) MM_ZONE_ALLOCATABLE
      then mmZoneSplit env p (MM_16M_END div NEXKE_CPU_PAGESZ) (zn_flags z OR MM_ZONE_NO_GENERIC) st
      else reserve_16M env ps st) }"

fun reserve_4G :: "'x pageEnv \<Rightarrow> addr list \<Rightarrow> 'x pageState \<Rightarrow> 'x pageState option" where
  "reserve_4G env [] st = Some st"
| "reserve_4G env (p # ps) st = do {
     z \<leftarrow> ps_zone st p;
     (if zn_pfn z * NEXKE_CPU_PAGESZ < MM_4G_END \<and> zone_end z * NEXKE_CPU_PAGESZ > MM_4G_END \<and>
         has_flag (zn_flags z) MM_ZONE_ALLOCATABLE
      then mmZoneSplit env p (MM_4G_END div NEXKE_CPU_PAGESZ) (zn_flags z OR MM_ZONE_NO_GENERIC) st
      else reserve_4G env ps st) }"

text \<open>The zone with the most free pages; the first zone may be any.\<close>

fun best_zone :: "(addr \<rightharpoonup> mmZone) \<Rightarrow> addr list \<Rightarrow> addr \<Rightarrow> addr option" where
  "best_zone zs [] curBest = Some curBest"
| "best_zone zs (p # ps) curBest = do {
     z \<leftarrow> zs p;
     better \<leftarrow> (if curBest = 0 then Some True
               else do {
                 b \<leftarrow> zs curBest;
                 Some (zn_freeCount z > zn_freeCount b \<and> \<not> has_flag (zn_flags z) MM_ZONE_NO_GENERIC) });
     best_zone zs ps (if better then p else curBest) }"

text \<open>\<open>MmInitPage\<close> on the memory map \<open>mm\<close>; \<open>pc\<close> is whether the board is a PC. It ends before the
  caches of fake pages and page mappings are made. With an empty map the index of the last entry
  is \<open>- 1\<close>, and the loops run out of the map.\<close>

definition MmInitPage :: "'x pageEnv \<Rightarrow> bool \<Rightarrow> memEnt list \<Rightarrow> 'x pageState \<Rightarrow> (memEnt list \<times> 'x pageState) option" where
  "MmInitPage env pc mm st =
     (if mm = [] then None
      else case count_pfns mm 0 0 (length mm - 1) of (numPfns, lastMapEnt) \<Rightarrow> do {
        n \<leftarrow> grow_buckets numPfns 1;
        let st = st\<lparr>ps_numBuckets := n\<rparr>;
        (es, st) \<leftarrow> place_maps env numPfns (take lastMapEnt mm) st;
        st \<leftarrow> create_zones env es st;
        st \<leftarrow> merge_zones env 1 st;
        st \<leftarrow> (if pc then reserve_16M env (take (ps_numZones st) (ps_zones st)) st else Some st);
        st \<leftarrow> (if pc then reserve_4G env (take (ps_numZones st) (ps_zones st)) st else Some st);
        hint \<leftarrow> best_zone (ps_zone st) (take (ps_numZones st) (ps_zones st)) 0;
        Some (es @ drop lastMapEnt mm, st\<lparr>ps_freeHint := hint\<rparr>) })"

section \<open>The array of zones\<close>

definition zfrom :: "(addr \<rightharpoonup> mmZone) \<Rightarrow> addr \<Rightarrow> nat" where
  "zfrom zn p = unat (zn_pfn (the (zn p)))"

definition zto :: "(addr \<rightharpoonup> mmZone) \<Rightarrow> addr \<Rightarrow> nat" where
  "zto zn p = zfrom zn p + unat (zn_numPages (the (zn p)))"

text \<open>A zone that is not empty and does not wrap.\<close>

definition zone_fits :: "mmZone \<Rightarrow> bool" where
  "zone_fits z \<longleftrightarrow> 0 < zn_numPages z \<and> unat (zn_pfn z) + unat (zn_numPages z) < 2 ^ 64"

definition zones_ok :: "'x pageState \<Rightarrow> addr list \<Rightarrow> bool" where
  "zones_ok st zs \<longleftrightarrow>
     length (ps_zones st) = MAX_ZONES \<and> ps_numZones st = length zs \<and> length zs \<le> MAX_ZONES \<and>
     take (length zs) (ps_zones st) = zs \<and> distinct zs \<and>
     (\<forall>i < length zs. \<exists>z. ps_zone st (zs ! i) = Some z \<and> zn_zoneIdx z = int i \<and> zone_fits z) \<and>
     sorted_wrt (\<lambda>p q. zto (ps_zone st) p \<le> zfrom (ps_zone st) q) zs"

lemma zone_end_unat: "zone_fits z \<Longrightarrow> unat (zone_end z) = unat (zn_pfn z) + unat (zn_numPages z)"
  by (simp add: zone_end_def zone_fits_def unat_word_ariths)

lemma mmZonesOverlap_iff:
  assumes "zone_fits a" "zone_fits b"
  shows "mmZonesOverlap a b \<longleftrightarrow> zn_pfn a \<noteq> zn_pfn b \<and>
    unat (zn_pfn a) < unat (zn_pfn b) + unat (zn_numPages b) \<and> unat (zn_pfn b) < unat (zn_pfn a) + unat (zn_numPages a)"
proof -
  have "unat (zn_pfn a) = unat (zn_pfn b) \<longleftrightarrow> zn_pfn a = zn_pfn b" by (rule word_unat_eq_iff [symmetric])
  moreover have "0 < unat (zn_numPages a)" "0 < unat (zn_numPages b)"
    using assms by (simp_all add: zone_fits_def word_less_nat_alt)
  ultimately show ?thesis
    using zone_end_unat [OF assms(1)] zone_end_unat [OF assms(2)]
    unfolding mmZonesOverlap_def word_less_nat_alt by auto
qed

lemma zones_zone:
  "zones_ok st zs \<Longrightarrow> p \<in> set zs \<Longrightarrow> \<exists>z i. ps_zone st p = Some z \<and> zn_zoneIdx z = int i \<and> i < length zs \<and> zone_fits z"
  by (auto simp: zones_ok_def in_set_conv_nth)

text \<open>Moving zones up leaves a place for a new one, and counts the indices of those moved up.\<close>

lemma shift_up_ok:
  assumes "ps_zones st = us @ vs @ r # rest" and "distinct vs"
    and "\<forall>p \<in> set vs. \<exists>z. ps_zone st p = Some z \<and> 0 \<le> zn_zoneIdx z \<and> zn_zoneIdx z < 2000"
  shows "\<exists>A. shift_up (length us + length vs) (length us) st =
      Some (st\<lparr>ps_zones := A, ps_zone := (\<lambda>p. if p \<in> set vs
        then map_option (\<lambda>z. z\<lparr>zn_zoneIdx := zn_zoneIdx z + 1\<rparr>) (ps_zone st p) else ps_zone st p)\<rparr>) \<and>
    length A = length (ps_zones st) \<and> (\<forall>x. A[length us := x] = us @ x # vs @ rest)"
  using assms
proof (induction vs arbitrary: st r rest rule: rev_induct)
  case Nil
  then have "shift_up (length us) (length us) st = Some st" by (cases "length us") simp_all
  then show ?case using Nil by (intro exI [of _ "ps_zones st"]) simp
next
  case (snoc v vs)
  obtain z where z: "ps_zone st v = Some z" "0 \<le> zn_zoneIdx z" "zn_zoneIdx z < 2000" using snoc.prems(3) by auto
  let ?st = "st\<lparr>ps_zones := us @ vs @ v # v # rest, ps_zone := (ps_zone st)(v \<mapsto> z\<lparr>zn_zoneIdx := zn_zoneIdx z + 1\<rparr>)\<rparr>"
  have "int_step (zn_zoneIdx z + 1) = Some (zn_zoneIdx z + 1)" using z by (simp add: int_step_def int32_range_def)
  moreover have "(ps_zones st)[Suc (length us + length vs) := v] = us @ vs @ v # v # rest"
    using snoc.prems(1) by (simp add: list_update_append)
  moreover have "ps_zones st ! (length us + length vs) = v" using snoc.prems(1) by (simp add: nth_append)
  ultimately have 1: "shift_up (length us + length (vs @ [v])) (length us) st =
      shift_up (length us + length vs) (length us) ?st"
    using snoc.prems(1) z by (simp add: upd_zone_def)
  have *: "\<forall>p \<in> set vs. \<exists>z. ps_zone ?st p = Some z \<and> 0 \<le> zn_zoneIdx z \<and> zn_zoneIdx z < 2000"
    using snoc.prems(2,3) by auto
  obtain A where A: "shift_up (length us + length vs) (length us) ?st =
      Some (?st\<lparr>ps_zones := A, ps_zone := (\<lambda>p. if p \<in> set vs
        then map_option (\<lambda>z. z\<lparr>zn_zoneIdx := zn_zoneIdx z + 1\<rparr>) (ps_zone ?st p) else ps_zone ?st p)\<rparr>)"
    "length A = length (ps_zones ?st)" "\<forall>x. A[length us := x] = us @ x # vs @ v # rest"
    using snoc.IH [of ?st v "v # rest"] snoc.prems(2) * by auto
  have "(\<lambda>p. if p \<in> set vs then map_option (\<lambda>z. z\<lparr>zn_zoneIdx := zn_zoneIdx z + 1\<rparr>) (ps_zone ?st p) else ps_zone ?st p) =
      (\<lambda>p. if p \<in> set (vs @ [v]) then map_option (\<lambda>z. z\<lparr>zn_zoneIdx := zn_zoneIdx z + 1\<rparr>) (ps_zone st p) else ps_zone st p)"
    using snoc.prems(2) z by (auto simp: fun_eq_iff)
  with A 1 snoc.prems(1) show ?case by (intro exI [of _ A]) simp
qed

text \<open>The zone \<open>z\<close> has a page in common with the zone at \<open>p\<close>.\<close>

definition shares_page :: "(addr \<rightharpoonup> mmZone) \<Rightarrow> mmZone \<Rightarrow> addr \<Rightarrow> bool" where
  "shares_page zn z p \<longleftrightarrow>
     zfrom zn p < unat (zn_pfn z) + unat (zn_numPages z) \<and> unat (zn_pfn z) < zto zn p"

definition starts_before :: "(addr \<rightharpoonup> mmZone) \<Rightarrow> mmZone \<Rightarrow> addr \<Rightarrow> bool" where
  "starts_before zn z p \<longleftrightarrow> zfrom zn p \<le> unat (zn_pfn z)"

lemma zto_fits: "ps_zone st p = Some a \<Longrightarrow> zone_fits a \<Longrightarrow> zfrom (ps_zone st) p < zto (ps_zone st) p"
  by (simp add: zto_def zone_fits_def word_less_nat_alt)

lemma insert_scan_ok:
  assumes "zones_ok st zs" and "zs = pre @ ps" and "zone_fits z" and n: "n = length zs"
  shows "insert_scan z ps (length pre) st =
    (if \<exists>p \<in> set ps. zfrom (ps_zone st) p \<noteq> unat (zn_pfn z) \<and> shares_page (ps_zone st) z p then Some None
     else let k = length pre + length (takeWhile (starts_before (ps_zone st) z) ps)
          in map_option (\<lambda>st. Some (k, st)) (shift_up n k st))"
  using assms(2)
  supply shift_up.simps [simp del]
proof (induction ps arbitrary: pre)
  case Nil
  then have "shift_up n (length pre) st = Some st" using n by (cases "length pre") (simp_all add: shift_up.simps)
  then show ?case by simp
next
  case (Cons p ps)
  obtain a where a: "ps_zone st p = Some a" "zone_fits a"
    using zones_zone [OF assms(1), of p] Cons.prems by auto
  have s: "\<forall>q \<in> set ps. zto (ps_zone st) p \<le> zfrom (ps_zone st) q"
    using assms(1) Cons.prems by (auto simp: zones_ok_def sorted_wrt_append)
  have f: "zfrom (ps_zone st) p = unat (zn_pfn a)" using a by (simp add: zfrom_def)
  have ov: "mmZonesOverlap a z \<longleftrightarrow> zfrom (ps_zone st) p \<noteq> unat (zn_pfn z) \<and> shares_page (ps_zone st) z p"
    using mmZonesOverlap_iff [OF a(2) assms(3)] word_unat_eq_iff [of "zn_pfn a" "zn_pfn z"]
    by (auto simp: shares_page_def zto_def zfrom_def a(1))
  show ?case
  proof (cases "mmZonesOverlap a z")
    case True
    with ov a show ?thesis by simp
  next
    case no: False
    show ?thesis
    proof (cases "zn_pfn z < zn_pfn a")
      case True
      have "unat (zn_pfn z) + unat (zn_numPages z) \<le> zfrom (ps_zone st) p"
        using no ov True f zto_fits [OF a] by (auto simp: shares_page_def word_less_nat_alt)
      then have "\<forall>q \<in> set (p # ps). \<not> shares_page (ps_zone st) z q"
        using s zto_fits [OF a] by (force simp: shares_page_def)
      moreover have "\<not> starts_before (ps_zone st) z p" using True f by (simp add: starts_before_def word_less_nat_alt)
      ultimately show ?thesis using no a True assms(1)
        by (cases "shift_up n (length pre) st") (auto simp: zones_ok_def n)
    next
      case False
      then have "starts_before (ps_zone st) z p" using f by (simp add: starts_before_def word_less_nat_alt)
      moreover have "zs = (pre @ [p]) @ ps" using Cons.prems by simp
      note IH = Cons.IH [OF this]
      moreover have "(zfrom (ps_zone st) p \<noteq> unat (zn_pfn z) \<and> shares_page (ps_zone st) z p) = False"
        using no ov by simp
      ultimately show ?thesis using no a False IH
        by (auto simp: Let_def simp del: bex_simps)
    qed
  qed
qed

text \<open>What an insertion that is not refused leaves: the array with the new zone in its place.\<close>

lemma mmZoneInsert_ok:
  assumes "zones_ok st zs" and "ps_zone st zone = Some z" "zone \<notin> set zs" "zone_fits z" "length zs < MAX_ZONES"
    and "\<forall>p \<in> set zs. zfrom (ps_zone st) p \<noteq> unat (zn_pfn z) \<longrightarrow> \<not> shares_page (ps_zone st) z p"
    and "us = takeWhile (starts_before (ps_zone st) z) zs" "vs = dropWhile (starts_before (ps_zone st) z) zs"
  shows "\<exists>A zn. mmZoneInsert zone st = Some (True, st\<lparr>ps_zones := A, ps_zone := zn, ps_numZones := length zs + 1\<rparr>) \<and>
    length A = MAX_ZONES \<and> take (length zs + 1) A = us @ zone # vs \<and>
    (\<forall>i < length zs + 1. \<exists>y. zn ((us @ zone # vs) ! i) = Some y \<and> zn_zoneIdx y = int i \<and> zone_fits y) \<and>
    (\<forall>p. zfrom zn p = zfrom (ps_zone st) p \<and> zto zn p = zto (ps_zone st) p)"
proof -
  let ?k = "length us"
  have zs: "zs = us @ vs" and all: "takeWhile (starts_before (ps_zone st) z) zs = us" using assms(7,8) by simp_all
  obtain r rest where arr: "ps_zones st = us @ vs @ r # rest"
  proof -
    have "ps_zones st = zs @ drop (length zs) (ps_zones st)" "drop (length zs) (ps_zones st) \<noteq> []"
      using assms(1,5) append_take_drop_id [of "length zs" "ps_zones st"] by (auto simp: zones_ok_def)
    then show ?thesis using that zs by (cases "drop (length zs) (ps_zones st)") auto
  qed
  have lenA: "length (ps_zones st) = MAX_ZONES" "distinct zs" and n: "ps_numZones st = length zs"
    and tk: "take (length zs) (ps_zones st) = zs"
    using assms(1) by (auto simp: zones_ok_def)
  have idx: "\<exists>y. ps_zone st (zs ! i) = Some y \<and> zn_zoneIdx y = int i \<and> zone_fits y" if "i < length zs" for i
    using assms(1) that by (simp add: zones_ok_def)
  have "\<forall>p \<in> set vs. \<exists>z. ps_zone st p = Some z \<and> 0 \<le> zn_zoneIdx z \<and> zn_zoneIdx z < 2000"
    using zones_zone [OF assms(1)] assms(5) zs by (force simp: MAX_ZONES_def)
  then obtain A where A: "shift_up (length zs) ?k st =
      Some (st\<lparr>ps_zones := A, ps_zone := (\<lambda>p. if p \<in> set vs
        then map_option (\<lambda>z. z\<lparr>zn_zoneIdx := zn_zoneIdx z + 1\<rparr>) (ps_zone st p) else ps_zone st p)\<rparr>)"
    "length A = MAX_ZONES" "A[?k := zone] = us @ zone # vs @ rest"
    using shift_up_ok [OF arr] lenA zs by auto
  define zn where "zn = (\<lambda>p. if p \<in> set vs
        then map_option (\<lambda>z. z\<lparr>zn_zoneIdx := zn_zoneIdx z + 1\<rparr>) (ps_zone st p) else ps_zone st p)
      (zone \<mapsto> z\<lparr>zn_zoneIdx := int ?k\<rparr>)"
  have nv: "zone \<notin> set vs" using assms(3) zs by simp
  have "insert_scan z (take (ps_numZones st) (ps_zones st)) 0 st = map_option (\<lambda>st. Some (?k, st)) (shift_up (length zs) ?k st)"
    using insert_scan_ok [OF assms(1) _ assms(4), of "[]" zs "length zs"] assms(6) all n tk by (auto simp: Let_def)
  moreover have "?k < MAX_ZONES" using assms(5) zs by simp
  ultimately have ins: "mmZoneInsert zone st =
      Some (True, st\<lparr>ps_zones := us @ zone # vs @ rest, ps_zone := zn, ps_numZones := length zs + 1\<rparr>)"
    using A assms(2,5) n nv by (simp add: mmZoneInsert_def upd_zone_def zn_def)
  have "\<exists>y. zn ((us @ zone # vs) ! i) = Some y \<and> zn_zoneIdx y = int i \<and> zone_fits y" if i: "i < length zs + 1" for i
  proof -
    consider "i < ?k" | "i = ?k" | j where "i = Suc j" "?k \<le> j" "j < length zs"
    proof (cases i)
      case (Suc j)
      then show ?thesis using that i by (cases "i < ?k"; cases "i = ?k") auto
    qed (use that in auto)
    then show ?thesis
    proof cases
      case 1
      then have "us ! i \<in> set us" and e: "zs ! i = us ! i" using zs by (simp_all add: nth_append)
      moreover from this have "us ! i \<notin> set vs" "us ! i \<noteq> zone" using zs lenA(2) assms(3) by auto
      moreover have "i < length zs" using 1 zs by simp
      ultimately show ?thesis using idx [of i] 1 by (auto simp: zn_def nth_append)
    next
      case 2
      then show ?thesis using assms(4) by (simp add: zn_def zone_fits_def)
    next
      case 3
      then have e: "(us @ zone # vs) ! i = zs ! j" using zs by (simp add: nth_append Suc_diff_le)
      have "zs ! j \<in> set vs" using 3 zs by (auto simp: nth_append)
      with idx [OF 3(3)] e 3(1) nv show ?thesis by (auto simp: zn_def zone_fits_def)
    qed
  qed
  moreover have "zfrom zn p = zfrom (ps_zone st) p \<and> zto zn p = zto (ps_zone st) p" for p
    using assms(2) zones_zone [OF assms(1), of p] zs by (auto simp: zn_def zfrom_def zto_def)
  moreover have "length (us @ zone # vs @ rest) = MAX_ZONES" "take (length zs + 1) (us @ zone # vs @ rest) = us @ zone # vs"
    using lenA(1) arr zs by simp_all
  ultimately show ?thesis using ins by blast
qed

lemma set_insert_mid: "set (us @ x # vs) = insert x (set (us @ vs))"
  by auto

lemma distinct_insert_mid: "distinct (us @ vs) \<Longrightarrow> x \<notin> set (us @ vs) \<Longrightarrow> distinct (us @ x # vs)"
  by auto

text \<open>The state after an insertion: the new zone stands between \<open>us\<close> and \<open>vs\<close>, all indices are
  positions, and no zone's bounds changed.\<close>

definition inserted ::
  "'x pageState \<Rightarrow> addr \<Rightarrow> addr list \<Rightarrow> addr list \<Rightarrow> 'x pageState \<Rightarrow> bool" where
  "inserted st zone us vs st' \<longleftrightarrow> (let ys = us @ zone # vs in
     ps_numZones st' = length ys \<and> length (ps_zones st') = MAX_ZONES \<and> take (length ys) (ps_zones st') = ys \<and>
     (\<forall>i < length ys. \<exists>y. ps_zone st' (ys ! i) = Some y \<and> zn_zoneIdx y = int i \<and> zone_fits y) \<and>
     (\<forall>p. zfrom (ps_zone st') p = zfrom (ps_zone st) p \<and> zto (ps_zone st') p = zto (ps_zone st) p) \<and>
     ps_page st' = ps_page st \<and> ps_links st' = ps_links st)"

text \<open>The zones behind the new one start behind its start.\<close>

lemma starts_after:
  assumes "zones_ok st zs" and "q \<in> set (dropWhile (starts_before (ps_zone st) z) zs)"
  shows "unat (zn_pfn z) < zfrom (ps_zone st) q"
proof -
  let ?sb = "starts_before (ps_zone st) z"
  obtain p ws where p: "dropWhile ?sb zs = p # ws"
    using assms(2) by (metis list.set_cases)
  then have "\<not> ?sb p" using hd_dropWhile [of ?sb zs] by simp
  moreover have "q = p \<or> zto (ps_zone st) p \<le> zfrom (ps_zone st) q"
  proof -
    have "sorted_wrt (\<lambda>p q. zto (ps_zone st) p \<le> zfrom (ps_zone st) q) (takeWhile ?sb zs @ p # ws)"
      using assms(1) p takeWhile_dropWhile_id [of ?sb zs] by (simp add: zones_ok_def)
    then show ?thesis using assms(2) p by (auto simp: sorted_wrt_append)
  qed
  moreover have "zfrom (ps_zone st) p \<le> zto (ps_zone st) p" by (simp add: zto_def)
  ultimately show ?thesis by (auto simp: starts_before_def)
qed

lemma inserted_ok:
  assumes "zones_ok st zs" and "ps_zone st zone = Some z" "zone \<notin> set zs" "zone_fits z" "length zs < MAX_ZONES"
    and no: "\<forall>p \<in> set zs. \<not> shares_page (ps_zone st) z p"
    and us: "us = takeWhile (starts_before (ps_zone st) z) zs" and vs: "vs = dropWhile (starts_before (ps_zone st) z) zs"
    and ins: "inserted st zone us vs st'"
  shows "zones_ok st' (us @ zone # vs)"
proof -
  let ?R = "\<lambda>p q. zto (ps_zone st) p \<le> zfrom (ps_zone st) q"
  have zs: "zs = us @ vs" using us vs by simp
  have z: "zfrom (ps_zone st) zone = unat (zn_pfn z)" "zto (ps_zone st) zone = unat (zn_pfn z) + unat (zn_numPages z)"
    using assms(2) by (simp_all add: zfrom_def zto_def)
  have left: "?R p zone" if "p \<in> set us" for p
  proof -
    have "p \<in> set zs" "starts_before (ps_zone st) z p" using that unfolding us by (blast dest: set_takeWhileD)+
    then show ?thesis using no z(1) assms(4)
      by (force simp: shares_page_def starts_before_def zone_fits_def word_less_nat_alt)
  qed
  have right: "?R zone p" if p: "p \<in> set vs" for p
  proof -
    have mem: "p \<in> set zs" using p zs by simp
    obtain a where "ps_zone st p = Some a" "zone_fits a" using zones_zone [OF assms(1) mem] by blast
    then have "zfrom (ps_zone st) p < zto (ps_zone st) p" by (rule zto_fits)
    then show ?thesis using no mem starts_after [OF assms(1) p [unfolded vs]] z
      by (auto simp: shares_page_def not_less)
  qed
  have "sorted_wrt ?R (us @ vs)" "distinct (us @ vs)" using assms(1) zs by (auto simp: zones_ok_def)
  then have "sorted_wrt ?R (us @ zone # vs)" "distinct (us @ zone # vs)"
    using left right assms(3) zs by (auto simp: sorted_wrt_append)
  moreover have "zfrom (ps_zone st') = zfrom (ps_zone st)" "zto (ps_zone st') = zto (ps_zone st)"
    using ins by (auto simp: inserted_def Let_def)
  moreover have "length (us @ zone # vs) \<le> MAX_ZONES" using assms(5) zs by simp
  ultimately show ?thesis using ins unfolding zones_ok_def inserted_def Let_def by metis
qed

lemma inserted_same_start:
  assumes "zone \<notin> set zs" "ps_zone st zone = Some z" and "p \<in> set zs" "zfrom (ps_zone st) p = unat (zn_pfn z)"
    and "zs = us @ vs" and ins: "inserted st zone us vs st'"
  shows "\<not> zones_ok st' ys"
proof
  assume ok: "zones_ok st' ys"
  have fr: "zfrom (ps_zone st') x = zfrom (ps_zone st) x" for x using ins by (simp add: inserted_def Let_def)
  have ys: "ys = us @ zone # vs" using ok ins by (auto simp: zones_ok_def inserted_def Let_def)
  have "p \<in> set ys" "zone \<in> set ys" "p \<noteq> zone" using assms(1,3,5) ys by auto
  moreover have "sorted_wrt (\<lambda>p q. zto (ps_zone st') p \<le> zfrom (ps_zone st') q) ys" using ok by (simp add: zones_ok_def)
  ultimately have "zto (ps_zone st') p \<le> zfrom (ps_zone st') zone \<or> zto (ps_zone st') zone \<le> zfrom (ps_zone st') p"
    by (auto simp: in_set_conv_nth sorted_wrt_iff_nth_less) (metis linorder_neqE_nat)
  moreover have "zfrom (ps_zone st') p = zfrom (ps_zone st') zone"
    unfolding fr using assms(2,4) by (simp add: zfrom_def)
  moreover have "zfrom (ps_zone st') x < zto (ps_zone st') x" if "x \<in> set ys" for x
    using zones_zone [OF ok that] zto_fits [of st' x] by auto
  ultimately show False using \<open>p \<in> set ys\<close> \<open>zone \<in> set ys\<close> by fastforce
qed

text \<open>C24: Inserting a zone into the array of zones in order. It is refused, and nothing changes, if
  the array is full or the zone has a page in common with one of the array that starts at another
  page. Any other zone goes to its place, behind the zones that start no later and before those
  that start later, all indices count the new positions, and the array is in order again, except
  in the case the overlap test misses: a zone that starts at the page where one of the array
  starts is let in, although the two share that page, and the array is then in no order.\<close>

theorem zone_insert:
  assumes "zones_ok st zs" and "ps_zone st zone = Some z" "zone \<notin> set zs" "zone_fits z"
  shows "(if length zs = MAX_ZONES \<or>
            (\<exists>p \<in> set zs. zfrom (ps_zone st) p \<noteq> unat (zn_pfn z) \<and> shares_page (ps_zone st) z p)
          then mmZoneInsert zone st = Some (False, st)
          else \<exists>st' us vs. mmZoneInsert zone st = Some (True, st') \<and> zs = us @ vs \<and>
            (\<forall>p \<in> set us. zfrom (ps_zone st) p \<le> unat (zn_pfn z)) \<and>
            (\<forall>p \<in> set vs. unat (zn_pfn z) < zfrom (ps_zone st) p) \<and> inserted st zone us vs st' \<and>
            (if \<exists>p \<in> set zs. zfrom (ps_zone st) p = unat (zn_pfn z) then \<forall>ys. \<not> zones_ok st' ys
             else zones_ok st' (us @ zone # vs)))"
proof (cases "length zs = MAX_ZONES \<or>
    (\<exists>p \<in> set zs. zfrom (ps_zone st) p \<noteq> unat (zn_pfn z) \<and> shares_page (ps_zone st) z p)")
  case True
  have "mmZoneInsert zone st = Some (False, st)"
  proof (cases "length zs = MAX_ZONES")
    case True
    then show ?thesis using assms(1) by (simp add: mmZoneInsert_def zones_ok_def)
  next
    case no: False
    then have "insert_scan z zs 0 st = Some None"
      using insert_scan_ok [OF assms(1) _ assms(4), of "[]" zs "length zs"] True by auto
    moreover have "ps_numZones st < MAX_ZONES" "take (ps_numZones st) (ps_zones st) = zs"
      using assms(1) no by (auto simp: zones_ok_def)
    ultimately show ?thesis using assms(2) by (simp add: mmZoneInsert_def)
  qed
  with True show ?thesis by simp
next
  case False
  define us vs where us: "us = takeWhile (starts_before (ps_zone st) z) zs"
    and vs: "vs = dropWhile (starts_before (ps_zone st) z) zs"
  have zs: "zs = us @ vs" and lt: "length zs < MAX_ZONES" using us vs False assms(1) by (auto simp: zones_ok_def)
  have "\<forall>p \<in> set zs. zfrom (ps_zone st) p \<noteq> unat (zn_pfn z) \<longrightarrow> \<not> shares_page (ps_zone st) z p"
    using False by blast
  from mmZoneInsert_ok [OF assms lt this us vs] obtain st' where
    st': "mmZoneInsert zone st = Some (True, st')" "inserted st zone us vs st'"
    by (auto simp: inserted_def zs Let_def)
  have "\<forall>p \<in> set us. zfrom (ps_zone st) p \<le> unat (zn_pfn z)"
    using us by (auto dest!: set_takeWhileD simp: starts_before_def)
  moreover have "\<forall>p \<in> set vs. unat (zn_pfn z) < zfrom (ps_zone st) p"
    using starts_after [OF assms(1)] vs by blast
  moreover have "if \<exists>p \<in> set zs. zfrom (ps_zone st) p = unat (zn_pfn z) then \<forall>ys. \<not> zones_ok st' ys
      else zones_ok st' (us @ zone # vs)"
    using inserted_same_start [OF assms(3,2) _ _ zs st'(2)] inserted_ok [OF assms lt _ us vs st'(2)] False by auto
  ultimately show ?thesis using st' zs by (subst if_not_P [OF False]) blast
qed

section \<open>The lists of pages\<close>

text \<open>The lists that pages are in: the free list of a zone, a bucket of the hash table, the pages of
  an object.\<close>

datatype plist = FreeOf addr | Bucket u64 | ObjOf addr

fun head_of :: "addr \<Rightarrow> plist \<Rightarrow> addr" where
  "head_of hash (FreeOf z) = zone_freeList z"
| "head_of hash (Bucket b) = hash + b * sizeof_MmPageBucket"
| "head_of hash (ObjOf ob) = obj_pageList ob"

fun link_of :: "plist \<Rightarrow> addr \<Rightarrow> addr" where
  "link_of (ObjOf ob) p = page_objLink p"
| "link_of l p = page_link p"

definition plists :: "'x pageState \<Rightarrow> addr list \<Rightarrow> addr set \<Rightarrow> plist set" where
  "plists st zs Ob = FreeOf ` set zs \<union> Bucket ` {b. b < ps_numBuckets st} \<union> ObjOf ` Ob"

definition bucket_of :: "'x pageState \<Rightarrow> addr \<Rightarrow> u64 \<Rightarrow> u64" where
  "bucket_of st ob off = (CpuPageAlignDown ob + off) mod ps_numBuckets st"

definition links_at :: "(plist \<Rightarrow> addr list) \<Rightarrow> plist \<Rightarrow> addr list" where
  "links_at P l = map (link_of l) (P l)"

text \<open>What holds of a page in a list.\<close>

fun member_ok :: "'x pageState \<Rightarrow> addr set \<Rightarrow> (plist \<Rightarrow> addr list) \<Rightarrow> addr \<Rightarrow> mmPage \<Rightarrow> plist \<Rightarrow> bool" where
  "member_ok st Ob P p pg (FreeOf z) \<longleftrightarrow> pg_zone pg = z \<and> pg_flags pg = MM_PAGE_FREE \<and> pg_fixCount pg = 0"
| "member_ok st Ob P p pg (Bucket b) \<longleftrightarrow> has_flag (pg_flags pg) MM_PAGE_IN_OBJECT \<and>
     bucket_of st (pg_obj pg) (pg_offset pg) = b \<and> pg_obj pg \<in> Ob \<and> p \<in> set (P (ObjOf (pg_obj pg)))"
| "member_ok st Ob P p pg (ObjOf ob) \<longleftrightarrow> has_flag (pg_flags pg) MM_PAGE_IN_OBJECT \<and> pg_obj pg = ob \<and>
     p \<in> set (P (Bucket (bucket_of st ob (pg_offset pg))))"

text \<open>The allocator between two calls: its lists are as \<open>P\<close> says, the counts are their lengths and no
  lock is held.\<close>

definition pages_ok :: "'x pageState \<Rightarrow> addr list \<Rightarrow> addr set \<Rightarrow> (plist \<Rightarrow> addr list) \<Rightarrow> bool" where
  "pages_ok st zs Ob P \<longleftrightarrow>
     take (ps_numZones st) (ps_zones st) = zs \<and> 0 \<notin> set zs \<and> ps_freeHint st \<in> set zs \<and> 0 < ps_numBuckets st \<and>
     family nklist (ps_links st) (plists st zs Ob) (head_of (ps_pageHash st)) (links_at P) \<and>
     (\<forall>z \<in> set zs. \<exists>zn. ps_zone st z = Some zn \<and> \<not> zn_lock zn \<and> zn_freeCount zn = int (length (P (FreeOf z))) \<and>
        length (P (FreeOf z)) < 2 ^ 31) \<and>
     (\<forall>b < ps_numBuckets st. \<not> ps_bucketLock st b) \<and>
     (\<forall>l \<in> plists st zs Ob. \<forall>p \<in> set (P l). \<exists>pg. ps_page st p = Some pg \<and> member_ok st Ob P p pg l)"

lemma plists_simps [simp]:
  "FreeOf z \<in> plists st zs Ob \<longleftrightarrow> z \<in> set zs"
  "Bucket b \<in> plists st zs Ob \<longleftrightarrow> b < ps_numBuckets st"
  "ObjOf ob \<in> plists st zs Ob \<longleftrightarrow> ob \<in> Ob"
  by (auto simp: plists_def)

lemma link_of_inj [simp]: "link_of l p = link_of l q \<longleftrightarrow> p = q"
  by (cases l) (simp_all add: page_link_def page_objLink_def)

lemma link_of_fun [simp]: "link_of (FreeOf z) = page_link" "link_of (Bucket b) = page_link"
  "link_of (ObjOf ob) = page_objLink"
  by (simp_all add: fun_eq_iff)

lemma link_container_page [simp]: "LINK_CONTAINER_page (page_link p) = p"
  by (simp add: LINK_CONTAINER_page_def page_link_def)

lemma links_at_upd: "links_at (P(l := xs)) = (links_at P)(l := map (link_of l) xs)"
  by (auto simp: links_at_def)

lemma bucket_less: "0 < ps_numBuckets st \<Longrightarrow> bucket_of st ob off < ps_numBuckets st"
  unfolding bucket_of_def by (simp add: word_less_nat_alt unat_mod)

lemma pages_family:
  "pages_ok st zs Ob P \<Longrightarrow> family nklist (ps_links st) (plists st zs Ob) (head_of (ps_pageHash st)) (links_at P)"
  unfolding pages_ok_def by blast

lemma pages_distinct: "pages_ok st zs Ob P \<Longrightarrow> l \<in> plists st zs Ob \<Longrightarrow> distinct (P l)"
  using familyD [of nklist "ps_links st" "plists st zs Ob" "head_of (ps_pageHash st)" "links_at P" l]
  by (auto simp: pages_ok_def nklist_def links_at_def distinct_map)

text \<open>A page is in at most one list through its \<open>link\<close>.\<close>

lemma pages_apart:
  assumes "pages_ok st zs Ob P" and "l \<in> plists st zs Ob" "k \<in> plists st zs Ob" "l \<noteq> k"
    and "p \<in> set (P l)" "p \<in> set (P k)"
  shows "\<exists>ob. l = ObjOf ob \<or> k = ObjOf ob"
proof (rule ccontr)
  assume "\<not> ?thesis"
  then have "link_of l p = link_of k p" by (cases l; cases k) auto
  moreover have "link_of l p \<in> set (links_at P l)" "link_of k p \<in> set (links_at P k)"
    using assms(5,6) by (auto simp: links_at_def)
  ultimately show False
    using assms(1) family_disj [of nklist "ps_links st" "plists st zs Ob" "head_of (ps_pageHash st)" "links_at P" l k]
      assms(2-4) by (auto simp: pages_ok_def)
qed

text \<open>A free page is in no other list.\<close>

lemma free_apart:
  assumes "pages_ok st zs Ob P" and "z \<in> set zs" and "p \<in> set (P (FreeOf z))" and "l \<in> plists st zs Ob" "l \<noteq> FreeOf z"
  shows "p \<notin> set (P l)"
proof
  assume p: "p \<in> set (P l)"
  then obtain ob where l: "l = ObjOf ob" using pages_apart [OF assms(1) _ assms(4), of "FreeOf z" p] assms by auto
  from assms obtain pg where "ps_page st p = Some pg" "pg_flags pg = MM_PAGE_FREE"
    unfolding pages_ok_def by (metis member_ok.simps(1) plists_simps(1))
  moreover from assms(1,4) p l obtain pg where "ps_page st p = Some pg" "has_flag (pg_flags pg) MM_PAGE_IN_OBJECT"
    unfolding pages_ok_def by (metis member_ok.simps(3))
  ultimately show False by (simp add: has_flag_def MM_PAGE_FREE_def MM_PAGE_IN_OBJECT_def)
qed

section \<open>Finding a zone\<close>

text \<open>A zone that generic allocations may use and that has a free page.\<close>

definition serves :: "'x pageState \<Rightarrow> (plist \<Rightarrow> addr list) \<Rightarrow> addr \<Rightarrow> bool" where
  "serves st P z \<longleftrightarrow> P (FreeOf z) \<noteq> [] \<and>
     (\<exists>zn. ps_zone st z = Some zn \<and> has_flag (zn_flags zn) MM_ZONE_ALLOCATABLE \<and>
        \<not> has_flag (zn_flags zn) MM_ZONE_NO_GENERIC)"

definition locked :: "addr \<Rightarrow> 'x pageState \<Rightarrow> 'x pageState" where
  "locked z st = st\<lparr>ps_zone := (ps_zone st)(z := map_option (\<lambda>zn. zn\<lparr>zn_lock := True\<rparr>) (ps_zone st z))\<rparr>"

lemma pages_zone:
  assumes "pages_ok st zs Ob P" and "z \<in> set zs"
  obtains zn where "ps_zone st z = Some zn" "\<not> zn_lock zn" "zn_freeCount zn = int (length (P (FreeOf z)))"
    "length (P (FreeOf z)) < 2 ^ 31"
  using assms unfolding pages_ok_def by blast

lemma size_of_int_zero: "n < 2 ^ 31 \<Longrightarrow> size_of_int (int n) < 1 \<longleftrightarrow> n = 0"
  by (simp add: size_of_int_def word_less_nat_alt unat_of_nat take_bit_nat_eq_self)

lemma try_zone_ok:
  assumes "pages_ok st zs Ob P" and "z \<in> set zs"
  shows "try_zone (- 1) 1 MM_ZONE_NO_GENERIC z st =
    Some (if serves st P z then (True, locked z st) else (False, st))"
proof -
  obtain zn where zn: "ps_zone st z = Some zn" "\<not> zn_lock zn" "zn_freeCount zn = int (length (P (FreeOf z)))"
    "length (P (FreeOf z)) < 2 ^ 31"
    using pages_zone [OF assms] by blast
  have "mmZoneWillWork (zn\<lparr>zn_lock := True\<rparr>) (- 1) 1 MM_ZONE_NO_GENERIC \<longleftrightarrow> serves st P z"
    using zn size_of_int_zero [OF zn(4)] by (auto simp: mmZoneWillWork_def serves_def not_less)
  moreover have "zn\<lparr>zn_lock := False\<rparr> = zn" using zn(2) by (cases zn) simp
  ultimately show ?thesis
    using zn by (simp add: try_zone_def lock_zone_def unlock_zone_def upd_zone_def locked_def fun_upd_idem)
qed

lemma try_zones_ok:
  assumes "pages_ok st zs Ob P" and "set ps \<subseteq> set zs"
  shows "try_zones (- 1) 1 MM_ZONE_NO_GENERIC ps st =
    Some (case List.find (serves st P) ps of None \<Rightarrow> (0, st) | Some z \<Rightarrow> (z, locked z st))"
  using assms(2) by (induction ps) (simp_all add: try_zone_ok [OF assms(1)])

text \<open>The hint first, then the zones in their order.\<close>

lemma mmZoneFindBest_ok:
  assumes "pages_ok st zs Ob P"
  shows "mmZoneFindBest 0 1 MM_ZONE_NO_GENERIC st =
    Some (case List.find (serves st P) (ps_freeHint st # zs) of None \<Rightarrow> (0, st) | Some z \<Rightarrow> (z, locked z st))"
proof -
  have "ps_freeHint st \<in> set zs" "take (ps_numZones st) (ps_zones st) = zs" using assms by (auto simp: pages_ok_def)
  then show ?thesis
    using try_zone_ok [OF assms, of "ps_freeHint st"] try_zones_ok [OF assms, of zs]
    by (simp add: mmZoneFindBest_def locked_def)
qed

section \<open>Taking and giving back a page\<close>

text \<open>The invariant after a change of one list, of the page that moved, and of a zone's count.\<close>

lemma pages_ok_upd:
  assumes ok: "pages_ok st zs Ob P" and z: "z \<in> set zs" and zn: "ps_zone st z = Some zn"
    and fam: "family nklist h (plists st zs Ob) (head_of (ps_pageHash st)) (links_at (P(FreeOf z := xs)))"
    and len: "length xs < 2 ^ 31"
    and keep: "\<And>l q. l \<in> plists st zs Ob \<Longrightarrow> l \<noteq> FreeOf z \<Longrightarrow> q \<in> set (P l) \<Longrightarrow> q \<noteq> p"
    and pg: "\<And>q. q \<in> set xs \<Longrightarrow> q \<noteq> p \<Longrightarrow> q \<in> set (P (FreeOf z))"
    and new: "p \<in> set xs \<Longrightarrow> member_ok st Ob P p pg (FreeOf z)"
  shows "pages_ok (st\<lparr>ps_links := h, ps_page := (ps_page st)(p \<mapsto> pg), ps_freePages := n,
    ps_zone := (ps_zone st)(z \<mapsto> zn\<lparr>zn_freeCount := int (length xs)\<rparr>)\<rparr>) zs Ob (P(FreeOf z := xs))"
proof -
  let ?P = "P(FreeOf z := xs)"
  let ?st = "st\<lparr>ps_links := h, ps_page := (ps_page st)(p \<mapsto> pg), ps_freePages := n,
    ps_zone := (ps_zone st)(z \<mapsto> zn\<lparr>zn_freeCount := int (length xs)\<rparr>)\<rparr>"
  have pl: "plists ?st zs Ob = plists st zs Ob" and bo: "bucket_of ?st = bucket_of st"
    by (simp_all add: plists_def bucket_of_def fun_eq_iff)
  have same: "member_ok ?st Ob ?P q qg l = member_ok st Ob P q qg l" for q qg l
    by (cases l) (simp_all add: bo)
  have "\<exists>qg. ps_page ?st q = Some qg \<and> member_ok ?st Ob ?P q qg l" if l: "l \<in> plists st zs Ob" and q: "q \<in> set (?P l)" for l q
  proof (cases "l = FreeOf z")
    case True
    show ?thesis
    proof (cases "q = p")
      case True
      then show ?thesis using new q \<open>l = FreeOf z\<close> same by simp
    next
      case False
      then have "q \<in> set (P (FreeOf z))" using pg q True by simp
      then have "\<exists>qg. ps_page st q = Some qg \<and> member_ok st Ob P q qg (FreeOf z)" using ok l True unfolding pages_ok_def by blast
      then show ?thesis using False True same by simp
    qed
  next
    case False
    then have "q \<in> set (P l)" using q by simp
    then have "\<exists>qg. ps_page st q = Some qg \<and> member_ok st Ob P q qg l" "q \<noteq> p"
      using ok l keep [OF l False] unfolding pages_ok_def by blast+
    then show ?thesis using same by simp
  qed
  moreover have "\<exists>zn'. ps_zone ?st y = Some zn' \<and> \<not> zn_lock zn' \<and> zn_freeCount zn' = int (length (?P (FreeOf y))) \<and>
      length (?P (FreeOf y)) < 2 ^ 31" if "y \<in> set zs" for y
    by (rule pages_zone [OF ok that]) (use zn len in \<open>cases "y = z"; simp\<close>)
  ultimately show ?thesis
    using ok fam unfolding pages_ok_def pl by auto
qed

lemma free_links:
  "pages_ok st zs Ob P \<Longrightarrow> z \<in> set zs \<Longrightarrow> nklist (ps_links st) (zone_freeList z) (map page_link (P (FreeOf z)))"
  by (drule pages_family, drule familyD [of nklist _ _ _ _ "FreeOf z"]) (simp_all add: links_at_def)

lemma nklist_Cons_parts:
  assumes "nklist h l (x # xs)"
  shows "NkListFront h l = Some x" "x \<noteq> 0" "x \<notin> set xs"
  using NkListFront_hd [OF assms] assms by (auto simp: nklist_def)

lemma int_step_id: "int32_range n \<Longrightarrow> int_step n = Some n"
  by (simp add: int_step_def)

text \<open>C25: Allocation. When no zone for generic allocations has a free page it returns \<open>NULL\<close> and changes
  nothing; otherwise it takes the first page of the free list of such a zone, marks it, counts it
  off, and leaves the allocator in order with no lock held.\<close>

theorem alloc_page:
  assumes "pages_ok st zs Ob P"
  shows "(if \<forall>z \<in> set zs. \<not> serves st P z then MmAllocPage st = Some (0, st)
          else \<exists>z p ps pg st'. z \<in> set zs \<and> serves st P z \<and> P (FreeOf z) = p # ps \<and>
            MmAllocPage st = Some (p, st') \<and> pages_ok st' zs Ob (P(FreeOf z := ps)) \<and>
            ps_page st' p = Some pg \<and> pg_flags pg = MM_PAGE_ALLOCED \<and> pg_zone pg = z \<and>
            ps_freePages st' = ps_freePages st - 1)"
proof (cases "\<forall>z \<in> set zs. \<not> serves st P z")
  case True
  then have "List.find (serves st P) (ps_freeHint st # zs) = None"
    using assms by (auto simp: find_None_iff pages_ok_def)
  then show ?thesis using mmZoneFindBest_ok [OF assms] True by (simp add: MmAllocPage_def)
next
  case False
  have hint: "ps_freeHint st \<in> set zs" and nz: "0 \<notin> set zs" using assms by (simp_all add: pages_ok_def)
  obtain z where f: "List.find (serves st P) (ps_freeHint st # zs) = Some z"
    using False by (metis find_None_iff list.set_intros(2) option.exhaust)
  then have z: "z \<in> set zs" "serves st P z" using hint by (auto simp: find_Some_iff split: if_splits)
  obtain zn where zn: "ps_zone st z = Some zn" "\<not> zn_lock zn" "zn_freeCount zn = int (length (P (FreeOf z)))"
    "length (P (FreeOf z)) < 2 ^ 31"
    using pages_zone [OF assms z(1)] by blast
  obtain p ps where P: "P (FreeOf z) = p # ps" using z(2) by (cases "P (FreeOf z)") (auto simp: serves_def)
  obtain pg where pg: "ps_page st p = Some pg" "pg_zone pg = z"
    using assms z(1) P unfolding pages_ok_def by (metis list.set_intros(1) member_ok.simps(1) plists_simps(1))
  have nk: "nklist (ps_links st) (zone_freeList z) (page_link p # map page_link ps)"
    using free_links [OF assms z(1)] P by simp
  obtain h where h: "NkListRemove (ps_links st) (zone_freeList z) (page_link p) = Some h"
    "family nklist h (plists st zs Ob) (head_of (ps_pageHash st)) ((links_at P)(FreeOf z := map page_link ps))"
    using nk.family_remove [OF pages_family [OF assms], of "FreeOf z" "[]" "page_link p" "map page_link ps"] z(1) P
    by (auto simp: links_at_def)
  let ?pg = "pg\<lparr>pg_flags := MM_PAGE_ALLOCED\<rparr>"
  let ?st = "st\<lparr>ps_links := h, ps_page := (ps_page st)(p \<mapsto> ?pg), ps_freePages := ps_freePages st - 1,
    ps_zone := (ps_zone st)(z \<mapsto> zn\<lparr>zn_freeCount := int (length ps)\<rparr>)\<rparr>"
  have "int_step (zn_freeCount zn - 1) = Some (int (length ps))"
    using zn(3,4) P by (simp add: int_step_id int32_range_def)
  then have alloc: "MmAllocPage st = Some (p, ?st)"
    using mmZoneFindBest_ok [OF assms] f z(1) nz zn nklist_Cons_parts [OF nk] h(1) pg
    by (cases zn; cases st) (auto simp: MmAllocPage_def locked_def with_links_def upd_zone_def upd_page_def unlock_zone_def)
  have "pages_ok ?st zs Ob (P(FreeOf z := ps))"
  proof (rule pages_ok_upd [OF assms z(1) zn(1)])
    show "family nklist h (plists st zs Ob) (head_of (ps_pageHash st)) (links_at (P(FreeOf z := ps)))"
      using h(2) by (simp add: links_at_upd)
    show "q \<noteq> p" if "l \<in> plists st zs Ob" "l \<noteq> FreeOf z" "q \<in> set (P l)" for l q
      using free_apart [OF assms z(1) _ that(1,2), of p] P that(3) by auto
    show "q \<in> set (P (FreeOf z))" if "q \<in> set ps" for q using that P by simp
    have "p \<notin> set ps" using pages_distinct [OF assms, of "FreeOf z"] z(1) P by simp
    then show "member_ok st Ob P p ?pg (FreeOf z)" if "p \<in> set ps" using that by simp
    show "length ps < 2 ^ 31" using zn(4) P by simp
  qed
  moreover have "ps_page ?st p = Some ?pg" "pg_flags ?pg = MM_PAGE_ALLOCED" "pg_zone ?pg = z"
    "ps_freePages ?st = ps_freePages st - 1" using pg(2) by simp_all
  ultimately show ?thesis using z P alloc unfolding if_not_P [OF False] by blast
qed

text \<open>C26: Freeing a page that is in no list puts it in front of its zone's free list and counts it; so
  freeing what was just allocated gives the lists back as they were. The allocator is in order
  afterwards, with no lock held.\<close>

theorem free_page:
  assumes "pages_ok st zs Ob P" and "ps_page st p = Some pg" "pg_fixCount pg = 0" "pg_zone pg = z"
    and "z \<in> set zs" and "is_link (ps_links st) (page_link p)" "page_link p \<noteq> 0"
    and "\<forall>l \<in> plists st zs Ob. page_link p \<notin> set (head_of (ps_pageHash st) l # links_at P l) \<and> p \<notin> set (P l)"
    and "length (P (FreeOf z)) < 2 ^ 31 - 1"
  shows "\<exists>st'. MmFreePage env p st = Some st' \<and> pages_ok st' zs Ob (P(FreeOf z := p # P (FreeOf z))) \<and>
    ps_page st' p = Some (pg\<lparr>pg_flags := MM_PAGE_FREE\<rparr>) \<and> ps_freePages st' = ps_freePages st + 1"
proof -
  obtain zn where zn: "ps_zone st z = Some zn" "\<not> zn_lock zn" "zn_freeCount zn = int (length (P (FreeOf z)))"
    using pages_zone [OF assms(1,5)] by blast
  have nz: "z \<noteq> 0" using assms(1,5) by (auto simp: pages_ok_def)
  obtain h where h: "NkListAddFront (ps_links st) (zone_freeList z) (page_link p) = Some h"
    "family nklist h (plists st zs Ob) (head_of (ps_pageHash st))
      ((links_at P)(FreeOf z := page_link p # links_at P (FreeOf z)))"
    using nk.family_push [OF pages_family [OF assms(1)] _ assms(6,7), of "FreeOf z"] assms(5,8) by auto
  let ?pg = "pg\<lparr>pg_flags := MM_PAGE_FREE\<rparr>"
  let ?xs = "p # P (FreeOf z)"
  let ?st = "st\<lparr>ps_links := h, ps_page := (ps_page st)(p \<mapsto> ?pg), ps_freePages := ps_freePages st + 1,
    ps_zone := (ps_zone st)(z \<mapsto> zn\<lparr>zn_freeCount := int (length ?xs)\<rparr>)\<rparr>"
  have "int_step (zn_freeCount zn + 1) = Some (int (length ?xs))"
    using zn(3) assms(9) by (simp add: int_step_id int32_range_def)
  then have "MmFreePage env p st = Some ?st"
    using assms(2-4) nz zn h(1)
    by (cases zn; cases st) (auto simp: MmFreePage_def lock_zone_def with_links_def upd_zone_def upd_page_def unlock_zone_def)
  moreover have "pages_ok ?st zs Ob (P(FreeOf z := ?xs))"
  proof (rule pages_ok_upd [OF assms(1,5) zn(1)])
    show "family nklist h (plists st zs Ob) (head_of (ps_pageHash st)) (links_at (P(FreeOf z := ?xs)))"
      using h(2) by (simp add: links_at_upd) (simp add: links_at_def)
    show "q \<noteq> p" if "l \<in> plists st zs Ob" "l \<noteq> FreeOf z" "q \<in> set (P l)" for l q using assms(8) that by blast
    show "length ?xs < 2 ^ 31" using assms(9) by simp
  qed (use assms(3,4) in auto)
  ultimately show ?thesis by simp
qed

section \<open>The hash table as a map\<close>

text \<open>The page \<open>p\<close> is that of \<open>obj\<close> at \<open>off\<close>.\<close>

definition keyed :: "'x pageState \<Rightarrow> addr \<Rightarrow> u64 \<Rightarrow> addr \<Rightarrow> bool" where
  "keyed st obj off p \<longleftrightarrow> (\<exists>pg. ps_page st p = Some pg \<and> pg_offset pg = off \<and> pg_obj pg = obj)"

definition found :: "addr option \<Rightarrow> addr" where
  "found r = (case r of None \<Rightarrow> 0 | Some p \<Rightarrow> p)"

lemma lookup_loop_ok:
  assumes "nklist (ps_links st) l (map page_link (us @ qs))" and "\<forall>q \<in> set qs. ps_page st q \<noteq> None"
  shows "lookup_loop st l obj off (case qs of [] \<Rightarrow> 0 | q # _ \<Rightarrow> page_link q) =
    Some (found (List.find (keyed st obj off) qs))"
  using assms
proof (induction qs arbitrary: us)
  case Nil
  then show ?case by (subst lookup_loop.simps) (simp add: found_def)
next
  case (Cons q qs)
  have nk: "nklist (ps_links st) l (map page_link us @ page_link q # map page_link qs)" using Cons.prems(1) by simp
  then have nz: "page_link q \<noteq> 0" by (auto simp: nklist_def)
  obtain pg where pg: "ps_page st q = Some pg" using Cons.prems(2) by auto
  have it: "NkListIterate (ps_links st) l (page_link q) = Some (case qs of [] \<Rightarrow> 0 | q # _ \<Rightarrow> page_link q)"
    using NkListIterate_next [OF nk] by (cases qs) simp_all
  have "lookup_loop st l obj off (case qs of [] \<Rightarrow> 0 | q # _ \<Rightarrow> page_link q) = Some (found (List.find (keyed st obj off) qs))"
    using Cons.IH [of "us @ [q]"] Cons.prems by simp
  then show ?case using nz pg it
    by (subst lookup_loop.simps) (simp add: Let_def keyed_def found_def)
qed

lemma bucket_links:
  "pages_ok st zs Ob P \<Longrightarrow> b < ps_numBuckets st \<Longrightarrow> nklist (ps_links st) (bucket_list st b) (map page_link (P (Bucket b)))"
  by (drule pages_family, drule familyD [of nklist _ _ _ _ "Bucket b"]) (simp_all add: links_at_def bucket_list_def)

lemma pages_page:
  "pages_ok st zs Ob P \<Longrightarrow> l \<in> plists st zs Ob \<Longrightarrow> p \<in> set (P l) \<Longrightarrow>
   \<exists>pg. ps_page st p = Some pg \<and> member_ok st Ob P p pg l"
  unfolding pages_ok_def by blast

lemma pages_bucket: "pages_ok st zs Ob P \<Longrightarrow> bucket_of st ob off < ps_numBuckets st"
  by (rule bucket_less) (simp add: pages_ok_def)

text \<open>A lookup returns with the table as it was.\<close>

lemma MmLookupPage_ok:
  assumes "pages_ok st zs Ob P"
  shows "MmLookupPage obj off st = Some (found (List.find (keyed st obj off) (P (Bucket (bucket_of st obj off)))), st)"
proof -
  let ?b = "bucket_of st obj off"
  let ?st = "st\<lparr>ps_bucketLock := (ps_bucketLock st)(?b := True)\<rparr>"
  have b: "?b < ps_numBuckets st" "ps_numBuckets st \<noteq> 0" using pages_bucket [OF assms] assms by (auto simp: pages_ok_def)
  have free: "\<not> ps_bucketLock st ?b" using assms b by (simp add: pages_ok_def)
  have nk: "nklist (ps_links ?st) (bucket_list ?st ?b) (map page_link ([] @ P (Bucket ?b)))"
    using bucket_links [OF assms b(1)] by (simp add: bucket_list_def)
  have "\<forall>q \<in> set (P (Bucket ?b)). ps_page ?st q \<noteq> None" using pages_page [OF assms, of "Bucket ?b"] b by force
  from lookup_loop_ok [OF nk this, of obj off] NkListFront_hd [OF nk]
  have "NkListFront (ps_links ?st) (bucket_list ?st ?b) = Some (case P (Bucket ?b) of [] \<Rightarrow> 0 | q # _ \<Rightarrow> page_link q)"
    "lookup_loop ?st (bucket_list ?st ?b) obj off (case P (Bucket ?b) of [] \<Rightarrow> 0 | q # _ \<Rightarrow> page_link q) =
      Some (found (List.find (keyed ?st obj off) (P (Bucket ?b))))"
    by (simp_all split: list.splits)
  moreover have "keyed ?st obj off = keyed st obj off" by (simp add: keyed_def fun_eq_iff)
  moreover have "MM_GET_BUCKET st obj off = Some ?b" using b by (simp add: MM_GET_BUCKET_def bucket_of_def)
  moreover have "(ps_bucketLock st)(?b := False) = ps_bucketLock st" using free by (simp add: fun_eq_iff)
  ultimately show ?thesis using free by (simp add: MmLookupPage_def lock_bucket_def unlock_bucket_def)
qed

text \<open>A page that is in no list and whose links are its own.\<close>

definition spare :: "'x pageState \<Rightarrow> addr list \<Rightarrow> addr set \<Rightarrow> (plist \<Rightarrow> addr list) \<Rightarrow> addr \<Rightarrow> bool" where
  "spare st zs Ob P p \<longleftrightarrow>
     is_link (ps_links st) (page_link p) \<and> is_link (ps_links st) (page_objLink p) \<and>
     page_link p \<noteq> 0 \<and> page_objLink p \<noteq> 0 \<and>
     (\<forall>l \<in> plists st zs Ob. page_link p \<notin> set (head_of (ps_pageHash st) l # links_at P l) \<and>
        page_objLink p \<notin> set (head_of (ps_pageHash st) l # links_at P l) \<and> p \<notin> set (P l))"

text \<open>The invariant after a page went into, or out of, a bucket and the list of its object.\<close>

lemma pages_ok_hash:
  assumes ok: "pages_ok st zs Ob P"
    and fam: "family nklist h (plists st zs Ob) (head_of (ps_pageHash st)) (links_at P')"
    and free: "\<And>z. P' (FreeOf z) = P (FreeOf z)"
    and others: "\<And>l q. l \<in> plists st zs Ob \<Longrightarrow> q \<noteq> p \<Longrightarrow> q \<in> set (P' l) \<longleftrightarrow> q \<in> set (P l)"
    and mine: "\<And>l. l \<in> plists st zs Ob \<Longrightarrow> p \<in> set (P' l) \<Longrightarrow> member_ok st Ob P' p pg l"
  shows "pages_ok (st\<lparr>ps_links := h, ps_page := (ps_page st)(p \<mapsto> pg)\<rparr>) zs Ob P'"
proof -
  let ?st = "st\<lparr>ps_links := h, ps_page := (ps_page st)(p \<mapsto> pg)\<rparr>"
  have pl: "plists ?st zs Ob = plists st zs Ob" and bo: "bucket_of ?st = bucket_of st"
    by (simp_all add: plists_def bucket_of_def fun_eq_iff)
  have same: "member_ok ?st Ob P' q qg l = member_ok st Ob P' q qg l" for q qg l
    by (cases l) (simp_all add: bo)
  have nb: "bucket_of st ob off < ps_numBuckets st" for ob off using pages_bucket [OF ok] .
  have "\<exists>qg. ps_page ?st q = Some qg \<and> member_ok ?st Ob P' q qg l" if l: "l \<in> plists st zs Ob" and q: "q \<in> set (P' l)" for l q
  proof (cases "q = p")
    case True
    then show ?thesis using mine [OF l] q by (simp add: same)
  next
    case False
    then have "q \<in> set (P l)" using others [OF l] q by blast
    then obtain qg where qg: "ps_page st q = Some qg" "member_ok st Ob P q qg l" using pages_page [OF ok l] by blast
    have "member_ok st Ob P' q qg l"
    proof (cases l)
      case (Bucket b)
      then show ?thesis using qg(2) others [of "ObjOf (pg_obj qg)" q] False by simp
    next
      case (ObjOf ob)
      then show ?thesis using qg(2) others [of "Bucket (bucket_of st ob (pg_offset qg))" q] False nb by simp
    qed (use qg(2) in simp)
    then show ?thesis using qg(1) False same by simp
  qed
  then show ?thesis using ok fam unfolding pages_ok_def pl by (simp add: free)
qed

lemma MmAddPage_ok:
  assumes ok: "pages_ok st zs Ob P" and pg: "ps_page st p = Some pg" "\<not> has_flag (pg_flags pg) MM_PAGE_IN_OBJECT"
    and sp: "spare st zs Ob P p" and ob: "ob \<in> Ob" and b: "b = bucket_of st ob off"
  defines "P' \<equiv> P(Bucket b := p # P (Bucket b), ObjOf ob := p # P (ObjOf ob))"
    and "pg' \<equiv> pg\<lparr>pg_offset := off, pg_obj := ob, pg_flags := pg_flags pg OR MM_PAGE_IN_OBJECT\<rparr>"
  shows "\<exists>h. MmAddPage ob off p st = Some (st\<lparr>ps_links := h, ps_page := (ps_page st)(p \<mapsto> pg')\<rparr>) \<and>
    pages_ok (st\<lparr>ps_links := h, ps_page := (ps_page st)(p \<mapsto> pg')\<rparr>) zs Ob P'"
proof -
  let ?hd = "head_of (ps_pageHash st)"
  have bl: "b < ps_numBuckets st" "ps_numBuckets st \<noteq> 0" using pages_bucket [OF ok] ok b by (auto simp: pages_ok_def)
  have lk: "\<not> ps_bucketLock st b" using ok bl by (simp add: pages_ok_def)
  obtain h1 where h1: "NkListAddFront (ps_links st) (bucket_list st b) (page_link p) = Some h1"
    "family nklist h1 (plists st zs Ob) ?hd ((links_at P)(Bucket b := page_link p # links_at P (Bucket b)))"
    "links_frame (ps_links st) h1 (insert (page_link p) (set (?hd (Bucket b) # links_at P (Bucket b))))"
    using nk.family_push [OF pages_family [OF ok], of "Bucket b" "page_link p"] sp bl
    by (auto simp: spare_def bucket_list_def)
  have "is_link h1 (page_objLink p)" using sp h1(3) by (auto simp: spare_def intro: nk.free_same)
  moreover have "page_objLink p \<notin> set (?hd l # ((links_at P)(Bucket b := page_link p # links_at P (Bucket b))) l)"
    if "l \<in> plists st zs Ob" for l
    using sp that by (auto simp: spare_def page_link_def page_objLink_def)
  ultimately obtain h where h: "NkListAddFront h1 (obj_pageList ob) (page_objLink p) = Some h"
    "family nklist h (plists st zs Ob) ?hd ((links_at P)(Bucket b := page_link p # links_at P (Bucket b),
       ObjOf ob := page_objLink p # links_at P (ObjOf ob)))"
    using nk.family_push [OF h1(2), of "ObjOf ob" "page_objLink p"] sp ob by (auto simp: spare_def)
  have fam: "family nklist h (plists st zs Ob) ?hd (links_at P')"
    using h(2) by (simp add: P'_def links_at_upd) (simp add: links_at_def)
  have "(ps_bucketLock st)(b := False) = ps_bucketLock st" using lk by (simp add: fun_eq_iff)
  moreover have "MM_GET_BUCKET st ob off = Some b" using bl b by (simp add: MM_GET_BUCKET_def bucket_of_def)
  ultimately have "MmAddPage ob off p st = Some (st\<lparr>ps_links := h, ps_page := (ps_page st)(p \<mapsto> pg')\<rparr>)"
    using pg lk h1(1) h(1)
    by (cases pg) (simp add: MmAddPage_def lock_bucket_def unlock_bucket_def with_links_def bucket_list_def
      upd_page_def pg'_def)
  moreover have "pages_ok (st\<lparr>ps_links := h, ps_page := (ps_page st)(p \<mapsto> pg')\<rparr>) zs Ob P'"
  proof (rule pages_ok_hash [OF ok fam])
    have "has_flag (pg_flags pg') MM_PAGE_IN_OBJECT"
      by (simp add: has_flag_def pg'_def MM_PAGE_IN_OBJECT_def word_ao_absorbs)
    then show "member_ok st Ob P' p pg' l" if "l \<in> plists st zs Ob" "p \<in> set (P' l)" for l
      using that sp ob b by (cases l) (auto simp: P'_def pg'_def spare_def split: if_splits)
  qed (auto simp: P'_def split: if_splits)
  ultimately show ?thesis by blast
qed

lemma MmRemovePage_ok:
  assumes ok: "pages_ok st zs Ob P" and pg: "ps_page st p = Some pg"
    and us: "P (Bucket b) = us @ p # vs" "b < ps_numBuckets st" and xs: "P (ObjOf ob) = xs @ p # ys" "ob \<in> Ob"
  defines "P' \<equiv> P(Bucket b := us @ vs, ObjOf ob := xs @ ys)"
    and "pg' \<equiv> pg\<lparr>pg_offset := 0, pg_obj := 0, pg_flags := (pg_flags pg OR MM_PAGE_ALLOCED) AND NOT MM_PAGE_IN_OBJECT\<rparr>"
  shows "\<exists>h. MmRemovePage p st = Some (st\<lparr>ps_links := h, ps_page := (ps_page st)(p \<mapsto> pg')\<rparr>) \<and>
    pages_ok (st\<lparr>ps_links := h, ps_page := (ps_page st)(p \<mapsto> pg')\<rparr>) zs Ob P'"
proof -
  let ?hd = "head_of (ps_pageHash st)"
  have bl: "Bucket b \<in> plists st zs Ob" "ObjOf ob \<in> plists st zs Ob" using us xs by simp_all
  have m: "has_flag (pg_flags pg) MM_PAGE_IN_OBJECT" "bucket_of st (pg_obj pg) (pg_offset pg) = b" "pg_obj pg = ob"
    using pages_page [OF ok bl(1), of p] pages_page [OF ok bl(2), of p] pg us xs by auto
  have nz: "ps_numBuckets st \<noteq> 0" using ok by (auto simp: pages_ok_def)
  have lk: "\<not> ps_bucketLock st b" using ok us by (simp add: pages_ok_def)
  obtain h1 where h1: "NkListRemove (ps_links st) (bucket_list st b) (page_link p) = Some h1"
    "family nklist h1 (plists st zs Ob) ?hd ((links_at P)(Bucket b := map page_link us @ map page_link vs))"
    using nk.family_remove [OF pages_family [OF ok] bl(1), of "map page_link us" "page_link p" "map page_link vs"] us
    by (auto simp: links_at_def bucket_list_def)
  obtain h where h: "NkListRemove h1 (obj_pageList ob) (page_objLink p) = Some h"
    "family nklist h (plists st zs Ob) ?hd ((links_at P)(Bucket b := map page_link us @ map page_link vs,
       ObjOf ob := map page_objLink xs @ map page_objLink ys))"
    using nk.family_remove [OF h1(2) bl(2), of "map page_objLink xs" "page_objLink p" "map page_objLink ys"] xs
    by (auto simp: links_at_def)
  have fam: "family nklist h (plists st zs Ob) ?hd (links_at P')"
    using h(2) by (simp add: P'_def links_at_upd)
  have "(ps_bucketLock st)(b := False) = ps_bucketLock st" using lk by (simp add: fun_eq_iff)
  moreover have "MM_GET_BUCKET st ob (pg_offset pg) = Some b" using nz m by (simp add: MM_GET_BUCKET_def bucket_of_def)
  ultimately have "MmRemovePage p st = Some (st\<lparr>ps_links := h, ps_page := (ps_page st)(p \<mapsto> pg')\<rparr>)"
    using pg lk h1(1) h(1) m(1,3)
    by (cases pg) (simp add: MmRemovePage_def lock_bucket_def unlock_bucket_def with_links_def bucket_list_def
      upd_page_def pg'_def)
  moreover have "pages_ok (st\<lparr>ps_links := h, ps_page := (ps_page st)(p \<mapsto> pg')\<rparr>) zs Ob P'"
  proof (rule pages_ok_hash [OF ok fam])
    have "p \<notin> set (P' l)" if l: "l \<in> plists st zs Ob" for l
    proof (cases l)
      case (FreeOf z)
      then show ?thesis using free_apart [OF ok _ _ bl(1), of z p] that us by (auto simp: P'_def)
    next
      case (Bucket b')
      then show ?thesis using pages_apart [OF ok l bl(1), of p] pages_distinct [OF ok bl(1)] us by (auto simp: P'_def)
    next
      case (ObjOf ob')
      then show ?thesis using pages_page [OF ok l, of p] pages_distinct [OF ok bl(2)] xs m(3) pg by (auto simp: P'_def)
    qed
    then show "member_ok st Ob P' p pg' l" if "l \<in> plists st zs Ob" "p \<in> set (P' l)" for l using that by blast
  qed (use us xs in \<open>auto simp: P'_def split: if_splits\<close>)
  ultimately show ?thesis by blast
qed

lemma keyed_upd: "keyed (st\<lparr>ps_links := h, ps_page := (ps_page st)(p \<mapsto> pg)\<rparr>) obj off q =
    (if q = p then pg_offset pg = off \<and> pg_obj pg = obj else keyed st obj off q)"
  by (simp add: keyed_def)

lemma find_keyed_upd: "p \<notin> set xs \<Longrightarrow>
    List.find (keyed (st\<lparr>ps_links := h, ps_page := (ps_page st)(p \<mapsto> pg)\<rparr>) obj off) xs = List.find (keyed st obj off) xs"
  by (rule find_cong) (auto simp: keyed_upd)

text \<open>The pages of the table under a key, the one added last first.\<close>

definition key_pages :: "'x pageState \<Rightarrow> (plist \<Rightarrow> addr list) \<Rightarrow> addr \<Rightarrow> u64 \<Rightarrow> addr list" where
  "key_pages st P ob off = filter (keyed st ob off) (P (Bucket (bucket_of st ob off)))"

lemma find_filter: "found (List.find Q xs) = (case filter Q xs of [] \<Rightarrow> 0 | x # _ \<Rightarrow> x)"
  by (induction xs) (simp_all add: found_def)

lemma lookup_key_pages:
  assumes "pages_ok st zs Ob P"
  shows "MmLookupPage ob off st = Some (case key_pages st P ob off of [] \<Rightarrow> 0 | p # _ \<Rightarrow> p, st)"
  by (simp add: MmLookupPage_ok [OF assms] key_pages_def find_filter)

lemma add_key_pages:
  assumes ok: "pages_ok st zs Ob P" and pg: "ps_page st p = Some pg" "\<not> has_flag (pg_flags pg) MM_PAGE_IN_OBJECT"
    and sp: "spare st zs Ob P p" and ob: "ob \<in> Ob"
  shows "\<exists>st' P'. MmAddPage ob off p st = Some st' \<and> pages_ok st' zs Ob P' \<and>
    (\<forall>ob' off'. key_pages st' P' ob' off' =
       (if ob' = ob \<and> off' = off then p # key_pages st P ob off else key_pages st P ob' off'))"
proof -
  let ?b = "bucket_of st ob off"
  define P' where "P' = P(Bucket ?b := p # P (Bucket ?b), ObjOf ob := p # P (ObjOf ob))"
  define pg' where "pg' = pg\<lparr>pg_offset := off, pg_obj := ob, pg_flags := pg_flags pg OR MM_PAGE_IN_OBJECT\<rparr>"
  obtain h where 1: "MmAddPage ob off p st = Some (st\<lparr>ps_links := h, ps_page := (ps_page st)(p \<mapsto> pg')\<rparr>)"
    "pages_ok (st\<lparr>ps_links := h, ps_page := (ps_page st)(p \<mapsto> pg')\<rparr>) zs Ob P'"
    using MmAddPage_ok [OF ok pg sp ob refl] unfolding P'_def pg'_def by blast
  have pg': "pg_offset pg' = off" "pg_obj pg' = ob" by (simp_all add: pg'_def)
  let ?st = "st\<lparr>ps_links := h, ps_page := (ps_page st)(p \<mapsto> pg')\<rparr>"
  have np: "p \<notin> set (P (Bucket (bucket_of st ob' off')))" for ob' off'
    using sp pages_bucket [OF ok] by (simp add: spare_def)
  then have old: "filter (keyed ?st ob' off') (P (Bucket (bucket_of st ob' off'))) =
      filter (keyed st ob' off') (P (Bucket (bucket_of st ob' off')))" for ob' off'
    by (intro filter_cong) (auto simp: keyed_upd)
  have b: "bucket_of ?st = bucket_of st" by (simp add: bucket_of_def fun_eq_iff)
  have "key_pages ?st P' ob' off' =
      (if ob' = ob \<and> off' = off then p # key_pages st P ob off else key_pages st P ob' off')" for ob' off'
  proof -
    have "P' (Bucket (bucket_of st ob' off')) =
        (if bucket_of st ob' off' = ?b then [p] else []) @ P (Bucket (bucket_of st ob' off'))"
      by (simp add: P'_def)
    then show ?thesis
      unfolding key_pages_def b using pg' by (simp add: old) (auto simp: keyed_upd)
  qed
  with 1(1,2) show ?thesis by blast
qed

lemma remove_key_pages:
  assumes ok: "pages_ok st zs Ob P" and q: "q \<in> set (key_pages st P ob off)"
  shows "\<exists>st' P'. MmRemovePage q st = Some st' \<and> pages_ok st' zs Ob P' \<and>
    (\<forall>ob' off'. key_pages st' P' ob' off' =
       (if ob' = ob \<and> off' = off then remove1 q (key_pages st P ob off) else key_pages st P ob' off'))"
proof -
  let ?b = "bucket_of st ob off"
  obtain pg where pg: "ps_page st q = Some pg" "pg_offset pg = off" "pg_obj pg = ob" and inb: "q \<in> set (P (Bucket ?b))"
    using q by (auto simp: key_pages_def keyed_def)
  have b: "?b < ps_numBuckets st" by (rule pages_bucket [OF ok])
  obtain ob: "ob \<in> Ob" and ino: "q \<in> set (P (ObjOf ob))"
    using pages_page [OF ok, of "Bucket ?b" q] inb b pg by auto
  obtain us vs xs ys where us: "P (Bucket ?b) = us @ q # vs" and xs: "P (ObjOf ob) = xs @ q # ys"
    using inb ino by (meson split_list)
  have "distinct (P (Bucket ?b))" using pages_distinct [OF ok] b by simp
  then have rem: "us @ vs = remove1 q (P (Bucket ?b))" using us by (simp add: remove1_append)
  define P' where "P' = P(Bucket ?b := us @ vs, ObjOf ob := xs @ ys)"
  obtain h pg' where 1: "MmRemovePage q st = Some (st\<lparr>ps_links := h, ps_page := (ps_page st)(q \<mapsto> pg')\<rparr>)"
    "pages_ok (st\<lparr>ps_links := h, ps_page := (ps_page st)(q \<mapsto> pg')\<rparr>) zs Ob P'"
    using MmRemovePage_ok [OF ok pg(1) us b xs ob] unfolding P'_def by blast
  let ?st = "st\<lparr>ps_links := h, ps_page := (ps_page st)(q \<mapsto> pg')\<rparr>"
  have bk: "bucket_of ?st = bucket_of st" by (simp add: bucket_of_def fun_eq_iff)
  have "key_pages ?st P' ob' off' =
      (if ob' = ob \<and> off' = off then remove1 q (key_pages st P ob off) else key_pages st P ob' off')" for ob' off'
  proof -
    let ?B = "P (Bucket (bucket_of st ob' off'))"
    have "P' (Bucket (bucket_of st ob' off')) = remove1 q ?B"
    proof (cases "bucket_of st ob' off' = ?b")
      case False
      have "q \<notin> set ?B"
        using pages_page [OF ok, of "Bucket (bucket_of st ob' off')" q] pages_bucket [OF ok] pg False by auto
      then show ?thesis using False by (simp add: P'_def remove1_idem)
    qed (simp add: P'_def rem)
    moreover have "distinct ?B" using pages_distinct [OF ok] pages_bucket [OF ok] by simp
    ultimately have "key_pages ?st P' ob' off' = filter (keyed st ob' off') (remove1 q ?B)"
      unfolding key_pages_def bk by (intro filter_cong) (auto simp: keyed_upd)
    also have "\<dots> = remove1 q (key_pages st P ob' off')"
      by (simp add: key_pages_def filter_remove1)
    finally show ?thesis
      using pg by (auto simp: key_pages_def keyed_def intro!: remove1_idem)
  qed
  with 1 show ?thesis by blast
qed

text \<open>C27: The hash table of pages is a map from keys, an object and an offset, to pages. A lookup
  gives the page added last under the key, or a null pointer if there is none, and changes
  nothing. Adding a page makes it the first under its key; removing a page, wherever it stands in
  the table, takes that page away from its key; neither changes what is under any other key. Both
  return, with the table in order and no bucket locked.\<close>

theorem page_hash:
  assumes ok: "pages_ok st zs Ob P"
  shows "(\<forall>ob off. MmLookupPage ob off st =
      Some (case key_pages st P ob off of [] \<Rightarrow> 0 | p # _ \<Rightarrow> p, st)) \<and>
    (\<forall>p pg ob off. ps_page st p = Some pg \<and> \<not> has_flag (pg_flags pg) MM_PAGE_IN_OBJECT \<and>
        spare st zs Ob P p \<and> ob \<in> Ob \<longrightarrow>
      (\<exists>st' P'. MmAddPage ob off p st = Some st' \<and> pages_ok st' zs Ob P' \<and>
        (\<forall>ob' off'. key_pages st' P' ob' off' =
           (if ob' = ob \<and> off' = off then p # key_pages st P ob off else key_pages st P ob' off')))) \<and>
    (\<forall>q ob off. q \<in> set (key_pages st P ob off) \<longrightarrow>
      (\<exists>st' P'. MmRemovePage q st = Some st' \<and> pages_ok st' zs Ob P' \<and>
        (\<forall>ob' off'. key_pages st' P' ob' off' =
           (if ob' = ob \<and> off' = off then remove1 q (key_pages st P ob off) else key_pages st P ob' off'))))"
proof (intro conjI allI impI)
  fix ob off
  show "MmLookupPage ob off st = Some (case key_pages st P ob off of [] \<Rightarrow> 0 | p # _ \<Rightarrow> p, st)"
    by (rule lookup_key_pages [OF ok])
qed (blast intro: add_key_pages [OF ok] remove_key_pages [OF ok])+

section \<open>Set-up\<close>

lemma grow_buckets_from:
  assumes "k \<le> 63" and "k = 0 \<or> 2 ^ (k - 1) < unat numPfns div 2"
  shows "\<exists>j. grow_buckets numPfns (2 ^ k) = Some (2 ^ j) \<and> j \<le> 63 \<and> unat numPfns div 2 \<le> 2 ^ j \<and>
    (j = 0 \<or> 2 ^ (j - 1) < unat numPfns div 2)"
  using assms
proof (induction "63 - k" arbitrary: k)
  case 0
  then have k: "k = 63" by simp
  have half: "unat (numPfns div 2) = unat numPfns div 2" by (simp add: unat_div)
  have "unat numPfns div 2 < 2 ^ 63" using unat_u64_less [of numPfns] by simp
  moreover have "unat ((2::u64) ^ 63) = 2 ^ 63" by simp
  ultimately have "\<not> (2 ^ 63 :: u64) < numPfns div 2" using half by (simp only: word_less_nat_alt not_less)
  then have "grow_buckets numPfns (2 ^ 63) = Some (2 ^ 63)" by (subst grow_buckets.simps) simp
  then show ?case using k 0(3) \<open>unat numPfns div 2 < 2 ^ 63\<close> by (intro exI [of _ 63]) simp
next
  case (Suc n)
  have half: "unat (numPfns div 2) = unat numPfns div 2" by (simp add: unat_div)
  have "(2::nat) ^ k < 2 ^ 64" using Suc(2) by (intro power_strict_increasing) simp_all
  then have "unat (of_nat (2 ^ k) :: u64) = 2 ^ k" by (simp only: unat_of_nat) (simp add: take_bit_nat_eq_self)
  then have pk: "unat ((2::u64) ^ k) = 2 ^ k" by simp
  show ?case
  proof (cases "(2 ^ k :: u64) < numPfns div 2")
    case True
    then have "2 ^ k < unat numPfns div 2" using pk half by (simp add: word_less_nat_alt)
    then have "\<exists>j. grow_buckets numPfns (2 ^ Suc k) = Some (2 ^ j) \<and> j \<le> 63 \<and> unat numPfns div 2 \<le> 2 ^ j \<and>
        (j = 0 \<or> 2 ^ (j - 1) < unat numPfns div 2)"
      using Suc(2) by (intro Suc(1)) auto
    moreover have "push_bit 1 ((2::u64) ^ k) = 2 ^ Suc k" by (simp add: push_bit_eq_mult)
    ultimately show ?thesis using True by (subst grow_buckets.simps) (simp add: mult.commute)
  next
    case False
    then have "grow_buckets numPfns (2 ^ k) = Some (2 ^ k)" by (subst grow_buckets.simps) simp
    moreover have "unat numPfns div 2 \<le> 2 ^ k" using False pk half by (simp add: word_less_nat_alt)
    ultimately show ?thesis using Suc(3,4) by blast
  qed
qed

text \<open>C28: The loop that sizes the hash table ends for every number of pages, and the number of buckets
  \<open>2 ^ j\<close> is the smallest power of two that is at least half of it; in particular it is not 0. It
  is greater than half, as the comment above the loop says, unless half is itself a power of two:
  then it equals half.\<close>

theorem buckets_terminate:
  "\<exists>j. grow_buckets numPfns 1 = Some (2 ^ j) \<and> j \<le> 63 \<and> unat numPfns div 2 \<le> 2 ^ j \<and>
    (j = 0 \<or> 2 ^ (j - 1) < unat numPfns div 2) \<and>
    ((\<exists>i. unat numPfns div 2 = 2 ^ i) \<longleftrightarrow> 2 ^ j = unat numPfns div 2)"
proof -
  obtain j where j: "grow_buckets numPfns 1 = Some (2 ^ j)" "j \<le> 63" "unat numPfns div 2 \<le> 2 ^ j"
    "j = 0 \<or> 2 ^ (j - 1) < unat numPfns div 2"
    using grow_buckets_from [of 0 numPfns] by auto
  have "2 ^ j = unat numPfns div 2" if i: "unat numPfns div 2 = 2 ^ i" for i
  proof -
    have "i \<le> j" using j(3) i by simp
    moreover have "j = 0 \<or> j - 1 < i" using j(4) i by simp
    ultimately have "i = j" by linarith
    with i show ?thesis by simp
  qed
  with j show ?thesis by (metis)
qed

text \<open>\<open>n\<close> allocations in a row.\<close>

fun alloc_pages :: "nat \<Rightarrow> 'x pageState \<Rightarrow> 'x pageState option" where
  "alloc_pages 0 st = Some st"
| "alloc_pages (Suc n) st = do { (p, st) \<leftarrow> MmAllocPage st; alloc_pages n st }"

text \<open>A zone whose count says more than its free list has runs out of list.\<close>

definition overcounted :: "'x pageState \<Rightarrow> addr \<Rightarrow> addr list \<Rightarrow> nat \<Rightarrow> bool" where
  "overcounted st z xs n \<longleftrightarrow> z \<noteq> 0 \<and> ps_freeHint st = z \<and> 0 < n \<and> length xs + n < 2 ^ 31 \<and>
     nklist (ps_links st) (zone_freeList z) xs \<and> lnext (ps_links st) 0 = None \<and>
     (\<exists>zn. ps_zone st z = Some zn \<and> \<not> zn_lock zn \<and> zn_freeCount zn = int (length xs + n) \<and>
        has_flag (zn_flags zn) MM_ZONE_ALLOCATABLE \<and> \<not> has_flag (zn_flags zn) MM_ZONE_NO_GENERIC)"

lemma overcounted_best:
  assumes "overcounted st z xs n"
  shows "mmZoneFindBest 0 1 MM_ZONE_NO_GENERIC st = Some (z, locked z st)"
proof -
  obtain zn where zn: "ps_zone st z = Some zn" "\<not> zn_lock zn" "zn_freeCount zn = int (length xs + n)"
    "has_flag (zn_flags zn) MM_ZONE_ALLOCATABLE" "\<not> has_flag (zn_flags zn) MM_ZONE_NO_GENERIC"
    and n: "0 < n" "length xs + n < 2 ^ 31" "ps_freeHint st = z"
    using assms by (auto simp: overcounted_def)
  have "\<not> size_of_int (zn_freeCount zn) < 1" using size_of_int_zero [OF n(2)] n(1) zn(3) by simp
  then have "mmZoneWillWork (zn\<lparr>zn_lock := True\<rparr>) (- 1) 1 MM_ZONE_NO_GENERIC" using zn
    by (simp add: mmZoneWillWork_def not_less)
  then show ?thesis using zn n
    by (simp add: mmZoneFindBest_def try_zone_def lock_zone_def upd_zone_def locked_def)
qed

lemma overcounted_faults:
  "overcounted st z xs n \<Longrightarrow> alloc_pages (Suc (length xs)) st = None"
proof (induction xs arbitrary: st)
  case Nil
  have "NkListFront (ps_links st) (zone_freeList z) = Some 0"
    using NkListFront_hd [of "ps_links st" "zone_freeList z" "[]"] Nil by (simp add: overcounted_def)
  then have "MmAllocPage st = None"
    using overcounted_best [OF Nil] Nil
    by (simp add: MmAllocPage_def overcounted_def locked_def with_links_def NkListRemove_def)
  then show ?case by simp
next
  case (Cons x xs)
  obtain zn where zn: "ps_zone st z = Some zn" "\<not> zn_lock zn" "zn_freeCount zn = int (length (x # xs) + n)"
    "has_flag (zn_flags zn) MM_ZONE_ALLOCATABLE" "\<not> has_flag (zn_flags zn) MM_ZONE_NO_GENERIC"
    using Cons.prems by (auto simp: overcounted_def)
  have nk: "nklist (ps_links st) (zone_freeList z) ([] @ x # xs)" using Cons.prems by (simp add: overcounted_def)
  obtain h where h: "NkListRemove (ps_links st) (zone_freeList z) x = Some h" "nklist h (zone_freeList z) xs"
    "links_frame (ps_links st) h (set (zone_freeList z # [] @ xs))"
    using NkListRemove_delete [OF nk] by auto
  have nz: "lnext h 0 = None"
    using h(2,3) Cons.prems nk by (auto simp: links_frame_def overcounted_def nklist_def)
  show ?case
  proof (cases "MmAllocPage st")
    case None
    then show ?thesis by simp
  next
    case (Some r)
    obtain p st' where r: "r = (p, st')" by fastforce
    have step: "int_step (zn_freeCount zn - 1) = Some (int (length xs + n))"
      using zn(3) Cons.prems by (simp add: int_step_id int32_range_def overcounted_def)
    have "overcounted st' z xs n"
      using Some Cons.prems zn h nz step overcounted_best [OF Cons.prems] nklist_Cons_parts [OF nk [simplified]]
      by (auto simp: r MmAllocPage_def locked_def with_links_def upd_zone_def upd_page_def unlock_zone_def
          overcounted_def Let_def split: option.splits)
    then show ?thesis using Cons.IH [of st'] Some by (simp add: r)
  qed
qed

lemma int32_nat: "n < 2 ^ 31 \<Longrightarrow> int32_range (int n)"
  by (simp add: int32_range_def)

lemma shift_down_ok:
  assumes "ps_zones st = us @ r # vs @ rest" and "distinct vs"
    and "\<forall>p \<in> set vs. \<exists>z. ps_zone st p = Some z \<and> 0 \<le> zn_zoneIdx z \<and> zn_zoneIdx z < 2000"
  shows "shift_down vs (length us) st =
      Some (st\<lparr>ps_zones := us @ vs @ last (r # vs) # rest, ps_zone := (\<lambda>p. if p \<in> set vs
        then map_option (\<lambda>z. z\<lparr>zn_zoneIdx := zn_zoneIdx z - 1\<rparr>) (ps_zone st p) else ps_zone st p)\<rparr>)"
  using assms
proof (induction vs arbitrary: st us r)
  case Nil
  then show ?case by (cases st) simp
next
  case (Cons v vs)
  obtain z where z: "ps_zone st v = Some z" "0 \<le> zn_zoneIdx z" "zn_zoneIdx z < 2000" using Cons.prems(3) by auto
  let ?st = "st\<lparr>ps_zone := (ps_zone st)(v \<mapsto> z\<lparr>zn_zoneIdx := zn_zoneIdx z - 1\<rparr>), ps_zones := us @ v # v # vs @ rest\<rparr>"
  have "int_step (zn_zoneIdx z - 1) = Some (zn_zoneIdx z - 1)" using z by (simp add: int_step_id int32_range_def)
  then have "shift_down (v # vs) (length us) st = shift_down vs (length (us @ [v])) ?st"
    using Cons.prems(1) z by (simp add: upd_zone_def)
  also have "\<dots> = Some (?st\<lparr>ps_zones := (us @ [v]) @ vs @ last (v # vs) # rest, ps_zone := (\<lambda>p. if p \<in> set vs
        then map_option (\<lambda>z. z\<lparr>zn_zoneIdx := zn_zoneIdx z - 1\<rparr>) (ps_zone ?st p) else ps_zone ?st p)\<rparr>)"
    using Cons.prems(2,3) by (intro Cons.IH) auto
  also have "(\<lambda>p. if p \<in> set vs then map_option (\<lambda>z. z\<lparr>zn_zoneIdx := zn_zoneIdx z - 1\<rparr>) (ps_zone ?st p) else ps_zone ?st p) =
      (\<lambda>p. if p \<in> set (v # vs) then map_option (\<lambda>z. z\<lparr>zn_zoneIdx := zn_zoneIdx z - 1\<rparr>) (ps_zone st p) else ps_zone st p)"
    using Cons.prems(2) z by (auto simp: fun_eq_iff)
  finally show ?case by simp
qed

text \<open>Merging keeps the array in order; the links do not change.\<close>

lemma mmZoneMerge_ok:
  assumes "zones_ok st (us @ z1 # z2 # vs)" and "ps_zone st z1 = Some a" "ps_zone st z2 = Some b"
    and "zone_end a = zn_pfn b" "zn_flags a = zn_flags b"
    and "zn_freeCount a = int (unat (zn_numPages a))" "zn_freeCount b = int (unat (zn_numPages b))"
    and "unat (zn_numPages a) + unat (zn_numPages b) < 2 ^ 31"
  shows "\<exists>st'. mmZoneMerge env z1 z2 st = Some (True, st') \<and> zones_ok st' (us @ z1 # vs) \<and>
    ps_links st' = ps_links st \<and> ps_zone st' z1 = Some (a\<lparr>zn_numPages := zn_numPages a + zn_numPages b,
      zn_freeCount := zn_freeCount a + zn_freeCount b\<rparr>)"
proof -
  let ?zs = "us @ z1 # z2 # vs"
  let ?a = "a\<lparr>zn_numPages := zn_numPages a + zn_numPages b, zn_freeCount := zn_freeCount a + zn_freeCount b\<rparr>"
  have d: "distinct ?zs" and len: "length (ps_zones st) = MAX_ZONES" "ps_numZones st = length ?zs" "length ?zs \<le> MAX_ZONES"
    and tk: "take (length ?zs) (ps_zones st) = ?zs" and srt: "sorted_wrt (\<lambda>p q. zto (ps_zone st) p \<le> zfrom (ps_zone st) q) ?zs"
    and idx: "\<And>i. i < length ?zs \<Longrightarrow> \<exists>z. ps_zone st (?zs ! i) = Some z \<and> zn_zoneIdx z = int i \<and> zone_fits z"
    using assms(1) by (auto simp only: zones_ok_def)
  obtain rest where arr: "ps_zones st = (us @ [z1]) @ z2 # vs @ rest"
    using append_take_drop_id [of "length ?zs" "ps_zones st"] tk by (metis append.assoc append_Cons append_Nil)
  have ab: "zn_zoneIdx a = int (length us)" "zone_fits a" "zn_zoneIdx b = int (Suc (length us))" "zone_fits b"
    using idx [of "length us"] idx [of "Suc (length us)"] assms(2,3) by (auto simp: nth_append)
  have sz: "size_of_int (zn_freeCount a) = zn_numPages a" "size_of_int (zn_freeCount b) = zn_numPages b"
    using assms(6,7) by (simp_all add: size_of_int_def)
  have st: "int_step (zn_freeCount a + zn_freeCount b) = Some (zn_freeCount a + zn_freeCount b)"
  proof (rule int_step_id)
    have "zn_freeCount a + zn_freeCount b = int (unat (zn_numPages a) + unat (zn_numPages b))"
      unfolding assms(6,7) by (rule of_nat_add [symmetric])
    then show "int32_range (zn_freeCount a + zn_freeCount b)" using int32_nat [OF assms(8)] by (simp only:)
  qed
  let ?st1 = "st\<lparr>ps_zone := (ps_zone st)(z1 \<mapsto> ?a)\<rparr>"
  have nz: "z1 \<noteq> z2" "z1 \<notin> set us" "z1 \<notin> set vs" "z2 \<notin> set us" "z2 \<notin> set vs" "set us \<inter> set vs = {}" using d by auto
  have "\<exists>z. ps_zone ?st1 p = Some z \<and> 0 \<le> zn_zoneIdx z \<and> zn_zoneIdx z < 2000" if p: "p \<in> set vs" for p
    using zones_zone [OF assms(1), of p] p nz len(3) by (auto simp: MAX_ZONES_def)
  then have shift: "shift_down vs (Suc (length us)) ?st1 =
      Some (?st1\<lparr>ps_zones := (us @ [z1]) @ vs @ last (z2 # vs) # rest, ps_zone := (\<lambda>p. if p \<in> set vs
        then map_option (\<lambda>z. z\<lparr>zn_zoneIdx := zn_zoneIdx z - 1\<rparr>) (ps_zone ?st1 p) else ps_zone ?st1 p)\<rparr>)"
    using shift_down_ok [of ?st1 "us @ [z1]" z2 vs rest] arr d by simp
  define zn where "zn = (\<lambda>p. if p \<in> set vs
        then map_option (\<lambda>z. z\<lparr>zn_zoneIdx := zn_zoneIdx z - 1\<rparr>) (ps_zone ?st1 p) else ps_zone ?st1 p)(z2 := None)"
  let ?st' = "st\<lparr>ps_zones := us @ z1 # vs @ last (z2 # vs) # rest, ps_zone := zn, ps_numZones := length us + 1 + length vs,
    ps_ext := pe_freeZone env z2 (ps_ext st)\<rparr>"
  have dr: "drop (Suc (Suc (length us))) (take (ps_numZones st) (ps_zones st)) = vs"
    using tk len(2) by simp
  have "mmZoneRemove env z2 ?st1 = Some ?st'"
    using assms(3) nz ab(3) dr shift len(2)
    by (cases st) (simp add: mmZoneRemove_def zn_def nat_add_distrib)
  then have merge: "mmZoneMerge env z1 z2 st = Some (True, ?st')"
    using assms(2-5) sz st by (simp add: mmZoneMerge_def upd_zone_def)
  have nu: "unat (zn_numPages a + zn_numPages b) = unat (zn_numPages a) + unat (zn_numPages b)"
    using assms(8) by (simp add: unat_word_ariths)
  have fa: "zone_fits ?a"
    using ab(2,4) assms(4) zone_end_unat [OF ab(2)] nu by (auto simp: zone_fits_def word_less_nat_alt)
  have new: "zfrom zn p = zfrom (ps_zone st) p" "zto zn p = (if p = z1 then zto (ps_zone st) z2 else zto (ps_zone st) p)"
    if "p \<in> set (us @ z1 # vs)" for p
    using that nz assms(2,3) zones_zone [OF assms(1), of p] zone_end_unat [OF ab(2)] assms(4) nu
    by (auto simp: zn_def zfrom_def zto_def)
  have "\<exists>z. zn ((us @ z1 # vs) ! i) = Some z \<and> zn_zoneIdx z = int i \<and> zone_fits z" if i: "i < length (us @ z1 # vs)" for i
  proof -
    consider "i < length us" | "i = length us" | j where "i = Suc (length us + j)" "j < length vs"
    proof (cases "length us < i")
      case True
      then obtain j where "i = Suc (length us + j)" using less_imp_Suc_add by blast
      then show ?thesis using that(3) [of j] i by simp
    qed (use that(1,2) in linarith)
    then show ?thesis
    proof cases
      case 1
      then have "us ! i \<in> set us" by simp
      then have "us ! i \<notin> set vs" using nz(6) by blast
      then show ?thesis using \<open>us ! i \<in> set us\<close> idx [of i] 1 nz by (auto simp: nth_append zn_def)
    next
      case 2
      then show ?thesis using nz ab(1) fa by (simp add: nth_append zn_def)
    next
      case 3
      then have "vs ! j \<in> set vs" by simp
      then show ?thesis using idx [of "Suc i"] 3 nz by (auto simp: nth_append zn_def zone_fits_def)
    qed
  qed
  moreover have "sorted_wrt (\<lambda>p q. zto zn p \<le> zfrom zn q) (us @ z1 # vs)"
  proof -
    have "sorted_wrt (\<lambda>p q. (if p = z1 then zto (ps_zone st) z2 else zto (ps_zone st) p) \<le> zfrom (ps_zone st) q) (us @ z1 # vs)"
      using srt nz by (auto simp: sorted_wrt_append elim!: sorted_wrt_mono_rel [rotated])
    then show ?thesis by (rule sorted_wrt_mono_rel [rotated]) (simp add: new)
  qed
  ultimately have "zones_ok ?st' (us @ z1 # vs)"
    using d len arr by (auto simp: zones_ok_def)
  with merge nz show ?thesis by (auto simp: zn_def)
qed

text \<open>C29: Merging two neighbouring zones adds their counts but not their free lists. So once the first
  zone's own pages have been taken, the next allocation from the merged zone finds an empty list
  and faults, although the count says that pages are free.\<close>

theorem merge_faults:
  assumes "zones_ok st (us @ z1 # z2 # vs)" and "ps_zone st z1 = Some a" "ps_zone st z2 = Some b"
    and "zone_end a = zn_pfn b" "zn_flags a = zn_flags b" "\<not> zn_lock a" "z1 \<noteq> 0"
    and "has_flag (zn_flags a) MM_ZONE_ALLOCATABLE" "\<not> has_flag (zn_flags a) MM_ZONE_NO_GENERIC"
    and "zn_freeCount a = int (unat (zn_numPages a))" "zn_freeCount b = int (unat (zn_numPages b))"
    and "unat (zn_numPages a) + unat (zn_numPages b) < 2 ^ 31"
    and "nklist (ps_links st) (zone_freeList z1) xs" "length xs = unat (zn_numPages a)" "lnext (ps_links st) 0 = None"
  shows "\<exists>st'. mmZoneMerge env z1 z2 st = Some (True, st') \<and> zones_ok st' (us @ z1 # vs) \<and>
    alloc_pages (Suc (length xs)) (st'\<lparr>ps_freeHint := z1\<rparr>) = None"
proof -
  obtain st' where st': "mmZoneMerge env z1 z2 st = Some (True, st')" "zones_ok st' (us @ z1 # vs)"
    "ps_links st' = ps_links st" "ps_zone st' z1 = Some (a\<lparr>zn_numPages := zn_numPages a + zn_numPages b,
      zn_freeCount := zn_freeCount a + zn_freeCount b\<rparr>)"
    using mmZoneMerge_ok [OF assms(1-5,10-12)] by blast
  have "zone_fits b" using zones_zone [OF assms(1), of z2] assms(3) by auto
  then have "0 < unat (zn_numPages b)" by (simp add: zone_fits_def word_less_nat_alt)
  then have "overcounted (st'\<lparr>ps_freeHint := z1\<rparr>) z1 xs (unat (zn_numPages b))"
    using assms st' by (simp add: overcounted_def)
  from overcounted_faults [OF this] st' show ?thesis by blast
qed

section \<open>A state to evaluate\<close>

text \<open>Two zones of three pages and one page, one of the former allocated; one bucket and one object.\<close>

definition demo_zone :: "u64 \<Rightarrow> int \<Rightarrow> u64 \<Rightarrow> int \<Rightarrow> addr \<Rightarrow> mmZone" where
  "demo_zone pfn idx n k pmap = \<lparr>zn_pfn = pfn, zn_zoneIdx = idx, zn_numPages = n, zn_freeCount = k, zn_flags = 16,
     zn_pfnMap = pmap, zn_lock = False\<rparr>"

definition demo_page :: "u64 \<Rightarrow> addr \<Rightarrow> u32 \<Rightarrow> mmPage" where
  "demo_page pfn zone flags = \<lparr>pg_pfn = pfn, pg_zone = zone, pg_flags = flags, pg_fixCount = 0, pg_obj = 0,
     pg_offset = 0, pg_maps = 0, pg_lock = False\<rparr>"

definition demo_links :: links where
  "demo_links = \<lparr>
     lnext = [0x1028 \<mapsto> 0x2030, 0x2030 \<mapsto> 0x2088, 0x2088 \<mapsto> 0x1028, 0x1128 \<mapsto> 0x2138, 0x2138 \<mapsto> 0x1128,
       0x3000 \<mapsto> 0x3000, 0x4028 \<mapsto> 0x4028, 0x20E0 \<mapsto> 0, 0x20F0 \<mapsto> 0],
     lprev = [0x2030 \<mapsto> 0x1028, 0x2088 \<mapsto> 0x2030, 0x1028 \<mapsto> 0x2088, 0x2138 \<mapsto> 0x1128, 0x1128 \<mapsto> 0x2138,
       0x3000 \<mapsto> 0x3000, 0x4028 \<mapsto> 0x4028, 0x20E0 \<mapsto> 0, 0x20F0 \<mapsto> 0]\<rparr>"

definition demo_pages :: "unit pageState" where
  "demo_pages = \<lparr>ps_zones = [0x1000, 0x1100] @ replicate 1022 0, ps_numZones = 2,
     ps_zone = [0x1000 \<mapsto> demo_zone 0x100 0 3 2 0x2000, 0x1100 \<mapsto> demo_zone 0x103 1 1 1 0x2108,
       0x1200 \<mapsto> demo_zone 0x80 0 0x10 0 0],
     ps_page = [0x2000 \<mapsto> demo_page 0x100 0x1000 1, 0x2058 \<mapsto> demo_page 0x101 0x1000 1,
       0x20B0 \<mapsto> demo_page 0x102 0x1000 8, 0x2108 \<mapsto> demo_page 0x103 0x1100 1],
     ps_links = demo_links, ps_pfnMapMark = 0x2160, ps_freeHint = 0x1000, ps_pageHash = 0x3000, ps_numBuckets = 1,
     ps_bucketLock = (\<lambda>_. False), ps_numPages = 4, ps_freePages = 3, ps_fixedPages = 0, ps_ext = ()\<rparr>"

definition demo_lists :: "plist \<Rightarrow> addr list" where
  "demo_lists l = (if l = FreeOf 0x1000 then [0x2000, 0x2058] else if l = FreeOf 0x1100 then [0x2108] else [])"

definition demo_pageEnv :: "unit pageEnv" where
  "demo_pageEnv = \<lparr>pe_allocZone = (\<lambda>st. (0, st)), pe_freeZone = (\<lambda>p x. x), pe_allocFake = (\<lambda>st. (0, st)),
     pe_freeFake = (\<lambda>p x. x), pe_fix = (\<lambda>p x. x), pe_unfix = (\<lambda>p x. x), pe_mapEarly = (\<lambda>v p f st. Some st)\<rparr>"

lemma demo_plists: "plists demo_pages [0x1000, 0x1100] {0x4000} = {FreeOf 0x1000, FreeOf 0x1100, Bucket 0, ObjOf 0x4000}"
proof -
  have "{b :: u64. b < 1} = {0}" by (auto simp: word_less_nat_alt unat_eq_0)
  then show ?thesis by (simp add: plists_def demo_pages_def insert_commute)
qed

lemma demo_pages_ok: "pages_ok demo_pages [0x1000, 0x1100] {0x4000} demo_lists"
proof -
  have "family nklist demo_links {FreeOf 0x1000, FreeOf 0x1100, Bucket 0, ObjOf 0x4000} (head_of 0x3000) (links_at demo_lists)"
    by (simp add: family_def nklist_def demo_links_def links_at_def demo_lists_def zone_freeList_def page_link_def
      obj_pageList_def)
  then show ?thesis
    unfolding pages_ok_def demo_plists
    by (simp add: demo_pages_def demo_lists_def demo_zone_def demo_page_def MM_PAGE_FREE_def)
qed

lemma demo_zones_ok: "zones_ok demo_pages [0x1000, 0x1100]"
  by (simp add: zones_ok_def demo_pages_def demo_zone_def MAX_ZONES_def zone_fits_def less_Suc_eq zto_def zfrom_def)

lemma demo_spare: "spare demo_pages [0x1000, 0x1100] {0x4000} demo_lists 0x20B0"
  unfolding spare_def demo_plists
  by (simp add: demo_pages_def demo_links_def is_link_def page_link_def page_objLink_def links_at_def demo_lists_def
      zone_freeList_def obj_pageList_def)

text \<open>A zone that fits, one refused, and one that starts where another does.\<close>

definition insert_demo :: "mmZone \<Rightarrow> unit pageState" where
  "insert_demo z = demo_pages\<lparr>ps_zone := (ps_zone demo_pages)(0x1200 \<mapsto> z)\<rparr>"

lemma insert_demo_ok: "zones_ok (insert_demo z) [0x1000, 0x1100]"
  by (simp add: zones_ok_def insert_demo_def demo_pages_def demo_zone_def MAX_ZONES_def zone_fits_def
      less_Suc_eq zto_def zfrom_def)

theorem zone_insert_witness:
  "(\<exists>st' us vs. mmZoneInsert 0x1200 (insert_demo (demo_zone 0x80 0 0x10 0 0)) = Some (True, st') \<and>
     [0x1000, 0x1100] = us @ vs \<and> zones_ok st' (us @ 0x1200 # vs)) \<and>
   mmZoneInsert 0x1200 (insert_demo (demo_zone 0xFF 0 2 0 0)) =
     Some (False, insert_demo (demo_zone 0xFF 0 2 0 0)) \<and>
   (\<exists>st'. mmZoneInsert 0x1200 (insert_demo (demo_zone 0x100 0 1 0 0)) = Some (True, st') \<and>
     (\<forall>ys. \<not> zones_ok st' ys))"
proof -
  have z: "ps_zone (insert_demo z) 0x1200 = Some z" "0x1200 \<notin> set [0x1000, 0x1100 :: addr]" for z
    by (simp_all add: insert_demo_def)
  show ?thesis
    using zone_insert [OF insert_demo_ok z, of "demo_zone 0x80 0 0x10 0 0"]
      zone_insert [OF insert_demo_ok z, of "demo_zone 0xFF 0 2 0 0"]
      zone_insert [OF insert_demo_ok z, of "demo_zone 0x100 0 1 0 0"]
    by (auto simp: shares_page_def zfrom_def zto_def insert_demo_def demo_pages_def demo_zone_def MAX_ZONES_def
        zone_fits_def)
qed

theorem alloc_page_witness:
  "\<exists>st'. MmAllocPage demo_pages = Some (0x2000, st') \<and>
     pages_ok st' [0x1000, 0x1100] {0x4000} (demo_lists(FreeOf 0x1000 := [0x2058])) \<or>
   MmAllocPage demo_pages = Some (0x2108, st') \<and>
     pages_ok st' [0x1000, 0x1100] {0x4000} (demo_lists(FreeOf 0x1100 := []))"
proof -
  have "serves demo_pages demo_lists 0x1000"
    by (simp add: serves_def demo_lists_def demo_pages_def demo_zone_def has_flag_def MM_ZONE_ALLOCATABLE_def MM_ZONE_NO_GENERIC_def)
  then show ?thesis using alloc_page [OF demo_pages_ok] by (auto simp: demo_lists_def)
qed

theorem free_page_witness:
  "\<exists>st'. MmFreePage demo_pageEnv 0x20B0 demo_pages = Some st' \<and>
     pages_ok st' [0x1000, 0x1100] {0x4000} (demo_lists(FreeOf 0x1000 := [0x20B0, 0x2000, 0x2058]))"
proof -
  have "ps_page demo_pages 0x20B0 = Some (demo_page 0x102 0x1000 8)" by (simp add: demo_pages_def)
  then show ?thesis
    using free_page [OF demo_pages_ok, of "0x20B0" "demo_page 0x102 0x1000 8" "0x1000" demo_pageEnv] demo_spare
    by (auto simp: spare_def demo_page_def demo_lists_def)
qed

theorem page_hash_witness:
  "\<exists>st1 st2. MmAddPage 0x4000 0x5000 0x20B0 demo_pages = Some st1 \<and>
     MmLookupPage 0x4000 0x5000 st1 = Some (0x20B0, st1) \<and>
     MmRemovePage 0x20B0 st1 = Some st2 \<and> MmLookupPage 0x4000 0x5000 st2 = Some (0, st2)"
proof -
  have pg: "ps_page demo_pages 0x20B0 = Some (demo_page 0x102 0x1000 8)" by (simp add: demo_pages_def)
  have fl: "\<not> has_flag (pg_flags (demo_page 0x102 0x1000 8)) MM_PAGE_IN_OBJECT"
    by (simp add: has_flag_def demo_page_def MM_PAGE_IN_OBJECT_def)
  have k0: "key_pages demo_pages demo_lists 0x4000 0x5000 = []" by (simp add: key_pages_def demo_lists_def)
  obtain st1 P1 where 1: "MmAddPage 0x4000 0x5000 0x20B0 demo_pages = Some st1"
    "pages_ok st1 [0x1000, 0x1100] {0x4000} P1" "key_pages st1 P1 0x4000 0x5000 = [0x20B0]"
  proof -
    obtain st1 P1 where "MmAddPage 0x4000 0x5000 0x20B0 demo_pages = Some st1"
      "pages_ok st1 [0x1000, 0x1100] {0x4000} P1"
      "\<forall>ob' off'. key_pages st1 P1 ob' off' = (if ob' = 0x4000 \<and> off' = 0x5000
        then 0x20B0 # key_pages demo_pages demo_lists 0x4000 0x5000 else key_pages demo_pages demo_lists ob' off')"
      using page_hash [OF demo_pages_ok, THEN conjunct2, THEN conjunct1, rule_format, of "0x20B0" _ "0x4000" "0x5000"]
        pg fl demo_spare by blast
    then show ?thesis using that k0 by simp
  qed
  obtain st2 P2 where 2: "MmRemovePage 0x20B0 st1 = Some st2" "pages_ok st2 [0x1000, 0x1100] {0x4000} P2"
    "key_pages st2 P2 0x4000 0x5000 = []"
  proof -
    have "0x20B0 \<in> set (key_pages st1 P1 0x4000 0x5000)" by (simp add: 1(3))
    then obtain st2 P2 where "MmRemovePage 0x20B0 st1 = Some st2" "pages_ok st2 [0x1000, 0x1100] {0x4000} P2"
      "\<forall>ob' off'. key_pages st2 P2 ob' off' = (if ob' = 0x4000 \<and> off' = 0x5000
        then remove1 0x20B0 (key_pages st1 P1 0x4000 0x5000) else key_pages st1 P1 ob' off')"
      using page_hash [OF 1(2), THEN conjunct2, THEN conjunct2, rule_format] by blast
    then show ?thesis using that 1(3) by simp
  qed
  show ?thesis using 1 2 page_hash [OF 1(2)] page_hash [OF 2(2)] by simp
qed

definition demo_merge :: "unit pageState" where
  "demo_merge = demo_pages\<lparr>ps_zone := [0x1000 \<mapsto> demo_zone 0x100 0 2 2 0x2000, 0x1100 \<mapsto> demo_zone 0x102 1 1 1 0x2108]\<rparr>"

theorem merge_faults_witness:
  "\<exists>st'. mmZoneMerge demo_pageEnv 0x1000 0x1100 demo_merge = Some (True, st') \<and>
     alloc_pages 3 (st'\<lparr>ps_freeHint := 0x1000\<rparr>) = None"
proof -
  have ok: "zones_ok demo_merge ([] @ 0x1000 # 0x1100 # [])"
    by (simp add: zones_ok_def demo_merge_def demo_pages_def demo_zone_def MAX_ZONES_def zone_fits_def less_Suc_eq
        zto_def zfrom_def)
  have z: "ps_zone demo_merge 0x1000 = Some (demo_zone 0x100 0 2 2 0x2000)"
    "ps_zone demo_merge 0x1100 = Some (demo_zone 0x102 1 1 1 0x2108)" by (simp_all add: demo_merge_def)
  have nk: "nklist (ps_links demo_merge) (zone_freeList 0x1000) [0x2030, 0x2088]" "lnext (ps_links demo_merge) 0 = None"
    by (simp_all add: demo_merge_def demo_pages_def demo_links_def nklist_def zone_freeList_def)
  show ?thesis
    using merge_faults [OF ok z, of "[0x2030, 0x2088]" demo_pageEnv] nk
    by (auto simp: demo_zone_def zone_end_def has_flag_def MM_ZONE_ALLOCATABLE_def MM_ZONE_NO_GENERIC_def
      numeral_3_eq_3)
qed

end
