(* ===== verification/Vfs.thy ===== *)
theory Vfs
  imports FatDir
begin

text \<open>
  The loader's virtual file system (\<open>source/nexboot/src/vfs.c\<close>): open files over the drivers that
  \<open>filesys/fstable.h\<close> dispatches to.

  A driver is a record of its functions over its own mounted state, the entry of the function
  tables for it; \<open>fatDriver\<close> is that of the FAT driver. An open file is a value that the
  operations return changed, and the list of open files, which is libnex's, an argument. \<open>vn_mallocFile\<close>
  and \<open>vn_mallocBuf\<close> say whether the allocations of a file and of so many bytes for its buffer succeed. The block buffer of a file is the block read last.
  \<open>None\<close> is a fault, an access outside a buffer, or a driver that faults; what the code reports
  with \<open>false\<close> or \<open>- 1\<close> is a value.
\<close>

section \<open>State\<close>

text \<open>The part of \<open>NbFileSys_t\<close> and the function tables that a driver provides.\<close>

record ('f, 's) fsDriver =
  dr_blockSz :: "'s \<Rightarrow> u16"
  dr_open :: "'s \<Rightarrow> byte list \<Rightarrow> (('f \<times> u32) option \<times> 's) option"
  dr_read :: "'s \<Rightarrow> 'f \<Rightarrow> u32 \<Rightarrow> (byte list option \<times> 'f \<times> 's) option"
  dr_info :: "'s \<Rightarrow> byte list \<Rightarrow> ((u32 \<times> fileType) option \<times> 's) option"
  dr_getDir :: "'s \<Rightarrow> byte list \<Rightarrow> dirIter \<Rightarrow> (dirIter option \<times> 's) option"
  dr_readDir :: "'s \<Rightarrow> dirIter \<Rightarrow> (bool \<times> dirIter \<times> 's) option"

definition fatDriver :: "('c, 'd) fatEnv \<Rightarrow> (fatFile, ('c, 'd) fatFs) fsDriver" where
  "fatDriver env = \<lparr>dr_blockSz = fs_blockSz, dr_open = FatOpenFile env, dr_read = FatReadFileBlock env,
     dr_info = FatGetFileInfo env, dr_getDir = FatGetDir env, dr_readDir = FatReadDir env\<rparr>"

datatype fsDriverId = FS_DRIVER_FAT | FS_DRIVER_ISO9660

definition fsTypeToDriver :: "volFs \<Rightarrow> fsDriverId option" where
  "fsTypeToDriver type =
     (case type of
        VOLUME_FS_FAT \<Rightarrow> Some FS_DRIVER_FAT
      | VOLUME_FS_FAT12 \<Rightarrow> Some FS_DRIVER_FAT
      | VOLUME_FS_FAT16 \<Rightarrow> Some FS_DRIVER_FAT
      | VOLUME_FS_FAT32 \<Rightarrow> Some FS_DRIVER_FAT
      | VOLUME_FS_ISO9660 \<Rightarrow> Some FS_DRIVER_ISO9660
      | _ \<Rightarrow> None)"

text \<open>\<open>NbFile_t\<close>.\<close>

record 'f vfsFile =
  vf_fileId :: int
  vf_name :: "byte list"
  vf_pos :: u32
  vf_size :: u32
  vf_internal :: 'f

record ('s, 'l) vfs =
  vs_fs :: 's
  vs_files :: 'l
  vs_id :: int

record 'l vfsEnv =
  vn_mallocFile :: bool
  vn_mallocBuf :: "nat \<Rightarrow> bool"
  vn_add :: "'l \<Rightarrow> int \<Rightarrow> 'l"
  vn_remove :: "'l \<Rightarrow> int \<Rightarrow> 'l"

definition VFS_NAME_MAX :: nat where "VFS_NAME_MAX = 256"

section \<open>Operations\<close>

text \<open>Opening: the name is copied into the file's array first; a driver that cannot open it gives the
  memory back.\<close>

definition NbVfsOpenFile ::
  "'l vfsEnv \<Rightarrow> ('f, 's) fsDriver \<Rightarrow> ('s, 'l) vfs \<Rightarrow> byte list \<Rightarrow> ('f vfsFile option \<times> ('s, 'l) vfs) option" where
  "NbVfsOpenFile env drv vs name =
     (if \<not> vn_mallocFile env then Some (None, vs)
      else if VFS_NAME_MAX \<le> length name then None
      else if \<not> vn_mallocBuf env (unat (dr_blockSz drv (vs_fs vs))) then Some (None, vs)
      else if \<not> int32_range (vs_id vs + 1) then None
      else
        let vs = vs\<lparr>vs_id := vs_id vs + 1\<rparr>
        in do {
          (r, s) \<leftarrow> dr_open drv (vs_fs vs) name;
          let vs = vs\<lparr>vs_fs := s\<rparr>;
          Some (case r of
            None \<Rightarrow> (None, vs)
          | Some (f, sz) \<Rightarrow>
              (Some \<lparr>vf_fileId = vs_id vs, vf_name = name, vf_pos = 0, vf_size = sz, vf_internal = f\<rparr>,
               vs\<lparr>vs_files := vn_add env (vs_files vs) (vs_id vs)\<rparr>)) })"

definition NbVfsCloseFile :: "'l vfsEnv \<Rightarrow> ('s, 'l) vfs \<Rightarrow> 'f vfsFile \<Rightarrow> ('s, 'l) vfs" where
  "NbVfsCloseFile env vs file = vs\<lparr>vs_files := vn_remove env (vs_files vs) (vf_fileId file)\<rparr>"

definition NbVfsGetFileInfo ::
  "('f, 's) fsDriver \<Rightarrow> ('s, 'l) vfs \<Rightarrow> byte list \<Rightarrow> ((u32 \<times> fileType) option \<times> ('s, 'l) vfs) option" where
  "NbVfsGetFileInfo drv vs name = do {
     (r, s) \<leftarrow> dr_info drv (vs_fs vs) name;
     Some (r, vs\<lparr>vs_fs := s\<rparr>) }"

definition NbVfsGetDir ::
  "('f, 's) fsDriver \<Rightarrow> ('s, 'l) vfs \<Rightarrow> byte list \<Rightarrow> dirIter \<Rightarrow> (dirIter option \<times> ('s, 'l) vfs) option" where
  "NbVfsGetDir drv vs path iter = do {
     (r, s) \<leftarrow> dr_getDir drv (vs_fs vs) path iter;
     Some (r, vs\<lparr>vs_fs := s\<rparr>) }"

definition NbVfsReadDir ::
  "('f, 's) fsDriver \<Rightarrow> ('s, 'l) vfs \<Rightarrow> dirIter \<Rightarrow> (bool \<times> dirIter \<times> ('s, 'l) vfs) option" where
  "NbVfsReadDir drv vs iter = do {
     (r, iter, s) \<leftarrow> dr_readDir drv (vs_fs vs) iter;
     Some (r, iter, vs\<lparr>vs_fs := s\<rparr>) }"

definition NbVfsSeekFile :: "'f vfsFile \<Rightarrow> u32 \<Rightarrow> bool \<Rightarrow> bool \<times> 'f vfsFile" where
  "NbVfsSeekFile file pos relative =
     (let file = (if relative then file\<lparr>vf_pos := vf_pos file + pos\<rparr> else file\<lparr>vf_pos := pos\<rparr>)
      in if vf_pos file \<ge> vf_size file then (False, file) else (True, file))"

text \<open>The loop of \<open>VfsFsReadFile\<close>, with \<open>n\<close> blocks to go; \<open>out\<close> is what was written to the caller's
  buffer so far, and its length is \<open>op->bytesRead\<close>. Copying from behind the block buffer is a fault.\<close>

fun read_loop ::
  "('f, 's) fsDriver \<Rightarrow> u32 \<Rightarrow> nat \<Rightarrow> 's \<Rightarrow> 'f vfsFile \<Rightarrow> byte list \<Rightarrow>
   (bool \<times> byte list \<times> 'f vfsFile \<times> 's) option" where
  "read_loop drv count 0 s file out = Some (True, out, file, s)"
| "read_loop drv count (Suc n) s file out = do {
     (r, f, s) \<leftarrow> dr_read drv s (vf_internal file) (vf_pos file);
     let file = file\<lparr>vf_internal := f\<rparr>;
     (case r of
        None \<Rightarrow> Some (False, out, file, s)
      | Some block \<Rightarrow>
          let blockSz = ucast (dr_blockSz drv s) :: u32;
              bytesRead =
                (if vf_pos file + (if count > blockSz then blockSz else count) > vf_size file
                 then vf_size file - vf_pos file
                 else if blockSz > count then count
                 else if vf_pos file mod blockSz \<noteq> 0 then blockSz - vf_pos file mod blockSz
                 else blockSz);
              base = vf_pos file mod blockSz
          in if blockSz = 0 \<or> length block < unat base + unat bytesRead then None
             else
               let out = out @ take (unat bytesRead) (drop (unat base) block);
                   file = file\<lparr>vf_pos := vf_pos file + bytesRead\<rparr>
               in if bytesRead \<noteq> blockSz then Some (True, out, file, s)
                  else read_loop drv count n s file out) }"

text \<open>The result is \<open>op.bytesRead\<close> or \<open>- 1\<close>, with what is in the buffer.\<close>

definition NbVfsReadFile ::
  "('f, 's) fsDriver \<Rightarrow> 's \<Rightarrow> 'f vfsFile \<Rightarrow> u32 \<Rightarrow> (int \<times> byte list \<times> 'f vfsFile \<times> 's) option" where
  "NbVfsReadFile drv s file count =
     (if vf_pos file \<ge> vf_size file then Some (0, [], file, s)
      else
        let blockSz = ucast (dr_blockSz drv s) :: u32
        in if blockSz = 0 then None
           else do {
             (ok, out, file, s) \<leftarrow> read_loop drv count (unat ((count + (blockSz - 1)) div blockSz)) s file [];
             Some (if ok then to_int32 (int (length out)) else - 1, out, file, s) })"

section \<open>Loading a file\<close>

text \<open>\<open>osReadFile\<close> of \<open>source/nexboot/src/nexnix.c\<close>, with the full path that \<open>NbShellOpenFile\<close> makes of
  the name. \<open>alloc\<close> is the firmware's page allocator: what so many new pages hold, if there are so many. \<open>NbCrash\<close>
  does not return.\<close>

definition NEXBOOT_CPU_PAGE_SIZE :: nat where "NEXBOOT_CPU_PAGE_SIZE = 4096"

datatype loaded = Loaded "byte list" | NotLoaded | Crashed

text \<open>The loop over the pages, with \<open>n\<close> of them to go from page \<open>i\<close> on: a read writes its bytes into the
  memory, and one that returns 0 ends it. Writing behind the memory is a fault.\<close>

fun load_pages ::
  "('f, 's) fsDriver \<Rightarrow> nat \<Rightarrow> nat \<Rightarrow> byte list \<Rightarrow> 's \<Rightarrow> 'f vfsFile \<Rightarrow> (bool \<times> byte list \<times> 'f vfsFile \<times> 's) option" where
  "load_pages drv 0 i mem s fl = Some (True, mem, fl, s)"
| "load_pages drv (Suc n) i mem s fl =
     (if \<not> int32_range (int (i * NEXBOOT_CPU_PAGE_SIZE)) then None
      else do {
        (r, out, fl, s) \<leftarrow> NbVfsReadFile drv s fl (of_nat NEXBOOT_CPU_PAGE_SIZE);
        let base = i * NEXBOOT_CPU_PAGE_SIZE;
        if length mem < base + length out then None
        else
          let mem = take base mem @ out @ drop (base + length out) mem
          in if r = 0 then Some (False, mem, fl, s) else load_pages drv n (i + 1) mem s fl })"

definition osReadFile ::
  "'l vfsEnv \<Rightarrow> ('f, 's) fsDriver \<Rightarrow> (bool \<Rightarrow> nat \<Rightarrow> byte list option) \<Rightarrow> ('s, 'l) vfs \<Rightarrow> bool \<Rightarrow> byte list \<Rightarrow>
   (loaded \<times> ('s, 'l) vfs) option" where
  "osReadFile env drv alloc vs persists path = do {
     (r, vs) \<leftarrow> NbVfsOpenFile env drv vs path;
     (case r of
        None \<Rightarrow> Some (NotLoaded, vs)
      | Some fl \<Rightarrow>
          let numPages = unat ((vf_size fl + (of_nat NEXBOOT_CPU_PAGE_SIZE - 1)) div of_nat NEXBOOT_CPU_PAGE_SIZE)
          in (case alloc persists numPages of
                None \<Rightarrow> Some (Crashed, vs)
              | Some mem \<Rightarrow> do {
                  (ok, mem, fl, s) \<leftarrow> load_pages drv numPages 0 mem (vs_fs vs) fl;
                  Some (if ok then Loaded mem else NotLoaded, NbVfsCloseFile env (vs\<lparr>vs_fs := s\<rparr>) fl) })) }"

text \<open>A step of the loop with the block and the amounts named.\<close>

lemma read_loop_step_code:
  assumes "dr_read drv s (vf_internal fl) (vf_pos fl) = Some (Some block, f', s')"
    and "b = ucast (dr_blockSz drv s')"
    and "r = (if vf_pos fl + (if count > b then b else count) > vf_size fl then vf_size fl - vf_pos fl
      else if b > count then count else if vf_pos fl mod b \<noteq> 0 then b - vf_pos fl mod b else b)"
  shows "read_loop drv count (Suc n) s fl out =
    (if b = 0 \<or> length block < unat (vf_pos fl mod b) + unat r then None
     else let fl' = fl\<lparr>vf_internal := f', vf_pos := vf_pos fl + r\<rparr>;
              out' = out @ take (unat r) (drop (unat (vf_pos fl mod b)) block)
          in if r \<noteq> b then Some (True, out', fl', s') else read_loop drv count n s' fl' out')"
proof -
  have f: "vf_pos (fl\<lparr>vf_internal := f'\<rparr>) = vf_pos fl" "vf_size (fl\<lparr>vf_internal := f'\<rparr>) = vf_size fl"
    by simp_all
  show ?thesis
    unfolding read_loop.simps(2) assms(1) Option.bind.bind_lunit Let_def prod.case option.case f assms(2) [symmetric]
    unfolding assms(3) [symmetric] ..
qed

text \<open>Reading leaves the identity of the file alone.\<close>

lemma read_loop_id: "read_loop drv count n s fl out = Some (ok, out', fl', s') \<Longrightarrow> vf_fileId fl' = vf_fileId fl"
proof (induction n arbitrary: s fl out)
  case (Suc n)
  obtain r f s1 where rd: "dr_read drv s (vf_internal fl) (vf_pos fl) = Some (r, f, s1)"
    using Suc.prems by (cases "dr_read drv s (vf_internal fl) (vf_pos fl)") auto
  show ?case
  proof (cases r)
    case None
    then show ?thesis using Suc.prems rd by auto
  next
    case (Some block)
    with rd have "dr_read drv s (vf_internal fl) (vf_pos fl) = Some (Some block, f, s1)" by simp
    note code = read_loop_step_code [OF this]
    define b :: u32 where "b = ucast (dr_blockSz drv s1)"
    define k where "k = (if vf_pos fl + (if count > b then b else count) > vf_size fl then vf_size fl - vf_pos fl
      else if b > count then count else if vf_pos fl mod b \<noteq> 0 then b - vf_pos fl mod b else b)"
    let ?fl = "fl\<lparr>vf_internal := f, vf_pos := vf_pos fl + k\<rparr>"
    let ?out = "out @ take (unat k) (drop (unat (vf_pos fl mod b)) block)"
    have "Some (True, ?out, ?fl, s1) = Some (ok, out', fl', s') \<or>
        read_loop drv count n s1 ?fl ?out = Some (ok, out', fl', s')"
      using Suc.prems [unfolded code [OF b_def k_def] Let_def] by (simp only: option.distinct simp_thms split: if_split_asm)
    then show ?thesis using Suc.IH by fastforce
  qed
qed simp

lemma read_file_id: "NbVfsReadFile drv s fl count = Some (r, out, fl', s') \<Longrightarrow> vf_fileId fl' = vf_fileId fl"
  by (auto simp: NbVfsReadFile_def Let_def bind_eq_Some_conv dest: read_loop_id split: if_splits)

lemma load_pages_id: "load_pages drv n i mem s fl = Some (ok, mem', fl', s') \<Longrightarrow> vf_fileId fl' = vf_fileId fl"
  by (induction drv n i mem s fl rule: load_pages.induct)
    (auto simp: Let_def bind_eq_Some_conv dest: read_file_id split: if_splits)

section \<open>Reading from any driver\<close>

text \<open>The blocks \<open>blk\<close> of \<open>B\<close> bytes hold the data \<open>D\<close>; the last one may be longer than what is left of it.\<close>

definition file_data :: "(u32 \<Rightarrow> byte list option) \<Rightarrow> nat \<Rightarrow> byte list \<Rightarrow> bool" where
  "file_data blk B D \<longleftrightarrow> (\<forall>pos. unat pos < length D \<longrightarrow>
     (\<exists>b. blk pos = Some b \<and> length b = B \<and>
        take (length D - unat pos div B * B) b = take B (drop (unat pos div B * B) D)))"

lemma file_data_block:
  assumes "file_data blk B D" and "unat pos < length D" and "0 < B"
    and "unat pos mod B + n \<le> B" and "unat pos + n \<le> length D"
  shows "\<exists>b. blk pos = Some b \<and> length b = B \<and> take n (drop (unat pos mod B) b) = take n (drop (unat pos) D)"
proof -
  let ?k = "unat pos div B * B" and ?r = "unat pos mod B"
  have p: "unat pos = ?k + ?r" by simp
  obtain b where b: "blk pos = Some b" "length b = B" "take (length D - ?k) b = take B (drop ?k D)"
    using assms(1,2) unfolding file_data_def by blast
  have le: "?r + n \<le> length D - ?k" using assms(5) p by linarith
  have "take n (drop ?r b) = take n (drop ?r (take (length D - ?k) b))"
  proof -
    have "take n (drop ?r (take (length D - ?k) b)) = take (min n (length D - ?k - ?r)) (drop ?r b)"
      unfolding drop_take take_take ..
    also have "min n (length D - ?k - ?r) = n" using le by linarith
    finally show ?thesis ..
  qed
  also have "\<dots> = take n (drop ?r (take B (drop ?k D)))" using b(3) by simp
  also have "\<dots> = take n (drop (?r + ?k) D)" using assms(4) by (simp add: drop_take min_absorb1)
  also have "?r + ?k = unat pos" by simp
  finally show ?thesis using b by blast
qed

lemma unat_eq_of_nat: "unat w = m \<Longrightarrow> w = of_nat m"
  by (drule sym) simp

lemma read_loop_Suc:
  assumes "dr_read drv s (vf_internal file) (vf_pos file) = Some (Some block, f', s')"
    and "b = ucast (dr_blockSz drv s')" and "b \<noteq> 0"
    and "r = (if vf_pos file + (if count > b then b else count) > vf_size file then vf_size file - vf_pos file
      else if b > count then count else if vf_pos file mod b \<noteq> 0 then b - vf_pos file mod b else b)"
    and "unat (vf_pos file mod b) + unat r \<le> length block"
  shows "read_loop drv count (Suc n) s file out =
    (let file' = file\<lparr>vf_internal := f', vf_pos := vf_pos file + r\<rparr>;
         out' = out @ take (unat r) (drop (unat (vf_pos file mod b)) block)
     in if r \<noteq> b then Some (True, out', file', s') else read_loop drv count n s' file' out')"
proof -
  have g: "\<not> (b = 0 \<or> length block < unat (vf_pos file mod b) + unat r)" using assms(3,5) by simp
  show ?thesis by (rule trans [OF read_loop_step_code [OF assms(1,2,4)] if_not_P [OF g]])
qed

lemma next_block_fits:
  assumes "p \<noteq> len" and "p \<le> len" and "p mod B = 0" and "len mod B = (0::nat)"
  shows "p + B \<le> len"
proof -
  obtain i j where ij: "p = B * i" "len = B * j" using assms(3,4) by (auto simp: mod_eq_0_iff_dvd dvd_def)
  then have "i < j" using assms(1,2) by (metis mult_le_mono2 nat_less_le not_less order_antisym)
  then have "B * Suc i \<le> B * j" by (intro mult_le_mono2) simp
  then show ?thesis using ij by simp
qed

lemma mod_add_le_multiple:
  assumes "c dvd B" and "c dvd p" and "0 < (B::nat)"
  shows "p mod B + c \<le> B"
proof -
  obtain i where i: "B = c * i" using assms(1) by blast
  have "c dvd p mod B" using assms(1,2) by (simp add: dvd_mod)
  then obtain j where j: "p mod B = c * j" by blast
  have "p mod B < B" using assms(3) by simp
  then have "j < i" using i j by (metis mult_less_cancel1)
  then have "c * Suc j \<le> c * i" by (intro mult_le_mono2) simp
  then show ?thesis using i j by simp
qed

lemma round_up_bounds:
  assumes "0 < B" and "\<not> B dvd (c::nat)"
  shows "c < (c + (B - 1)) div B * B" and "(c + (B - 1)) div B * B < c + B"
proof -
  obtain q r where c: "c = q * B + r" and r: "0 < r" "r < B"
    using assms by (metis dvd_eq_mod_eq_0 div_mult_mod_eq mod_less_divisor gr0I)
  have "(c + (B - 1)) div B = Suc q" using c r by (intro div_nat_eqI) (auto simp: algebra_simps)
  then show "c < (c + (B - 1)) div B * B" "(c + (B - 1)) div B * B < c + B" using c r by simp_all
qed

locale block_reader =
  fixes drv :: "('f, 's) fsDriver"
    and good :: "'s \<Rightarrow> 'f \<Rightarrow> bool"
    and blk :: "u32 \<Rightarrow> byte list option"
    and bs :: u16
  assumes read: "good s f \<Longrightarrow> \<exists>f' s'. dr_read drv s f pos = Some (blk pos, f', s') \<and> good s' f'"
    and blockSz: "good s f \<Longrightarrow> dr_blockSz drv s = bs"
    and pos: "good s f \<Longrightarrow> 0 < bs"
begin

lemma bs32:
  assumes "good s f"
  shows "unat (ucast bs :: u32) = unat bs" and "unat bs < 2 ^ 16" and "0 < unat bs"
proof -
  show b: "unat bs < 2 ^ 16" using unsigned_less [of bs, where ?'a = nat] by simp
  show "unat (ucast bs :: u32) = unat bs" using b by (simp add: unsigned_ucast_eq take_bit_nat_eq_self)
  show "0 < unat bs" using pos [OF assms] by (simp add: word_less_nat_alt)
qed

text \<open>How many bytes a block gives at a position.\<close>

definition amount :: "nat \<Rightarrow> nat \<Rightarrow> nat \<Rightarrow> nat" where
  "amount c p len = (if len < p + min c (unat bs) then len - p else if c < unat bs then c else unat bs - p mod unat bs)"

lemma read_loop_step:
  assumes "good s (vf_internal file)" and "file_data blk (unat bs) D" and "vf_size file = of_nat (length D)"
    and "length D + 2 ^ 16 < 2 ^ 32" and "unat (vf_pos file) < length D"
    and "m = amount (unat count) (unat (vf_pos file)) (length D)"
    and "unat (vf_pos file) mod unat bs + m \<le> unat bs"
  shows "\<exists>f' s'. good s' f' \<and> read_loop drv count (Suc n) s file out =
    (let file' = file\<lparr>vf_internal := f', vf_pos := vf_pos file + of_nat m\<rparr>;
         out' = out @ take m (drop (unat (vf_pos file)) D)
     in if m \<noteq> unat bs then Some (True, out', file', s') else read_loop drv count n s' file' out')"
proof -
  let ?p = "unat (vf_pos file)" and ?B = "unat bs" and ?b = "ucast bs :: u32"
  note bs32 = bs32 [OF assms(1)]
  have len: "unat (vf_size file) = length D"
    using assms(3,4) by (simp add: unat_of_nat take_bit_nat_eq_self)
  have min: "unat (if count > ?b then ?b else count) = min (unat count) ?B"
    using bs32(1) by (simp add: min_def word_less_nat_alt)
  have "unat (vf_pos file + (if count > ?b then ?b else count)) = ?p + min (unat count) ?B"
    using min assms(4,5) bs32(2) by (subst unat_word_ariths) simp
  then have gt: "vf_pos file + (if count > ?b then ?b else count) > vf_size file \<longleftrightarrow> length D < ?p + min (unat count) ?B"
    using len by (simp add: word_less_nat_alt)
  have md: "unat (vf_pos file mod ?b) = ?p mod ?B" using bs32(1) by (simp add: unat_mod_distrib)
  have mdz: "vf_pos file mod ?b \<noteq> 0 \<longleftrightarrow> ?p mod ?B \<noteq> 0" using md by (metis unat_eq_0)
  have mB: "m \<le> ?B" using assms(7) by simp
  have mD: "?p + m \<le> length D" using assms(5,6) bs32(3) by (auto simp: amount_def min_def split: if_splits)
  let ?read = "if vf_pos file + (if count > ?b then ?b else count) > vf_size file then vf_size file - vf_pos file
      else if ?b > count then count else if vf_pos file mod ?b \<noteq> 0 then ?b - vf_pos file mod ?b else ?b"
  have cb: "?b > count \<longleftrightarrow> unat count < ?B" using bs32(1) by (simp add: word_less_nat_alt)
  have sub1: "unat (vf_size file - vf_pos file) = length D - ?p" using len assms(5) by (simp add: unat_sub_if')
  have "vf_pos file mod ?b \<le> ?b" using md bs32 by (simp add: word_le_nat_alt)
  then have sub2: "unat (?b - vf_pos file mod ?b) = ?B - ?p mod ?B" using md bs32(1) by (simp add: unat_sub)
  have u: "unat ?read = m" unfolding gt cb mdz using sub1 sub2 bs32(1) assms(6) by (simp add: amount_def)
  then have r: "?read = of_nat m" by (rule unat_eq_of_nat)
  have rb: "?read \<noteq> ?b \<longleftrightarrow> m \<noteq> ?B" unfolding word_unat_eq_iff [of ?read] u bs32(1) ..
  obtain f' s' where rd: "dr_read drv s (vf_internal file) (vf_pos file) = Some (blk (vf_pos file), f', s')" "good s' f'"
    using read [OF assms(1)] by blast
  obtain b where b: "blk (vf_pos file) = Some b" "length b = ?B"
    "take m (drop (?p mod ?B) b) = take m (drop ?p D)"
    using file_data_block [OF assms(2,5) bs32(3) assms(7) mD] by blast
  have nz: "?b \<noteq> 0" using bs32(1,3) by (metis unat_0 less_irrefl)
  have "read_loop drv count (Suc n) s file out =
    (let file' = file\<lparr>vf_internal := f', vf_pos := vf_pos file + ?read\<rparr>;
         out' = out @ take (unat ?read) (drop (unat (vf_pos file mod ?b)) b)
     in if ?read \<noteq> ?b then Some (True, out', file', s') else read_loop drv count n s' file' out')"
  proof (rule read_loop_Suc)
    show "dr_read drv s (vf_internal file) (vf_pos file) = Some (Some b, f', s')" using rd(1) b(1) by simp
    show "?b \<noteq> 0" by (rule nz)
    show "?read = ?read" ..
    show "?b = ucast (dr_blockSz drv s')" using blockSz [OF rd(2)] by simp
    show "unat (vf_pos file mod ?b) + unat ?read \<le> length b" unfolding u md b(2) by (rule assms(7))
  qed
  then have "read_loop drv count (Suc n) s file out =
    (let file' = file\<lparr>vf_internal := f', vf_pos := vf_pos file + of_nat m\<rparr>;
         out' = out @ take m (drop ?p D)
     in if m \<noteq> ?B then Some (True, out', file', s') else read_loop drv count n s' file' out')"
    unfolding rb u md b(3) by (simp only: r)
  with rd(2) show ?thesis by blast
qed

text \<open>What an open file is: the driver is in a good state for it, its size is that of the data, and its
  position is not behind the end.\<close>

definition open_file :: "'s \<Rightarrow> 'f vfsFile \<Rightarrow> byte list \<Rightarrow> bool" where
  "open_file s file D \<longleftrightarrow> good s (vf_internal file) \<and> file_data blk (unat bs) D \<and>
     vf_size file = of_nat (length D) \<and> length D + 2 ^ 16 < 2 ^ 32 \<and> unat (vf_pos file) \<le> length D"

lemma open_bs32:
  assumes "open_file s file D"
  shows "unat (ucast bs :: u32) = unat bs" and "unat bs < 2 ^ 16" and "0 < unat bs"
  using assms bs32 unfolding open_file_def by blast+

lemma open_file_size: "open_file s file D \<Longrightarrow> unat (vf_size file) = length D"
  by (simp add: open_file_def unat_of_nat take_bit_nat_eq_self)

lemma advance:
  assumes "open_file s file D" and "good s' f'" and "unat (vf_pos file) + m \<le> length D"
  shows "open_file s' (file\<lparr>vf_internal := f', vf_pos := vf_pos file + of_nat m\<rparr>) D"
    and "unat (vf_pos file + of_nat m) = unat (vf_pos file) + m"
proof -
  have "unat (of_nat m :: u32) = m" using assms(1,3) by (simp add: open_file_def unat_of_nat take_bit_nat_eq_self)
  then show p: "unat (vf_pos file + of_nat m) = unat (vf_pos file) + m"
    using assms(1,3) by (subst unat_plus_if') (simp add: open_file_def)
  show "open_file s' (file\<lparr>vf_internal := f', vf_pos := vf_pos file + of_nat m\<rparr>) D"
    using assms p by (simp add: open_file_def)
qed

lemma read_loop_open:
  assumes "open_file s file D" and "unat (vf_pos file) < length D"
    and "m = amount (unat count) (unat (vf_pos file)) (length D)"
    and "unat (vf_pos file) mod unat bs + m \<le> unat bs"
  shows "\<exists>f' s'. good s' f' \<and> read_loop drv count (Suc n) s file out =
    (let file' = file\<lparr>vf_internal := f', vf_pos := vf_pos file + of_nat m\<rparr>;
         out' = out @ take m (drop (unat (vf_pos file)) D)
     in if m \<noteq> unat bs then Some (True, out', file', s') else read_loop drv count n s' file' out')"
  using assms by (intro read_loop_step) (simp_all add: open_file_def)

text \<open>The number of blocks a read goes over.\<close>

lemma read_blocks:
  fixes count :: u32
  assumes "good s f" and "unat count + 2 ^ 16 < 2 ^ 32"
  shows "unat ((count + (ucast bs - 1)) div ucast bs) = (unat count + (unat bs - 1)) div unat bs"
proof -
  note bs32 = bs32 [OF assms(1)]
  have "unat (ucast bs - 1 :: u32) = unat bs - 1"
    using bs32 by (metis Suc_leI unat_1 One_nat_def unat_sub word_le_nat_alt)
  then have "unat (count + (ucast bs - 1)) = unat count + (unat bs - 1)"
    using assms bs32(2) unfolding unat_plus_if' by auto
  then show ?thesis by (simp add: unat_div_distrib bs32(1))
qed

lemma read_file_loop:
  assumes "open_file s file D" and "unat (vf_pos file) < length D" and "unat count + 2 ^ 16 < 2 ^ 32"
  shows "NbVfsReadFile drv s file count = do {
    (ok, out, file, s) \<leftarrow> read_loop drv count ((unat count + (unat bs - 1)) div unat bs) s file [];
    Some (if ok then to_int32 (int (length out)) else - 1, out, file, s) }"
proof -
  note bs32 = open_bs32 [OF assms(1)]
  have good: "good s (vf_internal file)" using assms(1) by (simp add: open_file_def)
  have b: "dr_blockSz drv s = bs" by (rule blockSz [OF good])
  have nz: "(ucast bs :: u32) \<noteq> 0" using bs32(1,3) by (metis unat_0 less_irrefl)
  have "\<not> vf_size file \<le> vf_pos file"
    using assms(2) open_file_size [OF assms(1)] by (simp add: word_le_nat_alt)
  then show ?thesis
    unfolding NbVfsReadFile_def b Let_def read_blocks [OF good assms(3)] by (simp only: nz if_False)
qed

lemma read_file_end:
  assumes "open_file s file D" and "unat (vf_pos file) = length D"
  shows "NbVfsReadFile drv s file count = Some (0, [], file, s)"
  using assms open_file_size [OF assms(1)] by (simp add: NbVfsReadFile_def word_le_nat_alt)

text \<open>Reads within a block: what is asked for, or what is left of the data.\<close>

lemma read_in_block:
  assumes "open_file s file D" and "unat count + 2 ^ 16 < 2 ^ 32" and "0 < unat count"
    and "unat (vf_pos file) mod unat bs + unat count \<le> unat bs"
    and "m = min (unat count) (length D - unat (vf_pos file))"
  shows "\<exists>file' s'. NbVfsReadFile drv s file count = Some (int m, take m (drop (unat (vf_pos file)) D), file', s') \<and>
    open_file s' file' D \<and> unat (vf_pos file') = unat (vf_pos file) + m"
proof (cases "unat (vf_pos file) < length D")
  case False
  then have "unat (vf_pos file) = length D" using assms(1) by (simp add: open_file_def)
  then show ?thesis using read_file_end [OF assms(1), of count] assms(1,5) by simp
next
  case True
  let ?p = "unat (vf_pos file)" and ?c = "unat count" and ?B = "unat bs"
  note bs32 = open_bs32 [OF assms(1)]
  have am: "m = amount ?c ?p (length D)"
  proof (cases "?c < ?B")
    case True
    then show ?thesis using assms(5) \<open>?p < length D\<close> by (auto simp: amount_def min_def)
  next
    case False
    then show ?thesis using assms(4,5) \<open>?p < length D\<close> by (auto simp: amount_def min_def)
  qed
  have md: "?p mod ?B + m \<le> ?B" using assms(4,5) by linarith
  have mD: "?p + m \<le> length D" using assms(5) True by linarith
  have one: "(?c + (?B - 1)) div ?B = Suc 0"
    using assms(3,4) bs32(3) by (simp add: div_nat_eqI)
  obtain f' s' where r: "good s' f'" "read_loop drv count (Suc 0) s file [] =
    (let file' = file\<lparr>vf_internal := f', vf_pos := vf_pos file + of_nat m\<rparr>;
         out' = [] @ take m (drop ?p D)
     in if m \<noteq> ?B then Some (True, out', file', s') else read_loop drv count 0 s' file' out')"
    using read_loop_open [OF assms(1) True am md, of 0 "[]"] by blast
  have len: "length (take m (drop ?p D)) = m" using mD by simp
  have m32: "to_int32 (int m) = int m" using md bs32(2) by (intro to_int32_small) simp_all
  have "NbVfsReadFile drv s file count = Some (int m, take m (drop ?p D),
      file\<lparr>vf_internal := f', vf_pos := vf_pos file + of_nat m\<rparr>, s')"
    unfolding read_file_loop [OF assms(1) True assms(2)] one r(2) Let_def append_Nil read_loop.simps(1) if_cancel Option.bind.bind_lunit prod.case len m32 if_True ..
  with advance [OF assms(1) r(1) mD] show ?thesis
    by (intro exI [of _ "file\<lparr>vf_internal := f', vf_pos := vf_pos file + of_nat m\<rparr>"] exI [of _ s']) simp
qed

text \<open>Reads of blocks from a block boundary give all of them, or what is left of the data. Where the
  data ends at a boundary and there are blocks to go, the loop asks the driver for the block behind
  the end, and fails when there is none; the data is in the buffer then too.\<close>

lemma read_loop_at_end:
  assumes "open_file s fl D" and "unat bs \<le> unat count" and "unat (vf_pos fl) = length D"
    and "length D mod unat bs = 0"
  shows "\<exists>fl' s'. read_loop drv count (Suc n) s fl out =
      Some (blk (of_nat (length D)) \<noteq> None, out, fl', s') \<and> open_file s' fl' D \<and> vf_pos fl' = vf_pos fl"
proof -
  let ?b = "ucast bs :: u32"
  note bs32 = open_bs32 [OF assms(1)]
  have p: "vf_pos fl = of_nat (length D)" by (rule unat_eq_of_nat [OF assms(3)])
  obtain f' s' where rd: "dr_read drv s (vf_internal fl) (vf_pos fl) = Some (blk (vf_pos fl), f', s')" "good s' f'"
    using read [of s "vf_internal fl"] assms(1) unfolding open_file_def by blast
  have o: "open_file s' (fl\<lparr>vf_internal := f'\<rparr>) D" using assms(1) rd(2) by (simp add: open_file_def)
  show ?thesis
  proof (cases "blk (of_nat (length D))")
    case None
    then show ?thesis using rd(1) p o by (intro exI [of _ "fl\<lparr>vf_internal := f'\<rparr>"] exI [of _ s']) simp
  next
    case (Some blok)
    have nz: "?b \<noteq> 0" using bs32(1,3) by (metis unat_0 less_irrefl)
    have le: "(if count > ?b then ?b else count) = ?b" using assms(2) bs32(1) by (auto simp: word_less_nat_alt word_unat_eq_iff)
    have "unat (vf_pos fl + ?b) = length D + unat bs"
      using assms(1,3) bs32 by (subst unat_plus_if') (simp add: open_file_def)
    then have gt: "vf_pos fl + ?b > vf_size fl"
      using open_file_size [OF assms(1)] bs32(3) by (simp add: word_less_nat_alt)
    have sz: "vf_size fl = vf_pos fl" using open_file_size [OF assms(1)] assms(3) by (simp add: word_unat_eq_iff)
    have md: "unat (vf_pos fl mod ?b) = 0" using bs32(1) assms(3,4) by (simp add: unat_mod_distrib)
    have "read_loop drv count (Suc n) s fl out =
      (let fl' = fl\<lparr>vf_internal := f', vf_pos := vf_pos fl + 0\<rparr>;
           out' = out @ take (unat (0 :: u32)) (drop (unat (vf_pos fl mod ?b)) blok)
       in if 0 \<noteq> ?b then Some (True, out', fl', s') else read_loop drv count n s' fl' out')"
    proof (rule read_loop_Suc)
      show "dr_read drv s (vf_internal fl) (vf_pos fl) = Some (Some blok, f', s')" using rd(1) p Some by simp
      show "?b = ucast (dr_blockSz drv s')" using blockSz [OF rd(2)] by simp
      show "?b \<noteq> 0" by (rule nz)
      show "0 = (if vf_pos fl + (if count > ?b then ?b else count) > vf_size fl then vf_size fl - vf_pos fl
          else if ?b > count then count else if vf_pos fl mod ?b \<noteq> 0 then ?b - vf_pos fl mod ?b else ?b)"
        unfolding le using gt sz by simp
    qed (use md in simp)
    then show ?thesis
      using nz o Some by (intro exI [of _ "fl\<lparr>vf_internal := f'\<rparr>"] exI [of _ s']) simp
  qed
qed

lemma read_loop_blocks:
  assumes "open_file s fl D" and "unat bs \<le> unat count" and "unat (vf_pos fl) mod unat bs = 0"
    and "m = min (n * unat bs) (length D - unat (vf_pos fl))"
    and "ok \<longleftrightarrow> unat (vf_pos fl) + n * unat bs \<le> length D \<or> length D mod unat bs \<noteq> 0 \<or>
      blk (of_nat (length D)) \<noteq> None"
  shows "\<exists>fl' s'. read_loop drv count n s fl out = Some (ok, out @ take m (drop (unat (vf_pos fl)) D), fl', s') \<and>
    open_file s' fl' D \<and> unat (vf_pos fl') = unat (vf_pos fl) + m"
  using assms
proof (induction n arbitrary: s fl out m)
  case 0
  then show ?case by (simp add: open_file_def)
next
  case (Suc n)
  let ?p = "unat (vf_pos fl)" and ?B = "unat bs"
  note bs32 = open_bs32 [OF Suc.prems(1)]
  have le: "?p \<le> length D" using Suc.prems(1) by (simp add: open_file_def)
  show ?case
  proof (cases "?p = length D")
    case True
    then have "length D mod ?B = 0" using Suc.prems(3) by simp
    then show ?thesis
      using read_loop_at_end [OF Suc.prems(1,2) True, of n out] Suc.prems(4,5) True bs32(3) by fastforce
  next
    case False
    then have lt: "?p < length D" using le by simp
    define k where "k = amount (unat count) ?p (length D)"
    have k: "k = min ?B (length D - ?p)" using Suc.prems(2,3) lt by (auto simp: k_def amount_def)
    have md: "?p mod ?B + k \<le> ?B" using Suc.prems(3) k by simp
    have kD: "?p + k \<le> length D" using k lt by simp
    let ?fl = "\<lambda>f'. fl\<lparr>vf_internal := f', vf_pos := vf_pos fl + of_nat k\<rparr>"
    obtain f' s' where r: "good s' f'" "read_loop drv count (Suc n) s fl out =
      (let fl' = ?fl f'; out' = out @ take k (drop ?p D)
       in if k \<noteq> ?B then Some (True, out', fl', s') else read_loop drv count n s' fl' out')"
      using read_loop_open [OF Suc.prems(1) lt k_def md, of n out] by blast
    note adv = advance [OF Suc.prems(1) r(1) kD]
    show ?thesis
    proof (cases "k = ?B")
      case False
      then have short: "length D < ?p + ?B" using k lt by (simp add: min_def split: if_splits)
      have "length D mod ?B \<noteq> 0" using next_block_fits [OF _ le Suc.prems(3)] lt short by fastforce
      moreover have "m = k" using Suc.prems(4) k short le by (auto simp: min_def)
      ultimately show ?thesis using r(2) False adv Suc.prems(5)
        by (intro exI [of _ "?fl f'"] exI [of _ s']) (simp add: Let_def)
    next
      case True
      define j where "j = min (n * ?B) (length D - (?p + k))"
      have m: "m = k + j" using Suc.prems(4) True kD by (auto simp: j_def min_def)
      have aligned: "unat (vf_pos (?fl f')) mod ?B = 0" using Suc.prems(3) adv(2) True by simp
      have ok: "ok \<longleftrightarrow> unat (vf_pos (?fl f')) + n * ?B \<le> length D \<or> length D mod ?B \<noteq> 0 \<or>
          blk (of_nat (length D)) \<noteq> None"
        using Suc.prems(5) adv(2) True by (simp add: algebra_simps)
      have j: "j = min (n * ?B) (length D - unat (vf_pos (?fl f')))" using adv(2) by (simp add: j_def)
      obtain fl2 s2 where i: "read_loop drv count n s' (?fl f') (out @ take k (drop ?p D)) =
          Some (ok, (out @ take k (drop ?p D)) @ take j (drop (?p + k) D), fl2, s2)"
        "open_file s2 fl2 D" "unat (vf_pos fl2) = ?p + k + j"
        using Suc.IH [OF adv(1) Suc.prems(2) aligned j ok, of "out @ take k (drop ?p D)"] adv(2) by auto
      have "take k (drop ?p D) @ take j (drop (?p + k) D) = take m (drop ?p D)"
        unfolding m take_add drop_drop add.commute [of k ?p] ..
      then show ?thesis using r(2) True i m by (simp add: Let_def)
    qed
  qed
qed

text \<open>The same for the whole call, with the number of blocks that the count is rounded up to.\<close>

lemma read_file_blocks:
  assumes "open_file s fl D" and "unat (vf_pos fl) < length D" and "unat count + 2 ^ 16 < 2 ^ 32"
    and "unat bs \<le> unat count" and "unat (vf_pos fl) mod unat bs = 0"
    and "n = (unat count + (unat bs - 1)) div unat bs" and "m = min (n * unat bs) (length D - unat (vf_pos fl))"
    and "ok \<longleftrightarrow> unat (vf_pos fl) + n * unat bs \<le> length D \<or> length D mod unat bs \<noteq> 0 \<or>
      blk (of_nat (length D)) \<noteq> None"
  shows "\<exists>fl' s'. NbVfsReadFile drv s fl count =
      Some (if ok then to_int32 (int m) else - 1, take m (drop (unat (vf_pos fl)) D), fl', s') \<and>
    open_file s' fl' D \<and> unat (vf_pos fl') = unat (vf_pos fl) + m"
proof -
  have len: "length (take m (drop (unat (vf_pos fl)) D)) = m" using assms(7) by simp
  obtain fl' s' where r: "read_loop drv count n s fl [] = Some (ok, [] @ take m (drop (unat (vf_pos fl)) D), fl', s')"
    and o: "open_file s' fl' D" "unat (vf_pos fl') = unat (vf_pos fl) + m"
    using read_loop_blocks [OF assms(1,4,5,7,8), of "[]"] by blast
  have "NbVfsReadFile drv s fl count =
      Some (if ok then to_int32 (int m) else - 1, take m (drop (unat (vf_pos fl)) D), fl', s')"
    unfolding read_file_loop [OF assms(1-3)] assms(6) [symmetric] r append_Nil Option.bind.bind_lunit prod.case len ..
  with o show ?thesis by blast
qed

text \<open>Chunks that divide the block or are made of blocks, from a position that is a multiple of the chunk.\<close>

lemma read_chunk:
  assumes "open_file s fl D" and "unat (vf_pos fl) < length D" and "unat count < 2 ^ 31" and "0 < unat count"
    and "unat count dvd unat bs \<or> unat bs dvd unat count" and "unat count dvd unat (vf_pos fl)"
    and "m = min (unat count) (length D - unat (vf_pos fl))"
    and "ok \<longleftrightarrow> unat count dvd unat bs \<or> unat (vf_pos fl) + unat count \<le> length D \<or> length D mod unat bs \<noteq> 0 \<or>
      blk (of_nat (length D)) \<noteq> None"
  shows "\<exists>fl' s'. NbVfsReadFile drv s fl count =
      Some (if ok then int m else - 1, take m (drop (unat (vf_pos fl)) D), fl', s') \<and>
    open_file s' fl' D \<and> unat (vf_pos fl') = unat (vf_pos fl) + m"
proof -
  let ?p = "unat (vf_pos fl)" and ?c = "unat count" and ?B = "unat bs"
  note bs32 = open_bs32 [OF assms(1)]
  have c32: "?c + 2 ^ 16 < 2 ^ 32" using assms(3) by simp
  show ?thesis
  proof (cases "?c dvd ?B")
    case True
    have "?p mod ?B + ?c \<le> ?B"
      using bs32(3) by (intro mod_add_le_multiple True assms(6)) simp
    from read_in_block [OF assms(1) c32 assms(4) this assms(7)] show ?thesis
      using True assms(8) by auto
  next
    case False
    then have d: "?B dvd ?c" using assms(5) by blast
    then have le: "?B \<le> ?c" using assms(4) by (rule dvd_imp_le)
    have n: "?c div ?B = (?c + (?B - 1)) div ?B"
      using d bs32(3) by (auto elim!: dvdE simp: div_mult_self4 algebra_simps intro!: div_nat_eqI [symmetric])
    have nB: "?c div ?B * ?B = ?c" using d by simp
    have m31: "to_int32 (int m) = int m" using assms(3,7) by (intro to_int32_small) auto
    have p0: "?p mod ?B = 0" using dvd_trans [OF d assms(6)] by simp
    have m: "m = min (?c div ?B * ?B) (length D - ?p)" unfolding nB by (rule assms(7))
    have ok: "ok \<longleftrightarrow> ?p + ?c div ?B * ?B \<le> length D \<or> length D mod ?B \<noteq> 0 \<or> blk (of_nat (length D)) \<noteq> None"
      unfolding nB using assms(8) False by simp
    show ?thesis
      using read_file_blocks [OF assms(1,2) c32 le p0 n m ok] unfolding m31 .
  qed
qed

text \<open>All pages of a file, where pages and blocks divide each other.\<close>

lemma load_pages_data:
  assumes "open_file s fl D" and "length D < 2 ^ 31" and "4096 dvd unat bs \<or> unat bs dvd 4096"
    and "length mem = (k + n) * 4096" and "length D \<le> (k + n) * 4096" and "n = 0 \<or> (k + n - 1) * 4096 < length D"
    and "unat (vf_pos fl) = min (k * 4096) (length D)"
    and "take (min (k * 4096) (length D)) mem = take (min (k * 4096) (length D)) D"
  shows "\<exists>mem' fl' s'. load_pages drv n k mem s fl = Some (True, mem', fl', s') \<and> length mem' = length mem \<and>
    take (length D) mem' = D \<and> open_file s' fl' D"
  using assms
proof (induction n arbitrary: s fl mem k)
  case 0
  then have "min (k * 4096) (length D) = length D" by simp
  with 0 show ?case by simp
next
  case (Suc n)
  let ?p = "k * 4096"
  have lt: "?p < length D" using Suc.prems(6) by (auto simp: algebra_simps)
  then have p: "unat (vf_pos fl) = ?p" using Suc.prems(7) by simp
  have c: "unat (4096 :: u32) = 4096" by simp
  define m where "m = min 4096 (length D - ?p)"
  define r where "r = (if 4096 dvd unat bs \<or> ?p + 4096 \<le> length D \<or> length D mod unat bs \<noteq> 0 \<or>
      blk (of_nat (length D)) \<noteq> None then int m else - 1)"
  have m: "m = min (unat (4096 :: u32)) (length D - unat (vf_pos fl))" by (simp add: m_def p)
  have mD: "?p + m \<le> length D" "0 < m" using lt by (simp_all add: m_def)
  obtain fl' s' where rd: "NbVfsReadFile drv s fl 4096 = Some (r, take m (drop ?p D), fl', s')"
    and o: "open_file s' fl' D" "unat (vf_pos fl') = ?p + m"
    using read_chunk [OF Suc.prems(1), of 4096 m, OF _ _ _ _ _ m refl] lt p Suc.prems(3)
    by (auto simp: r_def)
  have r: "r \<noteq> 0" using mD(2) by (simp add: r_def)
  define mem1 where "mem1 = take ?p mem @ take m (drop ?p D) @ drop (?p + m) mem"
  have lm: "?p + m \<le> length mem" using Suc.prems(4) by (simp add: m_def)
  have len1: "length mem1 = length mem" using lm mD by (simp add: mem1_def)
  have i32: "int32_range (int ?p)" using lt Suc.prems(2) by (simp add: int32_range_def)
  have pm: "min (Suc k * 4096) (length D) = ?p + m" using lt by (auto simp: m_def min_def)
  have t: "take (?p + m) mem1 = take (?p + m) D"
    using Suc.prems(8) lt mD lm by (simp add: mem1_def take_add min_absorb1)
  have code: "load_pages drv (Suc n) k mem s fl = load_pages drv n (Suc k) mem1 s' fl'"
    using rd r i32 lm mD by (simp add: NEXBOOT_CPU_PAGE_SIZE_def mem1_def Let_def min_absorb1)
  have "n = 0 \<or> (Suc k + n - 1) * 4096 < length D" using Suc.prems(6) by simp
  then show ?case
    using Suc.IH [OF o(1) Suc.prems(2,3), of mem1 "Suc k"] Suc.prems(4,5) len1 pm t o(2) unfolding code by simp
qed

end

section \<open>Reading from an open FAT file\<close>

text \<open>The reader of a file on a FAT volume: its driver, its chain of clusters and its hint are in
  order, and the volume is that of \<open>fs0\<close>.\<close>

definition fat_good :: "('c, 'd) fatEnv \<Rightarrow> ('c, 'd) fatFs \<Rightarrow> u32 \<Rightarrow> ('c, 'd) fatFs \<Rightarrow> fatFile \<Rightarrow> bool" where
  "fat_good env fs0 start fs f \<longleftrightarrow> fat_ok env fs \<and> chain_ok env fs start \<and> hint_ok env fs f \<and>
     startCluster f = start \<and> same_fs fs0 fs \<and> 0 < fs_blockSz fs0"

interpretation fat: block_reader "fatDriver env" "fat_good env fs0 start" "file_block env fs0 start" "fs_blockSz fs0"
  for env :: "('c, 'd) fatEnv" and fs0 start
proof
  fix fs f pos
  assume g: "fat_good env fs0 start fs f"
  then have gd: "fat_ok env fs" "chain_ok env fs (startCluster f)" "hint_ok env fs f" "0 < fs_blockSz fs"
    "same_fs fs0 fs" "startCluster f = start" by (auto simp: fat_good_def same_fsD)
  obtain f' fs' where r: "FatReadFileBlock env fs f pos = Some (file_block env fs (startCluster f) pos, f', fs')"
    and o: "cache_ok env fs'" "same_fs fs fs'" "hint_ok env fs f'" "startCluster f' = startCluster f"
    using FatReadFileBlock_block [OF gd(1-4)] by blast
  have "fat_good env fs0 start fs' f'"
    using g o gd fat_ok_same [OF gd(1) o(2,1)] same_fs_trans [OF gd(5) o(2)]
    by (simp add: fat_good_def chain_ok_same [OF o(2)] hint_ok_same [OF o(2)])
  then show "\<exists>f' s'. dr_read (fatDriver env) fs f pos = Some (file_block env fs0 start pos, f', s') \<and>
      fat_good env fs0 start s' f'"
    using r gd by (auto simp: fatDriver_def file_block_same)
next
  fix fs f
  assume "fat_good env fs0 start fs f"
  then show "dr_blockSz (fatDriver env) fs = fs_blockSz fs0" "0 < fs_blockSz fs0"
    by (simp_all add: fat_good_def fatDriver_def same_fsD)
qed

text \<open>\<open>fl\<close> is an open file of the volume, somewhere in its data \<open>D\<close>.\<close>

definition fat_file :: "('c, 'd) fatEnv \<Rightarrow> ('c, 'd) fatFs \<Rightarrow> fatFile vfsFile \<Rightarrow> byte list \<Rightarrow> bool" where
  "fat_file env fs fl D \<longleftrightarrow>
     fat_ok env fs \<and> chain_ok env fs (startCluster (vf_internal fl)) \<and> hint_ok env fs (vf_internal fl) \<and>
     0 < fs_blockSz fs \<and> file_data (file_block env fs (startCluster (vf_internal fl))) (unat (fs_blockSz fs)) D \<and>
     vf_size fl = of_nat (length D) \<and> length D + 2 ^ 16 < 2 ^ 32 \<and> unat (vf_pos fl) \<le> length D"

text \<open>What reading leaves alone.\<close>

definition same_file ::
  "('c, 'd) fatFs \<Rightarrow> fatFile vfsFile \<Rightarrow> ('c, 'd) fatFs \<Rightarrow> fatFile vfsFile \<Rightarrow> bool" where
  "same_file fs fl fs' fl' \<longleftrightarrow> same_fs fs fs' \<and> startCluster (vf_internal fl') = startCluster (vf_internal fl)"

lemma fat_file_open:
  assumes "fat_file env fs fl D"
  shows "fat.open_file env fs (startCluster (vf_internal fl)) fs fl D"
  using assms by (simp add: fat_file_def fat.open_file_def fat_good_def)

lemma fat_open_file:
  assumes "fat.open_file env fs (startCluster (vf_internal fl)) fs' fl' D"
  shows "fat_file env fs' fl' D" and "same_file fs fl fs' fl'"
proof -
  have s: "same_fs fs fs'" using assms by (simp add: fat.open_file_def fat_good_def)
  show "fat_file env fs' fl' D"
    using assms by (simp add: fat_file_def fat.open_file_def fat_good_def same_fsD [OF s]
      file_block_same [OF s, abs_def])
  show "same_file fs fl fs' fl'" using assms by (simp add: same_file_def fat.open_file_def fat_good_def)
qed

section \<open>A file on the demonstration volume\<close>

text \<open>The file of eight bytes on the clusters 2 and 3 of \<open>fs12\<close>, opened.\<close>

definition file12 :: "fatFile vfsFile" where
  "file12 = \<lparr>vf_fileId = 1, vf_name = [], vf_pos = 0, vf_size = 8,
     vf_internal = \<lparr>lastReadCluster = 0, lastReadPos = 0, startCluster = 2\<rparr>\<rparr>"

lemma block12: "file_block env12 fs12 2 pos =
    (if unat pos < 4 then Some [1, 2, 3, 4] else if unat pos < 8 then Some [5, 6, 7, 8] else None)"
proof -
  have d: "unat pos div 4 = 0 \<longleftrightarrow> unat pos < 4" "unat pos div 4 = 1 \<longleftrightarrow> \<not> unat pos < 4 \<and> unat pos < 8" by auto
  have bs: "unat (fs_blockSz fs12) = 4" by (simp add: fs12_def)
  have "file_block env12 fs12 2 pos = (if unat pos div 4 = 0 then Some [1, 2, 3, 4]
      else if unat pos div 4 = 1 then Some [5, 6, 7, 8] else None)"
    by (simp add: file_block_def bs cluster12) (simp add: fs12_def env12_def vol12_def)
  then show ?thesis unfolding d by (simp only: if_cancel conj_assoc) simp
qed

lemma fat_ok12: "fat_ok env12 fs12"
proof -
  have "array_laws (fe_cache env12)" by (simp add: env12_def bounded_array_laws)
  moreover have "vol_laws (fe_read env12) (unat (fm_sectorSz fs12))"
    by (simp add: vol_laws_def env12_def vol12_def fs12_def)
  moreover have "fat_geom fs12" by (simp add: fat_geom_def fs12_def)
  moreover have "cache_ok env12 fs12" by (simp add: cache_ok_def fs12_def env12_def bounded_array_def)
  ultimately show ?thesis by (simp add: fat_ok_def)
qed

lemma file12_ok: "fat_file env12 fs12 file12 [1, 2, 3, 4, 5, 6, 7, 8]"
proof -
  have c: "chain_ok env12 fs12 2" by (simp add: chain_ok_def cluster12) (simp add: fs12_def)
  have "file_data (file_block env12 fs12 2) 4 [1, 2, 3, 4, 5, 6, 7, 8]"
    unfolding file_data_def
  proof (intro allI impI)
    fix pos :: u32
    assume "unat pos < length [1, 2, 3, 4, 5, 6, 7, 8 :: byte]"
    then have lt: "unat pos < 8" by simp
    have "unat pos div 4 = (if unat pos < 4 then 0 else 1)" using lt by auto
    with lt show "\<exists>b. file_block env12 fs12 2 pos = Some b \<and> length b = 4 \<and>
        take (length [1, 2, 3, 4, 5, 6, 7, 8 :: byte] - unat pos div 4 * 4) b = take 4 (drop (unat pos div 4 * 4) [1, 2, 3, 4, 5, 6, 7, 8])"
      by (cases "unat pos < 4") (simp_all add: block12)
  qed
  moreover have "fs_blockSz fs12 = 4" by (simp add: fs12_def)
  ultimately show ?thesis using c fat_ok12 by (simp add: fat_file_def file12_def hint_ok_def)
qed

text \<open>C30: Reading an open FAT file in chunks that divide a cluster or are made of clusters, from a
  multiple of the chunk, puts the next bytes of the file in the buffer, as many as there are up to
  the count, moves the position behind them and keeps the file in order, whatever the caches and the
  hint hold. The call returns their number, but when the chunk has several clusters, the file ends
  at the end of a cluster inside it and the chain ends there too, it reports a failure.\<close>

theorem fat_read_chunk:
  assumes "fat_file env fs fl D" and "unat (vf_pos fl) < length D" and "0 < unat count" "unat count < 2 ^ 31"
    and "unat count dvd unat (fs_blockSz fs) \<or> unat (fs_blockSz fs) dvd unat count"
    and "unat count dvd unat (vf_pos fl)"
  shows "\<exists>fl' fs'. NbVfsReadFile (fatDriver env) fs fl count =
      Some (if unat count dvd unat (fs_blockSz fs) \<or> unat (vf_pos fl) + unat count \<le> length D \<or>
               length D mod unat (fs_blockSz fs) \<noteq> 0 \<or>
               file_block env fs (startCluster (vf_internal fl)) (of_nat (length D)) \<noteq> None
            then int (min (unat count) (length D - unat (vf_pos fl))) else - 1,
        take (unat count) (drop (unat (vf_pos fl)) D), fl', fs') \<and>
    fat_file env fs' fl' D \<and> same_file fs fl fs' fl' \<and>
    unat (vf_pos fl') = min (unat (vf_pos fl) + unat count) (length D)"
proof -
  have t: "take (min (unat count) (length D - unat (vf_pos fl))) (drop (unat (vf_pos fl)) D) =
      take (unat count) (drop (unat (vf_pos fl)) D)"
    by (simp add: min_def)
  have p: "unat (vf_pos fl) + min (unat count) (length D - unat (vf_pos fl)) =
      min (unat (vf_pos fl) + unat count) (length D)"
    using assms(2) by simp
  show ?thesis
    using fat.read_chunk [OF fat_file_open [OF assms(1)] assms(2,4,3,5,6) refl refl] fat_open_file
    unfolding t p by blast
qed

theorem fat_read_chunk_witness:
  "\<exists>fl' fs'. NbVfsReadFile (fatDriver env12) fs12 file12 16 = Some (- 1, [1, 2, 3, 4, 5, 6, 7, 8], fl', fs') \<and>
     fat_file env12 fs' fl' [1, 2, 3, 4, 5, 6, 7, 8] \<and> unat (vf_pos fl') = 8"
proof -
  have f: "vf_pos file12 = 0" "startCluster (vf_internal file12) = 2" "fs_blockSz fs12 = 4"
    by (simp_all add: file12_def fs12_def)
  have "file_block env12 fs12 2 8 = None" by (simp add: block12)
  then show ?thesis using fat_read_chunk [OF file12_ok, of 16] by (auto simp: f)
qed

text \<open>C31: A count of more than a cluster that is not a multiple of it is not respected: from the
  beginning of a cluster, with enough of the file left, the driver puts whole clusters in the buffer,
  more bytes than the caller asked for, and says so in its result.\<close>

theorem vfs_read_overrun:
  assumes "fat_file env fs fl D" and "unat (fs_blockSz fs) < unat count" "unat count + 2 ^ 16 < 2 ^ 31"
    and "\<not> unat (fs_blockSz fs) dvd unat count" and "unat (fs_blockSz fs) dvd unat (vf_pos fl)"
    and "unat (vf_pos fl) + (unat count + (unat (fs_blockSz fs) - 1)) div unat (fs_blockSz fs) * unat (fs_blockSz fs)
      \<le> length D"
  shows "\<exists>out fl' fs'. NbVfsReadFile (fatDriver env) fs fl count = Some (int (length out), out, fl', fs') \<and>
    unat count < length out \<and> length out mod unat (fs_blockSz fs) = 0 \<and>
    out = take (length out) (drop (unat (vf_pos fl)) D)"
proof -
  let ?B = "unat (fs_blockSz fs)" and ?c = "unat count" and ?p = "unat (vf_pos fl)"
  define n where "n = (?c + (?B - 1)) div ?B"
  note o = fat_file_open [OF assms(1)]
  note bs = fat.open_bs32 [OF o]
  have up: "?c < n * ?B" "n * ?B < ?c + ?B" unfolding n_def by (rule round_up_bounds [OF bs(3) assms(4)])+
  have fit: "?p + n * ?B \<le> length D" unfolding n_def by (rule assms(6))
  have lt: "?p < length D" using fit up(1) by linarith
  have c32: "?c + 2 ^ 16 < 2 ^ 32" and le: "?B \<le> ?c" and p0: "?p mod ?B = 0"
    using assms(2,3,5) by auto
  have m: "n * ?B = min (n * ?B) (length D - ?p)" using fit by simp
  have m31: "to_int32 (int (n * ?B)) = int (n * ?B)"
    using up(2) assms(3) bs(2) by (intro to_int32_small) (simp_all del: of_nat_mult)
  define out where "out = take (n * ?B) (drop ?p D)"
  have len: "length out = n * ?B" using fit by (simp add: out_def)
  obtain fl' fs' where "NbVfsReadFile (fatDriver env) fs fl count =
      Some (if True then to_int32 (int (n * ?B)) else - 1, out, fl', fs')"
    using fat.read_file_blocks [OF o lt c32 le p0 n_def m, of True] fit unfolding out_def by blast
  then have "NbVfsReadFile (fatDriver env) fs fl count = Some (int (length out), out, fl', fs')"
    unfolding m31 len if_True .
  then show ?thesis using len up(1) by (intro exI [of _ out] exI [of _ fl'] exI [of _ fs']) (simp add: out_def)
qed

theorem vfs_read_overrun_witness:
  "\<exists>out fl' fs'. NbVfsReadFile (fatDriver env12) fs12 file12 5 = Some (int (length out), out, fl', fs') \<and>
     5 < length out \<and> out = take (length out) [1, 2, 3, 4, 5, 6, 7, 8]"
proof -
  have f: "vf_pos file12 = 0" "fs_blockSz fs12 = 4" by (simp_all add: file12_def fs12_def)
  show ?thesis using vfs_read_overrun [OF file12_ok, of 5] by (auto simp: f)
qed

lemma page_count:
  assumes "len < 2 ^ 31"
  shows "unat ((of_nat len + (4096 - 1)) div 4096 :: u32) = (len + 4095) div 4096"
    and "len \<le> (len + 4095) div 4096 * 4096" and "len = 0 \<or> ((len + 4095) div 4096 - 1) * 4096 < len"
proof -
  have "unat (of_nat len + (4096 - 1) :: u32) = len + 4095"
    using assms by (subst unat_plus_if') (simp add: unat_of_nat take_bit_nat_eq_self)
  then show "unat ((of_nat len + (4096 - 1)) div 4096 :: u32) = (len + 4095) div 4096"
    by (simp add: unat_div_distrib)
  have "(len + 4095) div 4096 * 4096 + (len + 4095) mod 4096 = len + 4095" by (rule div_mult_mod_eq)
  moreover have "(len + 4095) mod 4096 < 4096" by simp
  ultimately show "len \<le> (len + 4095) div 4096 * 4096" "len = 0 \<or> ((len + 4095) div 4096 - 1) * 4096 < len"
    by linarith+
qed

text \<open>C32: The kernel is loaded whole. On a FAT12 or FAT16 volume whose root directory has short names
  only, a file whose cluster size divides the page size, or is a multiple of it, is read into memory
  by \<open>osReadFile\<close> when there are pages for it: the memory starts with the bytes of the file, no byte is
  written behind the pages, although the read of the last page can report a failure, which
  \<open>osReadFile\<close> takes for a success.\<close>

theorem os_read_file:
  assumes "short_root env (vs_fs vs) n secs" and "fat_ok env (vs_fs vs)" and "0 < fs_blockSz (vs_fs vs)"
    and "0 \<notin> set path" "47 \<notin> set path" "length path < 256" and "fileTo83 path = Some nm"
    and "root_entry n secs nm = Some e" and "\<not> is_dir e" and "chain_ok env (vs_fs vs) (dirCluster e)"
    and "file_data (file_block env (vs_fs vs) (dirCluster e)) (unat (fs_blockSz (vs_fs vs))) D"
    and "dirFileSz e = of_nat (length D)" and "length D < 2 ^ 31"
    and "4096 dvd unat (fs_blockSz (vs_fs vs)) \<or> unat (fs_blockSz (vs_fs vs)) dvd 4096"
    and "vn_mallocFile venv" and "vn_mallocBuf venv (unat (fs_blockSz (vs_fs vs)))" and "int32_range (vs_id vs + 1)"
    and "alloc persists ((length D + 4095) div 4096) = Some mem"
    and "length mem = (length D + 4095) div 4096 * 4096"
  shows "\<exists>mem' vs'. osReadFile venv (fatDriver env) alloc vs persists path = Some (Loaded mem', vs') \<and>
    take (length D) mem' = D \<and> length mem' = length mem \<and>
    vs_files vs' = vn_remove venv (vn_add venv (vs_files vs) (vs_id vs + 1)) (vs_id vs + 1)"
proof -
  let ?f = "\<lparr>lastReadCluster = 0, lastReadPos = 0, startCluster = dirCluster e\<rparr>"
  let ?fl = "\<lparr>vf_fileId = vs_id vs + 1, vf_name = path, vf_pos = 0, vf_size = of_nat (length D), vf_internal = ?f\<rparr>"
  let ?k = "(length D + 4095) div 4096"
  obtain fs1 where op: "FatOpenFile env (vs_fs vs) path = Some (Some (?f, of_nat (length D)), fs1)"
    and s1: "same_vol (vs_fs vs) fs1"
    using open_root [OF assms(1,4-7)] assms(8,9,12) by auto
  define vs1 where "vs1 = vs\<lparr>vs_id := vs_id vs + 1, vs_fs := fs1, vs_files := vn_add venv (vs_files vs) (vs_id vs + 1)\<rparr>"
  have vs1: "vs_fs vs1 = fs1" "vs_files vs1 = vn_add venv (vs_files vs) (vs_id vs + 1)" by (simp_all add: vs1_def)
  have o: "NbVfsOpenFile venv (fatDriver env) vs path = Some (Some ?fl, vs1)"
    using op assms(6,15-17) by (simp add: NbVfsOpenFile_def fatDriver_def VFS_NAME_MAX_def Let_def vs1_def)
  have ff: "fat_file env fs1 ?fl D"
    using fat_ok_vol [OF assms(2) s1] assms(3,10,11,13)
    by (simp add: fat_file_def hint_ok_def chain_ok_vol [OF s1] file_block_vol [OF s1] same_volD [OF s1])
  have bs: "unat (fs_blockSz fs1) = unat (fs_blockSz (vs_fs vs))" by (simp add: same_volD [OF s1])
  note pc = page_count [OF assms(13)]
  obtain mem' fl' s' where l: "load_pages (fatDriver env) ?k 0 mem fs1 ?fl = Some (True, mem', fl', s')"
    and m: "length mem' = length mem" "take (length D) mem' = D"
    using fat.load_pages_data [OF fat_file_open [OF ff] assms(13), of mem 0 ?k] bs assms(14,19) pc by auto
  show ?thesis
    using o l m pc(1) assms(18) load_pages_id [OF l]
    by (simp add: osReadFile_def vs1 NEXBOOT_CPU_PAGE_SIZE_def NbVfsCloseFile_def)
qed

text \<open>The loader's environment around the demonstration volume, with the list of files as numbers.\<close>

definition venv0 :: "int list vfsEnv" where
  "venv0 = \<lparr>vn_mallocFile = True, vn_mallocBuf = (\<lambda>n. True), vn_add = (\<lambda>l i. l @ [i]), vn_remove = (\<lambda>l i. remove1 i l)\<rparr>"

definition vfs_root :: "((fatCacheEnt list, fatDirBuffer list) fatFs, int list) vfs" where
  "vfs_root = \<lparr>vs_fs = fs_root, vs_files = [], vs_id = 0\<rparr>"

theorem os_read_file_witness:
  "\<exists>mem' vs'. osReadFile venv0 (fatDriver env_root) (\<lambda>p n. Some (replicate (n * 4096) 0)) vfs_root False nexke_elf =
       Some (Loaded mem', vs') \<and> take 20 mem' = replicate 20 7 \<and> length mem' = 4096 \<and> vs_files vs' = []"
proof -
  have v: "vs_fs vfs_root = fs_root" "vs_files vfs_root = []" "vs_id vfs_root = 0" by (simp_all add: vfs_root_def)
  have bs: "fs_blockSz fs_root = 32" by (simp add: fs_root_def fs12_def)
  have D: "file_data (file_block env_root fs_root 2) 32 (replicate 20 7)"
    unfolding file_data_def
  proof (intro allI impI)
    fix pos :: u32
    assume "unat pos < length (replicate 20 (7 :: byte))"
    then have z: "unat pos div 32 = 0" by simp
    have "file_block env_root fs_root 2 pos = Some (replicate 32 7)"
      by (simp add: file_block_def chain_root bs z) (simp add: fs_root_def fs12_def env_root_def vol_root_def)
    then show "\<exists>b. file_block env_root fs_root 2 pos = Some b \<and> length b = 32 \<and>
        take (length (replicate 20 (7 :: byte)) - unat pos div 32 * 32) b =
          take 32 (drop (unat pos div 32 * 32) (replicate 20 7))"
      by (simp add: z)
  qed
  have e: "\<not> is_dir ent_nexke" "dirFileSz ent_nexke = 20" "dirCluster ent_nexke = 2" by code_simp+
  have path: "0 \<notin> set nexke_elf" "47 \<notin> set nexke_elf" "length nexke_elf < 256" by (simp_all add: nexke_elf_def)
  have venv: "vn_mallocFile venv0" "vn_mallocBuf venv0 n" "vn_add venv0 l i = l @ [i]" "vn_remove venv0 l i = remove1 i l"
    for n l i by (simp_all add: venv0_def)
  show ?thesis
    using os_read_file [of env_root vfs_root 1 "[ent_a, ent_nexke]" nexke_elf "take 11 ent_nexke" ent_nexke
        "replicate 20 7" venv0 "\<lambda>p n. Some (replicate (n * 4096) 0)" False "replicate 4096 0"]
      root_short root_nexke fat_ok_root chain_ok_root D e path nexke83 venv
    by (simp add: v bs int32_range_def)
qed

end
