(* ===== verification/Sched.thy ===== *)
theory Sched
  imports NkList
begin

text \<open>
  The kernel's scheduler (\<open>source/nexke/task/sched.c\<close> with the locks of \<open>nexke/lock.h\<close>): the ready
  queues of the 64 priorities, the current thread, and preemption, on one CPU.

  The state holds what the code reaches from the CPU control block: the links, the threads by
  address, the control block's scheduler fields, and the state of the devices. A thread's \<open>link\<close> is its
  first field, so that a thread and its link have one address, and so has a wait queue and its list of
  waiters. Taking a lock that is held spins for ever on the one CPU, which is \<open>None\<close>, as are a failed assertion,
  a panic and an access outside an array.

  \<open>CpuSwitchContext\<close> makes the CPU go on in the new thread. The new thread stopped in the same place before,
  or starts in \<open>TskThreadEntry\<close>, so what the CPU does next is the same in every case: it unlocks the run
  queue. The definitions follow the CPU this far. What is left of the operation of the thread that was switched away runs when
  that thread is resumed; an operation that has something left then has the outcome \<open>SwitchedAway\<close>.
\<close>

section \<open>State\<close>

datatype thState =
  TSK_THREAD_READY | TSK_THREAD_RUNNING | TSK_THREAD_WAITING | TSK_THREAD_CREATED | TSK_THREAD_TERMINATING

datatype waitRes = TSK_WAITOBJ_IN_PROG | TSK_WAITOBJ_SUCCESS | TSK_WAITOBJ_TIMEOUT

record waitObj =
  wo_owner :: addr
  wo_waiter :: addr
  wo_type :: int
  wo_timeout :: u64
  wo_obj :: addr
  wo_result :: waitRes

text \<open>The fields of \<open>NkThread_t\<close> that the scheduler uses. \<open>TskWaitObj_t timer\<close>, \<open>name\<close>, \<open>entry\<close>, \<open>arg\<close> and the
  CPU's context are not among them.\<close>

record thread =
  th_lock :: bool
  th_priority :: int
  th_state :: thState
  th_flags :: u32
  th_refCount :: int
  th_quantaLeft :: int
  th_quantum :: int
  th_lastSchedule :: u64
  th_runTime :: u64
  th_exitCode :: int
  th_wait :: waitObj
  th_preempted :: bool
  th_timeoutPending :: bool
  th_waitAsserted :: int
  th_timeout :: addr

record waitQueue =
  wq_lock :: bool
  wq_object :: int
  wq_done :: bool

record 'd sched =
  sk_links :: links
  sk_threads :: "addr \<rightharpoonup> thread"
  sk_queues :: "addr \<rightharpoonup> waitQueue"
  sk_readyMask :: u64
  sk_rqLock :: bool
  sk_curThread :: addr
  sk_curPriority :: int
  sk_idleThread :: addr
  sk_preemptDisable :: int
  sk_preemptReq :: bool
  sk_curIpl :: int
  sk_dev :: 'd

text \<open>\<open>se_readyQueues\<close> is the address of \<open>ccb->readyQueues\<close>; the clock and the interrupt controller are called
  through pointers. \<open>se_wait\<close>, \<open>se_ownerLink\<close>, \<open>se_ownedWaits\<close> and \<open>se_joinQueue\<close> are the offsets of the fields
  \<open>wait\<close>, \<open>wait.ownerLink\<close>, \<open>ownedWaits\<close> and \<open>joinQueue\<close> of a thread; \<open>se_setTimeout\<close> and \<open>se_clearTimeout\<close> register
  a timed event that wakes a wait object and take it back.\<close>

record 'd schedEnv =
  se_readyQueues :: addr
  se_getTime :: "'d \<Rightarrow> u64 \<times> 'd"
  se_setIpl :: "int \<Rightarrow> 'd \<Rightarrow> 'd"
  se_wait :: addr
  se_ownerLink :: addr
  se_ownedWaits :: addr
  se_joinQueue :: addr
  se_setTimeout :: "addr \<Rightarrow> addr \<Rightarrow> u64 \<Rightarrow> 'd \<Rightarrow> 'd"
  se_clearTimeout :: "addr \<Rightarrow> 'd \<Rightarrow> 'd"

definition NEXKE_MAX_PRIO :: int where "NEXKE_MAX_PRIO = 64"

definition IPL_HIGH :: int where "IPL_HIGH = 33"

definition TSK_PRIO_WORKER :: int where "TSK_PRIO_WORKER = 63"

definition TSK_THREAD_IDLE :: u32 where "TSK_THREAD_IDLE = 1"

definition TSK_THREAD_FIFO :: u32 where "TSK_THREAD_FIFO = 4"

text \<open>\<open>ccb->readyQueues[p]\<close>, with 16 bytes in a list.\<close>

definition ready_queue :: "'d schedEnv \<Rightarrow> int \<Rightarrow> addr" where
  "ready_queue env p = se_readyQueues env + 16 * of_int p"

definition prio_ok :: "int \<Rightarrow> bool" where
  "prio_ok p \<longleftrightarrow> 0 \<le> p \<and> p < NEXKE_MAX_PRIO"

definition upd_thread :: "addr \<Rightarrow> (thread \<Rightarrow> thread) \<Rightarrow> 'd sched \<Rightarrow> 'd sched option" where
  "upd_thread t f st = (case sk_threads st t of None \<Rightarrow> None
     | Some th \<Rightarrow> Some (st\<lparr>sk_threads := (sk_threads st)(t \<mapsto> f th)\<rparr>))"

definition get_time :: "'d schedEnv \<Rightarrow> 'd sched \<Rightarrow> u64 \<times> 'd sched" where
  "get_time env st = (case se_getTime env (sk_dev st) of (t, d) \<Rightarrow> (t, st\<lparr>sk_dev := d\<rparr>))"

section \<open>Interrupt priority and locks\<close>

definition raise_ipl :: "'d schedEnv \<Rightarrow> int \<Rightarrow> 'd sched \<Rightarrow> ('d sched \<times> int) option" where
  "raise_ipl env newIpl st =
     (if sk_curIpl st > newIpl then None
      else let oldIpl = sk_curIpl st;
               st = st\<lparr>sk_curIpl := newIpl\<rparr>
           in Some (if newIpl \<noteq> IPL_HIGH then st\<lparr>sk_dev := se_setIpl env newIpl (sk_dev st)\<rparr> else st, oldIpl))"

definition lower_ipl :: "'d schedEnv \<Rightarrow> int \<Rightarrow> 'd sched \<Rightarrow> 'd sched option" where
  "lower_ipl env oldIpl st =
     (if sk_curIpl st < oldIpl then None
      else let st = st\<lparr>sk_curIpl := oldIpl\<rparr>
           in Some (if oldIpl \<noteq> IPL_HIGH then st\<lparr>sk_dev := se_setIpl env oldIpl (sk_dev st)\<rparr> else st))"

definition TskDisablePreempt :: "'d sched \<Rightarrow> 'd sched" where
  "TskDisablePreempt st = st\<lparr>sk_preemptDisable := sk_preemptDisable st + 1\<rparr>"

text \<open>The routines below call each other in a circle, through \<open>tskPreempt\<close>: each takes it as the argument
  \<open>preempt\<close>. In \<open>TskEnablePreemptUnsafe\<close> the IPL is lowered by the thread that raised it.\<close>

definition enable_unsafe :: "'d schedEnv \<Rightarrow> ('d sched \<Rightarrow> 'd sched option) \<Rightarrow> 'd sched \<Rightarrow> 'd sched option" where
  "enable_unsafe env preempt st = do {
     (st, ipl) \<leftarrow> raise_ipl env IPL_HIGH st;
     (if sk_preemptDisable st \<noteq> 0 then None
      else if sk_preemptReq st then do {
        st' \<leftarrow> preempt st;
        (if sk_curThread st' = sk_curThread st then lower_ipl env ipl st' else Some st') }
      else lower_ipl env ipl st) }"

definition do_enable_preempt :: "'d schedEnv \<Rightarrow> ('d sched \<Rightarrow> 'd sched option) \<Rightarrow> 'd sched \<Rightarrow> 'd sched option" where
  "do_enable_preempt env preempt st =
     (let st = st\<lparr>sk_preemptDisable := sk_preemptDisable st - 1\<rparr>
      in if sk_preemptDisable st = 0 then enable_unsafe env preempt st else Some st)"

definition lock_thread :: "addr \<Rightarrow> 'd sched \<Rightarrow> 'd sched option" where
  "lock_thread t st = do {
     th \<leftarrow> sk_threads st t;
     (if th_lock th then None else upd_thread t (\<lambda>th. th\<lparr>th_lock := True\<rparr>) (TskDisablePreempt st)) }"

definition unlock_thread :: "'d schedEnv \<Rightarrow> ('d sched \<Rightarrow> 'd sched option) \<Rightarrow> addr \<Rightarrow> 'd sched \<Rightarrow> 'd sched option" where
  "unlock_thread env preempt t st = do {
     th \<leftarrow> sk_threads st t;
     (if \<not> th_lock th then None
      else do {
        st \<leftarrow> upd_thread t (\<lambda>th. th\<lparr>th_lock := False\<rparr>) st;
        do_enable_preempt env preempt st }) }"

definition lock_rq :: "'d sched \<Rightarrow> 'd sched option" where
  "lock_rq st = (if sk_rqLock st then None else Some ((TskDisablePreempt st)\<lparr>sk_rqLock := True\<rparr>))"

definition unlock_rq :: "'d schedEnv \<Rightarrow> ('d sched \<Rightarrow> 'd sched option) \<Rightarrow> 'd sched \<Rightarrow> 'd sched option" where
  "unlock_rq env preempt st =
     (if \<not> sk_rqLock st then None else do_enable_preempt env preempt (st\<lparr>sk_rqLock := False\<rparr>))"

section \<open>Scheduling\<close>

text \<open>The lowest bit that is set, and - 1 when there is none (\<open>bsf\<close> on x86-64).\<close>

definition CpuScanPriority :: "u64 \<Rightarrow> int" where
  "CpuScanPriority m = (case List.find (\<lambda>p. bit m p) [0..<64] of None \<Rightarrow> - 1 | Some p \<Rightarrow> int p)"

definition ready_thread :: "'d schedEnv \<Rightarrow> ('d sched \<Rightarrow> 'd sched option) \<Rightarrow> addr \<Rightarrow> 'd sched \<Rightarrow> 'd sched option" where
  "ready_thread env preempt t st =
     (if sk_curIpl st \<noteq> IPL_HIGH then None
      else do {
        th \<leftarrow> sk_threads st t;
        (if \<not> prio_ok (th_priority th) then None
         else do {
           let queue = ready_queue env (th_priority th);
           h \<leftarrow> (if th_preempted th
                 then if th_quantaLeft th = 0 then NkListAddBack (sk_links st) queue t
                      else NkListAddFront (sk_links st) queue t
                 else NkListAddBack (sk_links st) queue t);
           st \<leftarrow> upd_thread t (\<lambda>th. th\<lparr>th_preempted := False, th_quantaLeft := th_quantum th,
             th_state := TSK_THREAD_READY\<rparr>) (st\<lparr>sk_links := h\<rparr>);
           let st = st\<lparr>sk_readyMask := sk_readyMask st OR push_bit (nat (th_priority th)) 1\<rparr>;
           (if th_priority th < sk_curPriority st then preempt st else Some st) }) })"

definition stop_thread :: "'d schedEnv \<Rightarrow> ('d sched \<Rightarrow> 'd sched option) \<Rightarrow> addr \<Rightarrow> 'd sched \<Rightarrow> 'd sched option" where
  "stop_thread env preempt t st = do {
     st \<leftarrow> lock_thread t st;
     (if sk_curIpl st \<noteq> IPL_HIGH then None
      else do {
        let (now, st) = get_time env st;
        st \<leftarrow> upd_thread t (\<lambda>th. th\<lparr>th_runTime := th_runTime th + (now - th_lastSchedule th)\<rparr>) st;
        th \<leftarrow> sk_threads st t;
        st \<leftarrow> (if th_state th = TSK_THREAD_RUNNING then
                if th_flags th AND TSK_THREAD_IDLE = 0 then ready_thread env preempt t st else Some st
              else if th_state th = TSK_THREAD_WAITING then upd_thread t (\<lambda>th. th\<lparr>th_waitAsserted := 0\<rparr>) st
              else Some st);
        unlock_thread env preempt t st }) }"

definition tskSetCurrentThread :: "'d schedEnv \<Rightarrow> addr \<Rightarrow> 'd sched \<Rightarrow> 'd sched option" where
  "tskSetCurrentThread env t st =
     (if sk_curIpl st \<noteq> IPL_HIGH then None
      else do {
        st \<leftarrow> upd_thread t (\<lambda>th. th\<lparr>th_state := TSK_THREAD_RUNNING\<rparr>) st;
        let (now, st) = get_time env st;
        st \<leftarrow> upd_thread t (\<lambda>th. th\<lparr>th_lastSchedule := now\<rparr>) st;
        th \<leftarrow> sk_threads st t;
        Some (st\<lparr>sk_curThread := t, sk_curPriority := th_priority th\<rparr>) })"

definition schedule :: "'d schedEnv \<Rightarrow> ('d sched \<Rightarrow> 'd sched option) \<Rightarrow> 'd sched \<Rightarrow> 'd sched option" where
  "schedule env preempt st =
     (if sk_curIpl st \<noteq> IPL_HIGH then None
      else do {
        let curThread = sk_curThread st;
        st \<leftarrow> stop_thread env preempt curThread st;
        let highPrio = CpuScanPriority (sk_readyMask st);
        (if highPrio = - 1 then do {
           th \<leftarrow> sk_threads st curThread;
           (if th_state th = TSK_THREAD_RUNNING then Some st
            else tskSetCurrentThread env (sk_idleThread st) st) }
         else do {
           let queue = ready_queue env highPrio;
           nextThread \<leftarrow> NkListFront (sk_links st) queue;
           h \<leftarrow> NkListRemove (sk_links st) queue nextThread;
           front \<leftarrow> NkListFront h queue;
           let st = st\<lparr>sk_links := h\<rparr>;
           let st = (if front = 0 then st\<lparr>sk_readyMask := sk_readyMask st AND NOT (push_bit (nat highPrio) 1)\<rparr> else st);
           tskSetCurrentThread env nextThread st }) })"

text \<open>The circle is monotone in \<open>preempt\<close>.\<close>

lemma do_enable_preempt_mono [partial_function_mono]:
  assumes "\<And>st. mono_option (\<lambda>f. preempt f st)"
  shows "mono_option (\<lambda>f. do_enable_preempt env (preempt f) st)"
  unfolding do_enable_preempt_def enable_unsafe_def Let_def case_prod_beta by (intro partial_function_mono assms)

lemma unlock_mono [partial_function_mono]:
  assumes "\<And>st. mono_option (\<lambda>f. preempt f st)"
  shows "mono_option (\<lambda>f. unlock_thread env (preempt f) t st)" and "mono_option (\<lambda>f. unlock_rq env (preempt f) st)"
  unfolding unlock_thread_def unlock_rq_def by (intro partial_function_mono assms)+

lemma schedule_mono [partial_function_mono]:
  assumes "\<And>st. mono_option (\<lambda>f. preempt f st)"
  shows "mono_option (\<lambda>f. schedule env (preempt f) st)"
  unfolding schedule_def stop_thread_def ready_thread_def Let_def case_prod_beta by (intro partial_function_mono assms)

partial_function (option) tskPreempt :: "'d schedEnv \<Rightarrow> 'd sched \<Rightarrow> 'd sched option" where
  "tskPreempt env st =
     (if sk_curIpl st \<noteq> IPL_HIGH then None
      else do {
        st \<leftarrow> upd_thread (sk_curThread st) (\<lambda>th. th\<lparr>th_preempted := True\<rparr>) st;
        (if sk_preemptDisable st \<noteq> 0 then Some (st\<lparr>sk_preemptReq := True\<rparr>)
         else do {
           st \<leftarrow> lock_rq (st\<lparr>sk_preemptReq := False\<rparr>);
           st \<leftarrow> schedule env (tskPreempt env) st;
           unlock_rq env (tskPreempt env) st }) })"

section \<open>The operations of the scheduler\<close>

text \<open>What is left of an operation runs only while its thread is the current one.\<close>

datatype 'a call_outcome = Returned 'a | SwitchedAway

definition outcome_of :: "addr \<Rightarrow> 'd sched \<Rightarrow> unit call_outcome \<times> 'd sched" where
  "outcome_of cur st = (if sk_curThread st = cur then Returned () else SwitchedAway, st)"

definition and_then ::
  "'a call_outcome \<times> 'd sched \<Rightarrow> ('a \<Rightarrow> 'd sched \<Rightarrow> ('b call_outcome \<times> 'd sched) option) \<Rightarrow> ('b call_outcome \<times> 'd sched) option" where
  "and_then r k = (case fst r of Returned a \<Rightarrow> k a (snd r) | SwitchedAway \<Rightarrow> Some (SwitchedAway, snd r))"

definition lower_last :: "'d schedEnv \<Rightarrow> int \<Rightarrow> 'a \<Rightarrow> 'd sched \<Rightarrow> ('a call_outcome \<times> 'd sched) option" where
  "lower_last env ipl a st = do { st \<leftarrow> lower_ipl env ipl st; Some (Returned a, st) }"

definition TskSchedule :: "'d schedEnv \<Rightarrow> 'd sched \<Rightarrow> (unit call_outcome \<times> 'd sched) option" where
  "TskSchedule env st0 = do {
     st \<leftarrow> lock_rq st0;
     st \<leftarrow> schedule env (tskPreempt env) st;
     st \<leftarrow> unlock_rq env (tskPreempt env) st;
     Some (outcome_of (sk_curThread st0) st) }"

definition TskSetCurrentThread :: "'d schedEnv \<Rightarrow> addr \<Rightarrow> 'd sched \<Rightarrow> (unit call_outcome \<times> 'd sched) option" where
  "TskSetCurrentThread env t st0 = do {
     st \<leftarrow> lock_rq st0;
     st \<leftarrow> tskSetCurrentThread env t st;
     st \<leftarrow> unlock_rq env (tskPreempt env) st;
     Some (outcome_of (sk_curThread st0) st) }"

definition TskReadyThread :: "'d schedEnv \<Rightarrow> addr \<Rightarrow> 'd sched \<Rightarrow> (unit call_outcome \<times> 'd sched) option" where
  "TskReadyThread env t st0 = do {
     st \<leftarrow> lock_rq st0;
     st \<leftarrow> lock_thread t st;
     st \<leftarrow> ready_thread env (tskPreempt env) t st;
     st \<leftarrow> unlock_thread env (tskPreempt env) t st;
     st \<leftarrow> unlock_rq env (tskPreempt env) st;
     Some (outcome_of (sk_curThread st0) st) }"

definition TskEnablePreempt :: "'d schedEnv \<Rightarrow> 'd sched \<Rightarrow> (unit call_outcome \<times> 'd sched) option" where
  "TskEnablePreempt env st0 = do {
     st \<leftarrow> do_enable_preempt env (tskPreempt env) st0;
     Some (outcome_of (sk_curThread st0) st) }"

definition TskYield :: "'d schedEnv \<Rightarrow> 'd sched \<Rightarrow> (unit call_outcome \<times> 'd sched) option" where
  "TskYield env st = do {
     (st, ipl) \<leftarrow> raise_ipl env IPL_HIGH st;
     r \<leftarrow> TskSchedule env st;
     and_then r (lower_last env ipl) }"

definition TskStartThread :: "'d schedEnv \<Rightarrow> addr \<Rightarrow> 'd sched \<Rightarrow> (unit call_outcome \<times> 'd sched) option" where
  "TskStartThread env t st = do {
     (st, ipl) \<leftarrow> raise_ipl env IPL_HIGH st;
     r \<leftarrow> TskReadyThread env t st;
     and_then r (lower_last env ipl) }"

text \<open>The initial switch has no old thread. It does not set \<open>curPriority\<close>.\<close>

definition TskSetInitialThread :: "'d schedEnv \<Rightarrow> addr \<Rightarrow> 'd sched \<Rightarrow> 'd sched option" where
  "TskSetInitialThread env t st = do {
     st \<leftarrow> upd_thread t (\<lambda>th. th\<lparr>th_state := TSK_THREAD_RUNNING\<rparr>) st;
     let (now, st) = get_time env st;
     st \<leftarrow> upd_thread t (\<lambda>th. th\<lparr>th_lastSchedule := now, th_quantaLeft := th_quantum th\<rparr>) st;
     Some (st\<lparr>sk_curThread := t\<rparr>) }"

definition TskTimeSlice :: "'d schedEnv \<Rightarrow> 'd sched \<Rightarrow> (unit call_outcome \<times> 'd sched) option" where
  "TskTimeSlice env st = do {
     (st, ipl) \<leftarrow> raise_ipl env IPL_HIGH st;
     let cur = sk_curThread st;
     st \<leftarrow> lock_thread cur st;
     th \<leftarrow> sk_threads st cur;
     st \<leftarrow> (if th_flags th AND TSK_THREAD_FIFO = 0 then
             if th_quantaLeft th = 0 then tskPreempt env st
             else upd_thread cur (\<lambda>th. th\<lparr>th_quantaLeft := th_quantaLeft th - 1\<rparr>) st
           else Some st);
     st \<leftarrow> unlock_thread env (tskPreempt env) cur st;
     and_then (outcome_of cur st) (lower_last env ipl) }"

text \<open>The body of the loop of \<open>TskSetThreadPrio\<close>, with the state that was sampled. Where the code goes round
  with that same state it goes round for ever.\<close>

definition set_prio_body :: "'d schedEnv \<Rightarrow> addr \<Rightarrow> int \<Rightarrow> thState \<Rightarrow> 'd sched \<Rightarrow> 'd sched option" where
  "set_prio_body env t newPrio state st =
     (if state = TSK_THREAD_RUNNING then do {
        st \<leftarrow> lock_thread t st;
        (if t \<noteq> sk_curThread st then None
         else do {
           th \<leftarrow> sk_threads st t;
           st \<leftarrow> upd_thread t (\<lambda>th. th\<lparr>th_priority := newPrio\<rparr>) st;
           let st = st\<lparr>sk_curPriority := newPrio\<rparr>;
           st \<leftarrow> (if newPrio > th_priority th \<and> sk_readyMask st \<noteq> 0 \<and> CpuScanPriority (sk_readyMask st) < newPrio
                 then tskPreempt env st else Some st);
           unlock_thread env (tskPreempt env) t st }) }
      else if state = TSK_THREAD_READY then do {
        st \<leftarrow> lock_rq st;
        st \<leftarrow> lock_thread t st;
        th \<leftarrow> sk_threads st t;
        (if th_state th \<noteq> TSK_THREAD_READY \<or> \<not> prio_ok (th_priority th) \<or> \<not> prio_ok newPrio then None
         else do {
           let curQueue = ready_queue env (th_priority th);
           h \<leftarrow> NkListRemove (sk_links st) curQueue t;
           front \<leftarrow> NkListFront h curQueue;
           let st = (if front = 0 then st\<lparr>sk_readyMask := sk_readyMask st AND NOT (push_bit (nat (th_priority th)) 1)\<rparr>
                     else st);
           st \<leftarrow> upd_thread t (\<lambda>th. th\<lparr>th_priority := newPrio\<rparr>) st;
           h \<leftarrow> NkListAddBack h (ready_queue env newPrio) t;
           let st = st\<lparr>sk_links := h, sk_readyMask := sk_readyMask st OR push_bit (nat newPrio) 1\<rparr>;
           st \<leftarrow> (if newPrio < sk_curPriority st then tskPreempt env st else Some st);
           st \<leftarrow> unlock_thread env (tskPreempt env) t st;
           unlock_rq env (tskPreempt env) st }) }
      else do {
        st \<leftarrow> lock_thread t st;
        th \<leftarrow> sk_threads st t;
        (if th_state th \<noteq> state then None
         else do {
           st \<leftarrow> upd_thread t (\<lambda>th. th\<lparr>th_priority := newPrio\<rparr>) st;
           unlock_thread env (tskPreempt env) t st }) })"

definition TskSetThreadPrio :: "'d schedEnv \<Rightarrow> addr \<Rightarrow> int \<Rightarrow> 'd sched \<Rightarrow> (unit call_outcome \<times> 'd sched) option" where
  "TskSetThreadPrio env t newPrio st = do {
     (st, ipl) \<leftarrow> raise_ipl env IPL_HIGH st;
     let cur = sk_curThread st;
     st \<leftarrow> lock_thread t st;
     th \<leftarrow> sk_threads st t;
     st \<leftarrow> unlock_thread env (tskPreempt env) t st;
     and_then (outcome_of cur st) (\<lambda>_ st.
       if th_priority th = newPrio then lower_last env ipl () st
       else do {
         st \<leftarrow> set_prio_body env t newPrio (th_state th) st;
         and_then (outcome_of cur st) (lower_last env ipl) }) }"

section \<open>The queues a state stands for\<close>

text \<open>All lists that share the heap of links: the ready queues and the waiters of the wait queues.\<close>

datatype qid = Ready nat | Waiters addr

definition qhead :: "'d schedEnv \<Rightarrow> qid \<Rightarrow> addr" where
  "qhead env i = (case i of Ready p \<Rightarrow> ready_queue env (int p) | Waiters q \<Rightarrow> q)"

definition qids :: "'d sched \<Rightarrow> qid set" where
  "qids st = Ready ` {0..<64} \<union> Waiters ` dom (sk_queues st)"

lemma ready_qid [simp]: "Ready p \<in> qids st \<longleftrightarrow> p < 64"
  by (auto simp: qids_def)

lemma waiters_qid [simp]: "Waiters q \<in> qids st \<longleftrightarrow> q \<in> dom (sk_queues st)"
  by (auto simp: qids_def)

lemma qhead_ready [simp]: "qhead env (Ready p) = ready_queue env (int p)"
  by (simp add: qhead_def)

definition is_idle :: "thread \<Rightarrow> bool" where
  "is_idle th \<longleftrightarrow> th_flags th AND TSK_THREAD_IDLE \<noteq> 0"

text \<open>A thread that is no list head, is on a ready queue exactly when it is ready, that of its priority, and on no
  list of waiters.\<close>

definition thread_ok :: "'d schedEnv \<Rightarrow> 'd sched \<Rightarrow> (qid \<Rightarrow> addr list) \<Rightarrow> addr \<Rightarrow> thread \<Rightarrow> bool" where
  "thread_ok env st P t th \<longleftrightarrow> t \<noteq> 0 \<and> is_link (sk_links st) t \<and> prio_ok (th_priority th) \<and>
     (\<forall>i \<in> qids st. t \<noteq> qhead env i) \<and> (\<forall>q \<in> dom (sk_queues st). t \<notin> set (P (Waiters q))) \<and>
     (\<forall>p < 64. t \<in> set (P (Ready p)) \<longleftrightarrow> th_state th = TSK_THREAD_READY \<and> th_priority th = int p) \<and>
     (is_idle th \<longleftrightarrow> t = sk_idleThread st)"

definition queues_ok :: "'d schedEnv \<Rightarrow> 'd sched \<Rightarrow> (qid \<Rightarrow> addr list) \<Rightarrow> bool" where
  "queues_ok env st P \<longleftrightarrow>
     family nklist (sk_links st) (qids st) (qhead env) P \<and>
     (\<forall>p < 64. bit (sk_readyMask st) p \<longleftrightarrow> P (Ready p) \<noteq> []) \<and>
     (\<forall>t th. sk_threads st t = Some th \<longrightarrow> thread_ok env st P t th) \<and>
     (\<forall>p < 64. \<forall>t \<in> set (P (Ready p)). sk_threads st t \<noteq> None) \<and>
     (\<exists>i. sk_threads st (sk_idleThread st) = Some i \<and> th_state i \<noteq> TSK_THREAD_READY)"

text \<open>The current thread, with nobody in front of it: no thread of a higher priority, a lower number, is ready.\<close>

definition cur_ok :: "'d sched \<Rightarrow> (qid \<Rightarrow> addr list) \<Rightarrow> bool" where
  "cur_ok st P \<longleftrightarrow> (\<exists>c. sk_threads st (sk_curThread st) = Some c \<and> sk_curPriority st = th_priority c \<and>
     th_state c = TSK_THREAD_RUNNING) \<and> (\<forall>p < 64. P (Ready p) \<noteq> [] \<longrightarrow> sk_curPriority st \<le> int p)"

text \<open>No lock is held and no preemption is asked for.\<close>

definition at_rest :: "'d sched \<Rightarrow> bool" where
  "at_rest st \<longleftrightarrow> \<not> sk_rqLock st \<and> sk_preemptDisable st = 0 \<and> \<not> sk_preemptReq st \<and>
     (\<forall>t th. sk_threads st t = Some th \<longrightarrow> \<not> th_lock th) \<and> (\<forall>q w. sk_queues st q = Some w \<longrightarrow> \<not> wq_lock w)"

text \<open>What the fields that the queues do not depend on may do.\<close>

definition same_queues :: "'d sched \<Rightarrow> 'd sched \<Rightarrow> bool" where
  "same_queues st st' \<longleftrightarrow> sk_links st' = sk_links st \<and> dom (sk_queues st') = dom (sk_queues st) \<and>
     sk_readyMask st' = sk_readyMask st \<and> sk_idleThread st' = sk_idleThread st \<and>
     dom (sk_threads st') = dom (sk_threads st) \<and>
     (\<forall>t th th'. sk_threads st t = Some th \<longrightarrow> sk_threads st' t = Some th' \<longrightarrow> th_priority th' = th_priority th \<and>
       th_flags th' = th_flags th \<and> (th_state th' = TSK_THREAD_READY \<longleftrightarrow> th_state th = TSK_THREAD_READY))"

lemma thread_ok_same:
  assumes "thread_ok env st P t th" and "sk_links st' = sk_links st" "dom (sk_queues st') = dom (sk_queues st)"
    "sk_idleThread st' = sk_idleThread st" and "th_priority th' = th_priority th" "th_flags th' = th_flags th"
    "th_state th' = TSK_THREAD_READY \<longleftrightarrow> th_state th = TSK_THREAD_READY"
  shows "thread_ok env st' P t th'"
  using assms by (simp add: thread_ok_def is_idle_def qids_def)

lemma queues_ok_same:
  assumes "queues_ok env st P" and "same_queues st st'"
  shows "queues_ok env st' P"
proof -
  have ids: "qids st' = qids st" using assms(2) by (simp add: same_queues_def qids_def)
  have old: "\<exists>th. sk_threads st t = Some th \<and> th_priority th' = th_priority th \<and> th_flags th' = th_flags th \<and>
      (th_state th' = TSK_THREAD_READY \<longleftrightarrow> th_state th = TSK_THREAD_READY)" if "sk_threads st' t = Some th'" for t th'
  proof -
    have "t \<in> dom (sk_threads st)" using that assms(2) by (auto simp: same_queues_def)
    then obtain th where "sk_threads st t = Some th" by blast
    then show ?thesis using that assms(2) by (auto simp: same_queues_def)
  qed
  have "thread_ok env st' P t th'" if t: "sk_threads st' t = Some th'" for t th'
  proof -
    obtain th where th: "sk_threads st t = Some th" and eq: "th_priority th' = th_priority th" "th_flags th' = th_flags th"
      "th_state th' = TSK_THREAD_READY \<longleftrightarrow> th_state th = TSK_THREAD_READY"
      using old [OF t] by blast
    have ok: "thread_ok env st P t th" using assms(1) th by (simp add: queues_ok_def)
    show ?thesis by (rule thread_ok_same [OF ok]) (use assms(2) eq in \<open>simp_all add: same_queues_def\<close>)
  qed
  moreover have "\<exists>i. sk_threads st' (sk_idleThread st') = Some i \<and> th_state i \<noteq> TSK_THREAD_READY"
  proof -
    obtain i where i: "sk_threads st (sk_idleThread st) = Some i" "th_state i \<noteq> TSK_THREAD_READY"
      using assms(1) by (auto simp: queues_ok_def)
    then have "sk_idleThread st' \<in> dom (sk_threads st')" using assms(2) by (auto simp: same_queues_def)
    then obtain i' where "sk_threads st' (sk_idleThread st') = Some i'" by blast
    then show ?thesis using i assms(2) by (auto simp: same_queues_def)
  qed
  moreover have "sk_threads st' t \<noteq> None" if "p < 64" "t \<in> set (P (Ready p))" for p t
  proof -
    have "t \<in> dom (sk_threads st')" using that assms by (auto simp: queues_ok_def same_queues_def)
    then show ?thesis by auto
  qed
  ultimately show ?thesis using assms ids by (simp add: queues_ok_def same_queues_def)
qed

lemma same_queues_upd:
  assumes "sk_threads st t = Some th" and "sk_links st' = sk_links st" "dom (sk_queues st') = dom (sk_queues st)"
    "sk_readyMask st' = sk_readyMask st" "sk_idleThread st' = sk_idleThread st"
    and "sk_threads st' = (sk_threads st)(t \<mapsto> th')" and "th_priority th' = th_priority th" "th_flags th' = th_flags th"
    "th_state th' = TSK_THREAD_READY \<longleftrightarrow> th_state th = TSK_THREAD_READY"
  shows "same_queues st st'"
  using assms by (auto simp: same_queues_def)

lemma prio_range:
  assumes "queues_ok env st P" and "sk_threads st t = Some th"
  shows "th_priority th = int (nat (th_priority th))" and "nat (th_priority th) < 64" and "prio_ok (th_priority th)"
proof -
  have "prio_ok (th_priority th)" using assms by (simp add: queues_ok_def thread_ok_def)
  then show "th_priority th = int (nat (th_priority th))" "nat (th_priority th) < 64" "prio_ok (th_priority th)"
    by (simp_all add: prio_ok_def NEXKE_MAX_PRIO_def nat_less_iff)
qed

lemma queued_thread:
  assumes "queues_ok env st P" and "p < 64" and "t \<in> set (P (Ready p))"
  shows "\<exists>th. sk_threads st t = Some th \<and> th_state th = TSK_THREAD_READY \<and> th_priority th = int p"
proof -
  obtain th where th: "sk_threads st t = Some th" using assms unfolding queues_ok_def by blast
  then have "thread_ok env st P t th" using assms(1) by (simp add: queues_ok_def)
  then show ?thesis using th assms(2,3) by (simp add: thread_ok_def)
qed

text \<open>A thread that is put on its ready queue.\<close>

lemma queues_ok_enqueue:
  assumes ok: "queues_ok env st P" and t: "sk_threads st t = Some th" "th_state th \<noteq> TSK_THREAD_READY"
    and idle: "t \<noteq> sk_idleThread st" and p: "th_priority th = int p"
    and ys: "set ys = insert t (set (P (Ready p)))"
    and fam: "family nklist h (qids st) (qhead env) (P(Ready p := ys))" and fr: "links_frame (sk_links st) h A"
    and st': "sk_links st' = h" "sk_readyMask st' = sk_readyMask st OR push_bit p 1"
      "sk_threads st' = (sk_threads st)(t \<mapsto> th')" "sk_idleThread st' = sk_idleThread st"
      "dom (sk_queues st') = dom (sk_queues st)"
    and th': "th_state th' = TSK_THREAD_READY" "th_priority th' = th_priority th" "th_flags th' = th_flags th"
  shows "queues_ok env st' (P(Ready p := ys))"
proof -
  have tk: "thread_ok env st P u thu" if "sk_threads st u = Some thu" for u thu
    using ok that by (simp add: queues_ok_def)
  have p64: "p < 64" using tk [OF t(1)] p by (simp add: thread_ok_def prio_ok_def NEXKE_MAX_PRIO_def)
  have ids: "qids st' = qids st" using st'(5) by (simp add: qids_def)
  have links: "is_link h u" if "is_link (sk_links st) u" for u
    using that fr nk.free_same by blast
  have "thread_ok env st' (P(Ready p := ys)) u thu" if u: "sk_threads st' u = Some thu" for u thu
  proof (cases "u = t")
    case True
    then show ?thesis
      using u tk [OF t(1)] st' th' t(2) p ys ids links by (auto simp: thread_ok_def is_idle_def)
  next
    case False
    then have "sk_threads st u = Some thu" using u st'(3) by simp
    from tk [OF this] show ?thesis
      using False st' ys ids links by (auto simp: thread_ok_def)
  qed
  moreover have "bit (sk_readyMask st') q \<longleftrightarrow> (P(Ready p := ys)) (Ready q) \<noteq> []" if "q < 64" for q
    using ok that st'(2) p64 ys by (auto simp: queues_ok_def bit_simps)
  moreover have "sk_threads st' u \<noteq> None" if "q < 64" "u \<in> set ((P(Ready p := ys)) (Ready q))" for q u
    using ok that st'(3) ys by (auto simp: queues_ok_def split: if_splits)
  moreover have "\<exists>i. sk_threads st' (sk_idleThread st') = Some i \<and> th_state i \<noteq> TSK_THREAD_READY"
    using ok st'(3,4) idle by (auto simp: queues_ok_def)
  ultimately show ?thesis unfolding queues_ok_def using fam st'(1) ids by simp
qed

text \<open>A thread that is taken from its ready queue to run.\<close>

lemma queues_ok_dequeue:
  assumes ok: "queues_ok env st P" and P: "P (Ready p) = us @ t # vs" and p64: "p < 64"
    and t: "sk_threads st t = Some th"
    and fam: "family nklist h (qids st) (qhead env) (P(Ready p := us @ vs))" and fr: "links_frame (sk_links st) h A"
    and st': "sk_links st' = h" "sk_threads st' = (sk_threads st)(t \<mapsto> th')" "sk_idleThread st' = sk_idleThread st"
      "dom (sk_queues st') = dom (sk_queues st)"
      "sk_readyMask st' = (if us @ vs = [] then sk_readyMask st AND NOT (push_bit p 1) else sk_readyMask st)"
    and th': "th_state th' \<noteq> TSK_THREAD_READY" "th_priority th' = th_priority th" "th_flags th' = th_flags th"
  shows "queues_ok env st' (P(Ready p := us @ vs))"
proof -
  have tk: "thread_ok env st P u thu" if "sk_threads st u = Some thu" for u thu
    using ok that by (simp add: queues_ok_def)
  have ids: "qids st' = qids st" using st'(4) by (simp add: qids_def)
  have links: "is_link h u" if "is_link (sk_links st) u" for u
    using that fr nk.free_same by blast
  have dist: "distinct (us @ t # vs)"
    using nk.repr_distinct [OF familyD [of nklist "sk_links st" "qids st" "qhead env" P "Ready p"]] ok p64 P
    by (simp add: queues_ok_def)
  have tr: "th_priority th = int p" using tk [OF t] p64 P by (auto simp: thread_ok_def)
  have "thread_ok env st' (P(Ready p := us @ vs)) u thu" if u: "sk_threads st' u = Some thu" for u thu
  proof (cases "u = t")
    case True
    then show ?thesis
      using u tk [OF t] st' th' dist tr ids links P by (auto simp: thread_ok_def is_idle_def)
  next
    case False
    then have "sk_threads st u = Some thu" using u st'(2) by simp
    from tk [OF this] have "thread_ok env st P u thu" .
    moreover have "u \<in> set (us @ vs) \<longleftrightarrow> u \<in> set (P (Ready p))" using False P by auto
    ultimately show ?thesis
      using False st' ids links by (auto simp: thread_ok_def)
  qed
  moreover have "bit (sk_readyMask st') q \<longleftrightarrow> (P(Ready p := us @ vs)) (Ready q) \<noteq> []" if "q < 64" for q
    using ok that st'(5) p64 P by (auto simp: queues_ok_def bit_simps)
  moreover have "sk_threads st' u \<noteq> None" if "q < 64" "u \<in> set ((P(Ready p := us @ vs)) (Ready q))" for q u
    using ok that st'(2) P p64 by (auto simp: queues_ok_def split: if_splits)
  moreover have "\<exists>i. sk_threads st' (sk_idleThread st') = Some i \<and> th_state i \<noteq> TSK_THREAD_READY"
    using ok st'(2,3) th'(1) by (auto simp: queues_ok_def)
  ultimately show ?thesis unfolding queues_ok_def using fam st'(1) ids by simp
qed

section \<open>The abstract scheduler\<close>

text \<open>On the sequences of threads, one for each priority: a thread that stops goes to the back of its
  sequence, or to the front when it was preempted before its quantum was used up; the first thread of the
  highest priority is next, or the idle thread.\<close>

definition requeue :: "thread \<Rightarrow> addr \<Rightarrow> addr list \<Rightarrow> addr list" where
  "requeue th t xs = (if th_preempted th \<and> th_quantaLeft th \<noteq> 0 then t # xs else xs @ [t])"

definition top :: "(qid \<Rightarrow> addr list) \<Rightarrow> nat option" where
  "top P = List.find (\<lambda>p. P (Ready p) \<noteq> []) [0..<64]"

definition readmit :: "addr \<Rightarrow> thread \<Rightarrow> (qid \<Rightarrow> addr list) \<Rightarrow> qid \<Rightarrow> addr list" where
  "readmit t th P =
     (if th_state th = TSK_THREAD_RUNNING \<and> \<not> is_idle th
      then P(Ready (nat (th_priority th)) := requeue th t (P (Ready (nat (th_priority th))))) else P)"

definition pick :: "addr \<Rightarrow> (qid \<Rightarrow> addr list) \<Rightarrow> addr \<times> (qid \<Rightarrow> addr list)" where
  "pick none P =
     (case top P of None \<Rightarrow> (none, P)
      | Some p \<Rightarrow> (hd (P (Ready p)), P(Ready p := tl (P (Ready p)))))"

text \<open>The state of a thread when it stops and when it runs.\<close>

definition stopped :: "u64 \<Rightarrow> thread \<Rightarrow> thread" where
  "stopped now th =
     (let th = th\<lparr>th_runTime := th_runTime th + (now - th_lastSchedule th)\<rparr>
      in if th_state th = TSK_THREAD_RUNNING then
           if is_idle th then th
           else th\<lparr>th_preempted := False, th_quantaLeft := th_quantum th, th_state := TSK_THREAD_READY\<rparr>
         else if th_state th = TSK_THREAD_WAITING then th\<lparr>th_waitAsserted := 0\<rparr> else th)"

definition running :: "u64 \<Rightarrow> thread \<Rightarrow> thread" where
  "running now th = th\<lparr>th_state := TSK_THREAD_RUNNING, th_lastSchedule := now\<rparr>"

lemma is_idle_upd [simp]:
  "is_idle (th\<lparr>th_runTime := r\<rparr>) = is_idle th" "is_idle (th\<lparr>th_lastSchedule := r\<rparr>) = is_idle th"
  "is_idle (th\<lparr>th_state := s\<rparr>) = is_idle th" "is_idle (th\<lparr>th_preempted := b\<rparr>) = is_idle th"
  "is_idle (th\<lparr>th_quantaLeft := n\<rparr>) = is_idle th" "is_idle (th\<lparr>th_priority := n\<rparr>) = is_idle th"
  "is_idle (th\<lparr>th_lock := b\<rparr>) = is_idle th" "is_idle (th\<lparr>th_waitAsserted := n\<rparr>) = is_idle th"
  by (simp_all add: is_idle_def)

lemma stopped_simps [simp]:
  "th_priority (stopped now th) = th_priority th" "th_flags (stopped now th) = th_flags th"
  "th_lock (stopped now th) = th_lock th" "is_idle (stopped now th) = is_idle th"
  "th_state (stopped now th) =
     (if th_state th = TSK_THREAD_RUNNING \<and> \<not> is_idle th then TSK_THREAD_READY else th_state th)"
  by (simp_all add: stopped_def Let_def)

lemma running_simps [simp]:
  "th_priority (running now th) = th_priority th" "th_flags (running now th) = th_flags th"
  "th_lock (running now th) = th_lock th" "is_idle (running now th) = is_idle th"
  "th_state (running now th) = TSK_THREAD_RUNNING"
  by (simp_all add: running_def)

lemma find_least:
  "List.find P [a..<b] = Some p \<longleftrightarrow> a \<le> p \<and> p < b \<and> P p \<and> (\<forall>q. a \<le> q \<and> q < p \<longrightarrow> \<not> P q)"
proof (induction "b - a" arbitrary: a)
  case 0
  then show ?case by simp
next
  case (Suc n)
  then have "[a..<b] = a # [Suc a..<b]" by (simp add: upt_rec)
  then show ?case using Suc.hyps(1) [of "Suc a"] Suc.hyps(2)
    by (auto simp: Suc_le_eq le_less) (metis Suc_le_eq le_less)+
qed

lemma top_Some: "top P = Some p \<longleftrightarrow> p < 64 \<and> P (Ready p) \<noteq> [] \<and> (\<forall>q < p. P (Ready q) = [])"
  unfolding top_def find_least by auto

lemma top_None: "top P = None \<longleftrightarrow> (\<forall>p < 64. P (Ready p) = [])"
  by (auto simp: top_def find_None_iff)

lemma scan_top:
  assumes "queues_ok env st P"
  shows "CpuScanPriority (sk_readyMask st) = (case top P of None \<Rightarrow> - 1 | Some p \<Rightarrow> int p)"
proof -
  have "List.find (\<lambda>p. bit (sk_readyMask st) p) [0..<64] = List.find (\<lambda>p. P (Ready p) \<noteq> []) [0..<64]"
    using assms by (intro find_cong) (auto simp: queues_ok_def)
  then show ?thesis by (simp add: CpuScanPriority_def top_def)
qed

section \<open>The code runs the abstract scheduler\<close>

lemmas thread_steps = upd_thread_def lock_thread_def unlock_thread_def do_enable_preempt_def TskDisablePreempt_def Let_def

lemma idle_flag: "th_flags th AND TSK_THREAD_IDLE = 0 \<longleftrightarrow> \<not> is_idle th"
  by (simp add: is_idle_def)

text \<open>What readying adds to its queue.\<close>

definition add_ready :: "'d schedEnv \<Rightarrow> links \<Rightarrow> addr \<Rightarrow> thread \<Rightarrow> links option" where
  "add_ready env h t th =
     (let queue = ready_queue env (th_priority th)
      in if th_preempted th \<and> th_quantaLeft th \<noteq> 0 then NkListAddFront h queue t else NkListAddBack h queue t)"

lemma ready_thread_code:
  assumes "sk_threads st t = Some th" and "sk_curIpl st = IPL_HIGH" and "prio_ok (th_priority th)"
    and "add_ready env (sk_links st) t th = Some h"
  shows "ready_thread env pr t st =
    (let st' = st\<lparr>sk_links := h, sk_threads := (sk_threads st)(t \<mapsto> th\<lparr>th_preempted := False,
         th_quantaLeft := th_quantum th, th_state := TSK_THREAD_READY\<rparr>),
         sk_readyMask := sk_readyMask st OR push_bit (nat (th_priority th)) 1\<rparr>
     in if th_priority th < sk_curPriority st then pr st' else Some st')"
proof -
  have "(if th_preempted th then if th_quantaLeft th = 0 then NkListAddBack (sk_links st) (ready_queue env (th_priority th)) t
      else NkListAddFront (sk_links st) (ready_queue env (th_priority th)) t
    else NkListAddBack (sk_links st) (ready_queue env (th_priority th)) t) = Some h"
    using assms(4) by (auto simp: add_ready_def Let_def split: if_splits)
  with assms(1-3) show ?thesis by (simp add: ready_thread_def upd_thread_def Let_def)
qed

lemma stop_thread_running:
  assumes "sk_threads st t = Some c" "\<not> th_lock c" "th_state c = TSK_THREAD_RUNNING" "\<not> is_idle c"
    and "sk_curIpl st = IPL_HIGH" "0 < sk_preemptDisable st" and "prio_ok (th_priority c)" "sk_curPriority st \<le> th_priority c"
    and "add_ready env (sk_links st) t c = Some h" and "se_getTime env (sk_dev st) = (now, d)"
  shows "stop_thread env pr t st = Some (st\<lparr>sk_links := h, sk_threads := (sk_threads st)(t \<mapsto> stopped now c),
    sk_readyMask := sk_readyMask st OR push_bit (nat (th_priority c)) 1, sk_dev := d\<rparr>)"
  using assms
  by (cases c; cases st)
    (simp add: stop_thread_def get_time_def thread_steps ready_thread_code [where h = h] idle_flag stopped_def
      is_idle_def add_ready_def)

lemma stop_thread_other:
  assumes "sk_threads st t = Some c" "\<not> th_lock c" "th_state c \<noteq> TSK_THREAD_RUNNING \<or> is_idle c"
    and "sk_curIpl st = IPL_HIGH" "0 < sk_preemptDisable st" and "se_getTime env (sk_dev st) = (now, d)"
  shows "stop_thread env pr t st = Some (st\<lparr>sk_threads := (sk_threads st)(t \<mapsto> stopped now c), sk_dev := d\<rparr>)"
  using assms
  by (cases c; cases st) (auto simp: stop_thread_def get_time_def thread_steps idle_flag stopped_def is_idle_def)

lemma set_current_code:
  assumes "sk_threads st t = Some th" "sk_curIpl st = IPL_HIGH" and "se_getTime env (sk_dev st) = (now, d)"
  shows "tskSetCurrentThread env t st = Some (st\<lparr>sk_threads := (sk_threads st)(t \<mapsto> running now th),
    sk_curThread := t, sk_curPriority := th_priority th, sk_dev := d\<rparr>)"
  using assms by (simp add: tskSetCurrentThread_def upd_thread_def get_time_def running_def)

lemma add_ready_family:
  assumes ok: "queues_ok env st P" and t: "sk_threads st t = Some th" "th_state th \<noteq> TSK_THREAD_READY"
    and p: "p = nat (th_priority th)"
  shows "\<exists>h A. add_ready env (sk_links st) t th = Some h \<and> links_frame (sk_links st) h A \<and>
    family nklist h (qids st) (qhead env) (P(Ready p := requeue th t (P (Ready p))))"
proof -
  have fam: "family nklist (sk_links st) (qids st) (qhead env) P" using ok by (simp add: queues_ok_def)
  have tk: "thread_ok env st P t th" using ok t by (simp add: queues_ok_def)
  then have pr: "th_priority th = int p" "p < 64" using p by (auto simp: thread_ok_def prio_ok_def NEXKE_MAX_PRIO_def)
  have i: "Ready p \<in> qids st" using pr by simp
  have out: "\<forall>j \<in> qids st. t \<notin> set (qhead env j # P j)"
  proof
    fix j
    assume j: "j \<in> qids st"
    then have "t \<noteq> qhead env j" using tk by (auto simp: thread_ok_def)
    moreover have "t \<notin> set (P j)" using j tk t(2) by (cases j) (auto simp: thread_ok_def)
    ultimately show "t \<notin> set (qhead env j # P j)" by simp
  qed
  have link: "is_link (sk_links st) t" "t \<noteq> 0" using tk by (simp_all add: thread_ok_def)
  show ?thesis
  proof (cases "th_preempted th \<and> th_quantaLeft th \<noteq> 0")
    case True
    then show ?thesis
      using nk.family_push [OF fam i link out] pr(1) by (auto simp: add_ready_def requeue_def Let_def)
  next
    case False
    then show ?thesis
      using nk.family_append [OF fam i link out] pr(1) by (auto simp: add_ready_def requeue_def Let_def)
  qed
qed

lemma set_requeue: "set (requeue th t xs) = insert t (set xs)"
  by (auto simp: requeue_def)

text \<open>The current thread stops.\<close>

lemma stop_ok:
  assumes ok: "queues_ok env st P" and t: "sk_threads st t = Some c" "\<not> th_lock c" "th_state c \<noteq> TSK_THREAD_READY"
    and ipl: "sk_curIpl st = IPL_HIGH" and pd: "0 < sk_preemptDisable st" and cp: "sk_curPriority st \<le> th_priority c"
    and now: "se_getTime env (sk_dev st) = (now, d)"
  shows "\<exists>h m. stop_thread env pr t st =
      Some (st\<lparr>sk_links := h, sk_threads := (sk_threads st)(t \<mapsto> stopped now c), sk_readyMask := m, sk_dev := d\<rparr>) \<and>
    queues_ok env (st\<lparr>sk_links := h, sk_threads := (sk_threads st)(t \<mapsto> stopped now c), sk_readyMask := m, sk_dev := d\<rparr>)
      (readmit t c P)"
proof (cases "th_state c = TSK_THREAD_RUNNING \<and> \<not> is_idle c")
  case True
  let ?p = "nat (th_priority c)"
  obtain h A where h: "add_ready env (sk_links st) t c = Some h" "links_frame (sk_links st) h A"
    and fam: "family nklist h (qids st) (qhead env) (P(Ready ?p := requeue c t (P (Ready ?p))))"
    using add_ready_family [OF ok t(1,3) refl] by blast
  have tk: "thread_ok env st P t c" using ok t by (simp add: queues_ok_def)
  then have pr: "prio_ok (th_priority c)" "th_priority c = int ?p" "t \<noteq> sk_idleThread st"
    using True by (auto simp: thread_ok_def prio_ok_def)
  define st' where "st' = st\<lparr>sk_links := h, sk_threads := (sk_threads st)(t \<mapsto> stopped now c),
    sk_readyMask := sk_readyMask st OR push_bit ?p 1, sk_dev := d\<rparr>"
  have "queues_ok env st' (P(Ready ?p := requeue c t (P (Ready ?p))))"
    by (rule queues_ok_enqueue [OF ok t(1,3) pr(3,2) set_requeue fam h(2), where th' = "stopped now c"])
      (use True in \<open>simp_all add: st'_def\<close>)
  moreover have "stop_thread env pr t st = Some st'"
    unfolding st'_def using True stop_thread_running [OF t(1,2) _ _ ipl pd pr(1) cp h(1) now] by simp
  ultimately show ?thesis using True unfolding st'_def readmit_def by auto
next
  case False
  define st' where "st' = st\<lparr>sk_threads := (sk_threads st)(t \<mapsto> stopped now c), sk_dev := d\<rparr>"
  have "same_queues st st'"
    by (rule same_queues_upd [OF t(1), where th' = "stopped now c"])
      (use False t(3) in \<open>auto simp: st'_def\<close>)
  then have "queues_ok env st' P" by (rule queues_ok_same [OF ok])
  moreover have "stop_thread env pr t st = Some st'"
    unfolding st'_def using False by (intro stop_thread_other [OF t(1,2) _ ipl pd now]) auto
  moreover have "st' = st\<lparr>sk_links := sk_links st, sk_threads := (sk_threads st)(t \<mapsto> stopped now c),
      sk_readyMask := sk_readyMask st, sk_dev := d\<rparr>" by (simp add: st'_def)
  moreover have "readmit t c P = P" using False by (auto simp: readmit_def)
  ultimately show ?thesis by metis
qed

text \<open>The first thread of a queue is taken and made the current one.\<close>

lemma take_first:
  assumes ok: "queues_ok env st P" and p: "P (Ready p) = x # xs" "p < 64"
    and ipl: "sk_curIpl st = IPL_HIGH" and now: "se_getTime env (sk_dev st) = (now, d)" and x: "sk_threads st x = Some th"
  shows "\<exists>h m. (do {
      let queue = ready_queue env (int p);
      nextThread \<leftarrow> NkListFront (sk_links st) queue;
      h \<leftarrow> NkListRemove (sk_links st) queue nextThread;
      front \<leftarrow> NkListFront h queue;
      let st = st\<lparr>sk_links := h\<rparr>;
      let st = (if front = 0 then st\<lparr>sk_readyMask := sk_readyMask st AND NOT (push_bit (nat (int p)) 1)\<rparr> else st);
      tskSetCurrentThread env nextThread st }) =
        Some (st\<lparr>sk_links := h, sk_readyMask := m, sk_dev := d, sk_threads := (sk_threads st)(x \<mapsto> running now th),
          sk_curThread := x, sk_curPriority := th_priority th\<rparr>) \<and>
    queues_ok env (st\<lparr>sk_links := h, sk_readyMask := m, sk_dev := d, sk_threads := (sk_threads st)(x \<mapsto> running now th),
      sk_curThread := x, sk_curPriority := th_priority th\<rparr>) (P(Ready p := xs))"
proof -
  have fam: "family nklist (sk_links st) (qids st) (qhead env) P" using ok by (simp add: queues_ok_def)
  have i: "Ready p \<in> qids st" using p by simp
  have split: "P (Ready p) = [] @ x # xs" using p by simp
  obtain h where h: "NkListRemove (sk_links st) (ready_queue env (int p)) x = Some h"
    and fam': "family nklist h (qids st) (qhead env) (P(Ready p := [] @ xs))"
    and fr: "links_frame (sk_links st) h (set (qhead env (Ready p) # [] @ xs))"
    using nk.family_remove [OF fam i split] by auto
  have front: "NkListFront (sk_links st) (ready_queue env (int p)) = Some x"
    using nk.front [OF familyD [OF fam i]] p by simp
  have front': "NkListFront h (ready_queue env (int p)) = Some (case xs of [] \<Rightarrow> 0 | y # _ \<Rightarrow> y)"
    using nk.front [OF familyD [OF fam' i]] by simp
  have nz: "0 \<notin> set xs" using nk.repr_distinct [OF familyD [OF fam i]] p by auto
  then have emp: "(case xs of [] \<Rightarrow> 0 | y # _ \<Rightarrow> y) = 0 \<longleftrightarrow> xs = []" by (cases xs) auto
  define m where "m = (if xs = [] then sk_readyMask st AND NOT (push_bit p 1) else sk_readyMask st)"
  define st' where "st' = st\<lparr>sk_links := h, sk_readyMask := m, sk_dev := d, sk_threads := (sk_threads st)(x \<mapsto> running now th),
    sk_curThread := x, sk_curPriority := th_priority th\<rparr>"
  have "queues_ok env st' (P(Ready p := [] @ xs))"
    by (rule queues_ok_dequeue [OF ok split p(2) x fam' fr, where th' = "running now th"])
      (simp_all add: st'_def m_def)
  moreover have "tskSetCurrentThread env x (st\<lparr>sk_links := h, sk_readyMask := m\<rparr>) = Some st'"
    using set_current_code [of "st\<lparr>sk_links := h, sk_readyMask := m\<rparr>" x th env now d] x ipl now by (simp add: st'_def)
  moreover have "(if xs = [] then st\<lparr>sk_links := h, sk_readyMask := sk_readyMask st AND NOT (push_bit p 1)\<rparr>
      else st\<lparr>sk_links := h\<rparr>) = st\<lparr>sk_links := h, sk_readyMask := m\<rparr>" by (simp add: m_def)
  ultimately show ?thesis
    unfolding st'_def using front h front' emp by (intro exI [of _ h] exI [of _ m]) (simp add: Let_def cong: if_cong)
qed

text \<open>Scheduling with the run queue locked: the threads after it are those before it but for the one that
  stops and the one that runs.\<close>

definition switched :: "'d sched \<Rightarrow> links \<Rightarrow> u64 \<Rightarrow> 'd \<Rightarrow> thread \<Rightarrow> addr \<Rightarrow> thread \<Rightarrow> 'd sched" where
  "switched st h m d c nxt n = st\<lparr>sk_links := h, sk_readyMask := m, sk_dev := d,
     sk_threads := (sk_threads st)(sk_curThread st \<mapsto> c, nxt \<mapsto> n), sk_curThread := nxt,
     sk_curPriority := th_priority n\<rparr>"

lemma schedule_ok:
  assumes ok: "queues_ok env st P" and c: "sk_threads st (sk_curThread st) = Some c" "\<not> th_lock c"
      "th_state c \<noteq> TSK_THREAD_READY"
    and ipl: "sk_curIpl st = IPL_HIGH" and pd: "0 < sk_preemptDisable st" and cp: "sk_curPriority st = th_priority c"
    and nx: "pick (if th_state c = TSK_THREAD_RUNNING then sk_curThread st else sk_idleThread st)
      (readmit (sk_curThread st) c P) = (nxt, P')"
  shows "\<exists>h m d now n. schedule env pr st = Some (switched st h m d (stopped now c) nxt n) \<and>
    queues_ok env (switched st h m d (stopped now c) nxt n) P' \<and> th_state n = TSK_THREAD_RUNNING \<and>
    (\<forall>q < 64. P' (Ready q) \<noteq> [] \<longrightarrow> th_priority n \<le> int q) \<and>
    (\<exists>n0 now'. ((sk_threads st)(sk_curThread st \<mapsto> stopped now c)) nxt = Some n0 \<and> (n = n0 \<or> n = running now' n0))"
proof -
  let ?t = "sk_curThread st" and ?P1 = "readmit (sk_curThread st) c P"
  obtain now d1 where now: "se_getTime env (sk_dev st) = (now, d1)" by fastforce
  obtain now' d2 where now': "se_getTime env d1 = (now', d2)" by fastforce
  have "sk_curPriority st \<le> th_priority c" using cp by simp
  from stop_ok [OF ok c ipl pd this now, of pr]
  obtain h m where stop: "stop_thread env pr ?t st =
      Some (st\<lparr>sk_links := h, sk_threads := (sk_threads st)(?t \<mapsto> stopped now c), sk_readyMask := m, sk_dev := d1\<rparr>)"
    and ok1: "queues_ok env (st\<lparr>sk_links := h, sk_threads := (sk_threads st)(?t \<mapsto> stopped now c), sk_readyMask := m,
      sk_dev := d1\<rparr>) ?P1"
    by blast
  define st1 where "st1 = st\<lparr>sk_links := h, sk_threads := (sk_threads st)(?t \<mapsto> stopped now c), sk_readyMask := m, sk_dev := d1\<rparr>"
  note stop = stop [folded st1_def] and ok1 = ok1 [folded st1_def]
  have st1: "sk_curIpl st1 = IPL_HIGH" "sk_dev st1 = d1" "sk_threads st1 = (sk_threads st)(?t \<mapsto> stopped now c)"
    "sk_idleThread st1 = sk_idleThread st" by (simp_all add: st1_def ipl)
  show ?thesis
  proof (cases "top ?P1")
    case None
    then have scan: "CpuScanPriority (sk_readyMask st1) = - 1" using scan_top [OF ok1] by simp
    have P': "P' = ?P1" and nxt: "nxt = (if th_state c = TSK_THREAD_RUNNING then ?t else sk_idleThread st)"
      using nx None by (auto simp: pick_def)
    have idle: "is_idle c" if "th_state c = TSK_THREAD_RUNNING"
    proof (rule ccontr)
      assume "\<not> is_idle c"
      then have "?P1 (Ready (nat (th_priority c))) \<noteq> []" using that by (simp add: readmit_def requeue_def)
      moreover have "nat (th_priority c) < 64"
        using prio_range [OF ok c(1)] by simp
      ultimately show False using None by (auto simp: top_None)
    qed
    show ?thesis
    proof (cases "th_state c = TSK_THREAD_RUNNING")
      case True
      have "schedule env pr st = Some st1"
        using stop scan ipl True idle st1(3) by (simp add: schedule_def Let_def)
      moreover have "st1 = switched st h m d1 (stopped now c) ?t (stopped now c)"
        using cp by (simp add: st1_def switched_def)
      ultimately show ?thesis using ok1 True idle nxt P' None [unfolded top_None]
        by (intro exI [of _ h] exI [of _ m] exI [of _ d1] exI [of _ now] exI [of _ "stopped now c"]) simp
    next
      case False
      obtain i where i: "sk_threads st1 (sk_idleThread st1) = Some i" "th_state i \<noteq> TSK_THREAD_READY"
        using ok1 by (auto simp: queues_ok_def)
      define st2 where "st2 = switched st h m d2 (stopped now c) nxt (running now' i)"
      have st2: "st2 = st1\<lparr>sk_threads := (sk_threads st1)(nxt \<mapsto> running now' i), sk_curThread := nxt,
          sk_curPriority := th_priority i, sk_dev := d2\<rparr>" by (simp add: st2_def switched_def st1_def)
      have nxt': "nxt = sk_idleThread st1" using nxt False st1 by simp
      have "schedule env pr st = Some st2"
        using stop scan ipl False st1 set_current_code [OF i(1) st1(1), of env now' d2] now' nxt'
        by (simp add: schedule_def Let_def st2)
      moreover have "queues_ok env st2 P'"
        unfolding P' by (rule queues_ok_same [OF ok1], rule same_queues_upd [OF i(1), where th' = "running now' i"])
          (use i(2) nxt' in \<open>simp_all add: st2\<close>)
      moreover have "((sk_threads st)(?t \<mapsto> stopped now c)) nxt = Some i" using i(1) st1(3) nxt' by simp
      moreover have "\<forall>q < 64. P' (Ready q) \<noteq> [] \<longrightarrow> th_priority (running now' i) \<le> int q"
        using None [unfolded top_None] by (simp add: P')
      ultimately show ?thesis unfolding st2_def by (metis running_simps(5))
    qed
  next
    case (Some p)
    then have p: "p < 64" "?P1 (Ready p) \<noteq> []" by (auto simp: top_Some)
    obtain x xs where xs: "?P1 (Ready p) = x # xs" using p(2) by (cases "?P1 (Ready p)") auto
    have scan: "CpuScanPriority (sk_readyMask st1) = int p" using scan_top [OF ok1] Some by simp
    have P': "P' = ?P1(Ready p := xs)" and nxt: "nxt = x" using nx Some xs by (auto simp: pick_def)
    obtain n where n: "sk_threads st1 x = Some n" "th_priority n = int p" using queued_thread [OF ok1 p(1), of x] xs by auto
    obtain h2 m2 where run: "(do {
      let queue = ready_queue env (int p);
      nextThread \<leftarrow> NkListFront (sk_links st1) queue;
      h \<leftarrow> NkListRemove (sk_links st1) queue nextThread;
      front \<leftarrow> NkListFront h queue;
      let st = st1\<lparr>sk_links := h\<rparr>;
      let st = (if front = 0 then st\<lparr>sk_readyMask := sk_readyMask st AND NOT (push_bit (nat (int p)) 1)\<rparr> else st);
      tskSetCurrentThread env nextThread st }) =
        Some (st1\<lparr>sk_links := h2, sk_readyMask := m2, sk_dev := d2, sk_threads := (sk_threads st1)(x \<mapsto> running now' n),
          sk_curThread := x, sk_curPriority := th_priority n\<rparr>)"
      and ok2: "queues_ok env (st1\<lparr>sk_links := h2, sk_readyMask := m2, sk_dev := d2,
          sk_threads := (sk_threads st1)(x \<mapsto> running now' n), sk_curThread := x, sk_curPriority := th_priority n\<rparr>)
        (?P1(Ready p := xs))"
      using take_first [OF ok1 xs p(1) st1(1) _ n(1)] now' st1(2) by blast
    have eq: "st1\<lparr>sk_links := h2, sk_readyMask := m2, sk_dev := d2, sk_threads := (sk_threads st1)(x \<mapsto> running now' n),
        sk_curThread := x, sk_curPriority := th_priority n\<rparr> = switched st h2 m2 d2 (stopped now c) x (running now' n)"
      by (simp add: st1_def switched_def)
    have "schedule env pr st = Some (switched st h2 m2 d2 (stopped now c) x (running now' n))"
      unfolding schedule_def Let_def stop Option.bind.bind_lunit scan
      using run ipl unfolding eq Let_def by simp
    moreover have "((sk_threads st)(?t \<mapsto> stopped now c)) x = Some n" using n(1) st1(3) by simp
    moreover have "th_priority (running now' n) \<le> int q" if "q < 64" "P' (Ready q) \<noteq> []" for q
    proof -
      have "?P1 (Ready q) \<noteq> []" using that(2) xs by (auto simp: P' split: if_splits)
      then have "\<not> q < p" using Some by (auto simp: top_Some)
      then show ?thesis using n(2) by simp
    qed
    ultimately show ?thesis using ok2 unfolding eq P' nxt by (metis running_simps(5))
  qed
qed

section \<open>The public operations\<close>

lemma unlock_rq_last:
  assumes "sk_rqLock st" "sk_preemptDisable st = 1" "\<not> sk_preemptReq st" "sk_curIpl st = IPL_HIGH"
  shows "unlock_rq env pr st = Some (st\<lparr>sk_rqLock := False, sk_preemptDisable := 0\<rparr>)"
  using assms by (cases st) (simp add: unlock_rq_def do_enable_preempt_def enable_unsafe_def raise_ipl_def lower_ipl_def Let_def)

lemma lower_high: "sk_curIpl st = IPL_HIGH \<Longrightarrow> lower_ipl env IPL_HIGH st = Some st"
  by (cases st) (simp add: lower_ipl_def)

text \<open>What scheduling with a free run queue gives: the thread the abstract scheduler picks, with no
  thread in front of it.\<close>

definition after_schedule :: "'d schedEnv \<Rightarrow> 'd sched \<Rightarrow> 'd sched \<Rightarrow> addr \<Rightarrow> (qid \<Rightarrow> addr list) \<Rightarrow> bool" where
  "after_schedule env st st' nxt P' \<longleftrightarrow> queues_ok env st' P' \<and> cur_ok st' P' \<and> at_rest st' \<and> sk_curThread st' = nxt \<and>
     sk_curIpl st' = sk_curIpl st \<and> sk_idleThread st' = sk_idleThread st \<and> sk_queues st' = sk_queues st \<and>
     (\<forall>t. t \<noteq> sk_curThread st \<longrightarrow> t \<noteq> nxt \<longrightarrow> sk_threads st' t = sk_threads st t)"

lemma schedule_unlocked:
  assumes ok: "queues_ok env st P" and q: "at_rest st" and c: "sk_threads st (sk_curThread st) = Some c"
      "th_state c \<noteq> TSK_THREAD_READY"
    and ipl: "sk_curIpl st = IPL_HIGH" and cp: "sk_curPriority st = th_priority c"
    and nx: "pick (if th_state c = TSK_THREAD_RUNNING then sk_curThread st else sk_idleThread st)
      (readmit (sk_curThread st) c P) = (nxt, P')"
  shows "\<exists>st' now. (do {
      st \<leftarrow> lock_rq st;
      st \<leftarrow> schedule env pr st;
      unlock_rq env pr st }) = Some st' \<and> after_schedule env st st' nxt P' \<and>
    (\<exists>n0 now'. ((sk_threads st)(sk_curThread st \<mapsto> stopped now c)) nxt = Some n0 \<and>
      (sk_threads st' nxt = Some n0 \<or> sk_threads st' nxt = Some (running now' n0))) \<and>
    (nxt \<noteq> sk_curThread st \<longrightarrow> sk_threads st' (sk_curThread st) = Some (stopped now c))"
proof -
  define st1 where "st1 = st\<lparr>sk_preemptDisable := 1, sk_rqLock := True\<rparr>"
  have lock: "lock_rq st = Some st1" using q by (simp add: lock_rq_def at_rest_def st1_def TskDisablePreempt_def)
  have "same_queues st st1" by (auto simp: same_queues_def st1_def)
  then have ok1: "queues_ok env st1 P" by (rule queues_ok_same [OF ok])
  have st1: "sk_threads st1 (sk_curThread st1) = Some c" "sk_curIpl st1 = IPL_HIGH" "0 < sk_preemptDisable st1"
    "sk_curPriority st1 = th_priority c" "sk_curThread st1 = sk_curThread st" "sk_idleThread st1 = sk_idleThread st"
    "sk_threads st1 = sk_threads st" using c ipl cp by (simp_all add: st1_def)
  have nl: "\<not> th_lock c" using q c(1) by (auto simp: at_rest_def)
  obtain h m d now n where sch: "schedule env pr st1 = Some (switched st1 h m d (stopped now c) nxt n)"
    and ok2: "queues_ok env (switched st1 h m d (stopped now c) nxt n) P'" and run: "th_state n = TSK_THREAD_RUNNING"
    and top: "\<forall>q < 64. P' (Ready q) \<noteq> [] \<longrightarrow> th_priority n \<le> int q"
    and n0: "\<exists>n0 now'. ((sk_threads st)(sk_curThread st \<mapsto> stopped now c)) nxt = Some n0 \<and> (n = n0 \<or> n = running now' n0)"
    using schedule_ok [OF ok1 st1(1) nl c(2) st1(2-4) nx [folded st1(5,6)]] unfolding st1(5,7) by blast
  define st2 where "st2 = switched st1 h m d (stopped now c) nxt n"
  define st' where "st' = st2\<lparr>sk_rqLock := False, sk_preemptDisable := 0\<rparr>"
  have code: "(do {
      st \<leftarrow> lock_rq st;
      st \<leftarrow> schedule env pr st;
      unlock_rq env pr st }) = Some st'"
    unfolding lock Option.bind.bind_lunit sch st'_def st2_def
    by (rule unlock_rq_last) (use q ipl in \<open>simp_all add: switched_def st1_def at_rest_def\<close>)
  have thr: "sk_threads st' = (sk_threads st)(sk_curThread st \<mapsto> stopped now c, nxt \<mapsto> n)"
    and cur: "sk_curThread st' = nxt" "sk_curPriority st' = th_priority n" "sk_preemptReq st' = sk_preemptReq st"
      "sk_queues st' = sk_queues st" "sk_curIpl st' = sk_curIpl st" "sk_idleThread st' = sk_idleThread st"
      "\<not> sk_rqLock st'" "sk_preemptDisable st' = 0"
    by (simp_all add: st'_def st2_def switched_def st1_def)
  have "same_queues st2 st'" by (auto simp: same_queues_def st'_def)
  then have "queues_ok env st' P'" by (rule queues_ok_same [OF ok2 [folded st2_def]])
  moreover have "cur_ok st' P'" using thr cur run top by (auto simp: cur_ok_def)
  moreover have nln: "\<not> th_lock n"
  proof -
    obtain n1 now' where n1: "((sk_threads st)(sk_curThread st \<mapsto> stopped now c)) nxt = Some n1" "n = n1 \<or> n = running now' n1"
      using n0 by blast
    have "\<not> th_lock n1" using n1(1) q nl unfolding at_rest_def by (cases "nxt = sk_curThread st") auto
    then show ?thesis using n1(2) by auto
  qed
  have locks: "\<not> th_lock th" if "sk_threads st' t = Some th" for t th
    using that q nl nln unfolding thr at_rest_def by (cases "t = nxt"; cases "t = sk_curThread st") auto
  have "at_rest st'" using q locks unfolding at_rest_def cur(3,4) by (simp add: cur)
  ultimately have "after_schedule env st st' nxt P'" using thr cur by (simp add: after_schedule_def)
  moreover have "\<exists>n0 now'. ((sk_threads st)(sk_curThread st \<mapsto> stopped now c)) nxt = Some n0 \<and>
      (sk_threads st' nxt = Some n0 \<or> sk_threads st' nxt = Some (running now' n0))"
    using n0 thr by auto
  moreover have "nxt \<noteq> sk_curThread st \<longrightarrow> sk_threads st' (sk_curThread st) = Some (stopped now c)"
    using thr by simp
  ultimately show ?thesis using code by blast
qed

text \<open>Preemption with nothing locked.\<close>

lemma preempt_unlocked:
  assumes ok: "queues_ok env st P" and q: "at_rest (st\<lparr>sk_preemptReq := False\<rparr>)"
    and c: "sk_threads st (sk_curThread st) = Some c" "th_state c = TSK_THREAD_RUNNING"
    and ipl: "sk_curIpl st = IPL_HIGH" and cp: "sk_curPriority st = th_priority c"
    and nx: "pick (sk_curThread st) (readmit (sk_curThread st) (c\<lparr>th_preempted := True\<rparr>) P) = (nxt, P')"
  shows "\<exists>st' now. tskPreempt env st = Some st' \<and> after_schedule env st st' nxt P' \<and>
    (\<exists>n0 now'. ((sk_threads st)(sk_curThread st \<mapsto> stopped now (c\<lparr>th_preempted := True\<rparr>))) nxt = Some n0 \<and>
      (sk_threads st' nxt = Some n0 \<or> sk_threads st' nxt = Some (running now' n0))) \<and>
    (nxt \<noteq> sk_curThread st \<longrightarrow> sk_threads st' (sk_curThread st) = Some (stopped now (c\<lparr>th_preempted := True\<rparr>)))"
proof -
  let ?c = "c\<lparr>th_preempted := True\<rparr>"
  define st1 where "st1 = st\<lparr>sk_threads := (sk_threads st)(sk_curThread st \<mapsto> ?c), sk_preemptReq := False\<rparr>"
  have upd: "upd_thread (sk_curThread st) (\<lambda>th. th\<lparr>th_preempted := True\<rparr>) st =
      Some (st\<lparr>sk_threads := (sk_threads st)(sk_curThread st \<mapsto> ?c)\<rparr>)"
    using c(1) by (simp add: upd_thread_def)
  have "same_queues st st1"
    by (rule same_queues_upd [OF c(1), where th' = ?c]) (simp_all add: st1_def)
  then have ok1: "queues_ok env st1 P" by (rule queues_ok_same [OF ok])
  have q1: "at_rest st1" using q c(1) by (auto simp: at_rest_def st1_def)
  have st1: "sk_threads st1 (sk_curThread st1) = Some ?c" "th_state ?c \<noteq> TSK_THREAD_READY" "sk_curIpl st1 = IPL_HIGH"
    "sk_curPriority st1 = th_priority ?c" "sk_curThread st1 = sk_curThread st" "sk_idleThread st1 = sk_idleThread st"
    using c ipl cp by (simp_all add: st1_def)
  have nx1: "pick (if th_state ?c = TSK_THREAD_RUNNING then sk_curThread st1 else sk_idleThread st1)
      (readmit (sk_curThread st1) ?c P) = (nxt, P')"
    using nx c(2) st1(5) by simp
  obtain st' now where code: "(do {
      st \<leftarrow> lock_rq st1;
      st \<leftarrow> schedule env (tskPreempt env) st;
      unlock_rq env (tskPreempt env) st }) = Some st'"
    and a: "after_schedule env st1 st' nxt P'"
    and n: "\<exists>n0 now'. ((sk_threads st1)(sk_curThread st1 \<mapsto> stopped now ?c)) nxt = Some n0 \<and>
      (sk_threads st' nxt = Some n0 \<or> sk_threads st' nxt = Some (running now' n0))"
    and old: "nxt \<noteq> sk_curThread st1 \<longrightarrow> sk_threads st' (sk_curThread st1) = Some (stopped now ?c)"
    using schedule_unlocked [OF ok1 q1 st1(1-4) nx1] by blast
  have "tskPreempt env st = Some st'"
    using code ipl upd q by (simp add: tskPreempt.simps [of env st] at_rest_def st1_def)
  moreover have "after_schedule env st st' nxt P'" using a by (auto simp: after_schedule_def st1_def)
  moreover have "(sk_threads st1)(sk_curThread st1 \<mapsto> stopped now ?c) = (sk_threads st)(sk_curThread st \<mapsto> stopped now ?c)"
    by (simp add: st1_def)
  ultimately show ?thesis using n old st1(5) by (metis (no_types, lifting))
qed

text \<open>Letting the last lock go when a preemption is asked for.\<close>

lemma enable_preempting:
  assumes "sk_preemptDisable st = 1" "sk_preemptReq st" "sk_curIpl st = IPL_HIGH"
    and "tskPreempt env (st\<lparr>sk_preemptDisable := 0\<rparr>) = Some st'" and "sk_curIpl st' = IPL_HIGH"
  shows "do_enable_preempt env (tskPreempt env) st = Some st'"
  using assms lower_high [of st' env]
  by (cases st) (simp add: do_enable_preempt_def enable_unsafe_def raise_ipl_def Let_def)

lemma enable_quiet:
  assumes "sk_preemptDisable st = 1" "\<not> sk_preemptReq st" "sk_curIpl st = IPL_HIGH"
  shows "do_enable_preempt env pr st = Some (st\<lparr>sk_preemptDisable := 0\<rparr>)"
  using assms by (cases st) (simp add: do_enable_preempt_def enable_unsafe_def raise_ipl_def lower_ipl_def Let_def)

lemma enable_nested: "1 < sk_preemptDisable st \<Longrightarrow>
    do_enable_preempt env pr st = Some (st\<lparr>sk_preemptDisable := sk_preemptDisable st - 1\<rparr>)"
  by (simp add: do_enable_preempt_def Let_def)

definition readied :: "thread \<Rightarrow> thread" where
  "readied th = th\<lparr>th_preempted := False, th_quantaLeft := th_quantum th, th_state := TSK_THREAD_READY\<rparr>"

lemma readied_simps [simp]:
  "th_priority (readied th) = th_priority th" "th_flags (readied th) = th_flags th"
  "th_lock (readied th) = th_lock th" "is_idle (readied th) = is_idle th" "th_state (readied th) = TSK_THREAD_READY"
  by (simp_all add: readied_def)

lemma cur_not_ready:
  assumes "cur_ok st P" and "sk_threads st t = Some th" "th_state th \<noteq> TSK_THREAD_RUNNING"
  shows "t \<noteq> sk_curThread st"
  using assms by (auto simp: cur_ok_def)

text \<open>A pick where a thread has just come to an empty queue in front of all others.\<close>

lemma pick_first:
  assumes "P (Ready p) = t # xs" and "p < 64" and "\<forall>q < p. P (Ready q) = []"
  shows "pick none P = (t, P(Ready p := xs))"
proof -
  have "top P = Some p" using assms by (simp add: top_Some)
  then show ?thesis using assms(1) by (simp add: pick_def)
qed

lemma ready_queued:
  assumes ok: "queues_ok env st P" and t: "sk_threads st t = Some th" "th_state th \<noteq> TSK_THREAD_READY"
    and idle: "t \<noteq> sk_idleThread st" and p: "p = nat (th_priority th)"
  shows "\<exists>h. add_ready env (sk_links st) t th = Some h \<and>
    queues_ok env (st\<lparr>sk_links := h, sk_threads := (sk_threads st)(t \<mapsto> readied th),
      sk_readyMask := sk_readyMask st OR push_bit p 1\<rparr>) (P(Ready p := requeue th t (P (Ready p))))"
proof -
  obtain h A where h: "add_ready env (sk_links st) t th = Some h" "links_frame (sk_links st) h A"
    and fam: "family nklist h (qids st) (qhead env) (P(Ready p := requeue th t (P (Ready p))))"
    using add_ready_family [OF ok t p] by blast
  have pr: "th_priority th = int p" using prio_range [OF ok t(1)] p by simp
  have "queues_ok env (st\<lparr>sk_links := h, sk_threads := (sk_threads st)(t \<mapsto> readied th),
      sk_readyMask := sk_readyMask st OR push_bit p 1\<rparr>) (P(Ready p := requeue th t (P (Ready p))))"
    by (rule queues_ok_enqueue [OF ok t idle pr set_requeue fam h(2), where th' = "readied th"]) simp_all
  with h(1) show ?thesis by blast
qed

lemma preempt_locked:
  assumes "sk_curIpl st = IPL_HIGH" and "sk_threads st (sk_curThread st) = Some c" and "sk_preemptDisable st \<noteq> 0"
  shows "tskPreempt env st = Some (st\<lparr>sk_threads := (sk_threads st)(sk_curThread st \<mapsto> c\<lparr>th_preempted := True\<rparr>),
    sk_preemptReq := True\<rparr>)"
  using assms by (simp add: tskPreempt.simps upd_thread_def)

text \<open>Readying up to the last lock.\<close>

lemma TskReadyThread_code:
  assumes q: "at_rest st" and t: "sk_threads st t = Some th" "t \<noteq> sk_curThread st" and ipl: "sk_curIpl st = IPL_HIGH"
    and c: "sk_threads st (sk_curThread st) = Some c" and pr: "prio_ok (th_priority th)"
    and h: "add_ready env (sk_links st) t th = Some h"
    and st': "st' = st\<lparr>sk_links := h, sk_readyMask := sk_readyMask st OR push_bit (nat (th_priority th)) 1,
      sk_threads := (if th_priority th < sk_curPriority st
        then (sk_threads st)(t \<mapsto> readied th, sk_curThread st \<mapsto> c\<lparr>th_preempted := True\<rparr>)
        else (sk_threads st)(t \<mapsto> readied th)),
      sk_preemptReq := (th_priority th < sk_curPriority st), sk_preemptDisable := 1\<rparr>"
  shows "TskReadyThread env t st = do {
    st \<leftarrow> do_enable_preempt env (tskPreempt env) st';
    Some (outcome_of (sk_curThread st') st) }"
proof -
  have nl: "\<not> th_lock th" using q t(1) by (auto simp: at_rest_def)
  let ?th = "th\<lparr>th_lock := True\<rparr>"
  define st2 where "st2 = st\<lparr>sk_preemptDisable := 2, sk_rqLock := True, sk_threads := (sk_threads st)(t \<mapsto> ?th)\<rparr>"
  define st3 where "st3 = st2\<lparr>sk_links := h, sk_threads := (sk_threads st2)(t \<mapsto> readied ?th),
    sk_readyMask := sk_readyMask st2 OR push_bit (nat (th_priority ?th)) 1\<rparr>"
  have lock: "(do { st \<leftarrow> lock_rq st; lock_thread t st }) = Some st2"
    using q t nl by (simp add: lock_rq_def lock_thread_def upd_thread_def TskDisablePreempt_def at_rest_def st2_def)
  have rd: "ready_thread env (tskPreempt env) t st2 =
      (if th_priority th < sk_curPriority st then tskPreempt env st3 else Some st3)"
    using ready_thread_code [of st2 t ?th env h "tskPreempt env"] ipl pr h
    by (simp add: st2_def st3_def add_ready_def readied_def Let_def)
  define st4 where "st4 = (if th_priority th < sk_curPriority st
    then st3\<lparr>sk_threads := (sk_threads st3)(sk_curThread st \<mapsto> c\<lparr>th_preempted := True\<rparr>), sk_preemptReq := True\<rparr> else st3)"
  have pre: "tskPreempt env st3 = Some (st3\<lparr>sk_threads := (sk_threads st3)(sk_curThread st \<mapsto> c\<lparr>th_preempted := True\<rparr>),
      sk_preemptReq := True\<rparr>)"
    using preempt_locked [of st3 c env] ipl c t(2) by (simp add: st3_def st2_def)
  have ready: "ready_thread env (tskPreempt env) t st2 = Some st4"
    unfolding rd st4_def pre by simp
  have st4: "sk_threads st4 t = Some (readied ?th)" "sk_preemptDisable st4 = 2" "sk_rqLock st4"
    using t(2) by (simp_all add: st4_def st3_def st2_def)
  define st5 where "st5 = st4\<lparr>sk_threads := (sk_threads st4)(t \<mapsto> (readied ?th)\<lparr>th_lock := False\<rparr>), sk_preemptDisable := 1\<rparr>"
  have ul: "unlock_thread env (tskPreempt env) t st4 = Some st5"
    using st4 by (simp add: unlock_thread_def upd_thread_def enable_nested st5_def)
  have "st5\<lparr>sk_rqLock := False\<rparr> = st'"
  proof -
    have "(readied ?th)\<lparr>th_lock := False\<rparr> = readied th" using nl by (cases th) (simp add: readied_def)
    then show ?thesis
      using t(2) q by (cases st) (auto simp: st' st5_def st4_def st3_def st2_def at_rest_def fun_upd_twist)
  qed
  then have "unlock_rq env (tskPreempt env) st5 = do_enable_preempt env (tskPreempt env) st'"
    using st4(3) by (simp add: unlock_rq_def st5_def)
  moreover have "sk_curThread st' = sk_curThread st" by (simp add: st')
  ultimately show ?thesis using lock by (simp add: TskReadyThread_def bind_eq_Some_conv ready ul) (auto simp: ready ul)
qed
text \<open>The scheduler at rest: the queues and the current thread are in order, and nothing is locked.\<close>

definition sched_ok :: "'d schedEnv \<Rightarrow> 'd sched \<Rightarrow> (qid \<Rightarrow> addr list) \<Rightarrow> bool" where
  "sched_ok env st P \<longleftrightarrow> queues_ok env st P \<and> cur_ok st P \<and> at_rest st"

text \<open>C35: A thread that is made ready with nothing locked runs at once when its priority is higher
  than that of the current thread, which goes back to the front of its queue, or to the back when its
  quantum is used up. Otherwise the thread waits at the end of its queue (in front when it was
  preempted before) and the current thread goes on. In both cases no thread of a higher priority than the current one is
  ready afterwards, the queues are in order and no lock is held.\<close>

theorem ready_thread_preempts:
  assumes ok: "sched_ok env st P" and ipl: "sk_curIpl st = IPL_HIGH"
    and t: "sk_threads st t = Some th" "th_state th \<noteq> TSK_THREAD_READY" "th_state th \<noteq> TSK_THREAD_RUNNING"
    and idle: "t \<noteq> sk_idleThread st" and c: "sk_threads st (sk_curThread st) = Some c"
  shows "\<exists>st'. TskReadyThread env t st =
      Some (if th_priority th < th_priority c then SwitchedAway else Returned (), st') \<and>
    sk_curThread st' = (if th_priority th < th_priority c then t else sk_curThread st) \<and> sk_curIpl st' = IPL_HIGH \<and>
    sched_ok env st' (if th_priority th < th_priority c then readmit (sk_curThread st) (c\<lparr>th_preempted := True\<rparr>) P
      else P(Ready (nat (th_priority th)) := requeue th t (P (Ready (nat (th_priority th))))))"
proof -
  let ?p = "nat (th_priority th)" and ?c = "c\<lparr>th_preempted := True\<rparr>"
  have q: "at_rest st" and cur: "cur_ok st P" and qok: "queues_ok env st P" using ok by (simp_all add: sched_ok_def)
  define P1 where "P1 = P(Ready ?p := requeue th t (P (Ready ?p)))"
  have tc: "t \<noteq> sk_curThread st" using cur_not_ready [OF cur t(1,3)] .
  have cr: "sk_curPriority st = th_priority c" "th_state c = TSK_THREAD_RUNNING"
    and top: "\<forall>p < 64. P (Ready p) \<noteq> [] \<longrightarrow> th_priority c \<le> int p"
    using cur c by (auto simp: cur_ok_def)
  note pr = prio_range [OF qok t(1)] and prc = prio_range [OF qok c]
  obtain h where h: "add_ready env (sk_links st) t th = Some h"
    and ok1: "queues_ok env (st\<lparr>sk_links := h, sk_threads := (sk_threads st)(t \<mapsto> readied th),
      sk_readyMask := sk_readyMask st OR push_bit ?p 1\<rparr>) P1"
    using ready_queued [OF qok t(1,2) idle refl] unfolding P1_def by blast
  define st1 where "st1 = st\<lparr>sk_links := h, sk_readyMask := sk_readyMask st OR push_bit ?p 1,
      sk_threads := (if th_priority th < sk_curPriority st
        then (sk_threads st)(t \<mapsto> readied th, sk_curThread st \<mapsto> ?c)
        else (sk_threads st)(t \<mapsto> readied th)),
      sk_preemptReq := (th_priority th < sk_curPriority st), sk_preemptDisable := 1\<rparr>"
  note code = TskReadyThread_code [OF q t(1) tc ipl c pr(3) h st1_def]
  define st2 where "st2 = st1\<lparr>sk_preemptDisable := 0\<rparr>"
  have same: "same_queues (st\<lparr>sk_links := h, sk_threads := (sk_threads st)(t \<mapsto> readied th),
      sk_readyMask := sk_readyMask st OR push_bit ?p 1\<rparr>) st2"
    using c tc by (auto simp: same_queues_def st2_def st1_def)
  have ok2: "queues_ok env st2 P1" by (rule queues_ok_same [OF ok1 same])
  show ?thesis
  proof (cases "th_priority th < th_priority c")
    case False
    then have lt: "\<not> th_priority th < sk_curPriority st" using cr by simp
    have "do_enable_preempt env (tskPreempt env) st1 = Some st2"
      unfolding st2_def using lt ipl by (intro enable_quiet) (simp_all add: st1_def)
    then have "TskReadyThread env t st = Some (Returned (), st2)"
      unfolding code by (simp add: outcome_of_def st2_def st1_def)
    moreover have "cur_ok st2 P1"
      using c cr top False tc pr by (auto simp: cur_ok_def st2_def st1_def P1_def)
    moreover have "at_rest st2" using q t(1) lt by (auto simp: at_rest_def st2_def st1_def)
    moreover have "sk_curThread st2 = sk_curThread st" "sk_curIpl st2 = IPL_HIGH"
      using ipl by (simp_all add: st2_def st1_def)
    ultimately show ?thesis using False ok2 by (simp add: P1_def sched_ok_def)
  next
    case True
    then have lt: "th_priority th < sk_curPriority st" using cr by simp
    have emp: "P (Ready q) = []" if "q \<le> ?p" for q
      using that top True pr by (metis (no_types, lifting) le_less_trans less_le_trans nat_int nat_less_iff not_less of_nat_le_iff)
    let ?P2 = "readmit (sk_curThread st) ?c P1"
    have lt': "?p < nat (th_priority c)" using True pr(1) prc(1) by (metis of_nat_less_iff)
    then have "nat (th_priority c) \<noteq> ?p" by (metis less_irrefl)
    note ne = this lt'
    have first: "?P2 (Ready ?p) = [t]" using emp [of ?p] ne by (auto simp: readmit_def P1_def requeue_def)
    have before: "\<forall>q < ?p. ?P2 (Ready q) = []" using emp ne by (auto simp: readmit_def P1_def)
    have P': "?P2(Ready ?p := []) = readmit (sk_curThread st) ?c P"
      using emp [of ?p] ne by (auto simp: readmit_def P1_def fun_eq_iff)
    have pick: "pick (sk_curThread st) ?P2 = (t, readmit (sk_curThread st) ?c P)"
      using pick_first [OF first pr(2) before] P' by simp
    have c2: "sk_threads st2 (sk_curThread st2) = Some ?c" "th_state ?c = TSK_THREAD_RUNNING"
      "sk_curIpl st2 = IPL_HIGH" "sk_curPriority st2 = th_priority ?c" "sk_curThread st2 = sk_curThread st"
      using tc lt cr ipl by (simp_all add: st2_def st1_def)
    have q2: "at_rest (st2\<lparr>sk_preemptReq := False\<rparr>)" using q t(1) c by (auto simp: at_rest_def st2_def st1_def)
    have pick2: "pick (sk_curThread st2) (readmit (sk_curThread st2) (?c\<lparr>th_preempted := True\<rparr>) P1) =
        (t, readmit (sk_curThread st) ?c P)" using pick c2(5) by simp
    obtain st' where pre: "tskPreempt env st2 = Some st'"
      and a: "after_schedule env st2 st' t (readmit (sk_curThread st) ?c P)"
      using preempt_unlocked [OF ok2 q2 c2(1-4) pick2] by blast
    have ipl': "sk_curIpl st' = IPL_HIGH" using a c2(3) by (simp add: after_schedule_def)
    have "do_enable_preempt env (tskPreempt env) st1 = Some st'"
      by (rule enable_preempting [OF _ _ _ pre [unfolded st2_def] ipl']) (use lt ipl in \<open>simp_all add: st1_def\<close>)
    then have "TskReadyThread env t st = Some (SwitchedAway, st')"
      unfolding code using a tc by (simp add: outcome_of_def after_schedule_def st1_def)
    then show ?thesis using True a ipl' by (simp add: after_schedule_def sched_ok_def)
  qed
qed

text \<open>The time slice handler.\<close>

lemma raise_high:
  assumes "sk_curIpl st \<le> IPL_HIGH"
  shows "raise_ipl env IPL_HIGH st = Some (st\<lparr>sk_curIpl := IPL_HIGH\<rparr>, sk_curIpl st)"
  using assms by (simp add: raise_ipl_def Let_def)

lemma sched_ok_ipl: "sched_ok env (st\<lparr>sk_curIpl := i\<rparr>) P = sched_ok env st P"
  by (simp add: sched_ok_def queues_ok_def cur_ok_def at_rest_def thread_ok_def qids_def)

lemma sched_ok_dev: "sched_ok env (st\<lparr>sk_dev := d\<rparr>) P = sched_ok env st P"
  by (simp add: sched_ok_def queues_ok_def cur_ok_def at_rest_def thread_ok_def qids_def)

lemma lower_ok:
  assumes "i \<le> sk_curIpl st" and "sched_ok env st P"
  shows "\<exists>st'. lower_ipl env i st = Some st' \<and> sched_ok env st' P \<and> sk_threads st' = sk_threads st \<and>
    sk_curThread st' = sk_curThread st \<and> sk_curIpl st' = i \<and> sk_idleThread st' = sk_idleThread st"
  using assms by (simp add: lower_ipl_def Let_def sched_ok_ipl sched_ok_dev)

lemma sched_ok_cur:
  assumes ok: "sched_ok env st P" and c: "sk_threads st (sk_curThread st) = Some c"
    and c': "th_priority c' = th_priority c" "th_flags c' = th_flags c" "th_state c' = th_state c" "\<not> th_lock c'"
  shows "sched_ok env (st\<lparr>sk_threads := (sk_threads st)(sk_curThread st \<mapsto> c')\<rparr>) P"
proof -
  have "same_queues st (st\<lparr>sk_threads := (sk_threads st)(sk_curThread st \<mapsto> c')\<rparr>)"
    by (rule same_queues_upd [OF c, where th' = c']) (simp_all add: c')
  then have "queues_ok env (st\<lparr>sk_threads := (sk_threads st)(sk_curThread st \<mapsto> c')\<rparr>) P"
    using ok queues_ok_same by (auto simp: sched_ok_def)
  moreover have "cur_ok (st\<lparr>sk_threads := (sk_threads st)(sk_curThread st \<mapsto> c')\<rparr>) P"
    using ok c c' by (auto simp: sched_ok_def cur_ok_def)
  moreover have "at_rest (st\<lparr>sk_threads := (sk_threads st)(sk_curThread st \<mapsto> c')\<rparr>)"
    using ok c'(4) by (auto simp: sched_ok_def at_rest_def)
  ultimately show ?thesis by (simp add: sched_ok_def)
qed

text \<open>The handler up to the last lock.\<close>

lemma TskTimeSlice_code:
  assumes ipl: "sk_curIpl st \<le> IPL_HIGH" and c: "sk_threads st (sk_curThread st) = Some c" "\<not> th_lock c"
    and s: "s = st\<lparr>sk_curIpl := IPL_HIGH, sk_preemptDisable := sk_preemptDisable st + 1,
      sk_threads := (sk_threads st)(sk_curThread st \<mapsto> c\<lparr>th_lock := True\<rparr>)\<rparr>"
    and slice: "(if th_flags c AND TSK_THREAD_FIFO = 0 then
        if th_quantaLeft c = 0 then tskPreempt env s
        else upd_thread (sk_curThread st) (\<lambda>th. th\<lparr>th_quantaLeft := th_quantaLeft th - 1\<rparr>) s
      else Some s) = Some st2"
    and ul: "unlock_thread env (tskPreempt env) (sk_curThread st) st2 = Some st3"
  shows "TskTimeSlice env st = and_then (outcome_of (sk_curThread st) st3) (lower_last env (sk_curIpl st))"
proof -
  have lock: "lock_thread (sk_curThread st) (st\<lparr>sk_curIpl := IPL_HIGH\<rparr>) = Some s"
    using c by (simp add: lock_thread_def upd_thread_def TskDisablePreempt_def s)
  have cur: "sk_threads s (sk_curThread st) = Some (c\<lparr>th_lock := True\<rparr>)" by (simp add: s)
  have f: "th_flags (c\<lparr>th_lock := True\<rparr>) = th_flags c" "th_quantaLeft (c\<lparr>th_lock := True\<rparr>) = th_quantaLeft c"
    "sk_curThread (st\<lparr>sk_curIpl := IPL_HIGH\<rparr>) = sk_curThread st" by simp_all
  show ?thesis
    unfolding TskTimeSlice_def raise_high [OF ipl] Let_def Option.bind.bind_lunit prod.case f lock cur slice ul ..
qed

lemma time_slice_running:
  assumes ok: "sched_ok env st P" and ipl: "sk_curIpl st \<le> IPL_HIGH" and c: "sk_threads st (sk_curThread st) = Some c"
    and run: "th_flags c AND TSK_THREAD_FIFO \<noteq> 0 \<or> th_quantaLeft c \<noteq> 0"
  shows "\<exists>st'. TskTimeSlice env st = Some (Returned (), st') \<and> sched_ok env st' P \<and> sk_curThread st' = sk_curThread st \<and>
    sk_threads st' = (sk_threads st)(sk_curThread st \<mapsto>
      (if th_flags c AND TSK_THREAD_FIFO \<noteq> 0 then c else c\<lparr>th_quantaLeft := th_quantaLeft c - 1\<rparr>)) \<and>
    sk_curIpl st' = sk_curIpl st \<and> sk_idleThread st' = sk_idleThread st"
proof -
  let ?c = "if th_flags c AND TSK_THREAD_FIFO \<noteq> 0 then c else c\<lparr>th_quantaLeft := th_quantaLeft c - 1\<rparr>"
  have nl: "\<not> th_lock c" and pd: "sk_preemptDisable st = 0" "\<not> sk_preemptReq st"
    using ok c by (auto simp: sched_ok_def at_rest_def)
  have nl': "?c\<lparr>th_lock := False\<rparr> = ?c" using nl by (cases c) simp
  define st1 where "st1 = st\<lparr>sk_curIpl := IPL_HIGH, sk_threads := (sk_threads st)(sk_curThread st \<mapsto> ?c)\<rparr>"
  have ok1: "sched_ok env st1 P"
  proof -
    have "sched_ok env (st\<lparr>sk_curIpl := IPL_HIGH\<rparr>) P" using ok by (simp add: sched_ok_ipl)
    from sched_ok_cur [OF this, of c ?c] show ?thesis using c nl by (simp add: st1_def)
  qed
  have "sk_curIpl st \<le> sk_curIpl st1" using ipl by (simp add: st1_def)
  then obtain st' where low: "lower_ipl env (sk_curIpl st) st1 = Some st'"
    and st': "sched_ok env st' P" "sk_threads st' = sk_threads st1" "sk_curThread st' = sk_curThread st1"
      "sk_curIpl st' = sk_curIpl st" "sk_idleThread st' = sk_idleThread st1"
    using lower_ok [OF _ ok1] by blast
  define st2 where "st2 = st1\<lparr>sk_preemptDisable := 1, sk_threads := (sk_threads st)(sk_curThread st \<mapsto> ?c\<lparr>th_lock := True\<rparr>)\<rparr>"
  have "(if th_flags c AND TSK_THREAD_FIFO = 0 then
      if th_quantaLeft c = 0 then tskPreempt env s
      else upd_thread (sk_curThread st) (\<lambda>th. th\<lparr>th_quantaLeft := th_quantaLeft th - 1\<rparr>) s
    else Some s) = Some st2" if "s = st\<lparr>sk_curIpl := IPL_HIGH, sk_preemptDisable := 1,
      sk_threads := (sk_threads st)(sk_curThread st \<mapsto> c\<lparr>th_lock := True\<rparr>)\<rparr>" for s
    using run unfolding that by (cases c) (auto simp: st2_def st1_def upd_thread_def)
  note slice = this [OF refl]
  have en: "do_enable_preempt env (tskPreempt env) (st1\<lparr>sk_preemptDisable := 1\<rparr>) = Some st1"
    using enable_quiet [of "st1\<lparr>sk_preemptDisable := 1\<rparr>" env "tskPreempt env"] pd by (simp add: st1_def)
  have "st2\<lparr>sk_threads := (sk_threads st2)(sk_curThread st \<mapsto> ?c\<lparr>th_lock := False\<rparr>)\<rparr> = st1\<lparr>sk_preemptDisable := 1\<rparr>"
    unfolding nl' by (simp add: st2_def st1_def)
  then have ul: "unlock_thread env (tskPreempt env) (sk_curThread st) st2 = Some st1"
    using en by (simp add: unlock_thread_def upd_thread_def st2_def cong: if_cong)
  have "TskTimeSlice env st = and_then (outcome_of (sk_curThread st) st1) (lower_last env (sk_curIpl st))"
    by (rule TskTimeSlice_code [OF ipl c nl refl _ ul]) (unfold pd(1) add_0, rule slice)
  moreover have "sk_curThread st1 = sk_curThread st" by (simp add: st1_def)
  ultimately have "TskTimeSlice env st = Some (Returned (), st')"
    using low by (simp add: outcome_of_def and_then_def lower_last_def)
  then show ?thesis using st' by (simp add: st1_def)
qed

lemma unlock_thread_code:
  assumes "sk_threads st t = Some th" and "th_lock th"
    and "do_enable_preempt env pr (st\<lparr>sk_threads := (sk_threads st)(t \<mapsto> th\<lparr>th_lock := False\<rparr>)\<rparr>) = r"
  shows "unlock_thread env pr t st = r"
  using assms by (simp add: unlock_thread_def upd_thread_def)

lemma time_slice_expired:
  assumes ok: "sched_ok env st P" and ipl: "sk_curIpl st \<le> IPL_HIGH" and c: "sk_threads st (sk_curThread st) = Some c"
    and run: "th_flags c AND TSK_THREAD_FIFO = 0" "th_quantaLeft c = 0" "\<not> is_idle c"
    and x: "P (Ready (nat (th_priority c))) @ [sk_curThread st] = x # xs"
  shows "\<exists>st' now now' n. TskTimeSlice env st = Some (if x = sk_curThread st then Returned () else SwitchedAway, st') \<and>
    sched_ok env st' (P(Ready (nat (th_priority c)) := xs)) \<and> sk_curThread st' = x \<and>
    sk_curIpl st' = (if x = sk_curThread st then sk_curIpl st else IPL_HIGH) \<and> sk_idleThread st' = sk_idleThread st \<and>
    (\<forall>t. t \<noteq> sk_curThread st \<longrightarrow> t \<noteq> x \<longrightarrow> sk_threads st' t = sk_threads st t) \<and>
    (x \<noteq> sk_curThread st \<longrightarrow> sk_threads st' (sk_curThread st) = Some (stopped now (c\<lparr>th_preempted := True\<rparr>))) \<and>
    ((sk_threads st)(sk_curThread st \<mapsto> stopped now (c\<lparr>th_preempted := True\<rparr>))) x = Some n \<and>
    (sk_threads st' x = Some n \<or> sk_threads st' x = Some (running now' n))"
proof -
  let ?cur = "sk_curThread st" and ?p = "nat (th_priority c)" and ?c = "c\<lparr>th_preempted := True\<rparr>"
  have qok: "queues_ok env st P" and cok: "cur_ok st P" and q: "at_rest st" using ok by (simp_all add: sched_ok_def)
  have nl: "\<not> th_lock c" and pd: "sk_preemptDisable st = 0" "\<not> sk_preemptReq st" using q c by (auto simp: at_rest_def)
  have cr: "sk_curPriority st = th_priority c" "th_state c = TSK_THREAD_RUNNING"
    and top: "\<forall>p < 64. P (Ready p) \<noteq> [] \<longrightarrow> th_priority c \<le> int p"
    using cok c by (auto simp: cur_ok_def)
  note pr = prio_range [OF qok c]
  define st2 where "st2 = st\<lparr>sk_curIpl := IPL_HIGH, sk_threads := (sk_threads st)(?cur \<mapsto> ?c), sk_preemptReq := True\<rparr>"
  define s where "s = st\<lparr>sk_curIpl := IPL_HIGH, sk_preemptDisable := sk_preemptDisable st + 1,
      sk_threads := (sk_threads st)(?cur \<mapsto> c\<lparr>th_lock := True\<rparr>)\<rparr>"
  have s: "sk_curThread s = ?cur" "sk_curIpl s = IPL_HIGH" "sk_threads s ?cur = Some (c\<lparr>th_lock := True\<rparr>)"
    "sk_preemptDisable s = 1" using pd by (simp_all add: s_def)
  define s2 where "s2 = s\<lparr>sk_threads := (sk_threads s)(?cur \<mapsto> c\<lparr>th_lock := True, th_preempted := True\<rparr>), sk_preemptReq := True\<rparr>"
  have pre: "tskPreempt env s = Some s2"
    using preempt_locked [of s "c\<lparr>th_lock := True\<rparr>" env] s by (simp add: s2_def)
  have "same_queues st st2"
    by (rule same_queues_upd [OF c, where th' = ?c]) (simp_all add: st2_def)
  then have ok2: "queues_ok env st2 P" by (rule queues_ok_same [OF qok])
  have c2: "sk_threads st2 (sk_curThread st2) = Some ?c" "th_state ?c = TSK_THREAD_RUNNING" "sk_curIpl st2 = IPL_HIGH"
    "sk_curPriority st2 = th_priority ?c" "sk_curThread st2 = ?cur" "sk_idleThread st2 = sk_idleThread st"
    using cr by (simp_all add: st2_def)
  have q2: "at_rest (st2\<lparr>sk_preemptReq := False\<rparr>)" using q c by (auto simp: at_rest_def st2_def)
  have re: "readmit ?cur ?c P = P(Ready ?p := x # xs)"
    using cr run x by (simp add: readmit_def requeue_def)
  have first: "(P(Ready ?p := x # xs)) (Ready ?p) = x # xs" by simp
  have before: "\<forall>q < ?p. (P(Ready ?p := x # xs)) (Ready q) = []"
  proof (intro allI impI)
    fix q
    assume "q < ?p"
    then have "int q < th_priority c" "q < 64" using pr(1,2) by linarith+
    then show "(P(Ready ?p := x # xs)) (Ready q) = []" using top \<open>q < ?p\<close> by fastforce
  qed
  have pick: "pick (sk_curThread st2) (readmit (sk_curThread st2) (?c\<lparr>th_preempted := True\<rparr>) P) = (x, P(Ready ?p := xs))"
  proof -
    have "pick ?cur (P(Ready ?p := x # xs)) = (x, (P(Ready ?p := x # xs))(Ready ?p := xs))"
      by (rule pick_first [OF first pr(2) before])
    then show ?thesis using re c2(5) by (simp only: fun_upd_upd) simp
  qed
  obtain st' now where t: "tskPreempt env st2 = Some st'" and a: "after_schedule env st2 st' x (P(Ready ?p := xs))"
    and n: "\<exists>n0 now'. ((sk_threads st2)(sk_curThread st2 \<mapsto> stopped now (?c\<lparr>th_preempted := True\<rparr>))) x = Some n0 \<and>
      (sk_threads st' x = Some n0 \<or> sk_threads st' x = Some (running now' n0))"
    and old: "x \<noteq> sk_curThread st2 \<longrightarrow> sk_threads st' (sk_curThread st2) = Some (stopped now (?c\<lparr>th_preempted := True\<rparr>))"
    using preempt_unlocked [OF ok2 q2 c2(1-4) pick] by blast
  have ipl': "sk_curIpl st' = IPL_HIGH" using a c2(3) by (simp add: after_schedule_def)
  have "unlock_thread env (tskPreempt env) ?cur s2 = Some st'"
  proof (rule unlock_thread_code)
    show "sk_threads s2 ?cur = Some (c\<lparr>th_lock := True, th_preempted := True\<rparr>)" by (simp add: s2_def)
    define s3 where "s3 = s2\<lparr>sk_threads := (sk_threads s2)(?cur \<mapsto> c\<lparr>th_lock := True, th_preempted := True\<rparr>\<lparr>th_lock := False\<rparr>)\<rparr>"
    have "c\<lparr>th_lock := True, th_preempted := True\<rparr>\<lparr>th_lock := False\<rparr> = ?c" using nl by (cases c) simp
    then have s3: "s3\<lparr>sk_preemptDisable := 0\<rparr> = st2" using pd by (cases st) (simp add: s3_def s2_def s_def st2_def)
    show "do_enable_preempt env (tskPreempt env) s3 = Some st'"
      by (rule enable_preempting [OF _ _ _ _ ipl']) (use s t in \<open>simp_all only: s3\<close>, use s in \<open>simp_all add: s3_def s2_def\<close>)
  qed simp
  then have code: "TskTimeSlice env st = and_then (outcome_of ?cur st') (lower_last env (sk_curIpl st))"
    by (intro TskTimeSlice_code [OF ipl c nl s_def _]) (simp_all add: run pre)
  have cur': "sk_curThread st' = x" "sk_idleThread st' = sk_idleThread st" using a c2(6) by (simp_all add: after_schedule_def)
  have ok': "sched_ok env st' (P(Ready ?p := xs))" using a by (simp add: sched_ok_def after_schedule_def)
  have rest: "\<forall>t. t \<noteq> ?cur \<longrightarrow> t \<noteq> x \<longrightarrow> sk_threads st' t = sk_threads st t"
    using a by (simp add: after_schedule_def st2_def)
  have tn: "(sk_threads st2)(sk_curThread st2 \<mapsto> stopped now (?c\<lparr>th_preempted := True\<rparr>)) =
      (sk_threads st)(?cur \<mapsto> stopped now ?c)" by (simp add: st2_def)
  obtain n0 now' where n0: "((sk_threads st)(?cur \<mapsto> stopped now ?c)) x = Some n0"
    "sk_threads st' x = Some n0 \<or> sk_threads st' x = Some (running now' n0)" using n unfolding tn by blast
  have old': "x \<noteq> ?cur \<longrightarrow> sk_threads st' ?cur = Some (stopped now ?c)" using old c2(5) by simp
  show ?thesis
  proof (cases "x = ?cur")
    case False
    then have "TskTimeSlice env st = Some (SwitchedAway, st')"
      unfolding code using cur' by (simp add: outcome_of_def and_then_def)
    then show ?thesis using False ok' cur' ipl' rest old' n0 by (intro exI [of _ st'] exI [of _ now] exI [of _ now'] exI [of _ n0]) simp
  next
    case True
    obtain st4 where low: "lower_ipl env (sk_curIpl st) st' = Some st4" "sched_ok env st4 (P(Ready ?p := xs))"
      "sk_threads st4 = sk_threads st'" "sk_curThread st4 = sk_curThread st'" "sk_curIpl st4 = sk_curIpl st"
      "sk_idleThread st4 = sk_idleThread st'"
      using lower_ok [OF _ ok'] ipl ipl' by metis
    have "TskTimeSlice env st = Some (Returned (), st4)"
      unfolding code using cur' True low(1) by (simp add: outcome_of_def and_then_def lower_last_def)
    then show ?thesis using True low cur' rest old' n0
      by (intro exI [of _ st4] exI [of _ now] exI [of _ now'] exI [of _ n0]) simp
  qed
qed

text \<open>C34: A call of the scheduler with nothing else locked is the abstract step: the current thread is
  put back on its queue when it was running (not the idle thread), the first thread of the highest priority
  is taken off, or, with all queues empty, the thread itself goes on when it was running and the idle thread runs when it
  was not. The call returns when the thread picked is the one that called. Threads other than these two are
  untouched and the scheduler is in order.\<close>

theorem schedule_picks:
  assumes "queues_ok env st P" and "at_rest st" and "sk_threads st (sk_curThread st) = Some c"
    and "th_state c \<noteq> TSK_THREAD_READY" and "sk_curIpl st = IPL_HIGH" and "sk_curPriority st = th_priority c"
    and "pick (if th_state c = TSK_THREAD_RUNNING then sk_curThread st else sk_idleThread st)
      (readmit (sk_curThread st) c P) = (nxt, P')"
  shows "\<exists>st'. TskSchedule env st = Some (if nxt = sk_curThread st then Returned () else SwitchedAway, st') \<and>
    sched_ok env st' P' \<and> sk_curThread st' = nxt \<and> sk_curIpl st' = IPL_HIGH \<and>
    (\<forall>t. t \<noteq> sk_curThread st \<longrightarrow> t \<noteq> nxt \<longrightarrow> sk_threads st' t = sk_threads st t)"
proof -
  obtain st' where st': "(do {
      st \<leftarrow> lock_rq st;
      st \<leftarrow> schedule env (tskPreempt env) st;
      unlock_rq env (tskPreempt env) st }) = Some st'" and a: "after_schedule env st st' nxt P'"
    using schedule_unlocked [OF assms] by blast
  have "TskSchedule env st = Some (outcome_of (sk_curThread st) st')"
    using st' by (simp add: TskSchedule_def bind_eq_Some_conv) blast
  then show ?thesis using a assms(5) by (auto simp: outcome_of_def after_schedule_def sched_ok_def)
qed

section \<open>Turns\<close>

text \<open>A tick of the time slicer at low IPL. A thread that is resumed returns from the handler it was
  switched away in, which lowers the IPL.\<close>

definition PLT_IPL_LOW :: int where "PLT_IPL_LOW = 0"

definition tick :: "'d schedEnv \<Rightarrow> 'd sched \<Rightarrow> 'd sched option" where
  "tick env st = do {
     (r, st) \<leftarrow> TskTimeSlice env st;
     (case r of Returned _ \<Rightarrow> Some st | SwitchedAway \<Rightarrow> lower_ipl env PLT_IPL_LOW st) }"

fun ticks :: "'d schedEnv \<Rightarrow> nat \<Rightarrow> 'd sched \<Rightarrow> 'd sched option" where
  "ticks env 0 st = Some st"
| "ticks env (Suc n) st = do { st \<leftarrow> tick env st; ticks env n st }"

text \<open>The threads \<open>xs\<close>, the current one first, share the processor with quantum \<open>q\<close>; the current one has \<open>j\<close>
  ticks left.\<close>

definition sharing :: "'d schedEnv \<Rightarrow> nat \<Rightarrow> addr list \<Rightarrow> nat \<Rightarrow> 'd sched \<Rightarrow> bool" where
  "sharing env q xs j st \<longleftrightarrow> (\<exists>P c. sched_ok env st P \<and> sk_curIpl st = PLT_IPL_LOW \<and>
     sk_threads st (sk_curThread st) = Some c \<and> th_quantaLeft c = int j \<and>
     xs = sk_curThread st # P (Ready (nat (th_priority c))) \<and>
     (\<forall>t \<in> set xs. \<exists>th. sk_threads st t = Some th \<and> th_priority th = th_priority c \<and>
        th_flags th AND TSK_THREAD_FIFO = 0 \<and> \<not> is_idle th \<and> th_quantum th = int q \<and>
        (t \<noteq> sk_curThread st \<longrightarrow> th_quantaLeft th = int q)))"

lemma ipl_low_high: "PLT_IPL_LOW \<le> IPL_HIGH" by (simp add: PLT_IPL_LOW_def IPL_HIGH_def)

lemma tick_share:
  assumes "sharing env q xs (Suc j) st"
  shows "\<exists>st'. tick env st = Some st' \<and> sharing env q xs j st'"
proof -
  obtain P c where ok: "sched_ok env st P" and ipl: "sk_curIpl st = PLT_IPL_LOW"
    and c: "sk_threads st (sk_curThread st) = Some c" "th_quantaLeft c = int (Suc j)"
    and xs: "xs = sk_curThread st # P (Ready (nat (th_priority c)))"
    and all: "\<And>t. t \<in> set xs \<Longrightarrow> \<exists>th. sk_threads st t = Some th \<and> th_priority th = th_priority c \<and>
        th_flags th AND TSK_THREAD_FIFO = 0 \<and> \<not> is_idle th \<and> th_quantum th = int q \<and>
        (t \<noteq> sk_curThread st \<longrightarrow> th_quantaLeft th = int q)"
    using assms unfolding sharing_def by blast
  let ?c = "c\<lparr>th_quantaLeft := th_quantaLeft c - 1\<rparr>"
  have cf: "th_flags c AND TSK_THREAD_FIFO = 0" "\<not> is_idle c" "th_quantum c = int q"
    using all [of "sk_curThread st"] c(1) xs by auto
  have "sk_curIpl st \<le> IPL_HIGH" "th_quantaLeft c \<noteq> 0" using ipl ipl_low_high c(2) by simp_all
  from time_slice_running [OF ok this(1) c(1)] this(2) cf(1)
  obtain st' where st': "TskTimeSlice env st = Some (Returned (), st')" "sched_ok env st' P"
    "sk_curThread st' = sk_curThread st" "sk_threads st' = (sk_threads st)(sk_curThread st \<mapsto> ?c)"
    "sk_curIpl st' = sk_curIpl st" by auto
  have each: "\<forall>t \<in> set xs. \<exists>th. sk_threads st' t = Some th \<and> th_priority th = th_priority ?c \<and>
      th_flags th AND TSK_THREAD_FIFO = 0 \<and> \<not> is_idle th \<and> th_quantum th = int q \<and>
      (t \<noteq> sk_curThread st' \<longrightarrow> th_quantaLeft th = int q)"
  proof
    fix t
    assume "t \<in> set xs"
    from all [OF this] cf
    show "\<exists>th. sk_threads st' t = Some th \<and> th_priority th = th_priority ?c \<and> th_flags th AND TSK_THREAD_FIFO = 0 \<and>
        \<not> is_idle th \<and> th_quantum th = int q \<and> (t \<noteq> sk_curThread st' \<longrightarrow> th_quantaLeft th = int q)"
      unfolding st'(3,4) by (cases "t = sk_curThread st") auto
  qed
  have "sk_threads st' (sk_curThread st') = Some ?c" "th_quantaLeft ?c = int j" "sk_curIpl st' = PLT_IPL_LOW"
    "xs = sk_curThread st' # P (Ready (nat (th_priority ?c)))" using st' ipl c xs by simp_all
  then have "sharing env q xs j st'" unfolding sharing_def using each st'(2) by blast
  then show ?thesis using st'(1) by (simp add: tick_def)
qed

lemma stopped_quanta:
  assumes "th_state th = TSK_THREAD_RUNNING" "\<not> is_idle th"
  shows "th_quantaLeft (stopped now th) = th_quantum th"
  using assms by (simp add: stopped_def Let_def)

lemma stopped_quantum [simp]: "th_quantum (stopped now th) = th_quantum th"
  by (simp add: stopped_def Let_def)

lemma running_quantum [simp]: "th_quantum (running now th) = th_quantum th" "th_quantaLeft (running now th) = th_quantaLeft th"
  by (simp_all add: running_def)

lemma tick_turn:
  assumes "sharing env q xs 0 st"
  shows "\<exists>st'. tick env st = Some st' \<and> sharing env q (rotate1 xs) q st'"
proof -
  obtain P c where ok: "sched_ok env st P" and ipl: "sk_curIpl st = PLT_IPL_LOW"
    and c': "sk_threads st (sk_curThread st) = Some c" "th_quantaLeft c = int 0"
    and xs: "xs = sk_curThread st # P (Ready (nat (th_priority c)))"
    and all: "\<And>t. t \<in> set xs \<Longrightarrow> \<exists>th. sk_threads st t = Some th \<and> th_priority th = th_priority c \<and>
        th_flags th AND TSK_THREAD_FIFO = 0 \<and> \<not> is_idle th \<and> th_quantum th = int q \<and>
        (t \<noteq> sk_curThread st \<longrightarrow> th_quantaLeft th = int q)"
    using assms unfolding sharing_def by blast
  have c: "sk_threads st (sk_curThread st) = Some c" "th_quantaLeft c = 0" using c' by simp_all
  let ?cur = "sk_curThread st" and ?p = "nat (th_priority c)" and ?c = "c\<lparr>th_preempted := True\<rparr>"
  have cf: "th_flags c AND TSK_THREAD_FIFO = 0" "\<not> is_idle c" "th_quantum c = int q"
    using all [of ?cur] c(1) xs by auto
  have run: "th_state c = TSK_THREAD_RUNNING" using ok c(1) by (auto simp: sched_ok_def cur_ok_def)
  obtain x ys where x: "P (Ready ?p) @ [?cur] = x # ys" by (cases "P (Ready ?p) @ [?cur]") auto
  have rot: "rotate1 xs = x # ys" using x xs by simp
  have "sk_curIpl st \<le> IPL_HIGH" using ipl ipl_low_high by simp
  from time_slice_expired [OF ok this c(1) cf(1) c(2) cf(2) x]
  obtain st' now now' n where ts: "TskTimeSlice env st = Some (if x = ?cur then Returned () else SwitchedAway, st')"
    and ok': "sched_ok env st' (P(Ready ?p := ys))" and cur': "sk_curThread st' = x"
    and ipl': "sk_curIpl st' = (if x = ?cur then sk_curIpl st else IPL_HIGH)"
    and rest: "\<forall>t. t \<noteq> ?cur \<longrightarrow> t \<noteq> x \<longrightarrow> sk_threads st' t = sk_threads st t"
    and old: "x \<noteq> ?cur \<longrightarrow> sk_threads st' ?cur = Some (stopped now ?c)"
    and n: "((sk_threads st)(?cur \<mapsto> stopped now ?c)) x = Some n"
    and new: "sk_threads st' x = Some n \<or> sk_threads st' x = Some (running now' n)" by blast
  have low: "PLT_IPL_LOW \<le> sk_curIpl st'" using ipl ipl' ipl_low_high by simp
  obtain st4 where st4: "lower_ipl env PLT_IPL_LOW st' = Some st4" "sched_ok env st4 (P(Ready ?p := ys))"
    "sk_threads st4 = sk_threads st'" "sk_curThread st4 = sk_curThread st'" "sk_curIpl st4 = PLT_IPL_LOW"
    using lower_ok [OF low ok'] by blast
  define st5 where "st5 = (if x = ?cur then st' else st4)"
  have tick: "tick env st = Some st5" using ts st4(1) by (simp add: tick_def st5_def)
  have st5: "sched_ok env st5 (P(Ready ?p := ys))" "sk_threads st5 = sk_threads st'" "sk_curThread st5 = x"
    "sk_curIpl st5 = PLT_IPL_LOW" using st4 ok' cur' ipl ipl' by (simp_all add: st5_def)
  have good: "th_priority m = th_priority c \<and> th_flags m AND TSK_THREAD_FIFO = 0 \<and> \<not> is_idle m \<and> th_quantum m = int q \<and>
      th_quantaLeft m = int q" if "m = stopped now ?c" for m
    using that cf run by (simp add: stopped_quanta)
  have sets: "set (x # ys) = set xs" using rot by (metis set_rotate1)
  have each: "\<exists>th. sk_threads st' t = Some th \<and> th_priority th = th_priority c \<and> th_flags th AND TSK_THREAD_FIFO = 0 \<and>
      \<not> is_idle th \<and> th_quantum th = int q \<and> th_quantaLeft th = int q" if t: "t \<in> set (x # ys)" for t
  proof -
    have txs: "t \<in> set xs" using t unfolding sets .
    consider "t = x" | "t \<noteq> x" "t = ?cur" | "t \<noteq> x" "t \<noteq> ?cur" by blast
    then show ?thesis
    proof cases
      case 1
      have "th_priority n = th_priority c \<and> th_flags n AND TSK_THREAD_FIFO = 0 \<and> \<not> is_idle n \<and> th_quantum n = int q \<and>
          th_quantaLeft n = int q"
        using n good all [OF txs] 1 by (cases "x = ?cur") auto
      then show ?thesis using new 1 by auto
    next
      case 2
      then show ?thesis using old good by auto
    next
      case 3
      then show ?thesis using rest all [OF txs] by auto
    qed
  qed
  obtain cx where cx: "sk_threads st' x = Some cx" "th_priority cx = th_priority c" "th_quantaLeft cx = int q"
    using each [of x] by auto
  have each5: "\<forall>t \<in> set (x # ys). \<exists>th. sk_threads st5 t = Some th \<and> th_priority th = th_priority cx \<and>
      th_flags th AND TSK_THREAD_FIFO = 0 \<and> \<not> is_idle th \<and> th_quantum th = int q \<and>
      (t \<noteq> sk_curThread st5 \<longrightarrow> th_quantaLeft th = int q)"
    using each unfolding st5(2) cx(2) by blast
  have "sk_threads st5 (sk_curThread st5) = Some cx" "x # ys = sk_curThread st5 # (P(Ready ?p := ys)) (Ready (nat (th_priority cx)))"
    using st5 cx by simp_all
  then have "sharing env q (x # ys) q st5" unfolding sharing_def using each5 st5(1,4) cx(3) by blast
  then show ?thesis using tick rot by auto
qed

lemma ticks_share: "sharing env q xs j st \<Longrightarrow> \<exists>st'. ticks env (Suc j) st = Some st' \<and> sharing env q (rotate1 xs) q st'"
proof (induction j arbitrary: st)
  case 0
  then show ?case using tick_turn by fastforce
next
  case (Suc j)
  then obtain st1 where "tick env st = Some st1" "sharing env q xs j st1" using tick_share by blast
  then show ?case using Suc.IH [of st1] by (simp only: ticks.simps Option.bind.bind_lunit)
qed

lemma ticks_add: "ticks env (m + n) st = Option.bind (ticks env m st) (ticks env n)"
  by (induction m arbitrary: st) (auto split: bind_splits)

text \<open>C36: The threads of the highest priority that is ready take turns. With \<open>n\<close> of them and a quantum of
  \<open>q\<close> ticks a turn lasts \<open>q + 1\<close> ticks, one more than the quantum (the default of 6 ticks, which its comment calls
  60 ms, makes turns of 7 ticks), and a thread has its next turn after the \<open>n - 1\<close> others: after \<open>k\<close> turns the current
  thread is the one \<open>k\<close> places behind the first, counted round the list, and the scheduler is in order.\<close>

theorem round_robin:
  assumes "sharing env q xs q st"
  shows "\<exists>st'. ticks env (k * (q + 1)) st = Some st' \<and> sk_curThread st' = xs ! (k mod length xs) \<and>
    sharing env q (rotate k xs) q st'"
proof -
  have ne: "xs \<noteq> []" using assms by (auto simp: sharing_def)
  have "\<exists>st'. ticks env (k * (q + 1)) st = Some st' \<and> sharing env q (rotate k xs) q st'"
  proof (induction k)
    case 0
    then show ?case using assms by simp
  next
    case (Suc k)
    then obtain st1 where st1: "ticks env (k * (q + 1)) st = Some st1" "sharing env q (rotate k xs) q st1" by blast
    obtain st2 where "ticks env (Suc q) st1 = Some st2" "sharing env q (rotate1 (rotate k xs)) q st2"
      using ticks_share [OF st1(2)] by blast
    moreover have "Suc k * (q + 1) = k * (q + 1) + Suc q" by simp
    ultimately show ?case using st1(1) ticks_add [of env "k * (q + 1)" "Suc q" st] by (simp only:) simp
  qed
  then obtain st' where st': "ticks env (k * (q + 1)) st = Some st'" "sharing env q (rotate k xs) q st'" by blast
  have "sk_curThread st' = hd (rotate k xs)" using st'(2) by (auto simp: sharing_def)
  then show ?thesis using st' hd_rotate_conv_nth [OF ne] by simp
qed

section \<open>Examples\<close>

text \<open>Three threads and no wait queue: the idle thread at 256, the current thread at 512 with priority 10, and
  a thread at 768 that was just created.\<close>

definition ex_env :: "unit schedEnv" where
  "ex_env = \<lparr>se_readyQueues = 4096, se_getTime = (\<lambda>d. (100, d)), se_setIpl = (\<lambda>_ d. d), se_wait = 0, se_ownerLink = 0,
     se_ownedWaits = 0, se_joinQueue = 0, se_setTimeout = (\<lambda>_ _ _ d. d), se_clearTimeout = (\<lambda>_ d. d)\<rparr>"

definition ex_thread :: "int \<Rightarrow> u32 \<Rightarrow> thState \<Rightarrow> thread" where
  "ex_thread prio flags state = \<lparr>th_lock = False, th_priority = prio, th_state = state, th_flags = flags, th_refCount = 1,
     th_quantaLeft = 6, th_quantum = 6, th_lastSchedule = 0, th_runTime = 0, th_exitCode = 0,
     th_wait = \<lparr>wo_owner = 0, wo_waiter = 0, wo_type = 0, wo_timeout = 0, wo_obj = 0, wo_result = TSK_WAITOBJ_IN_PROG\<rparr>,
     th_preempted = False, th_timeoutPending = False, th_waitAsserted = 0, th_timeout = 0\<rparr>"

definition ex_threads :: "int \<Rightarrow> addr \<rightharpoonup> thread" where
  "ex_threads prio = [256 \<mapsto> ex_thread 63 1 TSK_THREAD_RUNNING, 512 \<mapsto> ex_thread 10 0 TSK_THREAD_RUNNING,
     768 \<mapsto> ex_thread prio 0 TSK_THREAD_CREATED]"

definition ex_state :: "int \<Rightarrow> int \<Rightarrow> unit sched" where
  "ex_state prio ipl = \<lparr>sk_links = \<lparr>lnext = Some, lprev = Some\<rparr>, sk_threads = ex_threads prio, sk_queues = Map.empty,
     sk_readyMask = 0, sk_rqLock = False, sk_curThread = 512, sk_curPriority = 10, sk_idleThread = 256,
     sk_preemptDisable = 0, sk_preemptReq = False, sk_curIpl = ipl, sk_dev = ()\<rparr>"

lemma ex_queue: "p < 64 \<Longrightarrow> uint (ready_queue ex_env (int p)) = 4096 + 16 * int p"
proof -
  assume "p < 64"
  then have "uint (word_of_nat p :: addr) = int p" by (simp add: unsigned_of_nat take_bit_eq_mod)
  then show ?thesis using \<open>p < 64\<close> by (simp add: ready_queue_def ex_env_def uint_word_ariths)
qed

lemma ex_queue_high: "p < 64 \<Longrightarrow> uint t < 4096 \<Longrightarrow> t \<noteq> ready_queue ex_env (int p)"
  using ex_queue [of p] by auto

lemma ex_heads: "p < 64 \<Longrightarrow> q < 64 \<Longrightarrow> p \<noteq> q \<Longrightarrow> ready_queue ex_env (int p) \<noteq> ready_queue ex_env (int q)"
  using ex_queue [of p] ex_queue [of q] by auto

lemma ex_family: "family nklist \<lparr>lnext = Some, lprev = Some\<rparr> (qids (ex_state prio ipl)) (qhead ex_env) (\<lambda>_. [])"
proof -
  have "ready_queue ex_env (int p) \<noteq> 0" if "p < 64" for p using ex_queue_high [OF that, of 0] by auto
  then show ?thesis
    using ex_heads by (auto simp: family_def nklist_def qids_def ex_state_def)
qed

lemma ex_thread_ok:
  assumes "ex_threads prio t = Some th" and "prio_ok prio"
  shows "thread_ok ex_env (ex_state prio ipl) (\<lambda>_. []) t th" and "th_state th \<noteq> TSK_THREAD_READY" and "\<not> th_lock th"
proof -
  have t: "t \<in> {256, 512, 768}" using assms by (auto simp: ex_threads_def split: if_splits)
  then have "uint t < 4096" "t \<noteq> 0" by auto
  then have "\<forall>i \<in> qids (ex_state prio ipl). t \<noteq> qhead ex_env i"
    using ex_queue_high by (auto simp: qids_def ex_state_def)
  then show "thread_ok ex_env (ex_state prio ipl) (\<lambda>_. []) t th"
    using assms t by (auto simp: thread_ok_def ex_threads_def ex_thread_def is_idle_def TSK_THREAD_IDLE_def is_link_def
      ex_state_def prio_ok_def NEXKE_MAX_PRIO_def split: if_splits)
  show "th_state th \<noteq> TSK_THREAD_READY" "\<not> th_lock th"
    using assms t by (auto simp: ex_threads_def ex_thread_def split: if_splits)
qed

lemma ex_ok:
  assumes "prio_ok prio"
  shows "sched_ok ex_env (ex_state prio ipl) (\<lambda>_. [])"
proof -
  have th: "sk_threads (ex_state prio ipl) = ex_threads prio" by (simp add: ex_state_def)
  have "queues_ok ex_env (ex_state prio ipl) (\<lambda>_. [])"
    unfolding queues_ok_def th using ex_family [of prio ipl] ex_thread_ok(1) [OF _ assms, where ipl = ipl] ex_thread_ok(2) [OF _ assms]
    by (simp add: ex_state_def) (simp add: ex_threads_def ex_thread_def)
  moreover have "cur_ok (ex_state prio ipl) (\<lambda>_. [])"
    by (simp add: cur_ok_def ex_state_def ex_threads_def ex_thread_def)
  moreover have "at_rest (ex_state prio ipl)"
    unfolding at_rest_def th using ex_thread_ok(3) [OF _ assms] by (auto simp: ex_state_def)
  ultimately show ?thesis by (simp add: sched_ok_def)
qed

lemma ex_lookup:
  "sk_threads (ex_state prio ipl) 512 = Some (ex_thread 10 0 TSK_THREAD_RUNNING)"
  "sk_threads (ex_state prio ipl) 768 = Some (ex_thread prio 0 TSK_THREAD_CREATED)"
  "sk_curThread (ex_state prio ipl) = 512" "sk_idleThread (ex_state prio ipl) = 256" "sk_curIpl (ex_state prio ipl) = ipl"
  by (simp_all add: ex_state_def ex_threads_def)

theorem ready_thread_preempts_witness:
  "\<exists>st'. TskReadyThread ex_env 768 (ex_state 5 IPL_HIGH) = Some (SwitchedAway, st') \<and> sk_curThread st' = 768 \<and>
    sched_ok ex_env st' (\<lambda>i. if i = Ready 10 then [512] else [])"
proof -
  have "prio_ok 5" by (simp add: prio_ok_def NEXKE_MAX_PRIO_def)
  from ready_thread_preempts [OF ex_ok [OF this] ex_lookup(5) ex_lookup(2) _ _ _ ex_lookup(1) [folded ex_lookup(3) [of 5 IPL_HIGH]]]
  obtain st' where "TskReadyThread ex_env 768 (ex_state 5 IPL_HIGH) = Some (SwitchedAway, st')" "sk_curThread st' = 768"
    "sched_ok ex_env st' (readmit 512 ((ex_thread 10 0 TSK_THREAD_RUNNING)\<lparr>th_preempted := True\<rparr>) (\<lambda>_. []))"
    by (auto simp: ex_thread_def ex_lookup)
  moreover have "readmit 512 ((ex_thread 10 0 TSK_THREAD_RUNNING)\<lparr>th_preempted := True\<rparr>) (\<lambda>_. []) =
      (\<lambda>i. if i = Ready 10 then [512] else [])"
    by (auto simp: readmit_def ex_thread_def is_idle_def TSK_THREAD_IDLE_def requeue_def)
  ultimately show ?thesis by auto
qed

theorem schedule_picks_witness:
  "\<exists>st'. TskSchedule ex_env (ex_state 5 IPL_HIGH) = Some (Returned (), st') \<and> sk_curThread st' = 512"
proof -
  let ?c = "ex_thread 10 0 TSK_THREAD_RUNNING" and ?st = "ex_state 5 IPL_HIGH"
  have "prio_ok 5" by (simp add: prio_ok_def NEXKE_MAX_PRIO_def)
  then have ok: "queues_ok ex_env ?st (\<lambda>_. [])" "at_rest ?st" using ex_ok [of 5 IPL_HIGH] by (auto simp: sched_ok_def)
  have P: "readmit 512 ?c (\<lambda>_. []) = (\<lambda>i. if i = Ready 10 then [512] else [])"
    by (auto simp: readmit_def ex_thread_def is_idle_def TSK_THREAD_IDLE_def requeue_def)
  have "top (readmit 512 ?c (\<lambda>_. [])) = Some 10" by (simp add: top_Some P)
  then have pick: "pick (if th_state ?c = TSK_THREAD_RUNNING then sk_curThread ?st else sk_idleThread ?st)
      (readmit (sk_curThread ?st) ?c (\<lambda>_. [])) = (512, (readmit 512 ?c (\<lambda>_. []))(Ready 10 := []))"
    by (simp add: pick_def ex_lookup P)
  have "sk_curPriority ?st = th_priority ?c" "th_state ?c \<noteq> TSK_THREAD_READY" by (simp_all add: ex_state_def ex_thread_def)
  from schedule_picks [OF ok ex_lookup(1) [folded ex_lookup(3) [of 5 IPL_HIGH]] this(2) ex_lookup(5) this(1) pick]
  show ?thesis by (auto simp: ex_lookup)
qed

text \<open>The thread at 768 on the queue of priority 10.\<close>

definition ex_shared :: "unit sched" where
  "ex_shared = (ex_state 10 0)\<lparr>
     sk_links := the (add_ready ex_env (sk_links (ex_state 10 0)) 768 (ex_thread 10 0 TSK_THREAD_CREATED)),
     sk_threads := (ex_threads 10)(768 \<mapsto> readied (ex_thread 10 0 TSK_THREAD_CREATED)), sk_readyMask := push_bit 10 1\<rparr>"

lemma ex_sharing: "sharing ex_env 6 [512, 768] 6 ex_shared"
proof -
  let ?st = "ex_state 10 0" and ?th = "ex_thread 10 0 TSK_THREAD_CREATED" and ?P = "(\<lambda>_. [])(Ready 10 := [768])"
  have ok: "sched_ok ex_env ?st (\<lambda>_. [])" by (rule ex_ok) (simp add: prio_ok_def NEXKE_MAX_PRIO_def)
  then have qok: "queues_ok ex_env ?st (\<lambda>_. [])" by (simp add: sched_ok_def)
  obtain h where h: "add_ready ex_env (sk_links ?st) 768 ?th = Some h"
    and q: "queues_ok ex_env (?st\<lparr>sk_links := h, sk_threads := (sk_threads ?st)(768 \<mapsto> readied ?th),
      sk_readyMask := sk_readyMask ?st OR push_bit 10 1\<rparr>) (\<lambda>i. if i = Ready 10 then requeue ?th 768 [] else [])"
  proof -
    have "th_state ?th \<noteq> TSK_THREAD_READY" "768 \<noteq> sk_idleThread ?st" "10 = nat (th_priority ?th)"
      by (simp_all add: ex_thread_def ex_lookup)
    from that ready_queued [OF qok ex_lookup(2) this] show ?thesis unfolding fun_upd_def by blast
  qed
  have sh: "ex_shared = ?st\<lparr>sk_links := h, sk_threads := (sk_threads ?st)(768 \<mapsto> readied ?th),
      sk_readyMask := sk_readyMask ?st OR push_bit 10 1\<rparr>" by (simp add: ex_shared_def h) (simp add: ex_state_def)
  have P: "(\<lambda>i. if i = Ready 10 then requeue ?th 768 [] else []) = ?P" by (auto simp: requeue_def ex_thread_def)
  have "cur_ok ex_shared ?P"
    by (simp add: sh cur_ok_def ex_state_def ex_threads_def ex_thread_def)
  moreover have "at_rest ex_shared" using ok by (auto simp: sh sched_ok_def at_rest_def ex_thread_def)
  ultimately have "sched_ok ex_env ex_shared ?P" using q unfolding P sh by (simp add: sched_ok_def)
  moreover have "sk_threads ex_shared 512 = Some (ex_thread 10 0 TSK_THREAD_RUNNING)" "sk_threads ex_shared 768 = Some (readied ?th)"
    "sk_curThread ex_shared = 512" "sk_curIpl ex_shared = PLT_IPL_LOW"
    by (simp_all add: sh ex_lookup PLT_IPL_LOW_def)
  ultimately show ?thesis
    unfolding sharing_def
    by (intro exI [of _ ?P] exI [of _ "ex_thread 10 0 TSK_THREAD_RUNNING"])
      (simp add: ex_thread_def readied_def is_idle_def TSK_THREAD_IDLE_def TSK_THREAD_FIFO_def)
qed

theorem round_robin_witness:
  "\<exists>st'. ticks ex_env 21 ex_shared = Some st' \<and> sk_curThread st' = 768"
proof -
  have "[512, 768] ! (3 mod length [512, 768 :: addr]) = (768 :: addr)" by code_simp
  then show ?thesis using round_robin [OF ex_sharing, of 3] by auto
qed

end
