(* ===== verification/Heap.thy ===== *)
theory Heap
  imports Prelude "HOL-Library.Monad_Syntax"
begin

text \<open>
  The boot loader's heap (\<open>source/nexboot/src/memmgr.c\<close>): \<open>malloc\<close> and \<open>free\<close> over pages
  that are tiled with blocks. Every block starts with a header and ends with a tag, which holds its size while it is free
  and 0 while it is in use; the free blocks of a page are on a doubly linked list, and so are the pages.
  Blocks that are freed are merged with free neighbours. A request that does not fit a page gets pages of its own.

  The memory is split by type: page headers, block headers and tags, each by address. Reading a
  header or a tag where none was written is \<open>None\<close>, and so are a corrupted heap and a panic. What a client stores
  in its block is in neither map; the theorems show that it lies between header and tag of its
  block, and that blocks do not overlap.
\<close>

section \<open>State\<close>

record memBlock =
  mb_magic :: u32
  mb_size :: u32
  mb_isFree :: bool
  mb_isLarge :: bool
  mb_page :: addr
  mb_prev :: addr
  mb_next :: addr

record memPage =
  mp_magic :: u32
  mp_freeSize :: u32
  mp_blockList :: addr
  mp_numPages :: u32
  mp_next :: addr
  mp_prev :: addr

record 'f heap =
  hp_blocks :: "addr \<rightharpoonup> memBlock"
  hp_pages :: "addr \<rightharpoonup> memPage"
  hp_tags :: "addr \<rightharpoonup> u64"
  hp_pageList :: addr
  hp_fw :: 'f

text \<open>The firmware's page allocator: one page, and a number of pages (0 is failure).\<close>

record 'f heapEnv =
  he_allocPage :: "'f \<Rightarrow> addr \<times> 'f"
  he_allocPages :: "u32 \<Rightarrow> 'f \<Rightarrow> addr \<times> 'f"

definition PAGE_SIZE :: nat where "PAGE_SIZE = 4096"

definition MEM_BLOCK_MAGIC :: u32 where "MEM_BLOCK_MAGIC = 0xF9125937"

definition MEM_PG_BLOCK_OFFSET :: nat where "MEM_PG_BLOCK_OFFSET = 64"

definition MEM_BLOCK_DATA_OFFSET :: nat where "MEM_BLOCK_DATA_OFFSET = 64"

definition MEM_BLOCK_ALIGN :: u64 where "MEM_BLOCK_ALIGN = 16"

definition upd_block :: "addr \<Rightarrow> (memBlock \<Rightarrow> memBlock) \<Rightarrow> 'f heap \<Rightarrow> 'f heap option" where
  "upd_block a f st = do {
     b \<leftarrow> hp_blocks st a;
     Some (st\<lparr>hp_blocks := (hp_blocks st)(a \<mapsto> f b)\<rparr>) }"

definition upd_mempage :: "addr \<Rightarrow> (memPage \<Rightarrow> memPage) \<Rightarrow> 'f heap \<Rightarrow> 'f heap option" where
  "upd_mempage a f st = do {
     p \<leftarrow> hp_pages st a;
     Some (st\<lparr>hp_pages := (hp_pages st)(a \<mapsto> f p)\<rparr>) }"

definition put_block :: "addr \<Rightarrow> memBlock \<Rightarrow> 'f heap \<Rightarrow> 'f heap" where
  "put_block a b st = st\<lparr>hp_blocks := (hp_blocks st)(a \<mapsto> b)\<rparr>"

definition put_tag :: "addr \<Rightarrow> u64 \<Rightarrow> 'f heap \<Rightarrow> 'f heap" where
  "put_tag a v st = st\<lparr>hp_tags := (hp_tags st)(a \<mapsto> v)\<rparr>"

text \<open>\<open>MEM_BLOCK_SIZE_END\<close>, for a block at \<open>a\<close> with size \<open>sz\<close>.\<close>

definition size_end :: "addr \<Rightarrow> u32 \<Rightarrow> addr" where
  "size_end a sz = a + ucast sz - 8"

section \<open>Set-up\<close>

definition memBlockInit :: "addr \<Rightarrow> addr \<Rightarrow> 'f heap \<Rightarrow> 'f heap" where
  "memBlockInit page block st =
     (let sz = of_nat (PAGE_SIZE - MEM_PG_BLOCK_OFFSET)
      in put_tag (size_end block sz) (ucast sz)
           (put_block block \<lparr>mb_magic = MEM_BLOCK_MAGIC, mb_size = sz, mb_isFree = True, mb_isLarge = False,
              mb_page = page, mb_prev = 0, mb_next = 0\<rparr> st))"

text \<open>\<open>numPages\<close> is not set; it keeps the value it has.\<close>

definition memPageInit :: "addr \<Rightarrow> 'f heap \<Rightarrow> 'f heap" where
  "memPageInit page st =
     st\<lparr>hp_pages := (hp_pages st)(page \<mapsto> \<lparr>mp_magic = MEM_BLOCK_MAGIC,
       mp_freeSize = of_nat (PAGE_SIZE - MEM_PG_BLOCK_OFFSET), mp_blockList = 0,
       mp_numPages = (case hp_pages st page of None \<Rightarrow> 0 | Some p \<Rightarrow> mp_numPages p), mp_next = 0, mp_prev = 0\<rparr>)\<rparr>"

definition NEXBOOT_MIN_MEM :: u64 where "NEXBOOT_MIN_MEM = 8"

text \<open>The memory map is the list of its entries' types and sizes.\<close>

definition MEM_FREE :: u32 where "MEM_FREE = 1"

definition MEM_BOOT_RECLAIM :: u32 where "MEM_BOOT_RECLAIM = 7"

definition memSize :: "(u32 \<times> u64) list \<Rightarrow> u64" where
  "memSize memmap =
     foldl (\<lambda>memSz (type, sz). if type = MEM_FREE \<or> type = MEM_BOOT_RECLAIM then memSz + sz else memSz) 0 memmap div 1024 div 1024"

definition NbMemInit :: "'f heapEnv \<Rightarrow> (u32 \<times> u64) list \<Rightarrow> 'f heap \<Rightarrow> 'f heap option" where
  "NbMemInit env memmap st =
     (if memSize memmap < NEXBOOT_MIN_MEM then None
      else (case he_allocPage env (hp_fw st) of (initPage, fw) \<Rightarrow>
        if initPage = 0 then None
        else do {
          let st = memPageInit initPage (st\<lparr>hp_fw := fw, hp_pageList := initPage\<rparr>);
          let block = initPage + of_nat MEM_PG_BLOCK_OFFSET;
          let st = memBlockInit initPage block st;
          upd_mempage initPage (\<lambda>p. p\<lparr>mp_blockList := block\<rparr>) st }))"

section \<open>Allocation\<close>

partial_function (option) find_block :: "'f heap \<Rightarrow> u64 \<Rightarrow> addr \<Rightarrow> addr option" where
  "find_block st sz curBlock =
     (if curBlock = 0 then Some 0
      else do {
        b \<leftarrow> hp_blocks st curBlock;
        (if mb_magic b \<noteq> MEM_BLOCK_MAGIC then None
         else if ucast (mb_size b) \<ge> sz then Some curBlock
         else find_block st sz (mb_next b)) })"

text \<open>Takes a block off the list of its page.\<close>

definition unlink_block :: "addr \<Rightarrow> addr \<Rightarrow> 'f heap \<Rightarrow> 'f heap option" where
  "unlink_block pg block st = do {
     b \<leftarrow> hp_blocks st block;
     st \<leftarrow> (if mb_prev b \<noteq> 0 then upd_block (mb_prev b) (\<lambda>x. x\<lparr>mb_next := mb_next b\<rparr>) st else Some st);
     b \<leftarrow> hp_blocks st block;
     st \<leftarrow> (if mb_next b \<noteq> 0 then upd_block (mb_next b) (\<lambda>x. x\<lparr>mb_prev := mb_prev b\<rparr>) st else Some st);
     b \<leftarrow> hp_blocks st block;
     p \<leftarrow> hp_pages st pg;
     (if block = mp_blockList p then upd_mempage pg (\<lambda>p. p\<lparr>mp_blockList := mb_next b\<rparr>) st else Some st) }"

text \<open>Makes the neighbours on the list of \<open>old\<close> point to the block \<open>new\<close>, which has its links.\<close>

definition relink_block :: "addr \<Rightarrow> addr \<Rightarrow> addr \<Rightarrow> 'f heap \<Rightarrow> 'f heap option" where
  "relink_block pg old new st = do {
     b \<leftarrow> hp_blocks st new;
     st \<leftarrow> (if mb_next b \<noteq> 0 then upd_block (mb_next b) (\<lambda>x. x\<lparr>mb_prev := new\<rparr>) st else Some st);
     b \<leftarrow> hp_blocks st new;
     st \<leftarrow> (if mb_prev b \<noteq> 0 then upd_block (mb_prev b) (\<lambda>x. x\<lparr>mb_next := new\<rparr>) st else Some st);
     p \<leftarrow> hp_pages st pg;
     (if mp_blockList p = old then upd_mempage pg (\<lambda>p. p\<lparr>mp_blockList := new\<rparr>) st else Some st) }"

text \<open>A block that fits exactly, and one that is larger.\<close>

definition take_block :: "addr \<Rightarrow> addr \<Rightarrow> 'f heap \<Rightarrow> (addr \<times> 'f heap) option" where
  "take_block pg curBlock st = do {
     st \<leftarrow> unlink_block pg curBlock st;
     st \<leftarrow> upd_block curBlock (\<lambda>b. b\<lparr>mb_isFree := False\<rparr>) st;
     b \<leftarrow> hp_blocks st curBlock;
     Some (curBlock + of_nat MEM_BLOCK_DATA_OFFSET, put_tag (size_end curBlock (mb_size b)) 0 st) }"

definition split_block :: "addr \<Rightarrow> addr \<Rightarrow> u64 \<Rightarrow> 'f heap \<Rightarrow> (addr \<times> 'f heap) option" where
  "split_block pg curBlock sz st = do {
     b \<leftarrow> hp_blocks st curBlock;
     let splitSize = (ucast (ucast (mb_size b) - sz :: u64) :: u32);
     st \<leftarrow> upd_block curBlock (\<lambda>b. b\<lparr>mb_size := ucast sz, mb_isFree := False\<rparr>) st;
     let st = put_tag (size_end curBlock (ucast sz)) 0 st;
     let data = curBlock + of_nat MEM_BLOCK_DATA_OFFSET;
     (if splitSize < of_nat MEM_BLOCK_DATA_OFFSET then do {
        st \<leftarrow> unlink_block pg curBlock st;
        st \<leftarrow> upd_block curBlock (\<lambda>b. b\<lparr>mb_size := mb_size b + splitSize\<rparr>) st;
        b \<leftarrow> hp_blocks st curBlock;
        st \<leftarrow> upd_mempage (mb_page b) (\<lambda>p. p\<lparr>mp_freeSize := mp_freeSize p - splitSize\<rparr>) st;
        Some (data, put_tag (size_end curBlock (mb_size b)) 0 st) }
      else do {
        old \<leftarrow> hp_blocks st curBlock;
        let newBlock = curBlock + sz;
        let st = put_block newBlock \<lparr>mb_magic = MEM_BLOCK_MAGIC, mb_size = 0, mb_isFree = False, mb_isLarge = False,
          mb_page = 0, mb_prev = mb_prev old, mb_next = mb_next old\<rparr> st;
        st \<leftarrow> relink_block pg curBlock newBlock st;
        st \<leftarrow> upd_block newBlock (\<lambda>b. b\<lparr>mb_size := splitSize, mb_page := pg, mb_isFree := True\<rparr>) st;
        Some (data, put_tag (size_end newBlock splitSize) (ucast splitSize) st) }) }"

definition allocBlockInPage :: "addr \<Rightarrow> u64 \<Rightarrow> 'f heap \<Rightarrow> (addr \<times> 'f heap) option" where
  "allocBlockInPage pg sz st = do {
     p \<leftarrow> hp_pages st pg;
     curBlock \<leftarrow> find_block st sz (mp_blockList p);
     (if curBlock = 0 then Some (0, st)
      else do {
        st \<leftarrow> upd_mempage pg (\<lambda>p. p\<lparr>mp_freeSize := ucast (ucast (mp_freeSize p) - sz :: u64)\<rparr>) st;
        b \<leftarrow> hp_blocks st curBlock;
        (if ucast (mb_size b) = sz then take_block pg curBlock st else split_block pg curBlock sz st) }) }"

definition alignSize :: "u64 \<Rightarrow> u64" where
  "alignSize sz =
     (let sz = sz + of_nat MEM_BLOCK_DATA_OFFSET + 8
      in if sz AND (MEM_BLOCK_ALIGN - 1) \<noteq> 0 then (sz AND NOT (MEM_BLOCK_ALIGN - 1)) + MEM_BLOCK_ALIGN else sz)"

text \<open>The loop over the pages; 0 when no page has room.\<close>

partial_function (option) scan_pages :: "u64 \<Rightarrow> addr \<Rightarrow> 'f heap \<Rightarrow> (addr \<times> 'f heap) option" where
  "scan_pages sz curPage st =
     (if curPage = 0 then Some (0, st)
      else do {
        p \<leftarrow> hp_pages st curPage;
        (if mp_magic p \<noteq> MEM_BLOCK_MAGIC then None
         else do {
           (base, st) \<leftarrow> (if ucast (mp_freeSize p) \<ge> sz then allocBlockInPage curPage sz st else Some (0, st));
           (if base \<noteq> 0 then Some (base, st)
            else do {
              p \<leftarrow> hp_pages st curPage;
              scan_pages sz (mp_next p) st }) }) })"

definition malloc_large :: "'f heapEnv \<Rightarrow> u64 \<Rightarrow> 'f heap \<Rightarrow> (addr \<times> 'f heap) option" where
  "malloc_large env sz st =
     (let sz = sz + of_nat MEM_PG_BLOCK_OFFSET;
          numPages = (ucast ((sz + (of_nat PAGE_SIZE - 1)) div of_nat PAGE_SIZE) :: u32)
      in case he_allocPages env numPages (hp_fw st) of (base, fw) \<Rightarrow>
        let st = st\<lparr>hp_fw := fw\<rparr>
        in if base = 0 then Some (0, st)
           else do {
             let st = memPageInit base st;
             st \<leftarrow> upd_mempage base (\<lambda>p. p\<lparr>mp_freeSize := 0, mp_numPages := numPages\<rparr>) st;
             let block = base + of_nat MEM_PG_BLOCK_OFFSET;
             let st = memBlockInit base block st;
             let size = numPages * of_nat PAGE_SIZE - of_nat MEM_PG_BLOCK_OFFSET;
             st \<leftarrow> upd_block block (\<lambda>b. b\<lparr>mb_size := size, mb_isLarge := True, mb_isFree := False\<rparr>) st;
             Some (block + of_nat MEM_BLOCK_DATA_OFFSET, put_tag (size_end block size) (ucast size) st) })"

text \<open>Puts a page in front of the list of pages.\<close>

definition push_page :: "addr \<Rightarrow> 'f heap \<Rightarrow> 'f heap option" where
  "push_page page st = do {
     st \<leftarrow> upd_mempage page (\<lambda>p. p\<lparr>mp_next := hp_pageList st, mp_prev := 0\<rparr>) st;
     st \<leftarrow> upd_mempage (hp_pageList st) (\<lambda>p. p\<lparr>mp_prev := page\<rparr>) st;
     let st = st\<lparr>hp_pageList := page\<rparr>;
     let block = page + of_nat MEM_PG_BLOCK_OFFSET;
     upd_mempage page (\<lambda>p. p\<lparr>mp_blockList := block\<rparr>) (memBlockInit page block st) }"

definition malloc :: "'f heapEnv \<Rightarrow> u64 \<Rightarrow> 'f heap \<Rightarrow> (addr \<times> 'f heap) option" where
  "malloc env sz st =
     (if sz = 0 then Some (0, st)
      else do {
        let sz = alignSize sz;
        (if sz + of_nat MEM_PG_BLOCK_OFFSET > of_nat PAGE_SIZE then malloc_large env sz st
         else do {
           (base, st) \<leftarrow> scan_pages sz (hp_pageList st) st;
           (if base \<noteq> 0 then Some (base, st)
            else (case he_allocPage env (hp_fw st) of (newPage, fw) \<Rightarrow>
              let st = st\<lparr>hp_fw := fw\<rparr>
              in if newPage = 0 then Some (0, st)
                 else do {
                   st \<leftarrow> push_page newPage (memPageInit newPage st);
                   allocBlockInPage newPage sz st })) }) })"


section \<open>Freeing\<close>

fun free_large :: "nat \<Rightarrow> addr \<Rightarrow> 'f heap \<Rightarrow> 'f heap option" where
  "free_large 0 curPage st = Some st"
| "free_large (Suc n) curPage st = do {
     st \<leftarrow> push_page curPage (memPageInit curPage st);
     free_large n (curPage + of_nat PAGE_SIZE) st }"

text \<open>Merges the block with the one behind it, when that is free. The result says whether it was.\<close>

definition merge_right :: "addr \<Rightarrow> 'f heap \<Rightarrow> (bool \<times> 'f heap) option" where
  "merge_right block st = do {
     b \<leftarrow> hp_blocks st block;
     let nextBlock = block + ucast (mb_size b);
     (if nextBlock + of_nat MEM_BLOCK_DATA_OFFSET < mb_page b + of_nat PAGE_SIZE then do {
        n \<leftarrow> hp_blocks st nextBlock;
        (if mb_magic n \<noteq> MEM_BLOCK_MAGIC \<or> mb_page n = 0 then None
         else if mb_isFree n then do {
           st \<leftarrow> upd_block block (\<lambda>b. b\<lparr>mb_isFree := True, mb_size := mb_size b + mb_size n, mb_next := mb_next n,
             mb_prev := mb_prev n\<rparr>) st;
           st \<leftarrow> (if mb_next n \<noteq> 0 then upd_block (mb_next n) (\<lambda>x. x\<lparr>mb_prev := block\<rparr>) st else Some st);
           st \<leftarrow> (if mb_prev n \<noteq> 0 then upd_block (mb_prev n) (\<lambda>x. x\<lparr>mb_next := block\<rparr>) st else Some st);
           p \<leftarrow> hp_pages st (mb_page b);
           st \<leftarrow> (if mp_blockList p = nextBlock then upd_mempage (mb_page b) (\<lambda>p. p\<lparr>mp_blockList := block\<rparr>) st else Some st);
           st \<leftarrow> upd_block nextBlock (\<lambda>x. x\<lparr>mb_magic := 0\<rparr>) st;
           b \<leftarrow> hp_blocks st block;
           Some (True, put_tag (size_end block (mb_size b)) (ucast (mb_size b)) st) }
         else Some (False, st)) }
      else Some (False, st)) }"

text \<open>Merges the block into the one before it, when that is free. \<open>merged\<close> says whether the block is on the list.\<close>

definition merge_left :: "addr \<Rightarrow> bool \<Rightarrow> 'f heap \<Rightarrow> (bool \<times> 'f heap) option" where
  "merge_left block merged st = do {
     b \<leftarrow> hp_blocks st block;
     (if block \<noteq> mb_page b + of_nat MEM_PG_BLOCK_OFFSET then do {
        sz \<leftarrow> hp_tags st (block - 8);
        (if sz \<noteq> 0 then do {
           let prevBlock = block - sz;
           p \<leftarrow> hp_blocks st prevBlock;
           (if mb_magic p \<noteq> MEM_BLOCK_MAGIC \<or> mb_page p = 0 \<or> \<not> mb_isFree p then None
            else do {
              st \<leftarrow> upd_block prevBlock (\<lambda>p. p\<lparr>mb_size := mb_size p + mb_size b\<rparr>) st;
              p \<leftarrow> hp_blocks st prevBlock;
              let st = put_tag (size_end prevBlock (mb_size p)) (ucast (mb_size p)) st;
              st \<leftarrow> upd_block block (\<lambda>b. b\<lparr>mb_magic := 0\<rparr>) st;
              st \<leftarrow> (if merged then unlink_block (mb_page b) block st else Some st);
              Some (True, st) }) }
         else Some (merged, st)) }
      else Some (merged, st)) }"

definition push_block :: "addr \<Rightarrow> 'f heap \<Rightarrow> 'f heap option" where
  "push_block block st = do {
     b \<leftarrow> hp_blocks st block;
     p \<leftarrow> hp_pages st (mb_page b);
     st \<leftarrow> upd_block block (\<lambda>b. b\<lparr>mb_isFree := True, mb_next := mp_blockList p\<rparr>) st;
     st \<leftarrow> (if mp_blockList p \<noteq> 0 then upd_block (mp_blockList p) (\<lambda>x. x\<lparr>mb_prev := block\<rparr>) st else Some st);
     st \<leftarrow> upd_block block (\<lambda>b. b\<lparr>mb_prev := 0\<rparr>) st;
     st \<leftarrow> upd_mempage (mb_page b) (\<lambda>p. p\<lparr>mp_blockList := block\<rparr>) st;
     Some (put_tag (size_end block (mb_size b)) (ucast (mb_size b)) st) }"

definition free :: "addr \<Rightarrow> 'f heap \<Rightarrow> 'f heap option" where
  "free ptr st =
     (if ptr = 0 then Some st
      else do {
        let block = ptr - of_nat MEM_BLOCK_DATA_OFFSET;
        b \<leftarrow> hp_blocks st block;
        (if mb_magic b \<noteq> MEM_BLOCK_MAGIC \<or> mb_page b = 0 \<or> mb_isFree b then None
         else if mb_isLarge b then do {
           let page = block - of_nat MEM_PG_BLOCK_OFFSET;
           p \<leftarrow> hp_pages st page;
           (if mp_magic p \<noteq> MEM_BLOCK_MAGIC then None else free_large (unat (mp_numPages p)) page st) }
         else do {
           st \<leftarrow> upd_mempage (mb_page b) (\<lambda>p. p\<lparr>mp_freeSize := mp_freeSize p + mb_size b\<rparr>) st;
           (merged, st) \<leftarrow> merge_right block st;
           (merged, st) \<leftarrow> merge_left block merged st;
           (if merged then Some st else push_block block st) }) })"

section \<open>The free list of a page\<close>

text \<open>A sequence of blocks linked both ways: \<open>p\<close> is before the first and \<open>n\<close> behind the last.\<close>

fun linked :: "(addr \<rightharpoonup> addr \<times> addr) \<Rightarrow> addr \<Rightarrow> addr list \<Rightarrow> addr \<Rightarrow> bool" where
  "linked L p [] n = True"
| "linked L p (x # xs) n = (L x = Some (p, hd (xs @ [n])) \<and> linked L x xs n)"

definition links_of :: "(addr \<rightharpoonup> memBlock) \<Rightarrow> addr \<rightharpoonup> addr \<times> addr" where
  "links_of B a = map_option (\<lambda>b. (mb_prev b, mb_next b)) (B a)"

lemma linked_append: "linked L p (xs @ ys) n \<longleftrightarrow> linked L p xs (hd (ys @ [n])) \<and> linked L (last (p # xs)) ys n"
  by (induction xs arbitrary: p) auto

lemma linked_cong: "(\<And>a. a \<in> set xs \<Longrightarrow> L' a = L a) \<Longrightarrow> linked L' p xs n = linked L p xs n"
  by (induction xs arbitrary: p) auto

lemma linked_upd [simp]: "a \<notin> set xs \<Longrightarrow> linked (L(a := v)) p xs n = linked L p xs n"
  by (rule linked_cong) auto

lemma linked_mid: "linked L p (xs @ x # ys) n \<Longrightarrow> L x = Some (last (p # xs), hd (ys @ [n]))"
  by (simp add: linked_append)

text \<open>Changing what is behind the last and before the first block.\<close>

lemma linked_last:
  "linked L p xs x \<Longrightarrow> distinct xs \<Longrightarrow>
   linked (if xs = [] then L else L(last xs := Some (last (p # butlast xs), n))) p xs n"
proof (cases xs rule: rev_cases)
  case (snoc zs z)
  assume l: "linked L p xs x" and d: "distinct xs"
  have "linked (L(z := Some (last (p # zs), n))) p zs z" using l d snoc by (simp add: linked_append)
  then show ?thesis using snoc by (simp add: linked_append)
qed simp

lemma linked_first:
  "linked L x xs n \<Longrightarrow> distinct xs \<Longrightarrow>
   linked (if xs = [] then L else L(hd xs := Some (p, hd (tl xs @ [n])))) p xs n"
  by (cases xs) auto

text \<open>What the code does to the links: the neighbours \<open>p\<close> and \<open>n\<close> of a block are made to
  point to \<open>n'\<close> and \<open>p'\<close>.\<close>

definition set_links :: "(addr \<rightharpoonup> addr \<times> addr) \<Rightarrow> addr \<Rightarrow> addr \<Rightarrow> addr \<Rightarrow> addr \<Rightarrow> addr \<rightharpoonup> addr \<times> addr" where
  "set_links L p n' n p' =
     (let L1 = (if p = 0 then L else L(p := map_option (\<lambda>(a, _). (a, n')) (L p)))
      in if n = 0 then L1 else L1(n := map_option (\<lambda>(_, b). (p', b)) (L1 n)))"

lemma set_links_frame: "a \<noteq> p \<or> p = 0 \<Longrightarrow> a \<noteq> n \<or> n = 0 \<Longrightarrow> set_links L p n' n p' a = L a"
  by (auto simp: set_links_def Let_def)

lemma linked_around:
  assumes l: "linked L 0 xs x" "linked L x' ys 0" and d: "distinct (xs @ ys)" "0 \<notin> set (xs @ ys)"
  shows "linked (set_links L (last (0 # xs)) n' (hd (ys @ [0])) p') 0 xs n'"
    and "linked (set_links L (last (0 # xs)) n' (hd (ys @ [0])) p') p' ys 0"
proof -
  let ?L1 = "if last (0 # xs) = 0 then L else L(last (0 # xs) := map_option (\<lambda>(a, _). (a, n')) (L (last (0 # xs))))"
  have L1: "?L1 = (if xs = [] then L else L(last xs := Some (last (0 # butlast xs), n')))"
  proof (cases xs rule: rev_cases)
    case (snoc zs z)
    then have "L z = Some (last (0 # zs), x)" using l(1) by (simp add: linked_append)
    then show ?thesis using snoc d(2) by auto
  qed simp
  have 1: "linked ?L1 0 xs n'" unfolding L1 by (rule linked_last [OF l(1)]) (use d in simp)
  have 2: "linked ?L1 x' ys 0"
    unfolding L1 using l(2) d by (cases xs rule: rev_cases) auto
  let ?L2 = "set_links L (last (0 # xs)) n' (hd (ys @ [0])) p'"
  have L2: "?L2 = (if ys = [] then ?L1 else ?L1(hd ys := Some (p', hd (tl ys @ [0]))))"
  proof (cases ys)
    case (Cons z zs)
    then have "?L1 z = Some (x', hd (zs @ [0]))" using 2 by simp
    then show ?thesis using Cons d(2) unfolding set_links_def Let_def by auto
  qed (simp add: set_links_def Let_def)
  show "linked ?L2 0 xs n'" unfolding L2 using 1 d by (cases ys) auto
  show "linked ?L2 p' ys 0" unfolding L2 by (rule linked_first [OF 2]) (use d in simp)
qed

text \<open>Taking a block out, putting another in its place, and putting one in front.\<close>

lemma linked_remove:
  assumes "linked L 0 (xs @ x # ys) 0" and "distinct (xs @ x # ys)" "0 \<notin> set (xs @ x # ys)"
  shows "linked (set_links L (last (0 # xs)) (hd (ys @ [0])) (hd (ys @ [0])) (last (0 # xs))) 0 (xs @ ys) 0"
  unfolding linked_append by (rule conjI; rule linked_around) (use assms in \<open>auto simp: linked_append\<close>)

lemma linked_replace:
  assumes "linked L 0 (xs @ x # ys) 0" and "distinct (xs @ x # ys)" "0 \<notin> set (xs @ x # ys)"
    and y: "L y = L x" "y \<notin> set (xs @ ys)" "y \<noteq> 0"
  shows "linked (set_links L (last (0 # xs)) y (hd (ys @ [0])) y) 0 (xs @ y # ys) 0"
proof -
  let ?L = "set_links L (last (0 # xs)) y (hd (ys @ [0])) y"
  have l: "linked L 0 xs x" "linked L x ys 0" "L x = Some (last (0 # xs), hd (ys @ [0]))"
    using assms(1) by (auto simp: linked_append)
  have "y \<noteq> last (0 # xs)" using y by (cases xs rule: rev_cases) auto
  moreover have "y \<noteq> hd (ys @ [0])" using y by (cases ys) auto
  ultimately have "?L y = L y" by (simp add: set_links_frame)
  moreover have "linked ?L 0 xs y" "linked ?L y ys 0"
    using linked_around [OF l(1,2), of y y] assms(2,3) by auto
  ultimately show ?thesis using y(1) l(3) by (simp add: linked_append)
qed

lemma linked_push:
  assumes "linked L 0 xs 0" and "distinct xs" "0 \<notin> set xs" and "y \<notin> set xs" "y \<noteq> 0"
    and "L y = Some (0, hd (xs @ [0]))"
  shows "linked (set_links L 0 y (hd (xs @ [0])) y) 0 (y # xs) 0"
proof -
  have "y \<noteq> hd (xs @ [0])" using assms by (cases xs) auto
  then have "set_links L 0 y (hd (xs @ [0])) y y = L y" by (simp add: set_links_frame)
  moreover have "linked (set_links L 0 y (hd (xs @ [0])) y) y xs 0"
    using linked_around(2) [of L "[]" y 0 xs y y] assms by simp
  ultimately show ?thesis using assms by simp
qed

section \<open>The tiles of a page\<close>

definition at :: "addr \<Rightarrow> nat \<Rightarrow> addr" where "at p i = p + of_nat i"

definition page_base :: "addr \<Rightarrow> bool" where
  "page_base p \<longleftrightarrow> p \<noteq> 0 \<and> 4096 dvd unat p \<and> unat p + 4096 < 2 ^ 64"

definition frame :: "addr \<Rightarrow> nat" where "frame a = unat a div 4096"

lemma unat_at: "page_base p \<Longrightarrow> i \<le> 4096 \<Longrightarrow> unat (at p i) = unat p + i"
  unfolding at_def page_base_def by (intro unat_addr_add) auto

lemma frame_at [simp]: "page_base p \<Longrightarrow> i < 4096 \<Longrightarrow> frame (at p i) = frame p"
  by (auto simp: frame_def unat_at page_base_def)

lemma frame_eq: "page_base p \<Longrightarrow> page_base q \<Longrightarrow> frame p = frame q \<longleftrightarrow> p = q"
  by (auto simp: frame_def page_base_def word_unat_eq_iff)

lemma at_eq [simp]: "page_base p \<Longrightarrow> i \<le> 4096 \<Longrightarrow> j \<le> 4096 \<Longrightarrow> at p i = at p j \<longleftrightarrow> i = j"
  by (metis unat_at add_left_cancel)

lemma at_0 [simp]: "page_base p \<Longrightarrow> i \<le> 4096 \<Longrightarrow> at p i \<noteq> 0"
proof
  assume p: "page_base p" "i \<le> 4096" "at p i = 0"
  then have "unat p = 0" using unat_at [OF p(1,2)] by simp
  then show False using p(1) by (simp add: page_base_def unat_eq_0)
qed

lemma at_add: "at p i + of_nat j = at p (i + j)" by (simp add: at_def add.assoc)

lemma at_diff: "j \<le> i \<Longrightarrow> at p i - of_nat j = at p (i - j)" by (simp add: at_def)

text \<open>A page's blocks in the order of their addresses: offset, size and whether the block is free.\<close>

type_synonym tile = "nat \<times> nat \<times> bool"

fun tiles :: "nat \<Rightarrow> tile list \<Rightarrow> nat \<Rightarrow> bool" where
  "tiles i [] e = (i = e)"
| "tiles i ((j, s, f) # ts) e = (i = j \<and> 64 \<le> s \<and> 16 dvd s \<and> tiles (j + s) ts e)"

fun free_sum :: "tile list \<Rightarrow> nat" where
  "free_sum [] = 0"
| "free_sum ((j, s, f) # ts) = (if f then s else 0) + free_sum ts"

definition free_offs :: "tile list \<Rightarrow> nat set" where
  "free_offs ts = {j. \<exists>s. (j, s, True) \<in> set ts}"

text \<open>No two free blocks are neighbours, except that the last 64 bytes of a page are not merged
  with a free block before them.\<close>

definition apart :: "tile \<Rightarrow> tile \<Rightarrow> bool" where
  "apart t u \<longleftrightarrow> (snd (snd t) \<and> snd (snd u) \<longrightarrow> fst u + 64 = 4096)"

definition coalesced :: "tile list \<Rightarrow> bool" where "coalesced ts \<longleftrightarrow> successively apart ts"

lemma tiles_append: "tiles i (xs @ ys) e \<longleftrightarrow> (\<exists>m. tiles i xs m \<and> tiles m ys e)"
  by (induction i xs e rule: tiles.induct) auto

lemma tiles_le: "tiles i ts e \<Longrightarrow> i \<le> e"
  by (induction i ts e rule: tiles.induct) auto

lemma tiles_in: "tiles i ts e \<Longrightarrow> (j, s, f) \<in> set ts \<Longrightarrow> i \<le> j \<and> 64 \<le> s \<and> 16 dvd s \<and> j + s \<le> e"
proof (induction i ts e rule: tiles.induct)
  case (2 i j' s' f' ts e)
  then show ?case using tiles_le [of "j' + s'" ts e] by auto
qed simp

lemma tiles_align: "tiles i ts e \<Longrightarrow> 16 dvd i \<Longrightarrow> 16 dvd e"
  by (induction i ts e rule: tiles.induct) auto

lemma free_sum_append [simp]: "free_sum (xs @ ys) = free_sum xs + free_sum ys"
  by (induction xs rule: free_sum.induct) auto

lemma free_sum_le: "tiles i ts e \<Longrightarrow> free_sum ts \<le> e - i"
proof (induction i ts e rule: tiles.induct)
  case (2 i j s f ts e)
  then show ?case using tiles_le [of "j + s" ts e] by auto
qed simp

lemma free_offs_append [simp]: "free_offs (xs @ ys) = free_offs xs \<union> free_offs ys"
  by (auto simp: free_offs_def)

lemma free_offs_simps [simp]: "free_offs [] = {}" "free_offs ((j, s, f) # ts) = (if f then insert j (free_offs ts) else free_offs ts)"
  by (auto simp: free_offs_def)

lemma free_offs_range: "tiles i ts e \<Longrightarrow> k \<in> free_offs ts \<Longrightarrow> i \<le> k \<and> k < e"
  using tiles_in by (fastforce simp: free_offs_def)

lemma free_offs_out: "tiles i ts e \<Longrightarrow> k < i \<or> e \<le> k \<Longrightarrow> k \<notin> free_offs ts"
  using free_offs_range by fastforce

lemma at_neq: "page_base p \<Longrightarrow> i < 4096 \<Longrightarrow> j < 4096 \<Longrightarrow> i \<noteq> j \<Longrightarrow> at p i \<noteq> at p j"
  using at_eq [of p i j] by simp

lemma tiles_mid:
  assumes "tiles 64 (us @ ms @ vs) 4096"
  obtains b e where "tiles 64 us b" "tiles b ms e" "tiles e vs 4096" "64 \<le> b" "b \<le> e" "e \<le> 4096"
  using assms tiles_le by (fastforce simp: tiles_append)

text \<open>What a header says apart from its links.\<close>

definition header :: "nat \<Rightarrow> bool \<Rightarrow> bool \<Rightarrow> addr \<Rightarrow> memBlock" where
  "header s f l p = \<lparr>mb_magic = MEM_BLOCK_MAGIC, mb_size = of_nat s, mb_isFree = f, mb_isLarge = l, mb_page = p,
     mb_prev = 0, mb_next = 0\<rparr>"

definition body_of :: "(addr \<rightharpoonup> memBlock) \<Rightarrow> addr \<rightharpoonup> memBlock" where
  "body_of B a = map_option (\<lambda>b. b\<lparr>mb_prev := 0, mb_next := 0\<rparr>) (B a)"

lemma body_of_upd [simp]: "body_of (B(a \<mapsto> b)) = (body_of B)(a \<mapsto> b\<lparr>mb_prev := 0, mb_next := 0\<rparr>)"
  by (auto simp: body_of_def)

lemma links_of_upd [simp]: "links_of (B(a \<mapsto> b)) = (links_of B)(a \<mapsto> (mb_prev b, mb_next b))"
  by (auto simp: links_of_def)

definition tile_ok :: "'f heap \<Rightarrow> addr \<Rightarrow> nat \<Rightarrow> nat \<Rightarrow> bool \<Rightarrow> bool" where
  "tile_ok st p j s f \<longleftrightarrow> body_of (hp_blocks st) (at p j) = Some (header s f False p) \<and>
     hp_tags st (at p (j + s - 8)) = Some (if f then of_nat s else 0)"

text \<open>A page in order: its blocks tile it, headers and tags say so, the list holds the free
  blocks, and the number of free bytes is right. In between a page has the number \<open>F\<close> there and neighbours may be free.\<close>

definition page_inv :: "'f heap \<Rightarrow> addr \<Rightarrow> tile list \<Rightarrow> nat list \<Rightarrow> nat \<Rightarrow> bool" where
  "page_inv st p ts fl F \<longleftrightarrow> page_base p \<and> tiles 64 ts 4096 \<and>
     (\<forall>(j, s, f) \<in> set ts. tile_ok st p j s f) \<and> distinct fl \<and> set fl = free_offs ts \<and>
     linked (links_of (hp_blocks st)) 0 (map (at p) fl) 0 \<and>
     (\<exists>pg. hp_pages st p = Some pg \<and> mp_magic pg = MEM_BLOCK_MAGIC \<and> mp_freeSize pg = of_nat F \<and>
       mp_blockList pg = hd (map (at p) fl @ [0]))"

definition page_ok :: "'f heap \<Rightarrow> addr \<Rightarrow> tile list \<Rightarrow> nat list \<Rightarrow> bool" where
  "page_ok st p ts fl \<longleftrightarrow> page_inv st p ts fl (free_sum ts) \<and> coalesced ts"

text \<open>Only this page has changed, and of its header not the links.\<close>

definition only_page :: "addr \<Rightarrow> 'f heap \<Rightarrow> 'f heap \<Rightarrow> bool" where
  "only_page p st st' \<longleftrightarrow> (\<forall>a. frame a \<noteq> frame p \<longrightarrow> hp_blocks st' a = hp_blocks st a \<and> hp_tags st' a = hp_tags st a) \<and>
     (\<forall>q. q \<noteq> p \<longrightarrow> hp_pages st' q = hp_pages st q) \<and> hp_pageList st' = hp_pageList st \<and> hp_fw st' = hp_fw st \<and>
     map_option mp_next (hp_pages st' p) = map_option mp_next (hp_pages st p)"

lemma page_tile:
  assumes "page_inv st p ts fl F" and "(j, s, f) \<in> set ts"
  shows "64 \<le> j" "64 \<le> s" "16 dvd s" "j + s \<le> 4096" "tile_ok st p j s f" "j < 4096"
  using assms tiles_in [of 64 ts 4096 j s f] by (auto simp: page_inv_def)

lemma free_off_in: "page_inv st p ts fl F \<Longrightarrow> j \<in> set fl \<longleftrightarrow> (\<exists>s. (j, s, True) \<in> set ts)"
  by (simp add: page_inv_def free_offs_def)

lemma free_off_less: "page_inv st p ts fl F \<Longrightarrow> j \<in> set fl \<Longrightarrow> 64 \<le> j \<and> j < 4096"
  using free_off_in [of st p ts fl F j] page_tile [of st p ts fl F j] by blast

lemma free_list_addrs:
  assumes "page_inv st p ts fl F"
  shows "distinct (map (at p) fl)" "0 \<notin> set (map (at p) fl)"
proof -
  have p: "page_base p" and d: "distinct fl" using assms by (simp_all add: page_inv_def)
  have "inj_on (at p) (set fl)"
    using free_off_less [OF assms] p by (intro inj_onI) (metis at_eq less_imp_le)
  then show "distinct (map (at p) fl)" using d by (simp add: distinct_map)
  show "0 \<notin> set (map (at p) fl)"
  proof
    assume "0 \<in> set (map (at p) fl)"
    then obtain j where "j \<in> set fl" "at p j = 0" by auto
    then show False using free_off_less [OF assms, of j] at_0 [OF p, of j] by simp
  qed
qed

lemma page_inv_frame:
  assumes ok: "page_inv st q ts fl F" and p: "page_base p" "p \<noteq> q" and o: "only_page p st st'"
  shows "page_inv st' q ts fl F"
proof -
  have q: "page_base q" using ok by (simp add: page_inv_def)
  have eq: "hp_blocks st' (at q j) = hp_blocks st (at q j)" "hp_tags st' (at q j) = hp_tags st (at q j)" if "j < 4096" for j
    using o p q frame_at [OF q that] frame_eq [OF p(1) q] by (auto simp: only_page_def)
  have "tile_ok st' q j s f" if "(j, s, f) \<in> set ts" for j s f
    using page_tile [OF ok that] eq by (simp add: tile_ok_def body_of_def)
  moreover have "linked (links_of (hp_blocks st')) 0 (map (at q) fl) 0 = linked (links_of (hp_blocks st)) 0 (map (at q) fl) 0"
    using eq free_off_less [OF ok] by (intro linked_cong) (auto simp: links_of_def)
  ultimately show ?thesis using ok o p(2) by (auto simp: page_inv_def only_page_def)
qed

section \<open>Steps on the links\<close>

definition set_nbrs :: "(addr \<rightharpoonup> memBlock) \<Rightarrow> addr \<Rightarrow> addr \<Rightarrow> addr \<Rightarrow> addr \<Rightarrow> addr \<rightharpoonup> memBlock" where
  "set_nbrs B p n' n p' =
     (let B1 = (if p = 0 then B else B(p := map_option (\<lambda>b. b\<lparr>mb_next := n'\<rparr>) (B p)))
      in if n = 0 then B1 else B1(n := map_option (\<lambda>b. b\<lparr>mb_prev := p'\<rparr>) (B1 n)))"

lemma links_of_set_nbrs [simp]: "links_of (set_nbrs B p n' n p') = set_links (links_of B) p n' n p'"
  by (auto simp: fun_eq_iff links_of_def set_nbrs_def set_links_def Let_def option.map_comp comp_def split: option.splits)

lemma body_of_set_nbrs [simp]: "body_of (set_nbrs B p n' n p') = body_of B"
  by (auto simp: fun_eq_iff body_of_def set_nbrs_def Let_def option.map_comp comp_def)

lemma set_nbrs_frame: "a \<noteq> p \<or> p = 0 \<Longrightarrow> a \<noteq> n \<or> n = 0 \<Longrightarrow> set_nbrs B p n' n p' a = B a"
  by (auto simp: set_nbrs_def Let_def)

lemma upd_swap: "b\<lparr>mb_prev := x, mb_next := y\<rparr> = b\<lparr>mb_next := y, mb_prev := x\<rparr>" by (cases b) simp

lemma upd_both:
  assumes "p = 0 \<or> hp_blocks st p \<noteq> None" and "n = 0 \<or> hp_blocks st n \<noteq> None"
  shows "(do {
      st \<leftarrow> (if p \<noteq> 0 then upd_block p (\<lambda>x. x\<lparr>mb_next := n'\<rparr>) st else Some st);
      (if n \<noteq> 0 then upd_block n (\<lambda>x. x\<lparr>mb_prev := p'\<rparr>) st else Some st) }) =
    Some (st\<lparr>hp_blocks := set_nbrs (hp_blocks st) p n' n p'\<rparr>)"
    and "(do {
      st \<leftarrow> (if n \<noteq> 0 then upd_block n (\<lambda>x. x\<lparr>mb_prev := p'\<rparr>) st else Some st);
      (if p \<noteq> 0 then upd_block p (\<lambda>x. x\<lparr>mb_next := n'\<rparr>) st else Some st) }) =
    Some (st\<lparr>hp_blocks := set_nbrs (hp_blocks st) p n' n p'\<rparr>)"
proof -
  show "(do {
      st \<leftarrow> (if p \<noteq> 0 then upd_block p (\<lambda>x. x\<lparr>mb_next := n'\<rparr>) st else Some st);
      (if n \<noteq> 0 then upd_block n (\<lambda>x. x\<lparr>mb_prev := p'\<rparr>) st else Some st) }) =
    Some (st\<lparr>hp_blocks := set_nbrs (hp_blocks st) p n' n p'\<rparr>)"
    using assms by (auto simp: upd_block_def set_nbrs_def Let_def)
  show "(do {
      st \<leftarrow> (if n \<noteq> 0 then upd_block n (\<lambda>x. x\<lparr>mb_prev := p'\<rparr>) st else Some st);
      (if p \<noteq> 0 then upd_block p (\<lambda>x. x\<lparr>mb_next := n'\<rparr>) st else Some st) }) =
    Some (st\<lparr>hp_blocks := set_nbrs (hp_blocks st) p n' n p'\<rparr>)"
    using assms by (auto simp: upd_block_def set_nbrs_def Let_def upd_swap fun_upd_twist)
qed

definition set_list :: "addr \<Rightarrow> addr \<Rightarrow> 'f heap \<Rightarrow> 'f heap" where
  "set_list pg a st = st\<lparr>hp_pages := (hp_pages st)(pg := map_option (\<lambda>p. p\<lparr>mp_blockList := a\<rparr>) (hp_pages st pg))\<rparr>"

lemma unlink_block_code:
  assumes "hp_blocks st x = Some b" and "mb_prev b \<noteq> x" "mb_next b \<noteq> x"
    and "mb_prev b = 0 \<or> hp_blocks st (mb_prev b) \<noteq> None" "mb_next b = 0 \<or> hp_blocks st (mb_next b) \<noteq> None"
    and "hp_pages st pg = Some P"
  shows "unlink_block pg x st =
    Some ((if x = mp_blockList P then set_list pg (mb_next b) else id)
      (st\<lparr>hp_blocks := set_nbrs (hp_blocks st) (mb_prev b) (mb_next b) (mb_next b) (mb_prev b)\<rparr>))"
  using assms by (auto simp: unlink_block_def upd_block_def upd_mempage_def set_nbrs_def set_list_def Let_def)

lemma relink_block_code:
  assumes "hp_blocks st y = Some b" and "mb_prev b \<noteq> y" "mb_next b \<noteq> y"
    and "mb_prev b = 0 \<or> hp_blocks st (mb_prev b) \<noteq> None" "mb_next b = 0 \<or> hp_blocks st (mb_next b) \<noteq> None"
    and "hp_pages st pg = Some P"
  shows "relink_block pg x y st =
    Some ((if mp_blockList P = x then set_list pg y else id)
      (st\<lparr>hp_blocks := set_nbrs (hp_blocks st) (mb_prev b) y (mb_next b) y\<rparr>))"
  using assms by (auto simp: relink_block_def upd_block_def upd_mempage_def set_nbrs_def set_list_def Let_def upd_swap fun_upd_twist)

text \<open>A part \<open>ms\<close> of a page is tiled anew: the rest is not touched.\<close>

lemma page_inv_retile:
  assumes ok: "page_inv st p (us @ ms @ vs) fl F" and b: "tiles 64 us b" "tiles b ms e" "tiles e vs 4096"
    and ms': "tiles b ms' e" "\<forall>(j, s, f) \<in> set ms'. tile_ok st' p j s f"
    and rest: "\<And>k. k < 4096 \<Longrightarrow> k < b \<or> e \<le> k \<Longrightarrow> body_of (hp_blocks st') (at p k) = body_of (hp_blocks st) (at p k) \<and>
      hp_tags st' (at p k) = hp_tags st (at p k)"
    and fl': "distinct fl'" "set fl' = free_offs us \<union> free_offs ms' \<union> free_offs vs"
      "linked (links_of (hp_blocks st')) 0 (map (at p) fl') 0"
    and pg: "hp_pages st' p = Some pg" "mp_magic pg = MEM_BLOCK_MAGIC"
      "mp_freeSize pg = of_nat F'" "mp_blockList pg = hd (map (at p) fl' @ [0])"
  shows "page_inv st' p (us @ ms' @ vs) fl' F'"
proof -
  have t: "tiles 64 (us @ ms' @ vs) 4096" using b(1,3) ms'(1) by (auto simp: tiles_append)
  have be: "b \<le> e" "e \<le> 4096" using tiles_le [OF b(2)] tiles_le [OF b(3)] by auto
  have old: "tile_ok st p j s f" if "(j, s, f) \<in> set us \<union> set vs" for j s f
    using that page_tile(5) [OF ok, of j s f] by auto
  have "tile_ok st' p j s f" if "(j, s, f) \<in> set (us @ ms' @ vs)" for j s f
  proof -
    consider "(j, s, f) \<in> set us" | "(j, s, f) \<in> set ms'" | "(j, s, f) \<in> set vs" using \<open>(j, s, f) \<in> _\<close> by auto
    then show ?thesis
    proof cases
      case 1
      then have "j < b" "j + s - 8 < b" "b \<le> 4096" using tiles_in [OF b(1) 1] be by auto
      then show ?thesis using rest [of j] rest [of "j + s - 8"] old [of j s f] 1 by (simp add: tile_ok_def)
    next
      case 2
      then show ?thesis using ms'(2) by auto
    next
      case 3
      then have "e \<le> j" "e \<le> j + s - 8" "j + s - 8 < 4096" "j < 4096" using tiles_in [OF b(3) 3] by auto
      then show ?thesis using rest [of j] rest [of "j + s - 8"] old [of j s f] 3 by (simp add: tile_ok_def)
    qed
  qed
  then show ?thesis using ok t fl' pg by (auto simp: page_inv_def add.assoc Un_assoc)
qed

text \<open>A block on the free list and its neighbours there.\<close>

lemma free_block:
  assumes ok: "page_inv st p ts fl F" and fl: "fl = xs @ j # ys"
  obtains b s where "(j, s, True) \<in> set ts" "hp_blocks st (at p j) = Some b"
    "b = (header s True False p)\<lparr>mb_prev := last (0 # map (at p) xs), mb_next := hd (map (at p) ys @ [0])\<rparr>"
    "mb_prev b \<noteq> at p j" "mb_next b \<noteq> at p j"
    "mb_prev b = 0 \<or> hp_blocks st (mb_prev b) \<noteq> None" "mb_next b = 0 \<or> hp_blocks st (mb_next b) \<noteq> None"
proof -
  obtain s where s: "(j, s, True) \<in> set ts" using free_off_in [OF ok, of j] fl by auto
  have some: "hp_blocks st (at p k) \<noteq> None" if "k \<in> set fl" for k
  proof -
    obtain s where "(k, s, True) \<in> set ts" using \<open>k \<in> set fl\<close> free_off_in [OF ok] by blast
    then show ?thesis using page_tile(5) [OF ok] by (fastforce simp: tile_ok_def body_of_def)
  qed
  obtain b where b: "hp_blocks st (at p j) = Some b" using some fl by auto
  have "links_of (hp_blocks st) (at p j) = Some (last (0 # map (at p) xs), hd (map (at p) ys @ [0]))"
    using ok fl linked_mid [of _ 0 "map (at p) xs" "at p j" "map (at p) ys" 0] by (simp add: page_inv_def)
  then have l: "mb_prev b = last (0 # map (at p) xs)" "mb_next b = hd (map (at p) ys @ [0])" using b by (auto simp: links_of_def)
  have "b\<lparr>mb_prev := 0, mb_next := 0\<rparr> = header s True False p"
    using page_tile(5) [OF ok s] b by (simp add: tile_ok_def body_of_def)
  then have "b = (header s True False p)\<lparr>mb_prev := mb_prev b, mb_next := mb_next b\<rparr>"
    by (cases b) (simp add: header_def)
  then have hb: "b = (header s True False p)\<lparr>mb_prev := last (0 # map (at p) xs), mb_next := hd (map (at p) ys @ [0])\<rparr>"
    using l by simp
  note d = free_list_addrs [OF ok, unfolded fl]
  have prev: "last (0 # map (at p) xs) = 0 \<or> last (0 # map (at p) xs) \<in> set (map (at p) xs)" by (cases xs rule: rev_cases) auto
  have nxt: "hd (map (at p) ys @ [0]) = 0 \<or> hd (map (at p) ys @ [0]) \<in> set (map (at p) ys)" by (cases ys) auto
  have "at p j \<notin> insert 0 (set (map (at p) xs))" "at p j \<notin> insert 0 (set (map (at p) ys))" using d by auto
  then have "mb_prev b \<noteq> at p j" "mb_next b \<noteq> at p j" using prev nxt l by (metis insert_iff)+
  moreover have "mb_prev b = 0 \<or> hp_blocks st (mb_prev b) \<noteq> None" "mb_next b = 0 \<or> hp_blocks st (mb_next b) \<noteq> None"
  proof -
    have all: "hp_blocks st a \<noteq> None" if "a \<in> set (map (at p) fl)" for a using that some by auto
    have "set (map (at p) xs) \<subseteq> set (map (at p) fl)" "set (map (at p) ys) \<subseteq> set (map (at p) fl)" using fl by auto
    then show "mb_prev b = 0 \<or> hp_blocks st (mb_prev b) \<noteq> None" "mb_next b = 0 \<or> hp_blocks st (mb_next b) \<noteq> None"
      unfolding l using prev nxt all by blast+
  qed
  ultimately show ?thesis using that s b hb by blast
qed

section \<open>Allocation in a page\<close>

lemma unat_size: "s \<le> 4096 \<Longrightarrow> unat (ucast (of_nat s :: u32) :: u64) = s"
  by (simp add: unsigned_ucast_eq unsigned_of_nat take_bit_nat_eq_self)

lemma size_word: "s \<le> 4096 \<Longrightarrow> ucast (of_nat s :: u32) = (of_nat s :: u64)"
  by (simp add: word_unat_eq_iff unat_size unat_of_nat take_bit_eq_mod)

lemma size_end_at: "8 \<le> s \<Longrightarrow> s \<le> 4096 \<Longrightarrow> size_end (at p j) (of_nat s) = at p (j + s - 8)"
  using at_diff [of 8 "j + s" p] by (simp add: size_end_def size_word at_add)

lemma tiles_unique: "tiles i ts e \<Longrightarrow> (j, s, f) \<in> set ts \<Longrightarrow> (j, s', f') \<in> set ts \<Longrightarrow> s' = s \<and> f' = f"
proof (induction i ts e rule: tiles.induct)
  case (2 i j' s1 f1 ts e)
  have "(j', r, g) \<notin> set ts" for r g using 2(2) tiles_in [of "j' + s1" ts e j' r g] by auto
  then show ?case using 2 by auto
qed simp

lemma find_block_list:
  assumes ok: "page_inv st p ts fl F"
  shows "fl = pre @ os \<Longrightarrow> find_block st sz (hd (map (at p) os @ [0])) =
    Some (case List.find (\<lambda>j. \<exists>s. (j, s, True) \<in> set ts \<and> unat sz \<le> s) os of None \<Rightarrow> 0 | Some j \<Rightarrow> at p j)"
proof (induction os arbitrary: pre)
  case Nil
  then show ?case by (simp add: find_block.simps)
next
  case (Cons j os)
  from ok Cons.prems obtain b s where s: "(j, s, True) \<in> set ts" and b: "hp_blocks st (at p j) = Some b"
    "b = (header s True False p)\<lparr>mb_prev := last (0 # map (at p) pre), mb_next := hd (map (at p) os @ [0])\<rparr>"
    by (rule free_block)
  have p: "page_base p" and t: "tiles 64 ts 4096" using ok by (simp_all add: page_inv_def)
  have sl: "s \<le> 4096" "j < 4096" using page_tile [OF ok s] by auto
  moreover have "(\<exists>s'. (j, s', True) \<in> set ts \<and> unat sz \<le> s') \<longleftrightarrow> unat sz \<le> s"
    using s tiles_unique [OF t s] by blast
  ultimately have "ucast (mb_size b) \<ge> sz \<longleftrightarrow> (\<exists>s'. (j, s', True) \<in> set ts \<and> unat sz \<le> s')"
    by (simp add: b(2) header_def word_le_nat_alt unat_size)
  moreover have "find_block st sz (hd (map (at p) os @ [0])) =
      Some (case List.find (\<lambda>j. \<exists>s. (j, s, True) \<in> set ts \<and> unat sz \<le> s) os of None \<Rightarrow> 0 | Some j \<Rightarrow> at p j)"
    by (rule Cons.IH [of "pre @ [j]"]) (simp add: Cons.prems)
  moreover have "at p j \<noteq> 0" using at_0 [OF p, of j] sl by simp
  moreover have "mb_magic b = MEM_BLOCK_MAGIC" "mb_next b = hd (map (at p) os @ [0])" by (simp_all add: b(2) header_def)
  then have "find_block st sz (at p j) =
      (if ucast (mb_size b) \<ge> sz then Some (at p j) else find_block st sz (hd (map (at p) os @ [0])))"
    using \<open>at p j \<noteq> 0\<close> b(1) by (subst find_block.simps) simp
  ultimately show ?case by (cases "\<exists>s'. (j, s', True) \<in> set ts \<and> unat sz \<le> s'") auto
qed

lemma list_head_out:
  assumes "distinct (map (at p) (xs @ j # ys))" and "0 \<notin> set (map (at p) (xs @ j # ys))"
  shows "(if at p j = hd (map (at p) (xs @ j # ys) @ [0]) then hd (map (at p) ys @ [0]) else hd (map (at p) (xs @ j # ys) @ [0])) =
      hd (map (at p) (xs @ ys) @ [0])"
    and "(if hd (map (at p) (xs @ j # ys) @ [0]) = at p j then at p k else hd (map (at p) (xs @ j # ys) @ [0])) =
      hd (map (at p) (xs @ k # ys) @ [0])"
  using assms by (cases xs; force)+

lemma coalesced_take: "coalesced (us @ (j, s, True) # vs) \<Longrightarrow> coalesced (us @ (j, s', False) # vs)"
  by (auto simp: coalesced_def successively_append_iff successively_Cons apart_def)

lemma coalesced_split:
  "coalesced (us @ (j, s, True) # vs) \<Longrightarrow> coalesced (us @ (j, n, False) # (j + n, s - n, True) # vs)"
  by (auto simp: coalesced_def successively_append_iff successively_Cons apart_def)

definition tile_frame :: "'f heap \<Rightarrow> 'f heap \<Rightarrow> addr \<Rightarrow> nat \<Rightarrow> nat \<Rightarrow> bool" where
  "tile_frame st st' p b e \<longleftrightarrow> (\<forall>k < 4096. k < b \<or> e \<le> k \<longrightarrow> hp_tags st' (at p k) = hp_tags st (at p k))"

text \<open>A free block is taken off the list whole.\<close>

lemma page_take:
  assumes ok: "page_inv st p (us @ (j, s, True) # vs) fl F" and fl: "fl = xs @ j # ys"
    and b: "hp_blocks st (at p j) = Some b" "mb_prev b = last (0 # map (at p) xs)" "mb_next b = hd (map (at p) ys @ [0])"
    and st': "hp_blocks st' = (set_nbrs (hp_blocks st) (mb_prev b) (mb_next b) (mb_next b) (mb_prev b))(at p j \<mapsto> b')"
      "b'\<lparr>mb_prev := 0, mb_next := 0\<rparr> = header s False False p" "hp_tags st' (at p (j + s - 8)) = Some 0"
      "tile_frame st st' p j (j + s)"
    and pg: "hp_pages st' p = Some pg" "mp_magic pg = MEM_BLOCK_MAGIC" "mp_freeSize pg = of_nat F'"
      "mp_blockList pg = hd (map (at p) (xs @ ys) @ [0])"
  shows "page_inv st' p (us @ (j, s, False) # vs) (xs @ ys) F'"
proof -
  have p: "page_base p" and df: "distinct fl"
    and sf: "set fl = free_offs (us @ (j, s, True) # vs)" and t: "tiles 64 (us @ [(j, s, True)] @ vs) 4096"
    and l: "linked (links_of (hp_blocks st)) 0 (map (at p) fl) 0"
    using ok by (simp_all add: page_inv_def)
  obtain b0 e0 where be: "tiles 64 us b0" "tiles b0 [(j, s, True)] e0" "tiles e0 vs 4096"
    using tiles_mid [OF t] by blast
  then have j: "b0 = j" "e0 = j + s" by auto
  have js: "64 \<le> j" "64 \<le> s" "j + s \<le> 4096" "16 dvd s" using page_tile [OF ok, of j s True] by auto
  note d = free_list_addrs [OF ok]
  have nj: "j \<notin> free_offs us" "j \<notin> free_offs vs"
    using tiles_in [OF be(1)] tiles_in [OF be(3)] js j by (auto simp: free_offs_def) fastforce+
  have "linked (set_links (links_of (hp_blocks st)) (mb_prev b) (mb_next b) (mb_next b) (mb_prev b)) 0 (map (at p) (xs @ ys)) 0"
    using linked_remove [of "links_of (hp_blocks st)" "map (at p) xs" "at p j" "map (at p) ys"] l d fl b by simp
  moreover have "at p j \<notin> set (map (at p) (xs @ ys))" using d fl by simp
  ultimately have l': "linked (links_of (hp_blocks st')) 0 (map (at p) (xs @ ys)) 0"
    by (simp add: st'(1))
  have "page_inv st' p (us @ [(j, s, False)] @ vs) (xs @ ys) F'"
  proof (rule page_inv_retile [where ms = "[(j, s, True)]" and b = j and e = "j + s" and pg = pg and fl' = "xs @ ys"])
    fix k
    assume k: "k < 4096" "k < j \<or> j + s \<le> k"
    then have "at p k \<noteq> at p j" using at_eq [OF p, of k j] js by auto
    moreover have "hp_tags st' (at p k) = hp_tags st (at p k)" using k st'(4) unfolding tile_frame_def by blast
    ultimately show "body_of (hp_blocks st') (at p k) = body_of (hp_blocks st) (at p k) \<and> hp_tags st' (at p k) = hp_tags st (at p k)"
      by (simp add: st'(1))
  next
    show "set (xs @ ys) = free_offs us \<union> free_offs [(j, s, False)] \<union> free_offs vs"
    proof -
      have "set (xs @ ys) = set fl - {j}" using df fl by auto
      also have "\<dots> = free_offs us \<union> free_offs vs" using nj by (auto simp: sf)
      finally show ?thesis by simp
    qed
    show "linked (links_of (hp_blocks st')) 0 (map (at p) (xs @ ys)) 0" by (rule l')
  qed (use ok be j js st'(2,3) df fl pg in \<open>simp_all add: st'(1) tile_ok_def\<close>)
  then show ?thesis by simp
qed

text \<open>What becomes of a free block of \<open>s\<close> bytes at \<open>j\<close> that \<open>n\<close> bytes are taken from.\<close>

definition carve :: "nat \<Rightarrow> nat \<Rightarrow> nat \<Rightarrow> tile list" where
  "carve n j s = (if s - n < 64 then [(j, s, False)] else [(j, n, False), (j + n, s - n, True)])"

text \<open>A free block is split; the part that is left takes its place on the list.\<close>

lemma page_split:
  assumes ok: "page_inv st p (us @ (j, s, True) # vs) fl F" and fl: "fl = xs @ j # ys"
    and n: "64 \<le> n" "16 dvd n" "64 \<le> s - n"
    and b: "hp_blocks st (at p j) = Some b" "mb_prev b = last (0 # map (at p) xs)" "mb_next b = hd (map (at p) ys @ [0])"
    and B: "B = (hp_blocks st)(at p j \<mapsto> b1, at p (j + n) \<mapsto> b2)" "mb_prev b1 = mb_prev b" "mb_next b1 = mb_next b"
      "b2 = \<lparr>mb_magic = MEM_BLOCK_MAGIC, mb_size = 0, mb_isFree = False, mb_isLarge = False, mb_page = 0, mb_prev = mb_prev b, mb_next = mb_next b\<rparr>"
      "b1\<lparr>mb_prev := 0, mb_next := 0\<rparr> = header n False False p"
    and st': "hp_blocks st' = (set_nbrs B (mb_prev b) (at p (j + n)) (mb_next b) (at p (j + n)))
        (at p (j + n) \<mapsto> b2\<lparr>mb_size := of_nat (s - n), mb_page := p, mb_isFree := True\<rparr>)"
      "hp_tags st' (at p (j + n - 8)) = Some 0" "hp_tags st' (at p (j + s - 8)) = Some (of_nat (s - n))"
      "tile_frame st st' p j (j + s)"
    and pg: "hp_pages st' p = Some pg" "mp_magic pg = MEM_BLOCK_MAGIC" "mp_freeSize pg = of_nat F'"
      "mp_blockList pg = hd (map (at p) (xs @ (j + n) # ys) @ [0])"
  shows "page_inv st' p (us @ (j, n, False) # (j + n, s - n, True) # vs) (xs @ (j + n) # ys) F'"
proof -
  have p: "page_base p" and df: "distinct fl"
    and sf: "set fl = free_offs (us @ (j, s, True) # vs)" and t: "tiles 64 (us @ [(j, s, True)] @ vs) 4096"
    and l: "linked (links_of (hp_blocks st)) 0 (map (at p) fl) 0"
    using ok by (simp_all add: page_inv_def)
  obtain b0 e0 where be: "tiles 64 us b0" "tiles b0 [(j, s, True)] e0" "tiles e0 vs 4096"
    using tiles_mid [OF t] by blast
  then have j: "b0 = j" "e0 = j + s" by auto
  have js: "64 \<le> j" "64 \<le> s" "j + s \<le> 4096" "16 dvd s" using page_tile [OF ok, of j s True] by auto
  have ns: "n < s" "j + n < 4096" "j + n < j + s" using n js by auto
  note d = free_list_addrs [OF ok]
  have nj: "j \<notin> free_offs us" "j \<notin> free_offs vs" "j + n \<notin> free_offs us" "j + n \<notin> free_offs vs"
    using tiles_in [OF be(1)] tiles_in [OF be(3)] js j ns by (auto simp: free_offs_def) fastforce+
  have sxy: "set (xs @ ys) = free_offs us \<union> free_offs vs"
  proof -
    have "set (xs @ ys) = set fl - {j}" using df fl by auto
    also have "\<dots> = free_offs us \<union> free_offs vs" using nj by (auto simp: sf)
    finally show ?thesis .
  qed
  let ?y = "at p (j + n)"
  have less: "k < 4096" if "k \<in> set (xs @ j # ys)" for k using free_off_less [OF ok, of k] that fl by simp
  have "j + n \<notin> set (xs @ j # ys)" using nj sxy n by auto
  then have "?y \<noteq> at p k" if "k \<in> set (xs @ j # ys)" for k
    using at_eq [OF p, of "j + n" k] less [OF that] ns that by auto
  then have y: "?y \<notin> set (map (at p) (xs @ j # ys))" "?y \<noteq> 0" using at_0 [OF p, of "j + n"] ns by auto
  have Lj: "links_of (hp_blocks st) (at p j) = Some (mb_prev b, mb_next b)" using b(1) by (simp add: links_of_def)
  then have LB: "links_of B = (links_of (hp_blocks st))(?y \<mapsto> (mb_prev b, mb_next b))"
    by (simp add: B fun_upd_idem)
  have lB: "linked (links_of B) 0 (map (at p) xs @ at p j # map (at p) ys) 0"
    unfolding LB using l fl y(1) by simp
  have "links_of B ?y = links_of B (at p j)" using Lj by (simp add: LB)
  then have "linked (set_links (links_of B) (mb_prev b) ?y (mb_next b) ?y) 0 (map (at p) xs @ ?y # map (at p) ys) 0"
    using linked_replace [OF lB] d y fl b(2,3) by simp
  moreover have "set_links (links_of B) (mb_prev b) ?y (mb_next b) ?y ?y = Some (mb_prev b, mb_next b)"
  proof -
    have "mb_prev b = 0 \<or> mb_prev b \<in> set (map (at p) xs)" unfolding b(2) by (cases xs rule: rev_cases) auto
    moreover have "mb_next b = 0 \<or> mb_next b \<in> set (map (at p) ys)" unfolding b(3) by (cases ys) auto
    ultimately have "?y \<noteq> mb_prev b \<or> mb_prev b = 0" "?y \<noteq> mb_next b \<or> mb_next b = 0" using y by auto
    then show ?thesis by (simp add: set_links_frame LB)
  qed
  ultimately have l': "linked (links_of (hp_blocks st')) 0 (map (at p) (xs @ (j + n) # ys)) 0"
    by (simp add: st'(1) B(4) fun_upd_idem)
  have body: "body_of (hp_blocks st') = (body_of (hp_blocks st))(at p j \<mapsto> header n False False p, ?y \<mapsto> header (s - n) True False p)"
    by (simp add: st'(1) B header_def)
  have jy: "at p j \<noteq> ?y" using y(1) by auto
  have "page_inv st' p (us @ [(j, n, False), (j + n, s - n, True)] @ vs) (xs @ (j + n) # ys) F'"
  proof (rule page_inv_retile [where ms = "[(j, s, True)]" and b = j and e = "j + s" and pg = pg and fl' = "xs @ (j + n) # ys"])
    fix k
    assume k: "k < 4096" "k < j \<or> j + s \<le> k"
    then have "at p k \<noteq> at p j" "at p k \<noteq> ?y" using at_eq [OF p, of k j] at_eq [OF p, of k "j + n"] js ns by auto
    moreover have "hp_tags st' (at p k) = hp_tags st (at p k)" using k st'(4) unfolding tile_frame_def by blast
    ultimately show "body_of (hp_blocks st') (at p k) = body_of (hp_blocks st) (at p k) \<and> hp_tags st' (at p k) = hp_tags st (at p k)"
      by (simp add: body)
  next
    show "distinct (xs @ (j + n) # ys)" using df fl nj sxy by auto
    show "set (xs @ (j + n) # ys) = free_offs us \<union> free_offs [(j, n, False), (j + n, s - n, True)] \<union> free_offs vs"
      using sxy by auto
    show "tiles j [(j, n, False), (j + n, s - n, True)] (j + s)" using n js ns by simp
    show "\<forall>(i, r, f) \<in> set [(j, n, False), (j + n, s - n, True)]. tile_ok st' p i r f"
      using st'(2,3) jy ns by (simp add: tile_ok_def body)
    show "linked (links_of (hp_blocks st')) 0 (map (at p) (xs @ (j + n) # ys)) 0" by (rule l')
  qed (use ok be j js pg in simp_all)
  then show ?thesis by simp
qed

lemma set_nbrs_upd:
  assumes "a \<noteq> p" and "a \<noteq> n"
  shows "set_nbrs (B(a := v)) p n' n p' = (set_nbrs B p n' n p')(a := v)"
  using assms by (auto simp: set_nbrs_def Let_def fun_upd_twist)

lemma word32_size: "k \<le> 4096 \<Longrightarrow> ucast (of_nat k :: u64) = (of_nat k :: u32)"
  by (simp add: word_unat_eq_iff unsigned_ucast_eq unsigned_of_nat take_bit_nat_eq_self)

lemma size_minus:
  assumes "n \<le> s" "s \<le> 4096"
  shows "ucast (ucast (of_nat s :: u32) - of_nat n :: u64) = (of_nat (s - n) :: u32)"
    and "of_nat s - (of_nat n :: u32) = of_nat (s - n)"
  using assms by (simp_all add: size_word word32_size flip: of_nat_diff)

lemma size_less: "a \<le> 4096 \<Longrightarrow> b \<le> 4096 \<Longrightarrow> of_nat a < (of_nat b :: u32) \<longleftrightarrow> a < b"
  by (simp add: word_less_nat_alt unsigned_of_nat take_bit_nat_eq_self)

lemma size_eq: "a \<le> 4096 \<Longrightarrow> b \<le> 4096 \<Longrightarrow> ucast (of_nat a :: u32) = (of_nat b :: u64) \<longleftrightarrow> a = b"
  by (simp add: word_unat_eq_iff unat_size unsigned_of_nat take_bit_nat_eq_self)

lemma only_page_intro:
  assumes "page_base p" and "hp_pageList st' = hp_pageList st" "hp_fw st' = hp_fw st"
    and "\<And>q. q \<noteq> p \<Longrightarrow> hp_pages st' q = hp_pages st q"
    and "map_option mp_next (hp_pages st' p) = map_option mp_next (hp_pages st p)"
    and "\<And>a. hp_blocks st' a = hp_blocks st a \<or> (\<exists>k < 4096. a = at p k)"
    and "\<And>a. hp_tags st' a = hp_tags st a \<or> (\<exists>k < 4096. a = at p k)"
  shows "only_page p st st'"
  unfolding only_page_def using assms frame_at [OF assms(1)] by metis

lemma set_nbrs_at:
  assumes "a = set_nbrs B p n' n p'" and "p = 0 \<or> (\<exists>k < 4096. p = at pg k)" and "n = 0 \<or> (\<exists>k < 4096. n = at pg k)"
  shows "a x = B x \<or> (\<exists>k < 4096. x = at pg k)"
  using assms by (auto simp: set_nbrs_def Let_def)

lemma nbr_offsets:
  assumes ok: "page_inv st p ts fl F" and fl: "fl = xs @ j # ys"
  shows "last (0 # map (at p) xs) = 0 \<or> (\<exists>k < 4096. last (0 # map (at p) xs) = at p k)"
    and "hd (map (at p) ys @ [0]) = 0 \<or> (\<exists>k < 4096. hd (map (at p) ys @ [0]) = at p k)"
proof -
  have less: "k < 4096" if "k \<in> set xs \<union> set ys" for k using free_off_less [OF ok, of k] that fl by auto
  show "last (0 # map (at p) xs) = 0 \<or> (\<exists>k < 4096. last (0 # map (at p) xs) = at p k)"
    using less by (cases xs rule: rev_cases) auto
  show "hd (map (at p) ys @ [0]) = 0 \<or> (\<exists>k < 4096. hd (map (at p) ys @ [0]) = at p k)"
    using less by (cases ys) auto
qed

lemma alloc_in_page:
  assumes ok: "page_ok st p ts fl" and n: "64 \<le> n" "16 dvd n" "n \<le> 4096"
  shows "(\<forall>j s. (j, s, True) \<in> set ts \<longrightarrow> s < n) \<and> allocBlockInPage p (of_nat n) st = Some (0, st) \<or>
    (\<exists>us j s vs fl' st'. ts = us @ (j, s, True) # vs \<and> n \<le> s \<and>
       allocBlockInPage p (of_nat n) st = Some (at p (j + 64), st') \<and>
       page_ok st' p (us @ carve n j s @ vs) fl' \<and> only_page p st st')"
proof -
  have inv: "page_inv st p ts fl (free_sum ts)" and co: "coalesced ts" using ok by (simp_all add: page_ok_def)
  obtain pg where pg: "hp_pages st p = Some pg" "mp_magic pg = MEM_BLOCK_MAGIC" "mp_freeSize pg = of_nat (free_sum ts)"
    "mp_blockList pg = hd (map (at p) fl @ [0])" and p: "page_base p" and t: "tiles 64 ts 4096"
    using inv by (auto simp: page_inv_def)
  have un: "unat (of_nat n :: u64) = n" using n by (simp add: unsigned_of_nat take_bit_nat_eq_self)
  let ?P = "\<lambda>j. \<exists>s. (j, s, True) \<in> set ts \<and> n \<le> s"
  have find: "find_block st (of_nat n) (mp_blockList pg) = Some (case List.find ?P fl of None \<Rightarrow> 0 | Some j \<Rightarrow> at p j)"
    using find_block_list [OF inv, of "[]" fl "of_nat n"] un pg(4) by simp
  show ?thesis
  proof (cases "List.find ?P fl")
    case None
    then have "\<not> ?P j" if "j \<in> set fl" for j using that by (auto simp: find_None_iff)
    then have "\<forall>j s. (j, s, True) \<in> set ts \<longrightarrow> s < n" using free_off_in [OF inv] by (meson not_le)
    moreover have "allocBlockInPage p (of_nat n) st = Some (0, st)"
      using pg(1) find None by (simp add: allocBlockInPage_def)
    ultimately show ?thesis by blast
  next
    case (Some j)
    then have jfl: "j \<in> set fl" and Pj: "?P j" by (auto simp: find_Some_iff)
    obtain xs ys where fl: "fl = xs @ j # ys" using split_list [OF jfl] by blast
    from inv fl obtain b s where s: "(j, s, True) \<in> set ts" and b: "hp_blocks st (at p j) = Some b"
      "b = (header s True False p)\<lparr>mb_prev := last (0 # map (at p) xs), mb_next := hd (map (at p) ys @ [0])\<rparr>"
      and bp: "mb_prev b \<noteq> at p j" "mb_next b \<noteq> at p j"
      and bn: "mb_prev b = 0 \<or> hp_blocks st (mb_prev b) \<noteq> None" "mb_next b = 0 \<or> hp_blocks st (mb_next b) \<noteq> None"
      by (rule free_block)
    have bl: "mb_prev b = last (0 # map (at p) xs)" "mb_next b = hd (map (at p) ys @ [0])" "mb_size b = of_nat s"
      "mb_page b = p" by (simp_all add: b(2) header_def)
    have ns: "n \<le> s" using Pj tiles_unique [OF t s] by blast
    have js: "64 \<le> j" "64 \<le> s" "j + s \<le> 4096" "16 dvd s" "s \<le> 4096" "j < 4096" using page_tile [OF inv s] by auto
    obtain us vs where ts: "ts = us @ (j, s, True) # vs" using split_list [OF s] by blast
    note inv' = inv [unfolded ts] and co' = co [unfolded ts]
    have F: "free_sum ts = free_sum us + s + free_sum vs" by (simp add: ts)
    have F4: "free_sum ts \<le> 4096" using free_sum_le [OF t] by simp
    note d = free_list_addrs [OF inv, unfolded fl]
    note nb = nbr_offsets [OF inv fl, folded bl(1,2)]
    have j0: "at p j \<noteq> 0" using at_0 [OF p, of j] js by simp
    define pg1 where "pg1 = pg\<lparr>mp_freeSize := of_nat (free_sum ts - n)\<rparr>"
    define st1 where "st1 = st\<lparr>hp_pages := (hp_pages st)(p \<mapsto> pg1)\<rparr>"
    define B1 where "B1 = set_nbrs (hp_blocks st) (mb_prev b) (mb_next b) (mb_next b) (mb_prev b)"
    have B1j: "B1 (at p j) = Some b" unfolding B1_def using b(1) bp by (simp add: set_nbrs_frame)
    have st1: "upd_mempage p (\<lambda>p. p\<lparr>mp_freeSize := ucast (ucast (mp_freeSize p) - of_nat n :: u64)\<rparr>) st = Some st1"
    proof -
      have "ucast (ucast (mp_freeSize pg) - of_nat n :: u64) = (of_nat (free_sum ts - n) :: u32)"
        unfolding pg(3) by (rule size_minus(1)) (use F ns F4 in simp_all)
      then show ?thesis using pg(1) by (simp add: upd_mempage_def st1_def pg1_def)
    qed
    have szs: "ucast (ucast (of_nat s :: u32) - of_nat n :: u64) = (of_nat (s - n) :: u32)" "ucast (of_nat n :: u64) = (of_nat n :: u32)"
      "(ucast (of_nat s :: u32) = (of_nat n :: u64)) = (s = n)" "((of_nat (s - n) :: u32) < of_nat 64) = (s - n < 64)"
      "size_end (at p j) (of_nat n) = at p (j + n - 8)" "size_end (at p j) (of_nat s) = at p (j + s - 8)"
      by (rule size_minus(1) word32_size size_eq size_less size_end_at; use ns js n in simp)+
    have data: "at p j + of_nat MEM_BLOCK_DATA_OFFSET = at p (j + 64)" by (simp add: MEM_BLOCK_DATA_OFFSET_def at_add del: of_nat_numeral)
    have "hp_blocks st1 = hp_blocks st" by (simp add: st1_def)
    then have head: "allocBlockInPage p (of_nat n) st = (if s = n then take_block p (at p j) st1 else split_block p (at p j) (of_nat n) st1)"
      using pg(1) find Some st1 b(1) szs(3) j0 by (simp add: allocBlockInPage_def bl(3))
    show ?thesis
    proof (cases "s = n")
      case True
      define st2 where "st2 = (if at p j = mp_blockList pg then set_list p (mb_next b) else id) (st1\<lparr>hp_blocks := B1\<rparr>)"
      have "unlink_block p (at p j) st1 = Some st2"
        using unlink_block_code [of st1 "at p j" b p pg1] b(1) bp bn
        by (simp add: st1_def pg1_def st2_def B1_def)
      moreover have "hp_blocks st2 = B1" by (simp add: st2_def set_list_def)
      moreover define st' where "st' = put_tag (at p (j + s - 8)) 0 (st2\<lparr>hp_blocks := B1(at p j \<mapsto> b\<lparr>mb_isFree := False\<rparr>)\<rparr>)"
      ultimately have "take_block p (at p j) st1 = Some (at p (j + 64), st')"
        using szs(6) B1j by (simp add: take_block_def upd_block_def bl(3) data)
      then have code: "allocBlockInPage p (of_nat n) st = Some (at p (j + 64), st')" using head True by simp
      have f: "hp_blocks st' = B1(at p j \<mapsto> b\<lparr>mb_isFree := False\<rparr>)" "hp_tags st' = (hp_tags st)(at p (j + s - 8) \<mapsto> 0)"
        "hp_pageList st' = hp_pageList st" "hp_fw st' = hp_fw st"
        "hp_pages st' = (hp_pages st)(p \<mapsto> pg1\<lparr>mp_blockList := hd (map (at p) (xs @ ys) @ [0])\<rparr>)"
        using list_head_out(1) [OF d] pg(4)
        by (auto simp: st'_def put_tag_def st2_def st1_def set_list_def pg1_def bl fl split: if_splits)
      have "page_inv st' p (us @ (j, s, False) # vs) (xs @ ys) (free_sum us + free_sum vs)"
      proof (rule page_take [OF inv' fl b(1) bl(1,2), where b' = "b\<lparr>mb_isFree := False\<rparr>"])
        show "hp_blocks st' = (set_nbrs (hp_blocks st) (mb_prev b) (mb_next b) (mb_next b) (mb_prev b))(at p j \<mapsto> b\<lparr>mb_isFree := False\<rparr>)"
          by (simp add: f B1_def)
        show "b\<lparr>mb_isFree := False, mb_prev := 0, mb_next := 0\<rparr> = header s False False p" by (simp add: b(2) header_def)
        show "tile_frame st st' p j (j + s)" using at_eq [OF p] js by (auto simp: tile_frame_def f)
        show "hp_pages st' p = Some (pg1\<lparr>mp_blockList := hd (map (at p) (xs @ ys) @ [0])\<rparr>)" by (simp add: f)
      qed (use F True in \<open>simp_all add: f pg1_def pg\<close>)
      moreover have "carve n j s = [(j, s, False)]" using True by (simp add: carve_def)
      moreover have "only_page p st st'"
      proof (rule only_page_intro [OF p f(3,4)])
        fix a
        have "B1 a = hp_blocks st a \<or> (\<exists>k < 4096. a = at p k)" by (rule set_nbrs_at [OF B1_def nb])
        then show "hp_blocks st' a = hp_blocks st a \<or> (\<exists>k < 4096. a = at p k)"
          using js(6) by (cases "a = at p j") (auto simp: f(1))
        show "hp_tags st' a = hp_tags st a \<or> (\<exists>k < 4096. a = at p k)" using js by (auto simp: f intro!: exI [of _ "j + s - 8"])
      qed (simp_all add: f pg pg1_def)
      ultimately show ?thesis using ts ns code
          by (intro disjI2 exI [of _ us] exI [of _ j] exI [of _ s] exI [of _ vs] exI [of _ "xs @ ys"] exI [of _ st'])
            (simp add: page_ok_def coalesced_take [OF co'])
    next
      case False
      define b1 where "b1 = b\<lparr>mb_size := of_nat n, mb_isFree := False\<rparr>"
      define st2 where "st2 = put_tag (at p (j + n - 8)) 0 (st1\<lparr>hp_blocks := (hp_blocks st)(at p j \<mapsto> b1)\<rparr>)"
      show ?thesis
      proof (cases "s - n < 64")
        case small: True
        define st3 where "st3 = (if at p j = mp_blockList pg then set_list p (mb_next b) else id) (st2\<lparr>hp_blocks := B1(at p j \<mapsto> b1)\<rparr>)"
        have "unlink_block p (at p j) st2 = Some st3"
          using unlink_block_code [of st2 "at p j" b1 p pg1] bp bn
          by (simp add: st2_def st1_def put_tag_def pg1_def st3_def b1_def set_nbrs_upd B1_def)
        moreover define b2 where "b2 = b1\<lparr>mb_size := of_nat s\<rparr>"
        moreover define pg2 where "pg2 = pg1\<lparr>mp_blockList := hd (map (at p) (xs @ ys) @ [0])\<rparr>"
        moreover have st3: "hp_blocks st3 = B1(at p j \<mapsto> b1)" "hp_tags st3 = (hp_tags st)(at p (j + n - 8) \<mapsto> 0)"
          "hp_pageList st3 = hp_pageList st" "hp_fw st3 = hp_fw st" "hp_pages st3 = (hp_pages st)(p \<mapsto> pg2)"
          using list_head_out(1) [OF d] pg(4)
          by (auto simp: put_tag_def st3_def st2_def st1_def set_list_def pg1_def pg2_def bl fl split: if_splits)
        moreover define pg3 where "pg3 = pg2\<lparr>mp_freeSize := of_nat (free_sum ts - s)\<rparr>"
        moreover define st' where "st' = st3\<lparr>hp_blocks := B1(at p j \<mapsto> b2), hp_tags := (hp_tags st3)(at p (j + s - 8) \<mapsto> 0),
          hp_pages := (hp_pages st)(p \<mapsto> pg3)\<rparr>"
        moreover have "mp_freeSize pg2 - of_nat (s - n) = (of_nat (free_sum ts - s) :: u32)"
        proof -
          have "free_sum ts - n - (s - n) = free_sum ts - s" using ns by simp
          then show ?thesis using size_minus(2) [of "s - n" "free_sum ts - n"] F F4 ns by (simp add: pg2_def pg1_def del: of_nat_diff)
        qed
        moreover have "of_nat n + of_nat (s - n) = (of_nat s :: u32)" using ns by (simp flip: of_nat_add)
        ultimately have "split_block p (at p j) (of_nat n) st1 = Some (at p (j + 64), st')"
          using b(1) szs small data
          by (simp add: split_block_def upd_block_def upd_mempage_def bl(3,4) st1_def b1_def put_tag_def Let_def st2_def MEM_BLOCK_DATA_OFFSET_def)
        then have code: "allocBlockInPage p (of_nat n) st = Some (at p (j + 64), st')" using head False by simp
        have f: "hp_blocks st' = B1(at p j \<mapsto> b2)" "hp_tags st' = (hp_tags st)(at p (j + n - 8) \<mapsto> 0, at p (j + s - 8) \<mapsto> 0)"
          "hp_pageList st' = hp_pageList st" "hp_fw st' = hp_fw st" "hp_pages st' = (hp_pages st)(p \<mapsto> pg3)"
          by (simp_all add: st'_def st3)
        have "page_inv st' p (us @ (j, s, False) # vs) (xs @ ys) (free_sum us + free_sum vs)"
        proof (rule page_take [OF inv' fl b(1) bl(1,2), where b' = b2])
          show "hp_blocks st' = (set_nbrs (hp_blocks st) (mb_prev b) (mb_next b) (mb_next b) (mb_prev b))(at p j \<mapsto> b2)"
            by (simp add: f B1_def)
          show "b2\<lparr>mb_prev := 0, mb_next := 0\<rparr> = header s False False p" by (simp add: b2_def b1_def b(2) header_def)
          show "tile_frame st st' p j (j + s)" using at_eq [OF p] js n ns by (auto simp: tile_frame_def f)
          show "hp_pages st' p = Some pg3" by (simp add: f)
        qed (use F in \<open>simp_all add: f pg3_def pg2_def pg1_def pg\<close>)
        moreover have "carve n j s = [(j, s, False)]" using small by (simp add: carve_def)
        moreover have "only_page p st st'"
        proof (rule only_page_intro [OF p f(3,4)])
          fix a
          have "B1 a = hp_blocks st a \<or> (\<exists>k < 4096. a = at p k)" by (rule set_nbrs_at [OF B1_def nb])
          then show "hp_blocks st' a = hp_blocks st a \<or> (\<exists>k < 4096. a = at p k)"
            using js(6) by (cases "a = at p j") (auto simp: f(1))
          have "j + n - 8 < 4096" "j + s - 8 < 4096" using js ns n by auto
          then show "hp_tags st' a = hp_tags st a \<or> (\<exists>k < 4096. a = at p k)" unfolding f(2) by (metis fun_upd_other)
        qed (simp_all add: f pg pg3_def pg2_def pg1_def)
        ultimately show ?thesis using ts ns code
          by (intro disjI2 exI [of _ us] exI [of _ j] exI [of _ s] exI [of _ vs] exI [of _ "xs @ ys"] exI [of _ st'])
            (simp add: page_ok_def coalesced_take [OF co'])
      next
        case big: False
        let ?y = "at p (j + n)"
        have jn: "j + n < 4096" "at p j \<noteq> ?y" using ns js n big at_eq [OF p, of j "j + n"] by auto
        define b2 where "b2 = \<lparr>mb_magic = MEM_BLOCK_MAGIC, mb_size = 0, mb_isFree = False, mb_isLarge = False, mb_page = 0,
          mb_prev = mb_prev b, mb_next = mb_next b\<rparr>"
        define B where "B = (hp_blocks st)(at p j \<mapsto> b1, ?y \<mapsto> b2)"
        define B2 where "B2 = set_nbrs B (mb_prev b) ?y (mb_next b) ?y"
        define b3 where "b3 = b2\<lparr>mb_size := of_nat (s - n), mb_page := p, mb_isFree := True\<rparr>"
        define pg2 where "pg2 = pg1\<lparr>mp_blockList := hd (map (at p) (xs @ (j + n) # ys) @ [0])\<rparr>"
        define st3 where "st3 = st2\<lparr>hp_blocks := B\<rparr>"
        define st' where "st' = st\<lparr>hp_blocks := B2(?y \<mapsto> b3), hp_pages := (hp_pages st)(p \<mapsto> pg2),
          hp_tags := (hp_tags st)(at p (j + n - 8) \<mapsto> 0, at p (j + s - 8) \<mapsto> of_nat (s - n))\<rparr>"
        have jfree: "j + n \<notin> set fl"
        proof
          assume "j + n \<in> set fl"
          then obtain r where "(j + n, r, True) \<in> set ts" using free_off_in [OF inv] by blast
          then show False using t ts tiles_in [of 64 us j] tiles_in [of "j + s" vs 4096] ns big n
            by (auto simp: tiles_append) fastforce+
        qed
        have ynb: "?y \<noteq> mb_prev b" "?y \<noteq> mb_next b"
        proof -
          have "k < 4096 \<and> k \<noteq> j + n" if "k \<in> set fl" for k using that jfree free_off_less [OF inv] by auto
          then have "?y \<notin> at p ` set fl" using at_eq [OF p, of "j + n"] jn(1) by (metis imageE less_imp_le)
          moreover have "mb_prev b \<in> insert 0 (at p ` set fl)" "mb_next b \<in> insert 0 (at p ` set fl)"
            unfolding bl fl by (cases xs rule: rev_cases; simp) (cases ys; simp)
          ultimately show "?y \<noteq> mb_prev b" "?y \<noteq> mb_next b" using at_0 [OF p, of "j + n"] jn(1) by auto
        qed
        have some: "mb_prev b = 0 \<or> B (mb_prev b) \<noteq> None" "mb_next b = 0 \<or> B (mb_next b) \<noteq> None"
          using bn by (auto simp: B_def)
        have "relink_block p (at p j) ?y st3 =
            Some ((if mp_blockList pg = at p j then set_list p ?y else id) (st3\<lparr>hp_blocks := B2\<rparr>))"
          using relink_block_code [of st3 ?y b2 p pg1 "at p j"] ynb some
          by (simp add: st3_def st2_def st1_def put_tag_def B_def b2_def B2_def pg1_def)
        moreover have "(if mp_blockList pg = at p j then set_list p ?y else id) (st3\<lparr>hp_blocks := B2\<rparr>) =
            st\<lparr>hp_blocks := B2, hp_pages := (hp_pages st)(p \<mapsto> pg2), hp_tags := (hp_tags st)(at p (j + n - 8) \<mapsto> 0)\<rparr>"
          using list_head_out(2) [OF d, of "j + n"] pg(4)
          by (cases pg; cases st) (auto simp: st3_def st2_def st1_def put_tag_def set_list_def pg2_def pg1_def fl split: if_splits)
        moreover have B2y: "B2 ?y = Some b2" unfolding B2_def using ynb by (simp add: set_nbrs_frame B_def)
        moreover have "size_end ?y (of_nat (s - n)) = at p (j + s - 8)" "ucast (of_nat (s - n) :: u32) = (of_nat (s - n) :: u64)"
          using size_end_at [of "s - n" p "j + n"] size_word [of "s - n"] big ns js by auto
        moreover have "at p j + of_nat n = ?y" by (simp add: at_add)
        ultimately have "split_block p (at p j) (of_nat n) st1 = Some (at p (j + 64), st')"
          using b(1) szs big data jn(2)
          by (simp add: split_block_def upd_block_def bl(3) st1_def b1_def put_tag_def put_block_def Let_def st2_def st3_def
            B_def b2_def [symmetric] b3_def st'_def MEM_BLOCK_DATA_OFFSET_def)
        then have code: "allocBlockInPage p (of_nat n) st = Some (at p (j + 64), st')" using head False by simp
        have f: "hp_blocks st' = B2(?y \<mapsto> b3)" "hp_pages st' = (hp_pages st)(p \<mapsto> pg2)"
          "hp_tags st' = (hp_tags st)(at p (j + n - 8) \<mapsto> 0, at p (j + s - 8) \<mapsto> of_nat (s - n))"
          "hp_pageList st' = hp_pageList st" "hp_fw st' = hp_fw st" by (simp_all add: st'_def)
        have off: "j + n - 8 < 4096" "j + s - 8 < 4096" "j + n - 8 \<noteq> j + s - 8" using js ns n big by auto
        have "page_inv st' p (us @ (j, n, False) # (j + n, s - n, True) # vs) (xs @ (j + n) # ys) (free_sum us + (s - n) + free_sum vs)"
        proof (rule page_split [OF inv' fl n(1,2) _ b(1) bl(1,2) B_def _ _ b2_def])
          show "hp_blocks st' = (set_nbrs B (mb_prev b) ?y (mb_next b) ?y)(?y \<mapsto> b2\<lparr>mb_size := of_nat (s - n), mb_page := p, mb_isFree := True\<rparr>)"
            by (simp add: f B2_def b3_def)
          show "b1\<lparr>mb_prev := 0, mb_next := 0\<rparr> = header n False False p" by (simp add: b1_def b(2) header_def)
          show "tile_frame st st' p j (j + s)" using at_eq [OF p] js n ns by (auto simp: tile_frame_def f)
          show "hp_pages st' p = Some pg2" by (simp add: f)
          show "hp_tags st' (at p (j + n - 8)) = Some 0" "hp_tags st' (at p (j + s - 8)) = Some (of_nat (s - n))"
            using off at_eq [OF p, of "j + n - 8" "j + s - 8"] by (simp_all add: f(3))
          have "free_sum ts - n = free_sum us + (s - n) + free_sum vs" using F ns by simp
          then show "mp_freeSize pg2 = of_nat (free_sum us + (s - n) + free_sum vs)" by (simp add: pg2_def pg1_def)
        qed (use big in \<open>simp_all add: pg2_def pg1_def pg b1_def\<close>)
        moreover have "carve n j s = [(j, n, False), (j + n, s - n, True)]" using big by (simp add: carve_def)
        moreover have "only_page p st st'"
        proof (rule only_page_intro [OF p f(4,5)])
          fix a
          have "B2 a = B a \<or> (\<exists>k < 4096. a = at p k)" by (rule set_nbrs_at [OF B2_def nb])
          then show "hp_blocks st' a = hp_blocks st a \<or> (\<exists>k < 4096. a = at p k)"
            using js(6) jn(1) unfolding f(1) B_def by (metis fun_upd_other)
          show "hp_tags st' a = hp_tags st a \<or> (\<exists>k < 4096. a = at p k)" using off unfolding f(3) by (metis fun_upd_other)
        qed (simp_all add: f pg pg2_def pg1_def)
        ultimately show ?thesis using ts ns code
          by (intro disjI2 exI [of _ us] exI [of _ j] exI [of _ s] exI [of _ vs] exI [of _ "xs @ (j + n) # ys"] exI [of _ st'])
            (simp add: page_ok_def coalesced_split [OF co'] add.assoc)
      qed
    qed
  qed
qed

section \<open>Freeing in a page\<close>

lemma unat_at2: "page_base p \<Longrightarrow> i < 8192 \<Longrightarrow> unat (at p i) = unat p + i"
proof -
  assume p: "page_base p" "i < 8192"
  then obtain k where "unat p = 4096 * k" "4096 * k + 4096 < 2 ^ 64" by (auto simp: page_base_def dvd_def)
  then have "unat p + i < 2 ^ 64" using p(2) by simp
  then show ?thesis unfolding at_def by (rule unat_addr_add)
qed

lemma merge_right_code:
  assumes b: "hp_blocks st x = Some b" "mb_page b = pg" and y: "y = x + ucast (mb_size b)" "x \<noteq> y"
    and c: "y + of_nat MEM_BLOCK_DATA_OFFSET < pg + of_nat PAGE_SIZE"
    and n: "hp_blocks st y = Some n" "mb_magic n = MEM_BLOCK_MAGIC" "mb_page n \<noteq> 0" "mb_isFree n"
    and l: "mb_prev n \<noteq> x" "mb_next n \<noteq> x" "mb_prev n \<noteq> y" "mb_next n \<noteq> y"
      "mb_prev n = 0 \<or> hp_blocks st (mb_prev n) \<noteq> None" "mb_next n = 0 \<or> hp_blocks st (mb_next n) \<noteq> None"
    and P: "hp_pages st pg = Some P"
  shows "merge_right x st = Some (True, put_tag (size_end x (mb_size b + mb_size n)) (ucast (mb_size b + mb_size n))
    ((if mp_blockList P = y then set_list pg x else id)
      (st\<lparr>hp_blocks := (set_nbrs ((hp_blocks st)(x \<mapsto> b\<lparr>mb_isFree := True, mb_size := mb_size b + mb_size n,
         mb_next := mb_next n, mb_prev := mb_prev n\<rparr>)) (mb_prev n) x (mb_next n) x)(y \<mapsto> n\<lparr>mb_magic := 0\<rparr>)\<rparr>)))"
  using b(1) n l P y(2) c unfolding merge_right_def
  by (cases st) (auto simp: b(2) y(1) [symmetric] Let_def upd_block_def upd_mempage_def set_nbrs_def set_list_def upd_swap fun_upd_twist)

lemma tile_block:
  assumes ok: "page_inv st p ts fl F" and t: "(j, s, f) \<in> set ts"
  obtains b where "hp_blocks st (at p j) = Some b" "b\<lparr>mb_prev := 0, mb_next := 0\<rparr> = header s f False p"
    "mb_magic b = MEM_BLOCK_MAGIC" "mb_size b = of_nat s" "mb_isFree b = f" "\<not> mb_isLarge b" "mb_page b = p"
proof -
  obtain b where b: "hp_blocks st (at p j) = Some b" "b\<lparr>mb_prev := 0, mb_next := 0\<rparr> = header s f False p"
    using page_tile(5) [OF ok t] by (auto simp: tile_ok_def body_of_def)
  from b(2) have "mb_magic b = MEM_BLOCK_MAGIC" "mb_size b = of_nat s" "mb_isFree b = f" "\<not> mb_isLarge b" "mb_page b = p"
    by (cases b, simp add: header_def)+
  with b that show ?thesis by blast
qed

lemma used_not_listed:
  assumes ok: "page_inv st p ts fl F" and t: "(j, s, False) \<in> set ts"
  shows "j \<notin> set fl"
proof
  assume "j \<in> set fl"
  then obtain r where "(j, r, True) \<in> set ts" using free_off_in [OF ok] by blast
  moreover have "tiles 64 ts 4096" using ok by (simp add: page_inv_def)
  ultimately show False using tiles_unique t by blast
qed

lemma not_listed_addr:
  assumes ok: "page_inv st p ts fl F" and "j \<notin> set fl" "j < 4096"
  shows "at p j \<notin> insert 0 (set (map (at p) fl))"
proof -
  have p: "page_base p" using ok by (simp add: page_inv_def)
  have "at p j \<noteq> at p k" if "k \<in> set fl" for k
    using that free_off_less [OF ok that] assms at_eq [OF p, of j k] by auto
  then show ?thesis using at_0 [OF p, of j] assms(3) by auto
qed

lemma listed_nbrs:
  "last (0 # map (at p) xs) \<in> insert 0 (set (map (at p) (xs @ j # ys)))"
  "hd (map (at p) ys @ [0]) \<in> insert 0 (set (map (at p) (xs @ j # ys)))"
  by (cases xs rule: rev_cases; simp) (cases ys; simp)

lemma merge_right_in_page:
  assumes ok: "page_inv st p (us @ (j, s, False) # (i, r, True) # vs) fl F" and i: "i \<noteq> 4032"
  shows "\<exists>st' xs ys. fl = xs @ i # ys \<and> merge_right (at p j) st = Some (True, st') \<and>
    page_inv st' p (us @ (j, s + r, True) # vs) (xs @ j # ys) F \<and> only_page p st st'"
proof -
  let ?ts = "us @ (j, s, False) # (i, r, True) # vs"
  have p: "page_base p" and t: "tiles 64 (us @ [(j, s, False), (i, r, True)] @ vs) 4096"
    and df: "distinct fl" and sf: "set fl = free_offs ?ts"
    and l: "linked (links_of (hp_blocks st)) 0 (map (at p) fl) 0"
    using ok by (simp_all add: page_inv_def)
  have mem: "(j, s, False) \<in> set ?ts" "(i, r, True) \<in> set ?ts" by auto
  obtain b0 e0 where be: "tiles 64 us b0" "tiles b0 [(j, s, False), (i, r, True)] e0" "tiles e0 vs 4096"
    using tiles_mid [OF t] by blast
  then have ij: "b0 = j" "i = j + s" "e0 = j + (s + r)" by auto
  note js = page_tile [OF ok mem(1)] and ir = page_tile [OF ok mem(2)]
  have i16: "16 dvd i" using tiles_align [OF be(1)] js(3) ij by auto
  have ilt: "i + 64 < 4096" using i ir i16 by auto
  obtain pg where pg: "hp_pages st p = Some pg" "mp_magic pg = MEM_BLOCK_MAGIC" "mp_freeSize pg = of_nat F"
    "mp_blockList pg = hd (map (at p) fl @ [0])" using ok by (auto simp: page_inv_def)
  have "i \<in> set fl" using sf by simp
  then obtain xs ys where fl: "fl = xs @ i # ys" using split_list by metis
  from ok mem(1) obtain b where b: "hp_blocks st (at p j) = Some b" "b\<lparr>mb_prev := 0, mb_next := 0\<rparr> = header s False False p"
    "mb_magic b = MEM_BLOCK_MAGIC" "mb_size b = of_nat s" "mb_isFree b = False" "\<not> mb_isLarge b" "mb_page b = p"
    by (rule tile_block)
  from ok fl obtain n r' where r': "(i, r', True) \<in> set ?ts" and n: "hp_blocks st (at p i) = Some n"
    "n = (header r' True False p)\<lparr>mb_prev := last (0 # map (at p) xs), mb_next := hd (map (at p) ys @ [0])\<rparr>"
    and nn: "mb_prev n \<noteq> at p i" "mb_next n \<noteq> at p i"
    and ns: "mb_prev n = 0 \<or> hp_blocks st (mb_prev n) \<noteq> None" "mb_next n = 0 \<or> hp_blocks st (mb_next n) \<noteq> None"
    by (rule free_block)
  have "r' = r" using tiles_unique [OF t, of i r True r' True] r' by simp
  then have nl: "mb_prev n = last (0 # map (at p) xs)" "mb_next n = hd (map (at p) ys @ [0])" "mb_size n = of_nat r"
    "mb_magic n = MEM_BLOCK_MAGIC" "mb_page n = p" "mb_isFree n" by (simp_all add: n(2) header_def)
  have jfl: "j \<notin> set fl" by (rule used_not_listed [OF ok mem(1)])
  have jn: "at p j \<notin> insert 0 (set (map (at p) fl))" by (rule not_listed_addr [OF ok jfl js(6)])
  then have nj: "mb_prev n \<noteq> at p j" "mb_next n \<noteq> at p j"
    unfolding nl fl by (metis listed_nbrs)+
  have ne: "at p j \<noteq> at p i" using at_eq [OF p, of j i] js ir ij by simp
  have y: "at p i = at p j + ucast (mb_size b)" using js by (simp add: b(4) size_word at_add ij)
  have c: "at p i + of_nat MEM_BLOCK_DATA_OFFSET < p + of_nat PAGE_SIZE"
    using unat_at2 [OF p, of "i + 64"] unat_at2 [OF p, of 4096] ilt at_add [of p i 64]
    by (simp add: word_less_nat_alt MEM_BLOCK_DATA_OFFSET_def PAGE_SIZE_def at_def add.assoc)
  have sz: "mb_size b + mb_size n = of_nat (s + r)" "s + r \<le> 4096" using js ir ij by (simp_all add: b(4) nl(3))
  define B where "B = (hp_blocks st)(at p j \<mapsto> b\<lparr>mb_isFree := True, mb_size := of_nat (s + r), mb_next := mb_next n, mb_prev := mb_prev n\<rparr>)"
  define B2 where "B2 = set_nbrs B (mb_prev n) (at p j) (mb_next n) (at p j)"
  define pg' where "pg' = pg\<lparr>mp_blockList := hd (map (at p) (xs @ j # ys) @ [0])\<rparr>"
  define st' where "st' = st\<lparr>hp_blocks := B2(at p i \<mapsto> n\<lparr>mb_magic := 0\<rparr>), hp_pages := (hp_pages st)(p \<mapsto> pg'),
    hp_tags := (hp_tags st)(at p (j + (s + r) - 8) \<mapsto> of_nat (s + r))\<rparr>"
  note d = free_list_addrs [OF ok, unfolded fl]
  have "put_tag (size_end (at p j) (of_nat (s + r))) (ucast (of_nat (s + r) :: u32))
      ((if mp_blockList pg = at p i then set_list p (at p j) else id) (st\<lparr>hp_blocks := B2(at p i \<mapsto> n\<lparr>mb_magic := 0\<rparr>)\<rparr>)) = st'"
    using list_head_out(2) [OF d, of j] pg size_end_at [of "s + r" p j] size_word [OF sz(2)] js sz(2)
    by (cases pg; cases st) (auto simp: st'_def set_list_def put_tag_def pg'_def fl split: if_splits)
  then have code: "merge_right (at p j) st = Some (True, st')"
    using merge_right_code [OF b(1,7) y ne c n(1) nl(4) _ nl(6) nj nn ns pg(1)] at_0 [OF p, of 0]
    unfolding sz(1) B_def [symmetric] B2_def [symmetric] by (simp add: nl(5) at_def)
  have f: "hp_blocks st' = B2(at p i \<mapsto> n\<lparr>mb_magic := 0\<rparr>)" "hp_pages st' = (hp_pages st)(p \<mapsto> pg')"
    "hp_tags st' = (hp_tags st)(at p (j + (s + r) - 8) \<mapsto> of_nat (s + r))" "hp_pageList st' = hp_pageList st" "hp_fw st' = hp_fw st"
    by (simp_all add: st'_def)
  have Li: "links_of (hp_blocks st) (at p i) = Some (mb_prev n, mb_next n)" using n(1) by (simp add: links_of_def)
  have LB: "links_of B = (links_of (hp_blocks st))(at p j \<mapsto> (mb_prev n, mb_next n))" by (simp add: B_def)
  have lB: "linked (links_of B) 0 (map (at p) xs @ at p i # map (at p) ys) 0"
    unfolding LB using l jn fl by simp
  have "linked (set_links (links_of B) (mb_prev n) (at p j) (mb_next n) (at p j)) 0 (map (at p) xs @ at p j # map (at p) ys) 0"
    using linked_replace [OF lB, of "at p j"] d jn fl ne Li by (simp add: nl(1,2) LB)
  moreover have "links_of B2 (at p i) = Some (mb_prev n, mb_next n)"
    using Li ne nn by (simp add: B2_def set_links_frame LB)
  ultimately have l': "linked (links_of (hp_blocks st')) 0 (map (at p) (xs @ j # ys)) 0"
    by (simp add: f fun_upd_idem) (simp add: B2_def)
  have body: "body_of (hp_blocks st') = (body_of (hp_blocks st))(at p j \<mapsto> header (s + r) True False p,
      at p i \<mapsto> (header r True False p)\<lparr>mb_magic := 0\<rparr>)"
  proof -
    have "b\<lparr>mb_isFree := True, mb_size := of_nat (s + r), mb_next := 0, mb_prev := 0\<rparr> = header (s + r) True False p"
      using b(2-) by (cases b) (simp add: header_def)
    moreover have "n\<lparr>mb_magic := 0, mb_prev := 0, mb_next := 0\<rparr> = (header r True False p)\<lparr>mb_magic := 0\<rparr>"
      by (simp add: n(2) header_def \<open>r' = r\<close>)
    ultimately show ?thesis by (simp add: f B2_def B_def upd_swap)
  qed
  have nj': "j \<notin> free_offs us" "j \<notin> free_offs vs" "i \<notin> free_offs us" "i \<notin> free_offs vs"
    by (rule free_offs_out [OF be(1)] free_offs_out [OF be(3)]; use js ir ij in simp)+
  have "page_inv st' p (us @ [(j, s + r, True)] @ vs) (xs @ j # ys) F"
  proof (rule page_inv_retile [where ms = "[(j, s, False), (i, r, True)]" and b = j and e = "j + (s + r)" and pg = pg' and fl' = "xs @ j # ys"])
    fix k
    assume k: "k < 4096" "k < j \<or> j + (s + r) \<le> k"
    then have "k \<noteq> j" "k \<noteq> i" "k \<noteq> j + (s + r) - 8" "j + (s + r) - 8 < 4096" using js ir ij by arith+
    then have "at p k \<noteq> at p j" "at p k \<noteq> at p i" "at p k \<noteq> at p (j + (s + r) - 8)"
      using at_neq [OF p k(1)] js ir by simp_all
    then show "body_of (hp_blocks st') (at p k) = body_of (hp_blocks st) (at p k) \<and> hp_tags st' (at p k) = hp_tags st (at p k)"
      by (simp add: body) (simp add: f)
  next
    show "distinct (xs @ j # ys)" using df fl jfl by auto
    have "set (xs @ ys) = set fl - {i}" using df fl by auto
    also have "\<dots> = free_offs us \<union> free_offs vs" using nj' by (auto simp: sf)
    finally show "set (xs @ j # ys) = free_offs us \<union> free_offs [(j, s + r, True)] \<union> free_offs vs" by auto
    show "tiles j [(j, s + r, True)] (j + (s + r))" using js ir by simp
    show "\<forall>(k, q, g) \<in> set [(j, s + r, True)]. tile_ok st' p k q g"
      using ne by (simp add: tile_ok_def body) (simp add: f)
    show "linked (links_of (hp_blocks st')) 0 (map (at p) (xs @ j # ys)) 0" by (rule l')
  qed (use ok be ij pg in \<open>simp_all add: f pg'_def\<close>)
  moreover have "only_page p st st'"
  proof (rule only_page_intro [OF p f(4,5)])
    fix a
    have "B2 a = B a \<or> (\<exists>k < 4096. a = at p k)"
      by (rule set_nbrs_at [OF B2_def]) (use nbr_offsets [OF ok fl] in \<open>simp_all only: nl\<close>)
    then show "hp_blocks st' a = hp_blocks st a \<or> (\<exists>k < 4096. a = at p k)"
      using js(6) ir(6) unfolding f(1) B_def by (metis fun_upd_other)
    have "j + (s + r) - 8 < 4096" using js ir ij by simp
    then show "hp_tags st' a = hp_tags st a \<or> (\<exists>k < 4096. a = at p k)" unfolding f(3) by (metis fun_upd_other)
  qed (simp_all add: f pg pg'_def)
  ultimately show ?thesis using code fl
    by (intro exI [of _ st'] exI [of _ xs] exI [of _ ys]) simp
qed

lemma merge_right_not:
  assumes ok: "page_inv st p (us @ (j, s, f) # vs) fl F" and v: "\<forall>i r ws. vs = (i, r, True) # ws \<longrightarrow> i = 4032"
  shows "merge_right (at p j) st = Some (False, st)"
proof -
  have p: "page_base p" and t: "tiles 64 (us @ [(j, s, f)] @ vs) 4096" using ok by (simp_all add: page_inv_def)
  have mem: "(j, s, f) \<in> set (us @ (j, s, f) # vs)" by simp
  note js = page_tile [OF ok mem]
  from ok mem obtain b where b: "hp_blocks st (at p j) = Some b" "mb_size b = of_nat s" "mb_page b = p" by (rule tile_block)
  have y: "at p j + ucast (mb_size b) = at p (j + s)" using js by (simp add: b(2) size_word at_add)
  have c: "at p (j + s) + of_nat MEM_BLOCK_DATA_OFFSET < p + of_nat PAGE_SIZE \<longleftrightarrow> j + s + 64 < 4096"
    using unat_at2 [OF p, of "j + s + 64"] unat_at2 [OF p, of 4096] js at_add [of p "j + s" 64]
    by (simp add: word_less_nat_alt MEM_BLOCK_DATA_OFFSET_def PAGE_SIZE_def at_def add.assoc)
  show ?thesis
  proof (cases "j + s + 64 < 4096")
    case False
    then show ?thesis using b(1) c by (simp add: merge_right_def y b(3) Let_def)
  next
    case True
    have vt: "tiles (j + s) vs 4096" using t by (auto simp: tiles_append)
    then obtain r g ws where vs: "vs = (j + s, r, g) # ws" using True by (cases vs) auto
    then have "\<not> g" using v True by auto
    then have "(j + s, r, False) \<in> set (us @ (j, s, f) # vs)" using vs by simp
    from ok this obtain n where "hp_blocks st (at p (j + s)) = Some n" "mb_magic n = MEM_BLOCK_MAGIC" "mb_isFree n = False"
      "mb_page n = p" by (rule tile_block)
    moreover have "p \<noteq> 0" using p by (simp add: page_base_def)
    ultimately show ?thesis using b(1) c by (simp add: merge_right_def y b(3) Let_def)
  qed
qed

lemma merge_left_code:
  assumes b: "hp_blocks st x = Some b" "mb_page b = pg" "x \<noteq> pg + of_nat MEM_PG_BLOCK_OFFSET"
    and t: "hp_tags st (x - 8) = Some sz" "sz \<noteq> 0" "y = x - sz" "x \<noteq> y"
    and p: "hp_blocks st y = Some q" "mb_magic q = MEM_BLOCK_MAGIC" "mb_page q \<noteq> 0" "mb_isFree q"
  shows "merge_left x merged st = (let
      st' = put_tag (size_end y (mb_size q + mb_size b)) (ucast (mb_size q + mb_size b))
        (st\<lparr>hp_blocks := (hp_blocks st)(y \<mapsto> q\<lparr>mb_size := mb_size q + mb_size b\<rparr>, x \<mapsto> b\<lparr>mb_magic := 0\<rparr>)\<rparr>)
    in Option.bind (if merged then unlink_block pg x st' else Some st') (\<lambda>st. Some (True, st)))"
  using assms by (cases st) (simp add: merge_left_def Let_def upd_block_def put_tag_def)

lemma merge_left_in_page:
  assumes ok: "page_inv st p (us @ (i, q, True) # (j, s, f) # vs) fl F"
  shows "\<exists>st' fl'. merge_left (at p j) f st = Some (True, st') \<and>
    page_inv st' p (us @ (i, q + s, True) # vs) fl' F \<and> only_page p st st' \<and>
    (\<exists>b. hp_blocks st' (at p j) = Some b \<and> mb_magic b = 0)"
proof -
  let ?ts = "us @ (i, q, True) # (j, s, f) # vs"
  have p: "page_base p" and t: "tiles 64 (us @ [(i, q, True), (j, s, f)] @ vs) 4096"
    and df: "distinct fl" and sf: "set fl = free_offs ?ts"
    and l: "linked (links_of (hp_blocks st)) 0 (map (at p) fl) 0"
    using ok by (simp_all add: page_inv_def)
  have mem: "(j, s, f) \<in> set ?ts" "(i, q, True) \<in> set ?ts" by auto
  obtain b0 e0 where be: "tiles 64 us b0" "tiles b0 [(i, q, True), (j, s, f)] e0" "tiles e0 vs 4096"
    using tiles_mid [OF t] by blast
  then have ij: "b0 = i" "j = i + q" "e0 = i + (q + s)" by auto
  note js = page_tile [OF ok mem(1)] and iq = page_tile [OF ok mem(2)]
  obtain pg where pg: "hp_pages st p = Some pg" "mp_magic pg = MEM_BLOCK_MAGIC" "mp_freeSize pg = of_nat F"
    "mp_blockList pg = hd (map (at p) fl @ [0])" using ok by (auto simp: page_inv_def)
  from ok mem(1) obtain b where b: "hp_blocks st (at p j) = Some b" "b\<lparr>mb_prev := 0, mb_next := 0\<rparr> = header s f False p"
    "mb_magic b = MEM_BLOCK_MAGIC" "mb_size b = of_nat s" "mb_isFree b = f" "\<not> mb_isLarge b" "mb_page b = p"
    by (rule tile_block)
  from ok mem(2) obtain a where a: "hp_blocks st (at p i) = Some a" "a\<lparr>mb_prev := 0, mb_next := 0\<rparr> = header q True False p"
    "mb_magic a = MEM_BLOCK_MAGIC" "mb_size a = of_nat q" "mb_isFree a = True" "\<not> mb_isLarge a" "mb_page a = p"
    by (rule tile_block)
  have ne: "at p j \<noteq> at p i" using at_eq [OF p, of j i] js iq ij by simp
  have p0: "p \<noteq> 0" using p by (simp add: page_base_def)
  have x: "at p j \<noteq> p + of_nat MEM_PG_BLOCK_OFFSET"
    using at_eq [OF p, of j 64] js iq ij by (simp add: MEM_PG_BLOCK_OFFSET_def at_def [of p 64])
  have tg: "hp_tags st (at p j - 8) = Some (of_nat q)" using page_tile(5) [OF ok mem(2)] at_diff [of 8 j p] js ij by (simp add: tile_ok_def)
  have q0: "(of_nat q :: u64) \<noteq> 0" using iq by (simp add: word_of_nat_eq_0_iff nat_dvd_not_less)
  have y: "at p i = at p j - of_nat q" using at_diff [of q j p] ij by simp
  have sz: "mb_size a + mb_size b = of_nat (q + s)" "q + s \<le> 4096" using js iq ij by (simp_all add: a(4) b(4))
  have nsz: "mb_size a + mb_size b = of_nat (q + s)" by (rule sz)
  define b' where "b' = b\<lparr>mb_magic := 0\<rparr>"
  define st1 where "st1 = st\<lparr>hp_blocks := (hp_blocks st)(at p i \<mapsto> a\<lparr>mb_size := of_nat (q + s)\<rparr>, at p j \<mapsto> b'),
    hp_tags := (hp_tags st)(at p (j + s - 8) \<mapsto> of_nat (q + s))\<rparr>"
  have code: "merge_left (at p j) f st = Option.bind (if f then unlink_block p (at p j) st1 else Some st1) (\<lambda>st. Some (True, st))"
    using merge_left_code [OF b(1,7) x tg q0 y ne a(1,3)] p0 size_end_at [of "q + s" p i] size_word [OF sz(2)] sz(2) js ij
    unfolding nsz by (simp add: a st1_def b'_def put_tag_def Let_def add.assoc [symmetric])
  have body1: "body_of (hp_blocks st1) = (body_of (hp_blocks st))(at p i \<mapsto> header (q + s) True False p, at p j \<mapsto> (header s f False p)\<lparr>mb_magic := 0\<rparr>)"
  proof -
    have "a\<lparr>mb_size := of_nat (q + s), mb_prev := 0, mb_next := 0\<rparr> = header (q + s) True False p"
      using a(2-) by (cases a) (simp add: header_def)
    moreover have "b'\<lparr>mb_prev := 0, mb_next := 0\<rparr> = (header s f False p)\<lparr>mb_magic := 0\<rparr>"
      using b(2-) by (cases b) (simp add: header_def b'_def)
    ultimately show ?thesis by (simp add: st1_def)
  qed
  have L1: "links_of (hp_blocks st1) = links_of (hp_blocks st)"
    using a(1) b(1) by (auto simp: st1_def b'_def links_of_def fun_eq_iff)
  have nj': "j \<notin> free_offs us" "j \<notin> free_offs vs" "i \<notin> free_offs us" "i \<notin> free_offs vs" "i \<noteq> j"
    by (rule free_offs_out [OF be(1)] free_offs_out [OF be(3)]; use js iq ij in simp)+ (use iq ij in simp)
  have retile: "page_inv st' p (us @ (i, q + s, True) # vs) fl' F"
    if st': "body_of (hp_blocks st') = body_of (hp_blocks st1)" "hp_tags st' = hp_tags st1"
      and pg': "hp_pages st' p = Some pg'" "mp_magic pg' = MEM_BLOCK_MAGIC" "mp_freeSize pg' = of_nat F" "mp_blockList pg' = hd (map (at p) fl' @ [0])"
      and fl': "distinct fl'" "set fl' = set fl - {j}" "linked (links_of (hp_blocks st')) 0 (map (at p) fl') 0" for st' pg' fl'
  proof -
    have "page_inv st' p (us @ [(i, q + s, True)] @ vs) fl' F"
    proof (rule page_inv_retile [where ms = "[(i, q, True), (j, s, f)]" and b = i and e = "i + (q + s)" and pg = pg' and fl' = fl'])
      fix k
      assume k: "k < 4096" "k < i \<or> i + (q + s) \<le> k"
      then have "k \<noteq> j" "k \<noteq> i" "k \<noteq> j + s - 8" "j + s - 8 < 4096" using js iq ij by arith+
      then have "at p k \<noteq> at p j" "at p k \<noteq> at p i" "at p k \<noteq> at p (j + s - 8)"
        using at_neq [OF p k(1)] js iq by simp_all
      then show "body_of (hp_blocks st') (at p k) = body_of (hp_blocks st) (at p k) \<and> hp_tags st' (at p k) = hp_tags st (at p k)"
        by (simp add: st' body1) (simp add: st1_def)
    next
      show "set fl' = free_offs us \<union> free_offs [(i, q + s, True)] \<union> free_offs vs"
        using nj' by (auto simp: fl'(2) sf)
      show "tiles i [(i, q + s, True)] (i + (q + s))" using js iq by simp
      have "i + (q + s) - 8 = j + s - 8" using ij by simp
      then show "\<forall>(k, r, g) \<in> set [(i, q + s, True)]. tile_ok st' p k r g"
        using ne by (simp add: tile_ok_def st' body1) (simp add: st1_def)
    qed (use ok be ij pg' fl' in simp_all)
    then show ?thesis by simp
  qed
  have tagpos: "j + s - 8 < 4096" using js by simp
  show ?thesis
  proof (cases f)
    case False
    have "j \<notin> set fl" using sf nj' False by simp
    then have "page_inv st1 p (us @ (i, q + s, True) # vs) fl F"
      by (intro retile [of st1 pg fl]) (use pg df l L1 in \<open>simp_all add: st1_def\<close>)
    moreover have "only_page p st st1"
    proof (rule only_page_intro [OF p])
      fix c
      show "hp_blocks st1 c = hp_blocks st c \<or> (\<exists>k < 4096. c = at p k)" using js(6) iq(6) by (auto simp: st1_def)
      show "hp_tags st1 c = hp_tags st c \<or> (\<exists>k < 4096. c = at p k)" using tagpos by (auto simp: st1_def)
    qed (simp_all add: st1_def)
    moreover have "hp_blocks st1 (at p j) = Some b'" using ne by (simp add: st1_def)
    ultimately show ?thesis using code False by (intro exI [of _ st1] exI [of _ fl]) (simp add: b'_def)
  next
    case True
    then have "j \<in> set fl" using sf by simp
    then obtain xs ys where fl: "fl = xs @ j # ys" using split_list by metis
    from ok fl obtain n r' where n: "hp_blocks st (at p j) = Some n"
      "n = (header r' True False p)\<lparr>mb_prev := last (0 # map (at p) xs), mb_next := hd (map (at p) ys @ [0])\<rparr>"
      and nn: "mb_prev n \<noteq> at p j" "mb_next n \<noteq> at p j"
      and ns: "mb_prev n = 0 \<or> hp_blocks st (mb_prev n) \<noteq> None" "mb_next n = 0 \<or> hp_blocks st (mb_next n) \<noteq> None"
      by (rule free_block)
    have nb: "n = b" using n(1) b(1) by simp
    have bl: "mb_prev b = last (0 # map (at p) xs)" "mb_next b = hd (map (at p) ys @ [0])"
      using n(2) unfolding nb by simp_all
    define B2 where "B2 = set_nbrs (hp_blocks st1) (mb_prev b) (mb_next b) (mb_next b) (mb_prev b)"
    define pg' where "pg' = pg\<lparr>mp_blockList := hd (map (at p) (xs @ ys) @ [0])\<rparr>"
    define st' where "st' = st1\<lparr>hp_blocks := B2, hp_pages := (hp_pages st)(p \<mapsto> pg')\<rparr>"
    note d = free_list_addrs [OF ok, unfolded fl]
    have j1: "hp_blocks st1 (at p j) = Some b'" using ne by (simp add: st1_def)
    have bl': "mb_prev b' = mb_prev b" "mb_next b' = mb_next b" and pg1: "hp_pages st1 p = Some pg"
      using pg(1) by (simp_all add: b'_def st1_def)
    have "mb_prev b = 0 \<or> hp_blocks st1 (mb_prev b) \<noteq> None" "mb_next b = 0 \<or> hp_blocks st1 (mb_next b) \<noteq> None"
      using ns unfolding nb by (auto simp: st1_def)
    then have "unlink_block p (at p j) st1 = Some ((if at p j = mp_blockList pg then set_list p (mb_next b) else id) (st1\<lparr>hp_blocks := B2\<rparr>))"
      using unlink_block_code [OF j1, of p pg] nn pg1 unfolding nb bl' B2_def by simp
    moreover have "(if at p j = mp_blockList pg then set_list p (mb_next b) else id) (st1\<lparr>hp_blocks := B2\<rparr>) = st'"
      using list_head_out(1) [OF d] pg
      by (cases pg; cases st) (auto simp: st'_def st1_def set_list_def pg'_def fl bl split: if_splits)
    ultimately have code': "merge_left (at p j) f st = Some (True, st')" using code True by simp
    have "linked (set_links (links_of (hp_blocks st)) (mb_prev b) (mb_next b) (mb_next b) (mb_prev b)) 0 (map (at p) (xs @ ys)) 0"
      using linked_remove [of "links_of (hp_blocks st)" "map (at p) xs" "at p j" "map (at p) ys"] l d fl bl by simp
    then have "page_inv st' p (us @ (i, q + s, True) # vs) (xs @ ys) F"
      by (intro retile [of st' pg' "xs @ ys"]) (use pg df fl in \<open>auto simp: st'_def B2_def L1 pg'_def\<close>)
    moreover have "only_page p st st'"
    proof (rule only_page_intro [OF p])
      fix c
      have "B2 c = hp_blocks st1 c \<or> (\<exists>k < 4096. c = at p k)"
        by (rule set_nbrs_at [OF B2_def]) (use nbr_offsets [OF ok fl] in \<open>simp_all only: bl\<close>)
      then show "hp_blocks st' c = hp_blocks st c \<or> (\<exists>k < 4096. c = at p k)"
        using js(6) iq(6) by (cases "c = at p i \<or> c = at p j") (auto simp: st'_def st1_def)
      show "hp_tags st' c = hp_tags st c \<or> (\<exists>k < 4096. c = at p k)" using tagpos by (auto simp: st'_def st1_def)
    qed (simp_all add: st'_def st1_def pg'_def pg)
    moreover have "hp_blocks st' (at p j) = Some b'"
      using j1 nn unfolding nb st'_def B2_def by (simp add: set_nbrs_frame)
    ultimately show ?thesis using code' by (intro exI [of _ st'] exI [of _ "xs @ ys"]) (simp add: b'_def)
  qed
qed

lemma push_block_code:
  assumes b: "hp_blocks st x = Some b" "mb_page b = pg" and P: "hp_pages st pg = Some P"
    and h: "mp_blockList P \<noteq> x" "mp_blockList P = 0 \<or> hp_blocks st (mp_blockList P) \<noteq> None"
  shows "push_block x st = Some (put_tag (size_end x (mb_size b)) (ucast (mb_size b)) (set_list pg x
    (st\<lparr>hp_blocks := set_nbrs ((hp_blocks st)(x \<mapsto> b\<lparr>mb_isFree := True, mb_next := mp_blockList P, mb_prev := 0\<rparr>))
       0 x (mp_blockList P) x\<rparr>)))"
  using assms by (cases st; cases b) (auto simp: push_block_def upd_block_def upd_mempage_def set_nbrs_def set_list_def Let_def fun_upd_twist)

lemma push_in_page:
  assumes ok: "page_inv st p (us @ (j, s, False) # vs) fl F"
  shows "\<exists>st'. push_block (at p j) st = Some st' \<and> page_inv st' p (us @ (j, s, True) # vs) (j # fl) F \<and> only_page p st st'"
proof -
  let ?ts = "us @ (j, s, False) # vs"
  have p: "page_base p" and t: "tiles 64 (us @ [(j, s, False)] @ vs) 4096"
    and df: "distinct fl" and sf: "set fl = free_offs ?ts"
    and l: "linked (links_of (hp_blocks st)) 0 (map (at p) fl) 0"
    using ok by (simp_all add: page_inv_def)
  have mem: "(j, s, False) \<in> set ?ts" by auto
  obtain b0 e0 where be: "tiles 64 us b0" "tiles b0 [(j, s, False)] e0" "tiles e0 vs 4096"
    using tiles_mid [OF t] by blast
  then have ij: "b0 = j" "e0 = j + s" by auto
  note js = page_tile [OF ok mem]
  obtain pg where pg: "hp_pages st p = Some pg" "mp_magic pg = MEM_BLOCK_MAGIC" "mp_freeSize pg = of_nat F"
    "mp_blockList pg = hd (map (at p) fl @ [0])" using ok by (auto simp: page_inv_def)
  from ok mem obtain b where b: "hp_blocks st (at p j) = Some b" "b\<lparr>mb_prev := 0, mb_next := 0\<rparr> = header s False False p"
    "mb_magic b = MEM_BLOCK_MAGIC" "mb_size b = of_nat s" "mb_isFree b = False" "\<not> mb_isLarge b" "mb_page b = p"
    by (rule tile_block)
  have jfl: "j \<notin> set fl" by (rule used_not_listed [OF ok mem])
  have jn: "at p j \<notin> insert 0 (set (map (at p) fl))" by (rule not_listed_addr [OF ok jfl js(6)])
  note d = free_list_addrs [OF ok]
  have hl: "mp_blockList pg \<in> insert 0 (set (map (at p) fl))" unfolding pg(4) by (cases fl) auto
  have h: "mp_blockList pg \<noteq> at p j" "mp_blockList pg = 0 \<or> hp_blocks st (mp_blockList pg) \<noteq> None"
  proof -
    show "mp_blockList pg \<noteq> at p j" using hl jn by metis
    have "hp_blocks st (at p k) \<noteq> None" if k: "k \<in> set fl" for k
    proof -
      obtain r where "(k, r, True) \<in> set ?ts" using k free_off_in [OF ok] by blast
      from ok this obtain b where "hp_blocks st (at p k) = Some b" by (rule tile_block)
      then show ?thesis by simp
    qed
    then show "mp_blockList pg = 0 \<or> hp_blocks st (mp_blockList pg) \<noteq> None" using hl by auto
  qed
  define B where "B = (hp_blocks st)(at p j \<mapsto> b\<lparr>mb_isFree := True, mb_next := mp_blockList pg, mb_prev := 0\<rparr>)"
  define B2 where "B2 = set_nbrs B 0 (at p j) (mp_blockList pg) (at p j)"
  define pg' where "pg' = pg\<lparr>mp_blockList := at p j\<rparr>"
  define st' where "st' = st\<lparr>hp_blocks := B2, hp_pages := (hp_pages st)(p \<mapsto> pg'), hp_tags := (hp_tags st)(at p (j + s - 8) \<mapsto> of_nat s)\<rparr>"
  have "put_tag (size_end (at p j) (mb_size b)) (ucast (mb_size b)) (set_list p (at p j) (st\<lparr>hp_blocks := B2\<rparr>)) = st'"
    using size_end_at [of s p j] size_word [of s] js pg(1)
    by (cases st) (simp add: b(4) put_tag_def set_list_def st'_def pg'_def)
  then have code: "push_block (at p j) st = Some st'"
    using push_block_code [OF b(1,7) pg(1) h] by (simp add: B2_def B_def)
  have f: "hp_blocks st' = B2" "hp_pages st' = (hp_pages st)(p \<mapsto> pg')" "hp_tags st' = (hp_tags st)(at p (j + s - 8) \<mapsto> of_nat s)"
    "hp_pageList st' = hp_pageList st" "hp_fw st' = hp_fw st" by (simp_all add: st'_def)
  have LB: "links_of B = (links_of (hp_blocks st))(at p j \<mapsto> (0, mp_blockList pg))" by (simp add: B_def)
  have "linked (links_of B) 0 (map (at p) fl) 0" unfolding LB using l jn by simp
  then have l': "linked (links_of (hp_blocks st')) 0 (map (at p) (j # fl)) 0"
    using linked_push [of "links_of B" "map (at p) fl" "at p j"] d jn by (simp add: f B2_def LB pg(4))
  have body: "body_of (hp_blocks st') = (body_of (hp_blocks st))(at p j \<mapsto> header s True False p)"
  proof -
    have "b\<lparr>mb_isFree := True, mb_next := 0, mb_prev := 0\<rparr> = header s True False p"
      using b(2-) by (cases b) (simp add: header_def)
    then show ?thesis by (simp add: f B2_def B_def upd_swap)
  qed
  have nj': "j \<notin> free_offs us" "j \<notin> free_offs vs"
    by (rule free_offs_out [OF be(1)] free_offs_out [OF be(3)]; use js ij in simp)+
  have tagpos: "j + s - 8 < 4096" using js by simp
  have "page_inv st' p (us @ [(j, s, True)] @ vs) (j # fl) F"
  proof (rule page_inv_retile [where ms = "[(j, s, False)]" and b = j and e = "j + s" and pg = pg' and fl' = "j # fl"])
    fix k
    assume k: "k < 4096" "k < j \<or> j + s \<le> k"
    then have "k \<noteq> j" "k \<noteq> j + s - 8" using js by arith+
    then have "at p k \<noteq> at p j" "at p k \<noteq> at p (j + s - 8)" using at_neq [OF p k(1)] js tagpos by simp_all
    then show "body_of (hp_blocks st') (at p k) = body_of (hp_blocks st) (at p k) \<and> hp_tags st' (at p k) = hp_tags st (at p k)"
      by (simp add: body) (simp add: f)
  next
    show "set (j # fl) = free_offs us \<union> free_offs [(j, s, True)] \<union> free_offs vs" using sf by auto
    show "tiles j [(j, s, True)] (j + s)" using js by simp
    show "\<forall>(k, q, g) \<in> set [(j, s, True)]. tile_ok st' p k q g" by (simp add: tile_ok_def body) (simp add: f)
    show "linked (links_of (hp_blocks st')) 0 (map (at p) (j # fl)) 0" by (rule l')
  qed (use ok be ij pg df jfl in \<open>simp_all add: f pg'_def\<close>)
  moreover have "only_page p st st'"
  proof (rule only_page_intro [OF p f(4,5)])
    fix a
    have hn: "mp_blockList pg = 0 \<or> (\<exists>k < 4096. mp_blockList pg = at p k)"
      using hl free_off_less [OF ok] by auto
    have "B2 a = B a \<or> (\<exists>k < 4096. a = at p k)" by (rule set_nbrs_at [OF B2_def _ hn]) simp
    then show "hp_blocks st' a = hp_blocks st a \<or> (\<exists>k < 4096. a = at p k)"
      using js(6) unfolding f(1) B_def by (metis fun_upd_other)
    show "hp_tags st' a = hp_tags st a \<or> (\<exists>k < 4096. a = at p k)" using tagpos unfolding f(3) by (metis fun_upd_other)
  qed (simp_all add: f pg pg'_def)
  ultimately show ?thesis using code by (intro exI [of _ st']) simp
qed

definition used_tiles :: "tile list \<Rightarrow> (nat \<times> nat) set" where
  "used_tiles ts = {(j, s). (j, s, False) \<in> set ts}"

lemma used_tiles_simps [simp]:
  "used_tiles [] = {}" "used_tiles ((j, s, f) # ts) = (if f then used_tiles ts else insert (j, s) (used_tiles ts))"
  "used_tiles (ts @ us) = used_tiles ts \<union> used_tiles us"
  by (auto simp: used_tiles_def)

lemma only_page_trans: "only_page p st st1 \<Longrightarrow> only_page p st1 st2 \<Longrightarrow> only_page p st st2"
  by (simp add: only_page_def)

text \<open>A block cannot be freed twice: its header says that it is free, or is not one any more.\<close>

definition dead :: "addr \<Rightarrow> 'f heap \<Rightarrow> bool" where
  "dead a st \<longleftrightarrow> (\<exists>b. hp_blocks st a = Some b \<and> (mb_magic b \<noteq> MEM_BLOCK_MAGIC \<or> mb_isFree b))"

lemma dead_tile: "page_inv st p ts fl F \<Longrightarrow> (j, s, True) \<in> set ts \<Longrightarrow> dead (at p j) st"
  by (erule (1) tile_block) (auto simp: dead_def)

lemma merge_left_not:
  assumes ok: "page_inv st p (us @ (j, s, f) # vs) fl F" and u: "\<forall>us' i q. us = us' @ [(i, q, True)] \<longrightarrow> False"
  shows "merge_left (at p j) g st = Some (g, st)"
proof -
  have p: "page_base p" and t: "tiles 64 (us @ [(j, s, f)] @ vs) 4096" using ok by (simp_all add: page_inv_def)
  have mem: "(j, s, f) \<in> set (us @ (j, s, f) # vs)" by simp
  note js = page_tile [OF ok mem]
  from ok mem obtain b where b: "hp_blocks st (at p j) = Some b" "mb_page b = p" by (rule tile_block)
  have m64: "p + of_nat MEM_PG_BLOCK_OFFSET = at p 64" by (simp add: MEM_PG_BLOCK_OFFSET_def at_def)
  show ?thesis
  proof (cases us rule: rev_cases)
    case Nil
    then have "j = 64" using t by simp
    then show ?thesis using b m64 by (simp add: merge_left_def)
  next
    case (snoc us' x)
    obtain i q g' where x: "x = (i, q, g')" by (cases x)
    have "\<not> g'" using u snoc x by auto
    then have mi: "(i, q, False) \<in> set (us @ (j, s, f) # vs)" using snoc x by simp
    have "j = i + q" using t snoc x by (auto simp: tiles_append)
    moreover note iq = page_tile [OF ok mi]
    ultimately have "hp_tags st (at p j - 8) = Some 0" using at_diff [of 8 j p] by (simp add: tile_ok_def)
    moreover have "at p j \<noteq> at p 64" using at_neq [OF p, of j 64] iq js \<open>j = i + q\<close> by simp
    ultimately show ?thesis using b m64 by (simp add: merge_left_def)
  qed
qed

lemma last_used:
  assumes "\<nexists>us' k q. us = us' @ [(k, q, True)]" and "us \<noteq> []"
  shows "\<not> snd (snd (last us))"
proof (cases us rule: rev_cases)
  case (snoc ys y)
  then show ?thesis using assms(1) by (cases y) auto
qed (use assms(2) in simp)

lemma free_in_page:
  assumes ok: "page_ok st p (us @ (j, s, False) # vs) fl"
  shows "\<exists>st' ts' fl'. free (at p (j + 64)) st = Some st' \<and> page_ok st' p ts' fl' \<and> only_page p st st' \<and>
    used_tiles ts' = used_tiles us \<union> used_tiles vs \<and> dead (at p j) st' \<and>
    (vs = [(4032, 64, True)] \<longrightarrow> last ts' = (4032, 64, True))"
proof -
  let ?ts = "us @ (j, s, False) # vs" and ?F = "free_sum us + s + free_sum vs"
  have inv: "page_inv st p ?ts fl (free_sum us + free_sum vs)" and co: "coalesced ?ts" using ok by (simp_all add: page_ok_def)
  have p: "page_base p" using inv by (simp add: page_inv_def)
  have mem: "(j, s, False) \<in> set ?ts" by simp
  note js = page_tile [OF inv mem]
  obtain pg where pg: "hp_pages st p = Some pg" "mp_freeSize pg = of_nat (free_sum us + free_sum vs)"
    using inv by (auto simp: page_inv_def)
  from inv mem obtain b where b: "hp_blocks st (at p j) = Some b" "mb_magic b = MEM_BLOCK_MAGIC" "mb_size b = of_nat s"
    "mb_isFree b = False" "\<not> mb_isLarge b" "mb_page b = p" by (rule tile_block)
  define st1 where "st1 = st\<lparr>hp_pages := (hp_pages st)(p \<mapsto> pg\<lparr>mp_freeSize := of_nat ?F\<rparr>)\<rparr>"
  have up: "upd_mempage p (\<lambda>p. p\<lparr>mp_freeSize := mp_freeSize p + of_nat s\<rparr>) st = Some st1"
    using pg by (simp add: upd_mempage_def st1_def add_ac)
  have inv1: "page_inv st1 p ?ts fl ?F" using inv pg by (auto simp: page_inv_def st1_def tile_ok_def)
  have only1: "only_page p st st1" by (rule only_page_intro [OF p]) (simp_all add: st1_def pg)
  have ptr: "at p (j + 64) \<noteq> 0" "at p (j + 64) - of_nat MEM_BLOCK_DATA_OFFSET = at p j"
    using at_0 [OF p, of "j + 64"] at_diff [of 64 "j + 64" p] js by (simp_all add: MEM_BLOCK_DATA_OFFSET_def)
  have p0: "p \<noteq> 0" using p by (simp add: page_base_def)
  have code: "free (at p (j + 64)) st = do {
      (merged, st) \<leftarrow> merge_right (at p j) st1;
      (merged, st) \<leftarrow> merge_left (at p j) merged st;
      (if merged then Some st else push_block (at p j) st) }"
    using b p0 ptr up by (simp add: free_def Let_def)
  show ?thesis
  proof (cases "\<exists>i r ws. vs = (i, r, True) # ws \<and> i \<noteq> 4032")
    case right: True
    then obtain i r ws where vs: "vs = (i, r, True) # ws" "i \<noteq> 4032" by blast
    obtain st2 xs ys where st2: "merge_right (at p j) st1 = Some (True, st2)"
      "page_inv st2 p (us @ (j, s + r, True) # ws) (xs @ j # ys) ?F" "only_page p st1 st2"
      using merge_right_in_page [OF _ vs(2), of st1 p us j s r ws fl ?F] inv1 vs(1) by auto
    show ?thesis
    proof (cases "\<exists>us' k q. us = us' @ [(k, q, True)]")
      case True
      then obtain us' k q where us: "us = us' @ [(k, q, True)]" by blast
      have inv2: "page_inv st2 p (us' @ (k, q, True) # (j, s + r, True) # ws) (xs @ j # ys) ?F" using st2(2) us by simp
      obtain st3 fl' where st3: "merge_left (at p j) True st2 = Some (True, st3)"
        "page_inv st3 p (us' @ (k, q + (s + r), True) # ws) fl' ?F" "only_page p st2 st3"
        "\<exists>b. hp_blocks st3 (at p j) = Some b \<and> mb_magic b = 0" using merge_left_in_page [OF inv2] by auto
      have "coalesced (us' @ (k, q + (s + r), True) # ws)"
        using co unfolding us vs(1) by (cases ws) (auto simp: coalesced_def successively_append_iff apart_def)
      then have "page_ok st3 p (us' @ (k, q + (s + r), True) # ws) fl'" using st3(2) us vs by (simp add: page_ok_def add_ac)
      moreover have "dead (at p j) st3" using st3(4) by (auto simp: dead_def MEM_BLOCK_MAGIC_def)
      moreover have "only_page p st st3" using only1 st2(3) st3(3) by (meson only_page_trans)
      ultimately show ?thesis using code st2(1) st3(1) us vs
        by (intro exI [of _ st3] exI [of _ "us' @ (k, q + (s + r), True) # ws"] exI [of _ fl']) simp
    next
      case False
      then have ml: "merge_left (at p j) True st2 = Some (True, st2)" using merge_left_not [OF st2(2)] by blast
      have "\<not> snd (snd (last us))" if "us \<noteq> []"
        using last_used [OF False that] .
      then have "coalesced (us @ (j, s + r, True) # ws)"
        using co unfolding vs(1) by (cases ws) (auto simp: coalesced_def successively_append_iff apart_def)
      then have "page_ok st2 p (us @ (j, s + r, True) # ws) (xs @ j # ys)" using st2(2) vs by (simp add: page_ok_def add_ac)
      moreover have "dead (at p j) st2" by (rule dead_tile [OF st2(2), where s = "s + r"]) simp
      moreover have "only_page p st st2" using only1 st2(3) by (rule only_page_trans)
      ultimately show ?thesis using code st2(1) ml vs
        by (intro exI [of _ st2] exI [of _ "us @ (j, s + r, True) # ws"] exI [of _ "xs @ j # ys"]) simp
    qed
  next
    case noright: False
    then have mr: "merge_right (at p j) st1 = Some (False, st1)" using merge_right_not [OF inv1] by blast
    have nxt: "vs = [] \<or> \<not> snd (snd (hd vs)) \<or> fst (hd vs) + 64 = 4096" using noright by (cases vs) auto
    show ?thesis
    proof (cases "\<exists>us' k q. us = us' @ [(k, q, True)]")
      case True
      then obtain us' k q where us: "us = us' @ [(k, q, True)]" by blast
      have inv2: "page_inv st1 p (us' @ (k, q, True) # (j, s, False) # vs) fl ?F" using inv1 us by simp
      obtain st3 fl' where st3: "merge_left (at p j) False st1 = Some (True, st3)"
        "page_inv st3 p (us' @ (k, q + s, True) # vs) fl' ?F" "only_page p st1 st3"
        "\<exists>b. hp_blocks st3 (at p j) = Some b \<and> mb_magic b = 0" using merge_left_in_page [OF inv2] by auto
      have "coalesced (us' @ (k, q + s, True) # vs)"
        using co nxt unfolding us by (cases vs) (auto simp: coalesced_def successively_append_iff apart_def)
      then have "page_ok st3 p (us' @ (k, q + s, True) # vs) fl'" using st3(2) us by (simp add: page_ok_def add_ac)
      moreover have "dead (at p j) st3" using st3(4) by (auto simp: dead_def MEM_BLOCK_MAGIC_def)
      moreover have "only_page p st st3" using only1 st3(3) by (rule only_page_trans)
      ultimately show ?thesis using code mr st3(1) us
        by (intro exI [of _ st3] exI [of _ "us' @ (k, q + s, True) # vs"] exI [of _ fl']) simp
    next
      case False
      then have ml: "merge_left (at p j) False st1 = Some (False, st1)" using merge_left_not [OF inv1] by blast
      obtain st3 where st3: "push_block (at p j) st1 = Some st3" "page_inv st3 p (us @ (j, s, True) # vs) (j # fl) ?F"
        "only_page p st1 st3" using push_in_page [OF inv1] by blast
      have "\<not> snd (snd (last us))" if "us \<noteq> []"
        using last_used [OF False that] .
      then have "coalesced (us @ (j, s, True) # vs)"
        using co nxt by (cases vs) (auto simp: coalesced_def successively_append_iff apart_def)
      then have "page_ok st3 p (us @ (j, s, True) # vs) (j # fl)" using st3(2) by (simp add: page_ok_def add_ac)
      moreover have "dead (at p j) st3" by (rule dead_tile [OF st3(2), where s = s]) simp
      moreover have "only_page p st st3" using only1 st3(3) by (rule only_page_trans)
      ultimately show ?thesis using code mr ml st3(1)
        by (intro exI [of _ st3] exI [of _ "us @ (j, s, True) # vs"] exI [of _ "j # fl"]) simp
    qed
  qed
qed

section \<open>The heap\<close>

fun chain :: "(addr \<rightharpoonup> memPage) \<Rightarrow> addr \<Rightarrow> addr list \<Rightarrow> bool" where
  "chain P a [] \<longleftrightarrow> a = 0"
| "chain P a (p # ps) \<longleftrightarrow> a = p \<and> (\<exists>pg. P p = Some pg \<and> chain P (mp_next pg) ps)"

text \<open>A block of \<open>n\<close> pages.\<close>

definition large_ok :: "'f heap \<Rightarrow> addr \<Rightarrow> nat \<Rightarrow> bool" where
  "large_ok st b n \<longleftrightarrow> page_base b \<and> 0 < n \<and> n < 2 ^ 20 \<and> unat b + 4096 * n < 2 ^ 64 \<and>
     (\<exists>pg. hp_pages st b = Some pg \<and> mp_magic pg = MEM_BLOCK_MAGIC \<and> mp_numPages pg = of_nat n) \<and>
     body_of (hp_blocks st) (at b 64) = Some (header (4096 * n - 64) False True b)"

text \<open>The frames of the pages \<open>ps\<close> and the large blocks \<open>L\<close>.\<close>

definition frames :: "addr list \<Rightarrow> (addr \<times> nat) list \<Rightarrow> nat list" where
  "frames ps L = map frame ps @ concat (map (\<lambda>(b, n). [frame b..<frame b + n]) L)"

definition heap_ok :: "'f heap \<Rightarrow> addr list \<Rightarrow> (addr \<Rightarrow> tile list) \<Rightarrow> (addr \<times> nat) list \<Rightarrow> bool" where
  "heap_ok st ps T L \<longleftrightarrow> ps \<noteq> [] \<and> chain (hp_pages st) (hp_pageList st) ps \<and> distinct (frames ps L) \<and>
     (\<forall>p \<in> set ps. \<exists>fl. page_ok st p (T p) fl) \<and> (\<forall>(b, n) \<in> set L. large_ok st b n)"

text \<open>The blocks in use: address and size.\<close>

definition in_use :: "addr list \<Rightarrow> (addr \<Rightarrow> tile list) \<Rightarrow> (addr \<times> nat) list \<Rightarrow> (addr \<times> nat) set" where
  "in_use ps T L = {(at p j, s) | p j s. p \<in> set ps \<and> (j, s) \<in> used_tiles (T p)} \<union>
     {(at b 64, 4096 * n - 64) | b n. (b, n) \<in> set L}"

lemma chain_cong: "(\<And>p. p \<in> set ps \<Longrightarrow> map_option mp_next (P' p) = map_option mp_next (P p)) \<Longrightarrow> chain P' a ps = chain P a ps"
proof (induction ps arbitrary: a)
  case (Cons p ps)
  have "map_option mp_next (P' p) = map_option mp_next (P p)" using Cons.prems by simp
  then show ?case using Cons by (cases "P p"; cases "P' p") auto
qed simp

lemma page_ok_frame:
  assumes "page_ok st q ts fl" and "page_base p" "p \<noteq> q" and "only_page p st st'"
  shows "page_ok st' q ts fl"
  using assms page_inv_frame by (auto simp: page_ok_def)

lemma large_ok_frame:
  assumes "large_ok st b n" and "page_base p" "frame p \<noteq> frame b" and "only_page p st st'"
  shows "large_ok st' b n"
proof -
  have b: "page_base b" using assms(1) by (simp add: large_ok_def)
  have "b \<noteq> p" using assms(3) by auto
  then have "hp_pages st' b = hp_pages st b" using assms(4) by (simp add: only_page_def)
  moreover have "hp_blocks st' (at b 64) = hp_blocks st (at b 64)"
    using assms(4) frame_at [OF b, of 64] assms(3) by (simp add: only_page_def)
  ultimately show ?thesis using assms(1) by (simp add: large_ok_def body_of_def)
qed

lemma distinct_mid: "distinct (xs @ zs) \<Longrightarrow> distinct ys \<Longrightarrow> set ys \<inter> set (xs @ zs) = {} \<Longrightarrow> distinct (xs @ ys @ zs)"
  by auto

lemma distinct_drop: "distinct (xs @ ys @ zs) \<Longrightarrow> distinct (xs @ zs) \<and> set ys \<inter> set (xs @ zs) = {}"
  by auto

lemma frame_in_large: "(b, n) \<in> set L \<Longrightarrow> 0 < n \<Longrightarrow> frame b \<in> set (concat (map (\<lambda>(b, n). [frame b..<frame b + n]) L))"
  by force

text \<open>A page of the list is replaced.\<close>

lemma heap_ok_page:
  assumes ok: "heap_ok st ps T L" and p: "p \<in> set ps" and pg: "page_ok st' p ts fl" and o: "only_page p st st'"
  shows "heap_ok st' ps (T(p := ts)) L"
proof -
  have pb: "page_base p" using pg by (simp add: page_ok_def page_inv_def)
  have "\<exists>fl. page_ok st' q ((T(p := ts)) q) fl" if q: "q \<in> set ps" for q
  proof (cases "q = p")
    case False
    obtain fl' where "page_ok st q (T q) fl'" using ok q by (auto simp: heap_ok_def)
    from page_ok_frame [OF this pb _ o] False show ?thesis by auto
  qed (use pg in auto)
  moreover have "large_ok st' b n" if b: "(b, n) \<in> set L" for b n
  proof -
    have l: "large_ok st b n" using ok b by (auto simp: heap_ok_def)
    then have "frame b \<in> set (concat (map (\<lambda>(b, n). [frame b..<frame b + n]) L))"
      using frame_in_large [OF b] by (simp add: large_ok_def)
    moreover have "frame p \<in> set (map frame ps)" using p by simp
    ultimately have "frame p \<noteq> frame b" using ok unfolding heap_ok_def frames_def distinct_append by fastforce
    then show ?thesis using large_ok_frame [OF l pb _ o] by blast
  qed
  moreover have "chain (hp_pages st') (hp_pageList st') ps = chain (hp_pages st) (hp_pageList st) ps"
  proof -
    have "map_option mp_next (hp_pages st' q) = map_option mp_next (hp_pages st q)" for q
      using o by (cases "q = p") (auto simp: only_page_def)
    then show ?thesis using chain_cong [of ps "hp_pages st'" "hp_pages st"] o by (simp add: only_page_def)
  qed
  ultimately show ?thesis using ok by (auto simp: heap_ok_def)
qed

lemma heap_page:
  assumes "heap_ok st ps T L" and "p \<in> set ps"
  obtains fl where "page_ok st p (T p) fl" "page_base p" "tiles 64 (T p) 4096"
  using assms that by (fastforce simp: heap_ok_def page_ok_def page_inv_def)

text \<open>The address of a block determines its page, offset and size.\<close>

lemma frames_pages:
  assumes "heap_ok st ps T L" and "p \<in> set ps" "q \<in> set ps" "frame p = frame q"
  shows "p = q"
  using assms heap_page frame_eq by metis

lemma at_page_eq:
  assumes ok: "heap_ok st ps T L" and p: "p \<in> set ps" "q \<in> set ps" and j: "j < 4096" "k < 4096" and eq: "at p j = at q k"
  shows "p = q \<and> j = k"
proof -
  have pb: "page_base p" "page_base q" using heap_page [OF ok p(1)] heap_page [OF ok p(2)] by blast+
  have "frame p = frame q" using frame_at [OF pb(1) j(1)] frame_at [OF pb(2) j(2)] eq by simp
  then have "p = q" using frame_eq [OF pb] by simp
  then show ?thesis using eq at_eq [OF pb(1), of j k] j by simp
qed

lemma at_large_neq:
  assumes ok: "heap_ok st ps T L" and p: "p \<in> set ps" and b: "(b, n) \<in> set L" and j: "j < 4096"
  shows "at p j \<noteq> at b 64"
proof
  assume eq: "at p j = at b 64"
  have l: "large_ok st b n" using ok b by (auto simp: heap_ok_def)
  have pb: "page_base p" using heap_page [OF ok p] by blast
  have "frame p = frame b" using frame_at [OF pb j] frame_at [of b 64] l eq by (simp add: large_ok_def)
  moreover have "frame b \<in> set (concat (map (\<lambda>(b, n). [frame b..<frame b + n]) L))"
    using l frame_in_large [OF b] by (simp add: large_ok_def)
  moreover have "frame p \<in> set (map frame ps)" using p by simp
  ultimately show False using ok unfolding heap_ok_def frames_def distinct_append by fastforce
qed

lemma tile_of_used: "(j, s) \<in> used_tiles ts \<longleftrightarrow> (j, s, False) \<in> set ts" by (simp add: used_tiles_def)

text \<open>What happens to the set of blocks in use when the tiles of one page change.\<close>

lemma in_use_upd:
  assumes "p \<in> set ps"
  shows "in_use ps (T(p := ts)) L = {(at p j, s) | j s. (j, s) \<in> used_tiles ts} \<union> in_use (removeAll p ps) T L"
    and "in_use ps T L = {(at p j, s) | j s. (j, s) \<in> used_tiles (T p)} \<union> in_use (removeAll p ps) T L"
  using assms by (auto simp: in_use_def) blast+

lemma not_in_rest:
  assumes ok: "heap_ok st ps T L" and p: "p \<in> set ps" and j: "j < 4096"
  shows "(at p j, s) \<notin> in_use (removeAll p ps) T L"
proof
  assume "(at p j, s) \<in> in_use (removeAll p ps) T L"
  then consider q k where "q \<in> set ps" "q \<noteq> p" "at p j = at q k" "(k, s, False) \<in> set (T q)"
    | b n where "(b, n) \<in> set L" "at p j = at b 64" by (auto simp: in_use_def tile_of_used)
  then show False
  proof cases
    case 1
    obtain fl where "page_ok st q (T q) fl" using heap_page [OF ok 1(1)] by blast
    then have "k < 4096" using page_tile(6) [of st q "T q" fl _ k s False] 1(4) by (auto simp: page_ok_def)
    then show False using at_page_eq [OF ok p 1(1) j _ 1(3)] 1(2) by simp
  next
    case 2
    then show False using at_large_neq [OF ok p 2(1) j] by simp
  qed
qed

section \<open>Requests\<close>

definition align16 :: "nat \<Rightarrow> nat" where "align16 m = (m + 15) div 16 * 16"

lemma align16_cases: "align16 m = (if m mod 16 = 0 then m else m - m mod 16 + 16)"
proof -
  obtain a b where "m = 16 * a + b" "b < 16" by (metis mult.commute div_mult_mod_eq mod_less_divisor zero_less_numeral)
  moreover have "(b + 15) div 16 = (if b = 0 then 0 else 1)" using \<open>b < 16\<close> by auto
  moreover have "(16 * a + b + 15) div 16 = a + (b + 15) div 16" by (simp add: add.assoc)
  ultimately show ?thesis by (simp add: align16_def)
qed

lemma alignSize_nat:
  assumes "unat x + 88 < 2 ^ 64"
  shows "alignSize x = of_nat (align16 (unat x + 72))"
proof -
  define y where "y = x + 72"
  have y: "unat y = unat x + 72" unfolding y_def using assms unat_addr_add [of x 72] by simp
  have low: "unat (y AND 15) = unat y mod 16"
  proof -
    have "y AND 15 = take_bit 4 y" by (simp add: take_bit_eq_mask mask_eq_exp_minus_1)
    then have "unat (y AND 15) = take_bit 4 (unat y)" by (simp add: unsigned_take_bit_eq)
    then show ?thesis by (simp add: take_bit_eq_mod)
  qed
  have split: "y AND NOT 15 = y - (y AND 15)"
  proof -
    have "(y AND NOT 15) AND (y AND 15) = 0" by (rule bit_word_eqI) (simp add: bit_simps)
    then have "(y AND NOT 15) + (y AND 15) = (y AND NOT 15) OR (y AND 15)" by (rule disjunctive_add_eq_or)
    also have "\<dots> = y" by (rule bit_word_eqI) (auto simp: bit_simps)
    finally show ?thesis by (metis add_diff_cancel_right')
  qed
  have al: "alignSize x = (if y AND 15 \<noteq> 0 then (y AND NOT 15) + 16 else y)"
    by (simp add: alignSize_def Let_def MEM_BLOCK_DATA_OFFSET_def MEM_BLOCK_ALIGN_def y_def add.assoc)
  have yy: "of_nat (unat y) = y" by simp
  show ?thesis
  proof (cases "y AND 15 = 0")
    case True
    then have "unat y mod 16 = 0" using low by simp
    then have "align16 (unat y) = unat y" by (simp add: align16_cases)
    then show ?thesis using True yy unfolding al y by simp
  next
    case False
    then have "unat y mod 16 \<noteq> 0" using low by (metis unat_eq_0)
    then have "align16 (unat y) = unat y - unat y mod 16 + 16" by (simp add: align16_cases)
    then have "of_nat (align16 (unat y)) = (of_nat (unat y - unat y mod 16) :: u64) + 16"
      by (simp only: of_nat_add of_nat_numeral)
    also have "(of_nat (unat y - unat y mod 16) :: u64) = of_nat (unat y) - of_nat (unat y mod 16)" by (rule of_nat_diff) simp
    also have "of_nat (unat y mod 16) = y AND 15" unfolding low [symmetric] by simp
    also have "of_nat (unat y) - (y AND 15) = y AND NOT 15" unfolding split yy ..
    finally show ?thesis using False unfolding al y by simp
  qed
qed

lemma align16_bounds: "m \<le> align16 m" "align16 m < m + 16" "16 dvd align16 m"
  unfolding align16_def by (presburger, presburger, simp)

lemma free_sum_member: "(j, s, True) \<in> set ts \<Longrightarrow> s \<le> free_sum ts"
  by (induction ts rule: free_sum.induct) auto

definition fits :: "nat \<Rightarrow> tile list \<Rightarrow> bool" where
  "fits n ts \<longleftrightarrow> (\<exists>j s. (j, s, True) \<in> set ts \<and> n \<le> s)"

lemma scan_pages_ok:
  assumes n: "64 \<le> n" "16 dvd n" "n \<le> 4096"
  shows "chain (hp_pages st) a ps \<Longrightarrow> \<forall>p \<in> set ps. \<exists>fl. page_ok st p (T p) fl \<Longrightarrow>
    (\<forall>p \<in> set ps. \<not> fits n (T p)) \<and> scan_pages (of_nat n) a st = Some (0, st) \<or>
    (\<exists>p us j s vs fl' st'. p \<in> set ps \<and> T p = us @ (j, s, True) # vs \<and> n \<le> s \<and>
       scan_pages (of_nat n) a st = Some (at p (j + 64), st') \<and> page_ok st' p (us @ carve n j s @ vs) fl' \<and> only_page p st st')"
proof (induction ps arbitrary: a)
  case Nil
  then show ?case by (simp add: scan_pages.simps)
next
  case (Cons p ps)
  from Cons.prems(1) obtain pg where a: "a = p" and pg: "hp_pages st p = Some pg" "chain (hp_pages st) (mp_next pg) ps"
    by auto
  from Cons.prems(2) obtain fl where ok: "page_ok st p (T p) fl" by auto
  then have pi: "page_base p" "mp_magic pg = MEM_BLOCK_MAGIC" "mp_freeSize pg = of_nat (free_sum (T p))" "tiles 64 (T p) 4096"
    using pg(1) by (auto simp: page_ok_def page_inv_def)
  have p0: "p \<noteq> 0" using pi(1) by (simp add: page_base_def)
  have le: "free_sum (T p) \<le> 4096" using free_sum_le [OF pi(4)] by simp
  have room: "ucast (mp_freeSize pg) \<ge> (of_nat n :: u64) \<longleftrightarrow> n \<le> free_sum (T p)"
    using n le by (simp add: pi(3) word_le_nat_alt unat_size unsigned_of_nat take_bit_nat_eq_self)
  have code: "scan_pages (of_nat n) a st = do {
      (base, st) \<leftarrow> (if n \<le> free_sum (T p) then allocBlockInPage p (of_nat n) st else Some (0, st));
      (if base \<noteq> 0 then Some (base, st)
       else do { p \<leftarrow> hp_pages st p; scan_pages (of_nat n) (mp_next p) st }) }"
    unfolding a by (subst scan_pages.simps) (simp add: p0 pg(1) pi(2) room)
  have next_page: ?case if no: "\<not> fits n (T p)" and c: "scan_pages (of_nat n) a st = scan_pages (of_nat n) (mp_next pg) st"
    using Cons.IH [OF pg(2)] Cons.prems(2) no unfolding c by (metis list.set_intros(2) set_ConsD list.set_intros(1))
  show ?case
  proof (cases "n \<le> free_sum (T p)")
    case False
    then have "\<not> fits n (T p)" using free_sum_member by (fastforce simp: fits_def)
    moreover have "scan_pages (of_nat n) a st = scan_pages (of_nat n) (mp_next pg) st" using False code pg(1) by simp
    ultimately show ?thesis by (rule next_page)
  next
    case True
    from alloc_in_page [OF ok n] show ?thesis
    proof (elim disjE conjE exE)
      assume no: "\<forall>j s. (j, s, True) \<in> set (T p) \<longrightarrow> s < n" and c: "allocBlockInPage p (of_nat n) st = Some (0, st)"
      have "\<not> fits n (T p)" using no by (auto simp: fits_def not_le)
      moreover have "scan_pages (of_nat n) a st = scan_pages (of_nat n) (mp_next pg) st" using True code c pg(1) by simp
      ultimately show ?thesis by (rule next_page)
    next
      fix us j s vs fl' st'
      assume t: "T p = us @ (j, s, True) # vs" "n \<le> s" and c: "allocBlockInPage p (of_nat n) st = Some (at p (j + 64), st')"
        and r: "page_ok st' p (us @ carve n j s @ vs) fl'" "only_page p st st'"
      have "j + 64 \<le> 4096" using tiles_in [OF pi(4), of j s True] t n by simp
      then have "scan_pages (of_nat n) a st = Some (at p (j + 64), st')" using code True c at_0 [OF pi(1)] by simp
      then show ?thesis using t r
        by (intro disjI2 exI [of _ p] exI [of _ us] exI [of _ j] exI [of _ s] exI [of _ vs] exI [of _ fl'] exI [of _ st']) simp
    qed
  qed
qed

text \<open>The blocks in use after a block was carved out of a free one.\<close>

lemma carve_in_use:
  assumes ok: "heap_ok st ps T L" and p: "p \<in> set ps" and T: "T p = us @ (j, s, True) # vs" and n: "64 \<le> n"
  defines "s' \<equiv> (if s - n < 64 then s else n)"
  shows "in_use ps (T(p := us @ carve n j s @ vs)) L = insert (at p j, s') (in_use ps T L)"
    and "(at p j, s') \<notin> in_use ps T L"
proof -
  obtain fl where pg: "page_ok st p (T p) fl" "page_base p" "tiles 64 (T p) 4096" by (rule heap_page [OF ok p])
  have mem: "(j, s, True) \<in> set (T p)" by (simp add: T)
  have j: "j < 4096" using page_tile(6) [of st p "T p" fl _ j s True] pg(1) mem by (auto simp: page_ok_def)
  have u: "used_tiles (us @ carve n j s @ vs) = insert (j, s') (used_tiles (T p))" by (auto simp: carve_def s'_def T)
  show "in_use ps (T(p := us @ carve n j s @ vs)) L = insert (at p j, s') (in_use ps T L)"
    unfolding in_use_upd(1) [OF p] in_use_upd(2) [OF p, of T] u by auto
  have "(k, s', False) \<notin> set (T p)" if "at p j = at p k" "k < 4096" for k
    using that at_eq [OF pg(2), of j k] j tiles_unique [OF pg(3) mem, of s' False] by auto
  moreover have "k < 4096" if "(k, s', False) \<in> set (T p)" for k
    using page_tile(6) [of st p "T p" fl _ k s' False] pg(1) that by (auto simp: page_ok_def)
  ultimately show "(at p j, s') \<notin> in_use ps T L"
    unfolding in_use_upd(2) [OF p] using not_in_rest [OF ok p j] by (auto simp: tile_of_used)
qed

text \<open>A fresh page in front of the list.\<close>

lemma push_page_ok:
  assumes ok: "heap_ok st ps T L" and q: "page_base q" "frame q \<notin> set (frames ps L)"
  shows "\<exists>st'. push_page q (memPageInit q st) = Some st' \<and> heap_ok st' (q # ps) (T(q := [(64, 4032, True)])) L \<and> hp_fw st' = hp_fw st \<and>
    in_use (q # ps) (T(q := [(64, 4032, True)])) L = in_use ps T L"
proof -
  obtain h ps' where ps: "ps = h # ps'" using ok by (cases ps) (auto simp: heap_ok_def)
  have ch: "chain (hp_pages st) (hp_pageList st) ps" using ok by (simp add: heap_ok_def)
  then obtain hp where hp: "hp_pageList st = h" "hp_pages st h = Some hp" unfolding ps by auto
  have qps: "q \<notin> set ps" using q(2) by (auto simp: frames_def)
  then have qh: "q \<noteq> h" using ps by auto
  define B where "B = \<lparr>mb_magic = MEM_BLOCK_MAGIC, mb_size = 4032, mb_isFree = True, mb_isLarge = False, mb_page = q, mb_prev = 0, mb_next = 0\<rparr>"
  define Q where "Q = \<lparr>mp_magic = MEM_BLOCK_MAGIC, mp_freeSize = 4032, mp_blockList = at q 64,
       mp_numPages = (case hp_pages st q of None \<Rightarrow> 0 | Some p \<Rightarrow> mp_numPages p), mp_next = h, mp_prev = 0\<rparr>"
  define st' where "st' = st\<lparr>hp_blocks := (hp_blocks st)(at q 64 \<mapsto> B), hp_tags := (hp_tags st)(at q 4088 \<mapsto> 4032),
    hp_pages := (hp_pages st)(q \<mapsto> Q, h \<mapsto> hp\<lparr>mp_prev := q\<rparr>), hp_pageList := q\<rparr>"
  have "size_end (at q 64) 4032 = at q 4088" using size_end_at [of 4032 q 64] by simp
  then have code: "push_page q (memPageInit q st) = Some st'"
    using qh hp by (cases st) (simp add: push_page_def memPageInit_def upd_mempage_def memBlockInit_def put_tag_def put_block_def Let_def
      PAGE_SIZE_def MEM_PG_BLOCK_OFFSET_def st'_def B_def Q_def at_def fun_upd_twist)
  have old: "hp_blocks st' a = hp_blocks st a" "hp_tags st' a = hp_tags st a" if "frame a \<noteq> frame q" for a
    using that frame_at [OF q(1), of 64] frame_at [OF q(1), of 4088] by (auto simp: st'_def)
  have okq: "page_ok st' q [(64, 4032, True)] [64]"
    using q(1) by (simp add: page_ok_def page_inv_def coalesced_def tile_ok_def st'_def body_of_def links_of_def B_def Q_def header_def qh)
  have keep: "page_ok st' p (T p) fl" if p: "p \<in> set ps" and pg: "page_ok st p (T p) fl" for p fl
  proof -
    have pb: "page_base p" using pg by (simp add: page_ok_def page_inv_def)
    have "frame p \<in> set (frames ps L)" using p by (simp add: frames_def)
    then have fr: "frame p \<noteq> frame q" using q(2) by metis
    have at: "hp_blocks st' (at p k) = hp_blocks st (at p k)" "hp_tags st' (at p k) = hp_tags st (at p k)" if "k < 4096" for k
      using old [of "at p k"] frame_at [OF pb that] fr by auto
    have pq: "p \<noteq> q" using p qps by auto
    obtain pg0 where pg0: "hp_pages st p = Some pg0" using pg by (auto simp: page_ok_def page_inv_def)
    then have pages: "hp_pages st' p = Some (if p = h then pg0\<lparr>mp_prev := q\<rparr> else pg0)" using pq hp(2) by (auto simp: st'_def)
    have inv: "page_inv st p (T p) fl (free_sum (T p))" using pg by (simp add: page_ok_def)
    have "tile_ok st' p j s f" if "(j, s, f) \<in> set (T p)" for j s f
      using page_tile [OF inv that] at by (simp add: tile_ok_def body_of_def)
    moreover have "linked (links_of (hp_blocks st')) 0 (map (at p) fl) 0 = linked (links_of (hp_blocks st)) 0 (map (at p) fl) 0"
      using at free_off_less [OF inv] by (intro linked_cong) (auto simp: links_of_def)
    ultimately show ?thesis using pg pages pg0 by (auto simp: page_ok_def page_inv_def)
  qed
  have large: "large_ok st' b n" if b: "(b, n) \<in> set L" for b n
  proof -
    have l: "large_ok st b n" using ok b by (auto simp: heap_ok_def)
    then have in_fr: "frame b \<in> set (concat (map (\<lambda>(b, n). [frame b..<frame b + n]) L))"
      using frame_in_large [OF b] by (simp add: large_ok_def)
    then have "frame b \<noteq> frame q" "b \<noteq> q" using q(2) by (auto simp: frames_def)
    moreover have "b \<noteq> h"
    proof
      assume "b = h"
      then have "frame b \<in> set (map frame ps)" by (simp add: ps)
      then show False using ok in_fr unfolding heap_ok_def frames_def distinct_append by blast
    qed
    ultimately show ?thesis
      using l old [of "at b 64"] frame_at [of b 64] by (simp add: large_ok_def body_of_def) (simp add: st'_def)
  qed
  have "chain (hp_pages st') h ps = chain (hp_pages st) h ps"
    using qps hp(2) by (intro chain_cong) (auto simp: st'_def)
  then have chain': "chain (hp_pages st') (hp_pageList st') (q # ps)" using ch hp(1) qh by (simp add: st'_def Q_def)
  have dist: "distinct (frames (q # ps) L)" using ok q(2) by (simp add: heap_ok_def frames_def)
  have "\<forall>p \<in> set ps. \<exists>fl. page_ok st' p (T p) fl" using ok keep unfolding heap_ok_def by blast
  then have "\<forall>p \<in> set (q # ps). \<exists>fl. page_ok st' p ((T(q := [(64, 4032, True)])) p) fl" using okq qps by auto
  then have "heap_ok st' (q # ps) (T(q := [(64, 4032, True)])) L" using chain' dist large by (auto simp: heap_ok_def)
  moreover have "in_use (q # ps) (T(q := [(64, 4032, True)])) L = in_use ps T L"
  proof -
    have "(p \<in> set (q # ps) \<and> x \<in> used_tiles ((T(q := [(64, 4032, True)])) p)) = (p \<in> set ps \<and> x \<in> used_tiles (T p))" for p x
      using qps by auto
    then show ?thesis by (simp only: in_use_def)
  qed
  ultimately show ?thesis using code by (intro exI [of _ st']) (simp add: st'_def)
qed

section \<open>Allocating and freeing\<close>

text \<open>What is assumed of the firmware: the pages it gives are not in use, and neither at address 0
  nor at the end of the address space.\<close>

definition fw_ok :: "'f heapEnv \<Rightarrow> 'f \<Rightarrow> addr list \<Rightarrow> (addr \<times> nat) list \<Rightarrow> bool" where
  "fw_ok env fw ps L \<longleftrightarrow>
     (let q = fst (he_allocPage env fw) in q = 0 \<or> page_base q \<and> frame q \<notin> set (frames ps L)) \<and>
     (\<forall>k. let b = fst (he_allocPages env k fw) in b = 0 \<or>
        page_base b \<and> unat b + 4096 * unat k < 2 ^ 64 \<and> {frame b..<frame b + unat k} \<inter> set (frames ps L) = {})"

lemma heap_ok_fw [simp]: "heap_ok (st\<lparr>hp_fw := fw\<rparr>) ps T L = heap_ok st ps T L"
  by (simp add: heap_ok_def page_ok_def page_inv_def tile_ok_def large_ok_def)

text \<open>The new block: behind its header and before its tag there is room for \<open>m\<close> bytes, and not for
  many more.\<close>

definition new_block :: "addr \<Rightarrow> nat \<Rightarrow> addr list \<Rightarrow> (addr \<Rightarrow> tile list) \<Rightarrow> (addr \<times> nat) list \<Rightarrow>
    addr list \<Rightarrow> (addr \<Rightarrow> tile list) \<Rightarrow> (addr \<times> nat) list \<Rightarrow> bool" where
  "new_block r m ps T L ps' T' L' \<longleftrightarrow> (\<exists>a s. r = a + 64 \<and> m + 72 \<le> s \<and> s < m + 4183 \<and> (a, s) \<notin> in_use ps T L \<and>
     in_use ps' T' L' = insert (a, s) (in_use ps T L))"

text \<open>What a call asks of the firmware, and how the frames of the heap change with it: not at all, or
  it gets one page, or several.\<close>

definition fw_step :: "'f heapEnv \<Rightarrow> 'f \<Rightarrow> nat set \<Rightarrow> 'f \<Rightarrow> nat set \<Rightarrow> bool" where
  "fw_step env fw F fw' F' \<longleftrightarrow> fw' = fw \<and> F' \<subseteq> F \<or>
     (\<exists>q. he_allocPage env fw = (q, fw') \<and> F' \<subseteq> (if q = 0 then F else insert (frame q) F)) \<or>
     (\<exists>k b. he_allocPages env k fw = (b, fw') \<and> F' \<subseteq> (if b = 0 then F else F \<union> {frame b..<frame b + unat k}))"

lemma carved_block:
  assumes ok: "heap_ok st ps T L" and p: "p \<in> set ps" and T: "T p = us @ (j, s, True) # vs" "n \<le> s"
    and n: "64 \<le> n" "m + 72 \<le> n" "n < m + 88"
    and r: "page_ok st' p (us @ carve n j s @ vs) fl'" "only_page p st st'"
  shows "heap_ok st' ps (T(p := us @ carve n j s @ vs)) L"
    and "new_block (at p (j + 64)) m ps T L ps (T(p := us @ carve n j s @ vs)) L"
proof -
  show "heap_ok st' ps (T(p := us @ carve n j s @ vs)) L" by (rule heap_ok_page [OF ok p r])
  have "at p (j + 64) = at p j + 64" using at_add [of p j 64] by simp
  then show "new_block (at p (j + 64)) m ps T L ps (T(p := us @ carve n j s @ vs)) L"
    using carve_in_use [OF ok p T(1) n(1)] T(2) n(2,3) unfolding new_block_def
    by (intro exI [of _ "at p j"] exI [of _ "if s - n < 64 then s else n"]) auto
qed

lemma malloc_small:
  assumes ok: "heap_ok st ps T L" and fw: "fw_ok env (hp_fw st) ps L" and x: "0 < unat x" "align16 (unat x + 72) \<le> 4032"
  shows "\<exists>r st' ps' T'. malloc env x st = Some (r, st') \<and> heap_ok st' ps' T' L \<and>
    (r = 0 \<and> fst (he_allocPage env (hp_fw st)) = 0 \<and> (\<forall>p \<in> set ps. \<not> fits (align16 (unat x + 72)) (T p)) \<and> ps' = ps \<and> T' = T \<or>
     r \<noteq> 0 \<and> new_block r (unat x) ps T L ps' T' L) \<and>
    fw_step env (hp_fw st) (set (frames ps L)) (hp_fw st') (set (frames ps' L))"
proof -
  define n where "n = align16 (unat x + 72)"
  have b: "unat x + 72 \<le> n" "n < unat x + 88" "16 dvd n" "n \<le> 4032"
    using align16_bounds [of "unat x + 72"] x(2) by (simp_all add: n_def)
  have n: "64 \<le> n" "16 dvd n" "n \<le> 4096" using b by simp_all
  have x0: "x \<noteq> 0" using x(1) by auto
  have al: "alignSize x = of_nat n" using alignSize_nat [of x] b by (simp add: n_def)
  have "unat (of_nat n + 64 :: u64) = n + 64" using unat_addr_add [of "of_nat n" 64] n
    by (simp add: unsigned_of_nat take_bit_nat_eq_self)
  then have small: "\<not> of_nat n + of_nat MEM_PG_BLOCK_OFFSET > (of_nat PAGE_SIZE :: u64)"
    using b(4) by (simp add: MEM_PG_BLOCK_OFFSET_def PAGE_SIZE_def word_less_nat_alt)
  have code: "malloc env x st = do {
      (base, st) \<leftarrow> scan_pages (of_nat n) (hp_pageList st) st;
      (if base \<noteq> 0 then Some (base, st)
       else (case he_allocPage env (hp_fw st) of (newPage, fw) \<Rightarrow>
         let st = st\<lparr>hp_fw := fw\<rparr>
         in if newPage = 0 then Some (0, st)
            else do { st \<leftarrow> push_page newPage (memPageInit newPage st); allocBlockInPage newPage (of_nat n) st })) }"
    using x0 small by (simp add: malloc_def al Let_def)
  have pages: "\<forall>p \<in> set ps. \<exists>fl. page_ok st p (T p) fl" and ch: "chain (hp_pages st) (hp_pageList st) ps"
    using ok by (simp_all add: heap_ok_def)
  from scan_pages_ok [OF n ch pages] show ?thesis
  proof (elim disjE conjE exE)
    fix p us j s vs fl' st'
    assume p: "p \<in> set ps" "T p = us @ (j, s, True) # vs" "n \<le> s"
      and c: "scan_pages (of_nat n) (hp_pageList st) st = Some (at p (j + 64), st')"
      and r: "page_ok st' p (us @ carve n j s @ vs) fl'" "only_page p st st'"
    have pg: "page_base p" "tiles 64 (T p) 4096" using heap_page [OF ok p(1)] by blast+
    have "at p (j + 64) \<noteq> 0" using at_0 [OF pg(1), of "j + 64"] tiles_in [OF pg(2), of j s True] p(2,3) n by simp
    moreover from this have "malloc env x st = Some (at p (j + 64), st')" using code c by simp
    moreover have "fw_step env (hp_fw st) (set (frames ps L)) (hp_fw st') (set (frames ps L))"
      using r(2) by (simp add: fw_step_def only_page_def)
    ultimately show ?thesis using carved_block [OF ok p n(1) b(1,2) r]
      by (intro exI [of _ "at p (j + 64)"] exI [of _ st'] exI [of _ ps] exI [of _ "T(p := us @ carve n j s @ vs)"]) simp
  next
    assume no: "\<forall>p \<in> set ps. \<not> fits n (T p)" and c: "scan_pages (of_nat n) (hp_pageList st) st = Some (0, st)"
    obtain q fw' where q: "he_allocPage env (hp_fw st) = (q, fw')" by fastforce
    show ?thesis
    proof (cases "q = 0")
      case True
      then have "malloc env x st = Some (0, st\<lparr>hp_fw := fw'\<rparr>)" using code c q by simp
      moreover have "fw_step env (hp_fw st) (set (frames ps L)) fw' (set (frames ps L))"
        using q True by (auto simp: fw_step_def)
      ultimately show ?thesis using True q ok no unfolding n_def [symmetric]
        by (intro exI [of _ 0] exI [of _ "st\<lparr>hp_fw := fw'\<rparr>"] exI [of _ ps] exI [of _ T]) simp
    next
      case False
      then have qp: "page_base q" "frame q \<notin> set (frames ps L)" using fw q by (auto simp: fw_ok_def Let_def)
      have "heap_ok (st\<lparr>hp_fw := fw'\<rparr>) ps T L" using ok by simp
      from push_page_ok [OF this qp] obtain st2 where st2: "push_page q (memPageInit q (st\<lparr>hp_fw := fw'\<rparr>)) = Some st2"
        "heap_ok st2 (q # ps) (T(q := [(64, 4032, True)])) L" "in_use (q # ps) (T(q := [(64, 4032, True)])) L = in_use ps T L"
        "hp_fw st2 = fw'" by auto
      let ?T = "T(q := [(64, 4032, True)])"
      obtain fl where pq: "page_ok st2 q (?T q) fl" using heap_page [OF st2(2), of q] by auto
      have Tq: "?T q = [] @ (64, 4032, True) # []" by simp
      have "fits n (?T q)" using b(4) by (auto simp: fits_def)
      then obtain us j s vs fl' st3 where t: "?T q = us @ (j, s, True) # vs" "n \<le> s"
        and c3: "allocBlockInPage q (of_nat n) st2 = Some (at q (j + 64), st3)"
        and r: "page_ok st3 q (us @ carve n j s @ vs) fl'" "only_page q st2 st3"
        using alloc_in_page [OF pq n] unfolding fits_def by (metis not_le)
      have "j = 64" using t(1) by (cases us) auto
      then have "at q (j + 64) \<noteq> 0" using at_0 [OF qp(1), of "j + 64"] by simp
      moreover have "malloc env x st = Some (at q (j + 64), st3)" using code c q False st2(1) c3 by simp
      moreover have "new_block (at q (j + 64)) (unat x) ps T L (q # ps) (?T(q := us @ carve n j s @ vs)) L"
        using carved_block(2) [OF st2(2) _ t n(1) b(1,2) r] unfolding new_block_def st2(3) by simp
      moreover have "heap_ok st3 (q # ps) (?T(q := us @ carve n j s @ vs)) L"
        by (rule carved_block(1) [OF st2(2) _ t n(1) b(1,2) r]) simp
      moreover have "fw_step env (hp_fw st) (set (frames ps L)) (hp_fw st3) (set (frames (q # ps) L))"
        using r(2) st2(4) q False by (auto simp: fw_step_def only_page_def frames_def)
      ultimately show ?thesis
        by (intro exI [of _ "at q (j + 64)"] exI [of _ st3] exI [of _ "q # ps"] exI [of _ "?T(q := us @ carve n j s @ vs)"]) blast
    qed
  qed
qed

lemma malloc_large_ok:
  assumes ok: "heap_ok st ps T L" and fw: "fw_ok env (hp_fw st) ps L" and x: "unat x < 2 ^ 31" "4032 < align16 (unat x + 72)"
  shows "\<exists>r st' L'. malloc env x st = Some (r, st') \<and> heap_ok st' ps T L' \<and>
    (r = 0 \<and> 4032 < align16 (unat x + 72) \<and> fst (he_allocPages env (of_nat ((align16 (unat x + 72) + 64 + 4095) div 4096)) (hp_fw st)) = 0 \<and> L' = L \<or> r \<noteq> 0 \<and> new_block r (unat x) ps T L ps T L') \<and>
    fw_step env (hp_fw st) (set (frames ps L)) (hp_fw st') (set (frames ps L'))"
proof -
  define n where "n = align16 (unat x + 72)"
  define k where "k = (n + 64 + 4095) div 4096"
  have b: "unat x + 72 \<le> n" "n < unat x + 88" "4032 < n" using align16_bounds [of "unat x + 72"] x(2) by (simp_all add: n_def)
  have k: "n + 64 \<le> 4096 * k" "0 < k" "k < 2 ^ 20" and kn: "4096 * k \<le> n + 64 + 4095"
    using b x(1) by (auto simp: k_def)
  have x0: "x \<noteq> 0" using b by auto
  have al: "alignSize x = of_nat n" using alignSize_nat [of x] b x(1) by (simp add: n_def)
  have nn: "n < 2 ^ 32" using b x(1) by simp
  have un: "unat (of_nat m :: u64) = m" if "m < 2 ^ 33" for m using that by (simp add: unsigned_of_nat take_bit_nat_eq_self)
  have s64: "of_nat n + of_nat MEM_PG_BLOCK_OFFSET = (of_nat (n + 64) :: u64)" by (simp add: MEM_PG_BLOCK_OFFSET_def)
  have big: "of_nat n + of_nat MEM_PG_BLOCK_OFFSET > (of_nat PAGE_SIZE :: u64)"
    unfolding s64 using un [of "n + 64"] nn b(3) by (simp add: PAGE_SIZE_def word_less_nat_alt)
  have num: "(ucast ((of_nat n + of_nat MEM_PG_BLOCK_OFFSET + (of_nat PAGE_SIZE - 1)) div of_nat PAGE_SIZE :: u64) :: u32) = of_nat k"
  proof -
    have "of_nat n + of_nat MEM_PG_BLOCK_OFFSET + (of_nat PAGE_SIZE - 1) = (of_nat (n + 64 + 4095) :: u64)"
      by (simp add: MEM_PG_BLOCK_OFFSET_def PAGE_SIZE_def)
    moreover have "of_nat (n + 64 + 4095) div of_nat PAGE_SIZE = (of_nat k :: u64)"
    proof (rule iffD2 [OF word_unat_eq_iff])
      have "unat (of_nat (n + 64 + 4095) div of_nat PAGE_SIZE :: u64) = unat (of_nat (n + 64 + 4095) :: u64) div 4096"
        by (simp only: unat_div PAGE_SIZE_def) simp
      also have "unat (of_nat (n + 64 + 4095) :: u64) = n + 64 + 4095" using nn by (intro un) simp
      also have "(n + 64 + 4095) div 4096 = unat (of_nat k :: u64)" using un [of k] k(3) by (simp add: k_def)
      finally show "unat (of_nat (n + 64 + 4095) div of_nat PAGE_SIZE :: u64) = unat (of_nat k :: u64)" .
    qed
    ultimately have "(of_nat n + of_nat MEM_PG_BLOCK_OFFSET + (of_nat PAGE_SIZE - 1)) div of_nat PAGE_SIZE = (of_nat k :: u64)"
      by (simp only:)
    then show ?thesis using k(3) by (simp add: word_unat_eq_iff unsigned_ucast_eq unsigned_of_nat take_bit_nat_eq_self)
  qed
  obtain base fw' where base: "he_allocPages env (of_nat k) (hp_fw st) = (base, fw')" by fastforce
  have code: "malloc env x st = malloc_large env (of_nat n) st" using x0 big by (simp add: malloc_def al Let_def)
  show ?thesis
  proof (cases "base = 0")
    case True
    then have "malloc env x st = Some (0, st\<lparr>hp_fw := fw'\<rparr>)" unfolding code malloc_large_def num Let_def base by simp
    moreover have "fst (he_allocPages env (of_nat k) (hp_fw st)) = 0" using base True by simp
    moreover have "fw_step env (hp_fw st) (set (frames ps L)) fw' (set (frames ps L))"
      using base True by (auto simp: fw_step_def)
    ultimately show ?thesis using ok x(2) unfolding n_def [symmetric] k_def [symmetric]
      by (intro exI [of _ 0] exI [of _ "st\<lparr>hp_fw := fw'\<rparr>"] exI [of _ L]) (simp add: k_def n_def)
  next
    case False
    have uk: "unat (of_nat k :: u32) = k" using k(3) by (simp add: unsigned_of_nat take_bit_nat_eq_self)
    have new: "page_base base" "unat base + 4096 * k < 2 ^ 64" "{frame base..<frame base + k} \<inter> set (frames ps L) = {}"
      using fw False base uk unfolding fw_ok_def Let_def by (metis fst_conv)+
    have "frame base \<in> {frame base..<frame base + k}" using k(2) by simp
    then have bfr: "frame base \<notin> set (frames ps L)" using new(3) by blast
    define S where "S = (of_nat k * of_nat PAGE_SIZE - of_nat MEM_PG_BLOCK_OFFSET :: u32)"
    have S: "S = of_nat (4096 * k - 64)" using k(2) by (simp add: S_def PAGE_SIZE_def MEM_PG_BLOCK_OFFSET_def of_nat_diff mult.commute)
    define B where "B = \<lparr>mb_magic = MEM_BLOCK_MAGIC, mb_size = S, mb_isFree = False, mb_isLarge = True, mb_page = base, mb_prev = 0, mb_next = 0\<rparr>"
    define Q where "Q = \<lparr>mp_magic = MEM_BLOCK_MAGIC, mp_freeSize = 0, mp_blockList = 0, mp_numPages = of_nat k, mp_next = 0, mp_prev = 0\<rparr>"
    define st' where "st' = st\<lparr>hp_fw := fw', hp_pages := (hp_pages st)(base \<mapsto> Q), hp_blocks := (hp_blocks st)(at base 64 \<mapsto> B),
      hp_tags := (hp_tags st)(at base 4088 \<mapsto> 4032, size_end (at base 64) S \<mapsto> ucast S)\<rparr>"
    have "size_end (at base 64) 4032 = at base 4088" using size_end_at [of 4032 base 64] by simp
    then have c: "malloc env x st = Some (at base 64 + 64, st')"
      unfolding code malloc_large_def num Let_def base using False
      by (cases st) (simp add: memPageInit_def upd_mempage_def memBlockInit_def put_tag_def put_block_def upd_block_def Let_def
        PAGE_SIZE_def MEM_PG_BLOCK_OFFSET_def MEM_BLOCK_DATA_OFFSET_def st'_def B_def Q_def S_def at_def)
    have se: "\<exists>e. size_end (at base 64) S = base + of_nat e \<and> e < 4096 * k"
    proof -
      have "(ucast S :: u64) = of_nat (4096 * k - 64)"
        using k(3) unfolding S by (simp add: word_unat_eq_iff unsigned_ucast_eq unsigned_of_nat take_bit_nat_eq_self)
      then have "size_end (at base 64) S = base + of_nat (64 + (4096 * k - 64) - 8)"
        using at_diff [of 8 "64 + (4096 * k - 64)" base] k(2) unfolding size_end_def by (simp add: at_add) (simp add: at_def)
      then show ?thesis using k(2) by (intro exI [of _ "64 + (4096 * k - 64) - 8"]) simp
    qed
    obtain e where e: "size_end (at base 64) S = base + of_nat e" "e < 4096 * k" using se by blast
    have fe: "frame (base + of_nat e) \<in> {frame base..<frame base + k}"
    proof -
      have "unat (base + of_nat e) = unat base + e" using new(2) e(2) by (intro unat_addr_add) simp
      moreover obtain w where "unat base = 4096 * w" using new(1) by (auto simp: page_base_def)
      ultimately show ?thesis using e(2) by (auto simp: frame_def)
    qed
    have old: "hp_blocks st' a = hp_blocks st a" "hp_tags st' a = hp_tags st a" if "frame a \<in> set (frames ps L)" for a
    proof -
      have "frame (at base 64) = frame base" "frame (at base 4088) = frame base" using new(1) by simp_all
      then have "a \<noteq> at base 64" "a \<noteq> at base 4088" "a \<noteq> base + of_nat e" using that bfr new(3) fe by auto
      then show "hp_blocks st' a = hp_blocks st a" "hp_tags st' a = hp_tags st a" by (simp_all add: st'_def e(1))
    qed
    have pagesame: "hp_pages st' p = hp_pages st p" if "frame p \<in> set (frames ps L)" for p
      using that bfr by (auto simp: st'_def)
    have keep: "\<exists>fl. page_ok st' p (T p) fl" if p: "p \<in> set ps" for p
    proof -
      obtain fl where pg: "page_ok st p (T p) fl" using ok p by (auto simp: heap_ok_def)
      have pb: "page_base p" using pg by (simp add: page_ok_def page_inv_def)
      have fr: "frame p \<in> set (frames ps L)" using p by (simp add: frames_def)
      have at: "hp_blocks st' (at p j) = hp_blocks st (at p j)" "hp_tags st' (at p j) = hp_tags st (at p j)" if "j < 4096" for j
        using old [of "at p j"] frame_at [OF pb that] fr by auto
      have inv: "page_inv st p (T p) fl (free_sum (T p))" using pg by (simp add: page_ok_def)
      have "tile_ok st' p j s f" if "(j, s, f) \<in> set (T p)" for j s f
        using page_tile [OF inv that] at by (simp add: tile_ok_def body_of_def)
      moreover have "linked (links_of (hp_blocks st')) 0 (map (at p) fl) 0 = linked (links_of (hp_blocks st)) 0 (map (at p) fl) 0"
        using at free_off_less [OF inv] by (intro linked_cong) (auto simp: links_of_def)
      ultimately have "page_ok st' p (T p) fl" using pg pagesame [OF fr] by (auto simp: page_ok_def page_inv_def)
      then show ?thesis by blast
    qed
    have large: "large_ok st' c n" if c: "(c, n) \<in> set L" for c n
    proof -
      have l: "large_ok st c n" using ok c by (auto simp: heap_ok_def)
      then have "frame c \<in> set (frames ps L)" using frame_in_large [OF c] by (simp add: large_ok_def frames_def)
      then show ?thesis using l old [of "at c 64"] frame_at [of c 64] pagesame [of c] by (simp add: large_ok_def body_of_def)
    qed
    have newl: "large_ok st' base k"
      using new k by (simp add: large_ok_def) (simp add: st'_def Q_def B_def body_of_def header_def S)
    have "chain (hp_pages st') (hp_pageList st') ps = chain (hp_pages st) (hp_pageList st') ps"
      using pagesame by (intro chain_cong) (simp add: frames_def)
    then have "chain (hp_pages st') (hp_pageList st') ps" using ok by (simp add: heap_ok_def st'_def)
    moreover have "distinct (frames ps ((base, k) # L))"
    proof -
      have "distinct (map frame ps @ [frame base..<frame base + k] @ concat (map (\<lambda>(b, n). [frame b..<frame b + n]) L))"
        by (rule distinct_mid) (use ok new(3) in \<open>simp_all only: heap_ok_def frames_def distinct_upt set_upt\<close>)
      then show ?thesis by (simp add: frames_def)
    qed
    ultimately have h: "heap_ok st' ps T ((base, k) # L)" using ok keep large newl by (auto simp: heap_ok_def)
    have "(at base 64, 4096 * k - 64) \<notin> in_use ps T L"
    proof
      assume "(at base 64, 4096 * k - 64) \<in> in_use ps T L"
      then consider p j where "p \<in> set ps" "at base 64 = at p j" "(j, 4096 * k - 64, False) \<in> set (T p)"
        | c m where "(c, m) \<in> set L" "at base 64 = at c 64" by (auto simp: in_use_def tile_of_used)
      then show False
      proof cases
        case 1
        obtain fl where "page_ok st p (T p) fl" "page_base p" using heap_page [OF ok 1(1)] by blast
        then have "j < 4096" "page_base p" using page_tile(6) [of st p "T p" fl _ j] 1(3) by (auto simp: page_ok_def)
        then have "frame base = frame p" using frame_at [OF new(1), of 64] frame_at [of p j] 1(2) by simp
        then show False using bfr 1(1) by (simp add: frames_def)
      next
        case 2
        then have l: "large_ok st c m" using ok by (auto simp: heap_ok_def)
        then have "frame base = frame c" using frame_at [OF new(1), of 64] frame_at [of c 64] 2(2) by (simp add: large_ok_def)
        moreover have "frame c \<in> set (frames ps L)" using frame_in_large [OF 2(1)] l by (simp add: frames_def large_ok_def)
        ultimately show False using bfr by metis
      qed
    qed
    moreover have "in_use ps T ((base, k) # L) = insert (at base 64, 4096 * k - 64) (in_use ps T L)" by (auto simp: in_use_def)
    ultimately have "new_block (at base 64 + 64) (unat x) ps T L ps T ((base, k) # L)"
      unfolding new_block_def using b k(1) kn
      by (intro exI [of _ "at base 64"] exI [of _ "4096 * k - 64"]) (simp, linarith)
    moreover have "fw_step env (hp_fw st) (set (frames ps L)) (hp_fw st') (set (frames ps ((base, k) # L)))"
    proof -
      have "hp_fw st' = fw'" "set (frames ps ((base, k) # L)) \<subseteq> set (frames ps L) \<union> {frame base..<frame base + unat (of_nat k :: u32)}"
        by (auto simp: st'_def frames_def uk)
      then show ?thesis unfolding fw_step_def using base False by auto
    qed
    moreover have "at base 64 + 64 \<noteq> 0" using at_0 [OF new(1), of 128] at_add [of base 64 64] by simp
    ultimately show ?thesis using c h
      by (intro exI [of _ "at base 64 + 64"] exI [of _ st'] exI [of _ "(base, k) # L"]) simp
  qed
qed

lemma frame_next: "page_base c \<Longrightarrow> page_base (c + of_nat PAGE_SIZE) \<Longrightarrow> frame (c + of_nat PAGE_SIZE) = Suc (frame c)"
  using unat_at [of c 4096] by (auto simp: at_def frame_def PAGE_SIZE_def)

text \<open>The pages of a large block become pages of the list.\<close>

lemma free_large_ok:
  assumes "heap_ok st ps T L" and "page_base c" "unat c + 4096 * n < 2 ^ 64"
    and "{frame c..<frame c + n} \<inter> set (frames ps L) = {}"
  shows "\<exists>st' ps' T'. free_large n c st = Some st' \<and> heap_ok st' ps' T' L \<and> in_use ps' T' L = in_use ps T L \<and>
    set ps \<subseteq> set ps' \<and> (\<forall>p \<in> set ps. T' p = T p) \<and> (0 < n \<longrightarrow> c \<in> set ps' \<and> T' c = [(64, 4032, True)]) \<and>
    hp_fw st' = hp_fw st \<and> set (frames ps' L) \<subseteq> set (frames ps L) \<union> {frame c..<frame c + n}"
  using assms
proof (induction n arbitrary: st ps T c)
  case 0
  then show ?case by (intro exI [of _ st] exI [of _ ps] exI [of _ T]) simp
next
  case (Suc n)
  have "frame c \<in> {frame c..<frame c + Suc n}" by simp
  then have c: "frame c \<notin> set (frames ps L)" using Suc.prems(4) by blast
  from push_page_ok [OF Suc.prems(1,2) c] obtain st1 where st1: "push_page c (memPageInit c st) = Some st1"
    "heap_ok st1 (c # ps) (T(c := [(64, 4032, True)])) L" "in_use (c # ps) (T(c := [(64, 4032, True)])) L = in_use ps T L" "hp_fw st1 = hp_fw st"
    by blast
  have cps: "c \<notin> set ps" using c by (auto simp: frames_def)
  let ?d = "c + of_nat PAGE_SIZE" and ?T = "T(c := [(64, 4032, True)])"
  show ?case
  proof (cases n)
    case 0
    then have "free_large (Suc n) c st = Some st1" using st1(1) by simp
    moreover have "\<forall>p \<in> set ps. ?T p = T p" "?T c = [(64, 4032, True)]" "set ps \<subseteq> set (c # ps)" "c \<in> set (c # ps)" using cps by auto
    moreover have "set (frames (c # ps) L) \<subseteq> set (frames ps L) \<union> {frame c..<frame c + Suc n}" by (auto simp: frames_def)
    ultimately show ?thesis using st1(2-4) by (intro exI [of _ st1] exI [of _ "c # ps"] exI [of _ ?T] conjI impI) assumption+
  next
    case (Suc m)
    have ud: "unat ?d = unat c + 4096" using unat_at [OF Suc.prems(2), of 4096] by (simp add: at_def PAGE_SIZE_def)
    have d: "page_base ?d" using Suc.prems(2,3) Suc ud by (auto simp: page_base_def)
    have fr: "{frame ?d..<frame ?d + n} \<inter> set (frames (c # ps) L) = {}"
    proof -
      have "{frame ?d..<frame ?d + n} \<subseteq> {frame c..<frame c + Suc n}" "frame c \<notin> {frame ?d..<frame ?d + n}"
        using frame_next [OF Suc.prems(2) d] by auto
      note AB = this
      have "set (frames (c # ps) L) = insert (frame c) (set (frames ps L))" by (simp add: frames_def)
      moreover have "A \<inter> insert x S = {}" if "A \<subseteq> B" "x \<notin> A" "B \<inter> S = {}" for A B S and x :: nat using that by blast
      ultimately show ?thesis using AB Suc.prems(4) by (simp only:)
    qed
    have lim: "unat ?d + 4096 * n < 2 ^ 64" using Suc.prems(3) ud by simp
    obtain st' ps' T' where r: "free_large n ?d st1 = Some st'" "heap_ok st' ps' T' L" "in_use ps' T' L = in_use (c # ps) ?T L"
      "set (c # ps) \<subseteq> set ps'" "\<forall>p \<in> set (c # ps). T' p = ?T p"
      and fw: "hp_fw st' = hp_fw st1" "set (frames ps' L) \<subseteq> set (frames (c # ps) L) \<union> {frame ?d..<frame ?d + n}"
      using Suc.IH [OF st1(2) d lim fr] by blast
    have fr': "set (frames ps' L) \<subseteq> set (frames ps L) \<union> {frame c..<frame c + Suc n}"
      using fw(2) frame_next [OF Suc.prems(2) d] by (auto simp: frames_def)
    have "free_large (Suc n) c st = Some st'" using st1(1) r(1) by simp
    moreover have "\<forall>p \<in> set ps. T' p = T p" using r(5) cps by auto
    ultimately show ?thesis using r st1(3,4) fw(1) fr'
      by (intro exI [of _ st'] exI [of _ ps'] exI [of _ T'] conjI impI) auto
  qed
qed

lemma free_dead:
  assumes "dead a st" and "a + 64 \<noteq> 0"
  shows "free (a + 64) st = None"
  using assms by (auto simp: free_def dead_def MEM_BLOCK_DATA_OFFSET_def Let_def)

definition freed :: "addr \<Rightarrow> 'f heap \<Rightarrow> addr list \<Rightarrow> (addr \<Rightarrow> tile list) \<Rightarrow> (addr \<times> nat) list \<Rightarrow> (addr \<times> nat) set \<Rightarrow> bool" where
  "freed a st' ps' T' L' U \<longleftrightarrow> heap_ok st' ps' T' L' \<and> in_use ps' T' L' = U \<and> dead a st' \<and> a + 64 \<noteq> 0"

lemma tiles_split_unique:
  "tiles i (us @ (j, s, f) # vs) e \<Longrightarrow> us @ (j, s, f) # vs = us' @ (j, s, f) # vs' \<Longrightarrow> us = us' \<and> vs = vs'"
proof (induction us arbitrary: i us')
  case Nil
  show ?case
  proof (cases us')
    case (Cons u ws)
    then have "(j, s, f) \<in> set vs" "tiles (j + s) vs e" "64 \<le> s" using Nil by auto
    then show ?thesis using tiles_in [of "j + s" vs e j s f] by auto
  qed (use Nil in simp)
next
  case (Cons u us)
  obtain k r g where u: "u = (k, r, g)" by (cases u)
  show ?case
  proof (cases us')
    case Nil
    then have "(j, s, f) \<in> set (us @ (j, s, f) # vs)" "tiles (j + s) (us @ (j, s, f) # vs) e" "64 \<le> s"
      using Cons.prems u by auto
    then show ?thesis using tiles_in [of "j + s" "us @ (j, s, f) # vs" e j s f] by auto
  next
    case (Cons v ws)
    then show ?thesis using Cons.IH [of "k + r" ws] Cons.prems u by simp
  qed
qed

lemma free_small:
  assumes ok: "heap_ok st ps T L" and p: "p \<in> set ps" and j: "(j, s, False) \<in> set (T p)"
  shows "\<exists>st' T'. free (at p j + 64) st = Some st' \<and> freed (at p j) st' ps T' L (in_use ps T L - {(at p j, s)}) \<and>
    hp_fw st' = hp_fw st \<and> (\<forall>us. T p = us @ [(j, s, False), (4032, 64, True)] \<longrightarrow> last (T' p) = (4032, 64, True))"
proof -
  obtain fl where pg: "page_ok st p (T p) fl" "page_base p" "tiles 64 (T p) 4096" by (rule heap_page [OF ok p])
  obtain us vs where T: "T p = us @ (j, s, False) # vs" using split_list [OF j] by blast
  obtain st' ts' fl' where r: "free (at p (j + 64)) st = Some st'" "page_ok st' p ts' fl'" "only_page p st st'"
    "used_tiles ts' = used_tiles us \<union> used_tiles vs" "dead (at p j) st'"
    and keep: "vs = [(4032, 64, True)] \<longrightarrow> last ts' = (4032, 64, True)"
    using free_in_page [OF pg(1) [unfolded T]] by blast
  have js: "j < 4096" "j + 64 \<le> 4096" using tiles_in [OF pg(3) j] by auto
  have a64: "at p (j + 64) = at p j + 64" using at_add [of p j 64] by simp
  have u: "used_tiles ts' = used_tiles (T p) - {(j, s)}"
  proof -
    have "distinct (T p)" using pg(3)
    proof (induction rule: tiles.induct)
      case (2 i k r f ts e)
      then show ?case using tiles_in [of "k + r" ts e k r f] by auto
    qed simp
    then have "(j, s, False) \<notin> set us \<union> set vs" by (auto simp: T)
    then show ?thesis unfolding r(4) by (auto simp: T used_tiles_def)
  qed
  have "in_use ps (T(p := ts')) L = in_use ps T L - {(at p j, s)}"
  proof -
    have "(k, r) = (j, s)" if "at p k = at p j" "r = s" "(k, r) \<in> used_tiles (T p)" for k r
      using that tiles_in [OF pg(3), of k r False] at_eq [OF pg(2), of k j] js by (auto simp: tile_of_used)
    then show ?thesis
      unfolding in_use_upd(1) [OF p] in_use_upd(2) [OF p, of T] u using not_in_rest [OF ok p js(1)] by auto
  qed
  moreover have "heap_ok st' ps (T(p := ts')) L" by (rule heap_ok_page [OF ok p r(2,3)])
  moreover have "at p j + 64 \<noteq> 0" using at_0 [OF pg(2) js(2)] a64 by simp
  moreover have "hp_fw st' = hp_fw st" using r(3) by (simp add: only_page_def)
  moreover have "last ((T(p := ts')) p) = (4032, 64, True)" if e: "T p = us' @ [(j, s, False), (4032, 64, True)]" for us'
  proof -
    have "tiles 64 (us' @ (j, s, False) # [(4032, 64, True)]) 4096" using pg(3) e by simp
    then have "us' = us \<and> vs = [(4032, 64, True)]"
      using e T tiles_split_unique [of 64 us j s False vs 4096 us' "[(4032, 64, True)]"] pg(3) by simp
    then show ?thesis using keep by simp
  qed
  ultimately show ?thesis using r(1,5) a64 unfolding freed_def
    by (intro exI [of _ st'] exI [of _ "T(p := ts')"]) simp
qed

lemma free_big:
  assumes ok: "heap_ok st ps T L" and b: "(b, n) \<in> set L"
  shows "\<exists>st' ps' T' L'. free (at b 64 + 64) st = Some st' \<and>
    freed (at b 64) st' ps' T' L' (in_use ps T L - {(at b 64, 4096 * n - 64)}) \<and>
    hp_fw st' = hp_fw st \<and> set (frames ps' L') \<subseteq> set (frames ps L)"
proof -
  obtain L1 L2 where L: "L = L1 @ (b, n) # L2" using split_list [OF b] by blast
  have l: "large_ok st b n" using ok b by (auto simp: heap_ok_def)
  then have lb: "page_base b" "0 < n" "n < 2 ^ 20" "unat b + 4096 * n < 2 ^ 64" by (simp_all add: large_ok_def)
  obtain pg where pg: "hp_pages st b = Some pg" "mp_magic pg = MEM_BLOCK_MAGIC" "mp_numPages pg = of_nat n"
    using l by (auto simp: large_ok_def)
  obtain blk where blk: "hp_blocks st (at b 64) = Some blk" "blk\<lparr>mb_prev := 0, mb_next := 0\<rparr> = header (4096 * n - 64) False True b"
    using l by (auto simp: large_ok_def body_of_def)
  from blk(2) have bf: "mb_magic blk = MEM_BLOCK_MAGIC" "\<not> mb_isFree blk" "mb_isLarge blk" "mb_page blk = b"
    by (cases blk, simp add: header_def)+
  let ?F = "\<lambda>L. concat (map (\<lambda>(b, n). [frame b..<frame b + n]) L)"
  have f1: "frames ps L = (map frame ps @ ?F L1) @ [frame b..<frame b + n] @ ?F L2"
    and f2: "frames ps (L1 @ L2) = (map frame ps @ ?F L1) @ ?F L2" by (simp_all add: frames_def L)
  have "distinct (frames ps L)" using ok by (simp add: heap_ok_def)
  note dis = distinct_drop [OF this [unfolded f1], folded f2]
  have ok': "heap_ok st ps T (L1 @ L2)" using ok dis by (simp add: heap_ok_def L)
  have fr: "{frame b..<frame b + n} \<inter> set (frames ps (L1 @ L2)) = {}"
    using dis by simp
  obtain st' ps' T' where r: "free_large n b st = Some st'" "heap_ok st' ps' T' (L1 @ L2)"
    "in_use ps' T' (L1 @ L2) = in_use ps T (L1 @ L2)" "b \<in> set ps'" "T' b = [(64, 4032, True)]"
    and keep: "hp_fw st' = hp_fw st" "set (frames ps' (L1 @ L2)) \<subseteq> set (frames ps (L1 @ L2)) \<union> {frame b..<frame b + n}"
    using free_large_ok [OF ok' lb(1,4) fr] lb(2) by blast
  have a: "at b 64 + 64 = at b 128" using at_add [of b 64 64] by simp
  have un: "unat (of_nat n :: u32) = n" using lb(3) by (simp add: unsigned_of_nat take_bit_nat_eq_self)
  have "at b 64 - 64 = b" "b \<noteq> 0" "at b 128 - 64 = at b 64" using at_diff [of 64 128 b] lb(1) by (simp_all add: at_def page_base_def)
  then have code: "free (at b 64 + 64) st = Some st'"
    using r(1) blk(1) bf pg un at_0 [OF lb(1), of 128] a
    by (simp add: free_def MEM_BLOCK_DATA_OFFSET_def MEM_PG_BLOCK_OFFSET_def Let_def)
  have "(at b 64, 4096 * n - 64) \<notin> in_use ps T (L1 @ L2)"
  proof
    assume "(at b 64, 4096 * n - 64) \<in> in_use ps T (L1 @ L2)"
    then consider p j where "p \<in> set ps" "at b 64 = at p j" "(j, 4096 * n - 64, False) \<in> set (T p)"
      | c m where "(c, m) \<in> set (L1 @ L2)" "at b 64 = at c 64" by (auto simp: in_use_def tile_of_used)
    then show False
    proof cases
      case 1
      obtain fl where "page_ok st p (T p) fl" using heap_page [OF ok 1(1)] by blast
      then have "j < 4096" using page_tile(6) [of st p "T p" fl _ j] 1(3) by (auto simp: page_ok_def)
      then show False using at_large_neq [OF ok 1(1) b] 1(2) by metis
    next
      case 2
      have lc: "large_ok st c m" using ok' 2(1) by (auto simp: heap_ok_def)
      have "frame b = frame c" using frame_at [OF lb(1), of 64] frame_at [of c 64] lc 2(2) by (simp add: large_ok_def)
      moreover have "frame c \<in> set (frames ps (L1 @ L2))" using frame_in_large [OF 2(1)] lc by (simp add: frames_def large_ok_def)
      moreover have "frame b \<in> {frame b..<frame b + n}" using lb(2) by simp
      ultimately show False using fr by (metis IntI empty_iff)
    qed
  qed
  moreover have "in_use ps T L = insert (at b 64, 4096 * n - 64) (in_use ps T (L1 @ L2))" by (auto simp: in_use_def L)
  ultimately have "in_use ps' T' (L1 @ L2) = in_use ps T L - {(at b 64, 4096 * n - 64)}" using r(3) by auto
  moreover have "dead (at b 64) st'"
  proof -
    obtain fl where "page_ok st' b (T' b) fl" using heap_page [OF r(2,4)] by blast
    then show ?thesis using dead_tile [of st' b "T' b" fl _ 64 4032] r(5) by (auto simp: page_ok_def)
  qed
  moreover have "set (frames ps' (L1 @ L2)) \<subseteq> set (frames ps L)" using keep(2) unfolding f1 f2 by auto
  ultimately show ?thesis using code r(2) a at_0 [OF lb(1), of 128] keep(1) unfolding freed_def
    by (intro exI [of _ st'] exI [of _ ps'] exI [of _ T'] exI [of _ "L1 @ L2"]) simp
qed

text \<open>Both sizes of requests, with what happens to the frames.\<close>

lemma malloc_any:
  assumes "heap_ok st ps T L" and "fw_ok env (hp_fw st) ps L" and "0 < unat x" "unat x < 2 ^ 31"
  shows "\<exists>r st' ps' T' L'. malloc env x st = Some (r, st') \<and> heap_ok st' ps' T' L' \<and>
    (r = 0 \<and> in_use ps' T' L' = in_use ps T L \<and>
       (fst (he_allocPage env (hp_fw st)) = 0 \<and> (\<forall>p \<in> set ps. \<not> fits (align16 (unat x + 72)) (T p)) \<or>
        4032 < align16 (unat x + 72) \<and> fst (he_allocPages env (of_nat ((align16 (unat x + 72) + 64 + 4095) div 4096)) (hp_fw st)) = 0) \<or>
     r \<noteq> 0 \<and> new_block r (unat x) ps T L ps' T' L') \<and>
    fw_step env (hp_fw st) (set (frames ps L)) (hp_fw st') (set (frames ps' L'))"
proof (cases "align16 (unat x + 72) \<le> 4032")
  case True
  from malloc_small [OF assms(1-3) this] obtain r st' ps' T' where "malloc env x st = Some (r, st')" "heap_ok st' ps' T' L"
    "r = 0 \<and> fst (he_allocPage env (hp_fw st)) = 0 \<and> (\<forall>p \<in> set ps. \<not> fits (align16 (unat x + 72)) (T p)) \<and> ps' = ps \<and> T' = T \<or>
     r \<noteq> 0 \<and> new_block r (unat x) ps T L ps' T' L" "fw_step env (hp_fw st) (set (frames ps L)) (hp_fw st') (set (frames ps' L))"
    by (elim exE conjE) (rule that)
  then show ?thesis
    by (intro exI [of _ r] exI [of _ st'] exI [of _ ps'] exI [of _ T'] exI [of _ L]) blast
next
  case False
  then have "4032 < align16 (unat x + 72)" by simp
  from malloc_large_ok [OF assms(1,2,4) this] obtain r st' L' where "malloc env x st = Some (r, st')" "heap_ok st' ps T L'"
    "r = 0 \<and> 4032 < align16 (unat x + 72) \<and> fst (he_allocPages env (of_nat ((align16 (unat x + 72) + 64 + 4095) div 4096)) (hp_fw st)) = 0 \<and> L' = L \<or> r \<noteq> 0 \<and> new_block r (unat x) ps T L ps T L'"
    "fw_step env (hp_fw st) (set (frames ps L)) (hp_fw st') (set (frames ps L'))"
    by (elim exE conjE) (rule that)
  then show ?thesis
    by (intro exI [of _ r] exI [of _ st'] exI [of _ ps] exI [of _ T] exI [of _ L']) blast
qed

text \<open>The page behind the block at \<open>a\<close> ends, if it does, in a free block of 64 bytes.\<close>

definition before_end :: "addr list \<Rightarrow> (addr \<Rightarrow> tile list) \<Rightarrow> addr \<Rightarrow> nat \<Rightarrow> addr \<Rightarrow> bool" where
  "before_end ps T a s p \<longleftrightarrow> p \<in> set ps \<and> (\<exists>us j. a = at p j \<and> T p = us @ [(j, s, False), (4032, 64, True)])"

lemma tile_below:
  assumes "heap_ok st ps T L" and "p \<in> set ps" "(j, s, f) \<in> set (T p)"
  shows "j < 4096"
proof -
  have "tiles 64 (T p) 4096" using heap_page [OF assms(1,2)] by blast
  then show ?thesis using tiles_in [of 64 "T p" 4096 j s f] assms(3) by simp
qed

lemma free_any:
  assumes "heap_ok st ps T L" and "(a, s) \<in> in_use ps T L"
  shows "\<exists>st' ps' T' L'. free (a + 64) st = Some st' \<and> freed a st' ps' T' L' (in_use ps T L - {(a, s)}) \<and>
    hp_fw st' = hp_fw st \<and> set (frames ps' L') \<subseteq> set (frames ps L) \<and>
    (\<forall>p. before_end ps T a s p \<longrightarrow> p \<in> set ps' \<and> last (T' p) = (4032, 64, True))"
proof -
  from assms(2) consider p j where "p \<in> set ps" "a = at p j" "(j, s, False) \<in> set (T p)"
    | b n where "(b, n) \<in> set L" "a = at b 64" "s = 4096 * n - 64" by (auto simp: in_use_def tile_of_used)
  then show ?thesis
  proof cases
    case 1
    obtain st' T' where f: "free (a + 64) st = Some st'" "freed a st' ps T' L (in_use ps T L - {(a, s)})"
      "hp_fw st' = hp_fw st" and l: "\<forall>us. T p = us @ [(j, s, False), (4032, 64, True)] \<longrightarrow> last (T' p) = (4032, 64, True)"
      using free_small [OF assms(1) 1(1,3)] 1(2) by blast
    have "q \<in> set ps \<and> last (T' q) = (4032, 64, True)" if b: "before_end ps T a s q" for q
    proof -
      obtain us k where k: "q \<in> set ps" "a = at q k" "T q = us @ [(k, s, False), (4032, 64, True)]"
        using b unfolding before_end_def by blast
      have "(k, s, False) \<in> set (T q)" by (simp add: k(3))
      then have "k < 4096" "j < 4096" using tile_below [OF assms(1)] k(1) 1(1,3) by blast+
      then have "q = p" "k = j" using at_page_eq [OF assms(1) k(1) 1(1)] k(2) 1(2) by blast+
      then show ?thesis using l k by simp
    qed
    then show ?thesis using f by (intro exI [of _ st'] exI [of _ ps] exI [of _ T'] exI [of _ L]) simp
  next
    case 2
    have "\<not> before_end ps T a s p" for p
    proof
      assume "before_end ps T a s p"
      then obtain us k where k: "p \<in> set ps" "a = at p k" "T p = us @ [(k, s, False), (4032, 64, True)]"
        unfolding before_end_def by blast
      have "(k, s, False) \<in> set (T p)" by (simp add: k(3))
      then have "k < 4096" using tile_below [OF assms(1) k(1)] by blast
      then show False using at_large_neq [OF assms(1) k(1) 2(1)] k(2) 2(2) by blast
    qed
    then show ?thesis using free_big [OF assms(1) 2(1)] 2(2,3) by blast
  qed
qed

text \<open>Free neighbours in a page in order: only the last block of a page, and only one of 64 bytes.\<close>

lemma free_neighbours:
  assumes "heap_ok st ps T L" and "p \<in> set ps" "T p = us @ (j, s, True) # (k, r, True) # vs"
  shows "k + r = 4096" and "r = 64" and "vs = []"
proof -
  obtain fl where pg: "page_ok st p (T p) fl" "tiles 64 (T p) 4096" using heap_page [OF assms(1,2)] by blast
  have "coalesced (us @ (j, s, True) # (k, r, True) # vs)" using pg(1) assms(3) by (simp add: page_ok_def)
  then have k: "k + 64 = 4096"
    by (auto simp: coalesced_def successively_append_iff apart_def)
  obtain m where m: "tiles k ((k, r, True) # vs) 4096"
    using pg(2) assms(3) by (auto simp: tiles_append)
  then have "64 \<le> r" "k + r \<le> 4096" using tiles_in [OF m, of k r True] by simp_all
  with k show "k + r = 4096" "r = 64" by simp_all
  show "vs = []"
  proof (cases vs)
    case (Cons v ws)
    obtain a b c where v: "v = (a, b, c)" by (cases v)
    then have "a = k + r" "64 \<le> b" "a + b \<le> 4096" using m Cons tiles_in [OF m, of a b c] by simp_all
    then show ?thesis using \<open>k + r = 4096\<close> by simp
  qed
qed

text \<open>C37: An allocation of a heap in order gives a pointer 64 bytes into a block that was not in use and has room
  for the bytes that were asked for and the tag behind them; no other block comes into use or goes out of it,
  and the heap is in order. It fails, leaving the blocks in use as they are, only when no free block of a page
  is large enough and the firmware has no page left, or has not as many pages in a row as a large block needs.
  The size is any between 1 and \<open>2 ^ 31\<close>, on a page of the heap or on pages of its own.\<close>

theorem malloc_allocates:
  assumes "heap_ok st ps T L" and "fw_ok env (hp_fw st) ps L" and "0 < unat x" "unat x < 2 ^ 31"
  shows "\<exists>r st' ps' T' L'. malloc env x st = Some (r, st') \<and> heap_ok st' ps' T' L' \<and>
    (r = 0 \<and> in_use ps' T' L' = in_use ps T L \<and>
       (fst (he_allocPage env (hp_fw st)) = 0 \<and> (\<forall>p \<in> set ps. \<not> fits (align16 (unat x + 72)) (T p)) \<or>
        4032 < align16 (unat x + 72) \<and> fst (he_allocPages env (of_nat ((align16 (unat x + 72) + 64 + 4095) div 4096)) (hp_fw st)) = 0) \<or>
     (\<exists>a s. r = a + 64 \<and> unat x + 72 \<le> s \<and> (a, s) \<notin> in_use ps T L \<and> in_use ps' T' L' = insert (a, s) (in_use ps T L)))"
  using malloc_any [OF assms] unfolding new_block_def by blast

text \<open>C38: Freeing a block that is in use takes exactly this block out of use and leaves the heap in order: the
  pages are tiled and the free lists hold the free blocks. Free neighbours are merged, with one exception that
  the code makes and its comments do not: a free block of exactly 64 bytes at the end of a page is not merged
  with a block before it that becomes free, but stays the last block. Freeing the block again is found out.\<close>

theorem free_frees:
  assumes "heap_ok st ps T L" and "(a, s) \<in> in_use ps T L"
  shows "\<exists>st' ps' T' L'. free (a + 64) st = Some st' \<and> heap_ok st' ps' T' L' \<and>
    in_use ps' T' L' = in_use ps T L - {(a, s)} \<and>
    (\<forall>p us j n k m vs. p \<in> set ps' \<longrightarrow> T' p = us @ (j, n, True) # (k, m, True) # vs \<longrightarrow>
       vs = [] \<and> m = 64 \<and> k + m = 4096) \<and>
    (\<forall>p. before_end ps T a s p \<longrightarrow> p \<in> set ps' \<and> last (T' p) = (4032, 64, True)) \<and>
    free (a + 64) st' = None"
proof -
  obtain st' ps' T' L' where r: "free (a + 64) st = Some st'" "freed a st' ps' T' L' (in_use ps T L - {(a, s)})"
    and l: "\<forall>p. before_end ps T a s p \<longrightarrow> p \<in> set ps' \<and> last (T' p) = (4032, 64, True)"
    using free_any [OF assms] by blast
  then have "free (a + 64) st' = None" by (intro free_dead) (simp_all add: freed_def)
  moreover have "vs = [] \<and> m = 64 \<and> k + m = 4096"
    if "p \<in> set ps'" "T' p = us @ (j, n, True) # (k, m, True) # vs" for p us j n k m vs
    using free_neighbours [of st' ps' T' L', OF _ that] r(2) by (simp add: freed_def)
  ultimately show ?thesis using r l unfolding freed_def
    by (intro exI [of _ st'] exI [of _ ps'] exI [of _ T'] exI [of _ L'] conjI allI impI) auto
qed

section \<open>Blocks and bytes\<close>

lemma region_disj:
  assumes "4096 * f \<le> unat a" "unat a + s \<le> 4096 * (f + n)" and "4096 * g \<le> unat b" "unat b + r \<le> 4096 * (g + m)"
    and "f + n \<le> g" and "unat b + r \<le> 2 ^ 64"
  shows "ranges_disj a s b r" "ranges_disj b r a s"
proof -
  have "4096 * (f + n) \<le> 4096 * g" using assms(5) by (rule mult_le_mono2)
  then have "unat a + s \<le> unat b" using assms(2,3) by linarith
  then show "ranges_disj a s b r" by (rule ranges_disj_before [OF _ assms(6)])
  then show "ranges_disj b r a s" by (metis ranges_disj_def)
qed

lemma tiles_apart:
  "tiles i ts e \<Longrightarrow> (j, s, f) \<in> set ts \<Longrightarrow> (k, r, g) \<in> set ts \<Longrightarrow> (j, s, f) \<noteq> (k, r, g) \<Longrightarrow> j + s \<le> k \<or> k + r \<le> j"
proof (induction i ts e rule: tiles.induct)
  case (2 i j' s' f' ts e)
  then show ?case using tiles_in [of "j' + s'" ts e j s f] tiles_in [of "j' + s'" ts e k r g] by auto
qed simp

text \<open>The frames a block lies in.\<close>

lemma small_region:
  assumes "heap_ok st ps T L" and "p \<in> set ps" and "(j, s, f) \<in> set (T p)"
  shows "4096 * frame p \<le> unat (at p j)" "unat (at p j) + s \<le> 4096 * (frame p + 1)" "unat (at p j) + s \<le> 2 ^ 64"
    and "unat (at p j) = unat p + j" "page_base p" "tiles 64 (T p) 4096"
proof -
  obtain fl where pg: "page_base p" "tiles 64 (T p) 4096" using heap_page [OF assms(1,2)] by blast
  note js = tiles_in [OF pg(2) assms(3)]
  obtain w where w: "unat p = 4096 * w" "4096 * w + 4096 < 2 ^ 64" using pg(1) by (auto simp: page_base_def)
  have u: "unat (at p j) = unat p + j" using unat_at [OF pg(1), of j] js by simp
  then show "4096 * frame p \<le> unat (at p j)" "unat (at p j) + s \<le> 4096 * (frame p + 1)" "unat (at p j) + s \<le> 2 ^ 64"
    using w js by (simp_all add: frame_def)
  show "unat (at p j) = unat p + j" "page_base p" "tiles 64 (T p) 4096" using u pg by simp_all
qed

lemma large_region:
  assumes "heap_ok st ps T L" and "(b, n) \<in> set L"
  shows "4096 * frame b \<le> unat (at b 64)" "unat (at b 64) + (4096 * n - 64) \<le> 4096 * (frame b + n)"
    "unat (at b 64) + (4096 * n - 64) \<le> 2 ^ 64" "page_base b" "0 < n"
proof -
  have l: "large_ok st b n" using assms by (auto simp: heap_ok_def)
  then obtain w where w: "unat b = 4096 * w" "4096 * w + 4096 * n < 2 ^ 64" by (auto simp: large_ok_def page_base_def)
  have u: "unat (at b 64) = unat b + 64" using unat_at [of b 64] l by (simp add: large_ok_def)
  show "4096 * frame b \<le> unat (at b 64)" "unat (at b 64) + (4096 * n - 64) \<le> 4096 * (frame b + n)"
    "unat (at b 64) + (4096 * n - 64) \<le> 2 ^ 64" "page_base b" "0 < n"
    using w u l by (auto simp: frame_def large_ok_def)
qed

lemma interval_apart:
  fixes f g :: nat
  assumes "{f..<f + n} \<inter> {g..<g + m} = {}" and "0 < n" "0 < m"
  shows "f + n \<le> g \<or> g + m \<le> f"
proof (rule ccontr)
  assume "\<not> (f + n \<le> g \<or> g + m \<le> f)"
  then have "max f g \<in> {f..<f + n} \<inter> {g..<g + m}" using assms(2,3) by auto
  then show False using assms(1) by simp
qed

lemma large_apart:
  assumes ok: "heap_ok st ps T L" and b: "(b, n) \<in> set L" "(c, m) \<in> set L" "(b, n) \<noteq> (c, m)"
  shows "frame b + n \<le> frame c \<or> frame c + m \<le> frame b"
proof -
  let ?X = "map (\<lambda>(b, n). [frame b..<frame b + n]) L"
  note lb = large_region [OF ok b(1)] and lc = large_region [OF ok b(2)]
  have d: "distinct (concat ?X)" using ok by (simp add: heap_ok_def frames_def)
  have mem: "[frame b..<frame b + n] \<in> set ?X" "[frame c..<frame c + m] \<in> set ?X" using b by force+
  have "[frame b..<frame b + n] \<noteq> [frame c..<frame c + m]"
  proof
    assume eq: "[frame b..<frame b + n] = [frame c..<frame c + m]"
    then have "n = m" by (metis add_diff_cancel_left' length_upt)
    moreover have "frame b = frame c" using eq lb(5) lc(5) by (metis add_gr_0 hd_upt less_add_same_cancel1)
    ultimately show False using b(3) frame_eq [OF lb(4) lc(4)] by simp
  qed
  then have "set [frame b..<frame b + n] \<inter> set [frame c..<frame c + m] = {}" using d mem unfolding distinct_concat_iff by blast
  then show ?thesis using interval_apart lb(5) lc(5) by simp
qed

lemma small_large_apart:
  assumes ok: "heap_ok st ps T L" and p: "p \<in> set ps" and b: "(b, n) \<in> set L"
  shows "frame p + 1 \<le> frame b \<or> frame b + n \<le> frame p"
proof -
  let ?X = "map (\<lambda>(b, n). [frame b..<frame b + n]) L"
  have "set (map frame ps) \<inter> set (concat ?X) = {}" using ok by (simp only: heap_ok_def frames_def distinct_append)
  moreover have "frame p \<in> set (map frame ps)" using p by simp
  moreover have "{frame b..<frame b + n} \<subseteq> set (concat ?X)" using b by force
  ultimately have "frame p \<notin> {frame b..<frame b + n}" by blast
  then show ?thesis by auto
qed

text \<open>The blocks in use of a heap in order share no byte.\<close>

lemma blocks_disjoint:
  assumes ok: "heap_ok st ps T L" and u: "(a, s) \<in> in_use ps T L" "(b, r) \<in> in_use ps T L" "(a, s) \<noteq> (b, r)"
  shows "ranges_disj a s b r"
proof -
  consider (ss) p j q k where "p \<in> set ps" "q \<in> set ps" "a = at p j" "b = at q k" "(j, s, False) \<in> set (T p)" "(k, r, False) \<in> set (T q)"
    | (sl) p j c m where "p \<in> set ps" "a = at p j" "(j, s, False) \<in> set (T p)" "(c, m) \<in> set L" "b = at c 64" "r = 4096 * m - 64"
    | (ls) q k c m where "q \<in> set ps" "b = at q k" "(k, r, False) \<in> set (T q)" "(c, m) \<in> set L" "a = at c 64" "s = 4096 * m - 64"
    | (ll) c m d n where "(c, m) \<in> set L" "a = at c 64" "s = 4096 * m - 64" "(d, n) \<in> set L" "b = at d 64" "r = 4096 * n - 64"
    using u(1,2) unfolding in_use_def tile_of_used by blast
  then show ?thesis
  proof cases
    case ss
    note x = small_region [OF ok ss(1,5), folded ss(3)] and y = small_region [OF ok ss(2,6), folded ss(4)]
    show ?thesis
    proof (cases "p = q")
      case True
      have "(j, s, False) \<noteq> (k, r, False)" using u(3) ss(3,4) True by auto
      then have "j + s \<le> k \<or> k + r \<le> j" using tiles_apart [OF x(6) ss(5)] ss(6) True by blast
      then have "unat a + s \<le> unat b \<or> unat b + r \<le> unat a" using x(4) y(4) True by auto
      then show ?thesis using ranges_disj_before x(3) y(3) by (metis ranges_disj_def)
    next
      case False
      then have "frame p \<noteq> frame q" using frame_eq [OF x(5) y(5)] by simp
      then have "frame p + 1 \<le> frame q \<or> frame q + 1 \<le> frame p" by auto
      then show ?thesis using region_disj [OF x(1,2) y(1,2) _ y(3)] region_disj [OF y(1,2) x(1,2) _ x(3)] by blast
    qed
  next
    case sl
    note x = small_region [OF ok sl(1,3), folded sl(2)] and y = large_region [OF ok sl(4), folded sl(5,6)]
    show ?thesis using small_large_apart [OF ok sl(1,4)] region_disj [OF x(1,2) y(1,2) _ y(3)] region_disj [OF y(1,2) x(1,2) _ x(3)]
      by blast
  next
    case ls
    note x = small_region [OF ok ls(1,3), folded ls(2)] and y = large_region [OF ok ls(4), folded ls(5,6)]
    show ?thesis using small_large_apart [OF ok ls(1,4)] region_disj [OF x(1,2) y(1,2) _ y(3)] region_disj [OF y(1,2) x(1,2) _ x(3)]
      by blast
  next
    case ll
    note x = large_region [OF ok ll(1), folded ll(2,3)] and y = large_region [OF ok ll(4), folded ll(5,6)]
    have "(c, m) \<noteq> (d, n)" using u(3) ll by auto
    from large_apart [OF ok ll(1,4) this] show ?thesis
      using region_disj [OF x(1,2) y(1,2) _ y(3)] region_disj [OF y(1,2) x(1,2) _ x(3)] by blast
  qed
qed

section \<open>The first page\<close>

lemma init_ok:
  assumes "NEXBOOT_MIN_MEM \<le> memSize memmap" and q: "he_allocPage env (hp_fw st) = (q, fw)" "page_base q"
  shows "\<exists>st'. NbMemInit env memmap st = Some st' \<and> heap_ok st' [q] (\<lambda>_. [(64, 4032, True)]) [] \<and> hp_fw st' = fw"
proof -
  define B where "B = \<lparr>mb_magic = MEM_BLOCK_MAGIC, mb_size = 4032, mb_isFree = True, mb_isLarge = False, mb_page = q, mb_prev = 0, mb_next = 0\<rparr>"
  define Q where "Q = \<lparr>mp_magic = MEM_BLOCK_MAGIC, mp_freeSize = 4032, mp_blockList = at q 64,
       mp_numPages = (case hp_pages st q of None \<Rightarrow> 0 | Some p \<Rightarrow> mp_numPages p), mp_next = 0, mp_prev = 0\<rparr>"
  define st' where "st' = st\<lparr>hp_blocks := (hp_blocks st)(at q 64 \<mapsto> B), hp_tags := (hp_tags st)(at q 4088 \<mapsto> 4032),
    hp_pages := (hp_pages st)(q \<mapsto> Q), hp_pageList := q, hp_fw := fw\<rparr>"
  have "size_end (at q 64) 4032 = at q 4088" using size_end_at [of 4032 q 64] by simp
  moreover have "q \<noteq> 0" using q(2) by (simp add: page_base_def)
  ultimately have "NbMemInit env memmap st = Some st'"
    using assms(1) q(1) by (cases st) (simp add: NbMemInit_def memPageInit_def upd_mempage_def memBlockInit_def put_tag_def put_block_def
      Let_def PAGE_SIZE_def MEM_PG_BLOCK_OFFSET_def st'_def B_def Q_def at_def not_less)
  moreover have "page_ok st' q [(64, 4032, True)] [64]"
    using q(2) by (simp add: page_ok_def page_inv_def coalesced_def tile_ok_def st'_def body_of_def links_of_def B_def Q_def header_def)
  then have "heap_ok st' [q] (\<lambda>_. [(64, 4032, True)]) []"
    by (auto simp: heap_ok_def frames_def) (simp_all add: st'_def Q_def)
  ultimately show ?thesis by (intro exI [of _ st']) (simp add: st'_def)
qed

section \<open>Clients\<close>

text \<open>A client of the heap: it asks for blocks and gives back, in any order, blocks it holds. The list of
  what it holds has the pointers it got with the sizes it asked for; a request that fails adds nothing.
  \<open>Release i\<close> gives back the \<open>i\<close>-th of them.\<close>

datatype request = Alloc u64 | Release nat

fun client :: "'f heapEnv \<Rightarrow> request list \<Rightarrow> 'f heap \<Rightarrow> (addr \<times> u64) list \<Rightarrow> ('f heap \<times> (addr \<times> u64) list) option" where
  "client env [] st live = Some (st, live)"
| "client env (Alloc x # rqs) st live =
     (case malloc env x st of None \<Rightarrow> None
      | Some (r, st) \<Rightarrow> client env rqs st (if r = 0 then live else (r, x) # live))"
| "client env (Release i # rqs) st live =
     (if i < length live
      then (case free (fst (live ! i)) st of None \<Rightarrow> None
            | Some st \<Rightarrow> client env rqs st (take i live @ drop (Suc i) live))
      else client env rqs st live)"

text \<open>The contract of the firmware over a whole run: \<open>used\<close> are the frames it has handed out; it never
  hands one out a second time, nor page 0, nor the end of the address space.\<close>

definition fw_honest :: "'f heapEnv \<Rightarrow> ('f \<Rightarrow> nat set) \<Rightarrow> bool" where
  "fw_honest env used \<longleftrightarrow>
     (\<forall>fw q fw'. he_allocPage env fw = (q, fw') \<longrightarrow> used fw \<subseteq> used fw' \<and>
        (q = 0 \<or> page_base q \<and> frame q \<notin> used fw \<and> frame q \<in> used fw')) \<and>
     (\<forall>k fw b fw'. he_allocPages env k fw = (b, fw') \<longrightarrow> used fw \<subseteq> used fw' \<and>
        (b = 0 \<or> page_base b \<and> unat b + 4096 * unat k < 2 ^ 64 \<and>
           {frame b..<frame b + unat k} \<inter> used fw = {} \<and> {frame b..<frame b + unat k} \<subseteq> used fw'))"

lemma honest_ok:
  assumes "fw_honest env used" and "set (frames ps L) \<subseteq> used fw"
  shows "fw_ok env fw ps L"
proof -
  obtain q fw' where q: "he_allocPage env fw = (q, fw')" by fastforce
  have "q = 0 \<or> page_base q \<and> frame q \<notin> set (frames ps L)"
    using assms q unfolding fw_honest_def by blast
  moreover have "b = 0 \<or> page_base b \<and> unat b + 4096 * unat k < 2 ^ 64 \<and> {frame b..<frame b + unat k} \<inter> set (frames ps L) = {}"
    if "he_allocPages env k fw = (b, fw')" for k b fw'
    using assms that unfolding fw_honest_def by blast
  then have "let b = fst (he_allocPages env k fw) in b = 0 \<or> page_base b \<and> unat b + 4096 * unat k < 2 ^ 64 \<and>
      {frame b..<frame b + unat k} \<inter> set (frames ps L) = {}" for k
    by (metis prod.collapse)
  ultimately show ?thesis using q by (simp add: fw_ok_def)
qed

lemma honest_step:
  assumes "fw_honest env used" and "fw_step env fw F fw' F'" and "F \<subseteq> used fw"
  shows "F' \<subseteq> used fw'"
  using assms(2) unfolding fw_step_def
proof (elim disjE exE conjE)
  fix q
  assume q: "he_allocPage env fw = (q, fw')" "F' \<subseteq> (if q = 0 then F else insert (frame q) F)"
  have "used fw \<subseteq> used fw'" "q = 0 \<or> frame q \<in> used fw'" using assms(1) q(1) unfolding fw_honest_def by blast+
  then show ?thesis using q(2) assms(3) by (auto split: if_splits)
next
  fix k b
  assume b: "he_allocPages env k fw = (b, fw')" "F' \<subseteq> (if b = 0 then F else F \<union> {frame b..<frame b + unat k})"
  have "used fw \<subseteq> used fw'" "b = 0 \<or> {frame b..<frame b + unat k} \<subseteq> used fw'" using assms(1) b(1) unfolding fw_honest_def by blast+
  then show ?thesis using b(2) assms(3) by (auto split: if_splits)
qed (use assms(3) in auto)

text \<open>Every block a client holds is in use, and no two are the same.\<close>

definition held :: "(addr \<times> u64) list \<Rightarrow> (addr \<times> nat) set \<Rightarrow> bool" where
  "held live U \<longleftrightarrow> distinct (map fst live) \<and>
     (\<forall>(r, x) \<in> set live. \<exists>a s. r = a + 64 \<and> (a, s) \<in> U \<and> unat x + 72 \<le> s)"

lemma held_block:
  assumes "held live U" and "(r, x) \<in> set live"
  obtains a s where "r = a + 64" "(a, s) \<in> U" "unat x + 72 \<le> s"
  using assms unfolding held_def by fast

lemma held_drop:
  assumes "held live U" and i: "i < length live" and "fst (live ! i) = a + 64"
  shows "held (take i live @ drop (Suc i) live) (U - {(a, s)})"
proof -
  let ?rest = "take i live @ drop (Suc i) live"
  have live: "live = take i live @ live ! i # drop (Suc i) live" by (rule id_take_nth_drop [OF i])
  have "distinct (map fst (take i live) @ fst (live ! i) # map fst (drop (Suc i) live))"
    using assms(1) live unfolding held_def by (metis list.simps(9) map_append)
  then have d: "distinct (map fst ?rest)" "fst (live ! i) \<notin> fst ` set ?rest" by auto
  have "set ?rest \<subseteq> set live" by (auto dest: in_set_takeD in_set_dropD)
  then have "\<exists>b t. r = b + 64 \<and> (b, t) \<in> U - {(a, s)} \<and> unat x + 72 \<le> t" if m: "(r, x) \<in> set ?rest" for r x
  proof -
    have "(r, x) \<in> set live" using m \<open>set ?rest \<subseteq> set live\<close> by blast
    then obtain b t where b: "r = b + 64" "(b, t) \<in> U" "unat x + 72 \<le> t" by (rule held_block [OF assms(1)])
    moreover have "r \<noteq> a + 64" using d(2) m assms(3) by force
    ultimately show ?thesis by auto
  qed
  then show ?thesis using d(1) unfolding held_def by blast
qed

definition run_ok :: "('f \<Rightarrow> nat set) \<Rightarrow> 'f heap \<Rightarrow> (addr \<times> u64) list \<Rightarrow> bool" where
  "run_ok used st live \<longleftrightarrow> (\<exists>ps T L. heap_ok st ps T L \<and> set (frames ps L) \<subseteq> used (hp_fw st) \<and> held live (in_use ps T L))"

lemma same_address:
  assumes "heap_ok st ps T L" and "(a, s) \<in> in_use ps T L" "(a, t) \<in> in_use ps T L" and "0 < s" "0 < t"
  shows "s = t"
proof (rule ccontr)
  assume "s \<noteq> t"
  then have "ranges_disj a s a t" using blocks_disjoint [OF assms(1-3)] by simp
  then show False using assms(4,5) unfolding ranges_disj_def by blast
qed

lemma client_alloc:
  assumes fw: "fw_honest env used" and ok: "run_ok used st live" and x: "unat x < 2 ^ 31"
  shows "\<exists>r st'. malloc env x st = Some (r, st') \<and> run_ok used st' (if r = 0 then live else (r, x) # live)"
proof (cases "x = 0")
  case True
  then show ?thesis using ok by (simp add: malloc_def)
next
  case False
  then have x0: "0 < unat x" using word_unat_eq_iff [of x 0] by simp
  obtain ps T L where h: "heap_ok st ps T L" "set (frames ps L) \<subseteq> used (hp_fw st)" "held live (in_use ps T L)"
    using ok unfolding run_ok_def by blast
  obtain r st' ps' T' L' where m: "malloc env x st = Some (r, st')" "heap_ok st' ps' T' L'"
    "r = 0 \<and> in_use ps' T' L' = in_use ps T L \<or> r \<noteq> 0 \<and> new_block r (unat x) ps T L ps' T' L'"
    "fw_step env (hp_fw st) (set (frames ps L)) (hp_fw st') (set (frames ps' L'))"
    using malloc_any [OF h(1) honest_ok [OF fw h(2)] x0 x] by blast
  have "held (if r = 0 then live else (r, x) # live) (in_use ps' T' L')"
  proof (cases "r = 0")
    case True
    then show ?thesis using m(3) h(3) by simp
  next
    case False
    then obtain a s where a: "r = a + 64" "unat x + 72 \<le> s" "(a, s) \<notin> in_use ps T L"
      "in_use ps' T' L' = insert (a, s) (in_use ps T L)" using m(3) unfolding new_block_def by blast
    have "r' \<noteq> r" if mem: "(r', y) \<in> set live" for r' y
    proof
      assume e: "r' = r"
      obtain b t where t: "r' = b + 64" "(b, t) \<in> in_use ps T L" "unat y + 72 \<le> t" by (rule held_block [OF h(3) mem])
      then show False using same_address [OF m(2), of a s t] a e by auto
    qed
    then have "distinct (map fst ((r, x) # live))" using h(3) unfolding held_def by force
    moreover have "\<exists>b t. r' = b + 64 \<and> (b, t) \<in> in_use ps' T' L' \<and> unat y + 72 \<le> t"
      if m: "(r', y) \<in> set ((r, x) # live)" for r' y
    proof (cases "(r', y) = (r, x)")
      case False
      then have "(r', y) \<in> set live" using m by auto
      then show ?thesis by (rule held_block [OF h(3)]) (use a(4) in blast)
    qed (use a in auto)
    ultimately show ?thesis using False unfolding held_def by auto
  qed
  then show ?thesis using m(1,2) honest_step [OF fw m(4) h(2)] unfolding run_ok_def by blast
qed

lemma client_release:
  assumes ok: "run_ok used st live" and i: "i < length live"
  shows "\<exists>st'. free (fst (live ! i)) st = Some st' \<and> run_ok used st' (take i live @ drop (Suc i) live)"
proof -
  let ?rest = "take i live @ drop (Suc i) live"
  obtain ps T L where h: "heap_ok st ps T L" "set (frames ps L) \<subseteq> used (hp_fw st)" "held live (in_use ps T L)"
    using ok unfolding run_ok_def by blast
  obtain r x where r: "live ! i = (r, x)" by fastforce
  then have "(r, x) \<in> set live" using nth_mem [OF i] by simp
  then obtain a s where a: "r = a + 64" "(a, s) \<in> in_use ps T L" by (rule held_block [OF h(3)])
  obtain st' ps' T' L' where f: "free (a + 64) st = Some st'" "freed a st' ps' T' L' (in_use ps T L - {(a, s)})"
    "hp_fw st' = hp_fw st" "set (frames ps' L') \<subseteq> set (frames ps L)" using free_any [OF h(1) a(2)] by blast
  have "held ?rest (in_use ps T L - {(a, s)})" by (rule held_drop [OF h(3) i]) (simp add: r a(1))
  then have "run_ok used st' ?rest"
    using f h(2) unfolding run_ok_def freed_def by (intro exI [of _ ps'] exI [of _ T'] exI [of _ L']) auto
  then show ?thesis using f(1) a(1) r by simp
qed

lemma client_runs:
  assumes "fw_honest env used" and "\<forall>x. Alloc x \<in> set rqs \<longrightarrow> unat x < 2 ^ 31" and "run_ok used st live"
  shows "\<exists>st' live'. client env rqs st live = Some (st', live') \<and> run_ok used st' live'"
  using assms(2,3)
proof (induction rqs arbitrary: st live)
  case (Cons rq rqs)
  show ?case
  proof (cases rq)
    case (Alloc x)
    obtain r st' where "malloc env x st = Some (r, st')" "run_ok used st' (if r = 0 then live else (r, x) # live)"
      using client_alloc [OF assms(1) Cons.prems(2), of x] Cons.prems(1) Alloc by auto
    then show ?thesis using Cons.IH Cons.prems(1) Alloc by simp
  next
    case (Release i)
    show ?thesis
    proof (cases "i < length live")
      case True
      obtain st' where "free (fst (live ! i)) st = Some st'" "run_ok used st' (take i live @ drop (Suc i) live)"
        using client_release [OF Cons.prems(2) True] by blast
      then show ?thesis using Cons.IH Cons.prems(1) Release True by simp
    qed (use Cons Release in simp)
  qed
qed simp

text \<open>What a client may write to reaches neither the data nor the header of another block it holds.\<close>

lemma held_apart:
  assumes "run_ok used st live" and "i < length live" "j < length live" "i \<noteq> j"
  shows "ranges_disj (fst (live ! i)) (unat (snd (live ! i))) (fst (live ! j) - 64) (64 + unat (snd (live ! j)))"
proof -
  obtain ps T L where h: "heap_ok st ps T L" "held live (in_use ps T L)" using assms(1) unfolding run_ok_def by blast
  obtain r x q y where r: "live ! i = (r, x)" and q: "live ! j = (q, y)" by fastforce
  have mem: "(r, x) \<in> set live" "(q, y) \<in> set live" using nth_mem [OF assms(2)] nth_mem [OF assms(3)] r q by simp_all
  obtain a s where a: "r = a + 64" "(a, s) \<in> in_use ps T L" "unat x + 72 \<le> s" by (rule held_block [OF h(2) mem(1)])
  obtain b t where b: "q = b + 64" "(b, t) \<in> in_use ps T L" "unat y + 72 \<le> t" by (rule held_block [OF h(2) mem(2)])
  have "map fst live ! i \<noteq> map fst live ! j"
    using h(2) assms(2-4) unfolding held_def by (simp add: distinct_conv_nth)
  then have "r \<noteq> q" using r q assms(2,3) by simp
  then have "ranges_disj a s b t" using blocks_disjoint [OF h(1) a(2) b(2)] a(1) b(1) by auto
  then have "ranges_disj (a + of_nat 64) (unat x) (b + of_nat 0) (64 + unat y)"
    using a(3) b(3) by (intro ranges_disj_sub) auto
  then show ?thesis using r q a(1) b(1) by simp
qed

text \<open>C39: A client of the heap, from the set-up of the first page on, that asks for blocks of less than
  \<open>2 ^ 31\<close> bytes and gives back blocks it holds, in any number and order: no call fails a check of the heap,
  and the blocks it holds at the end (and so after every request) share no byte: the bytes it asked for in one
  block reach neither the bytes nor the header of another. The firmware must not hand out a page twice.\<close>

theorem clients_apart:
  assumes "fw_honest env used" and "NEXBOOT_MIN_MEM \<le> memSize memmap" and "fst (he_allocPage env (hp_fw st)) \<noteq> 0"
    and "\<forall>x. Alloc x \<in> set rqs \<longrightarrow> unat x < 2 ^ 31"
  shows "\<exists>st0 st' live. NbMemInit env memmap st = Some st0 \<and> client env rqs st0 [] = Some (st', live) \<and>
    (\<forall>i < length live. \<forall>j < length live. i \<noteq> j \<longrightarrow>
       ranges_disj (fst (live ! i)) (unat (snd (live ! i))) (fst (live ! j) - 64) (64 + unat (snd (live ! j))))"
proof -
  obtain q fw where q: "he_allocPage env (hp_fw st) = (q, fw)" by fastforce
  then have pb: "page_base q" "frame q \<in> used fw" using assms(1,3) unfolding fw_honest_def by auto
  from init_ok [OF assms(2) q pb(1)] obtain st0 where st0: "NbMemInit env memmap st = Some st0"
    "heap_ok st0 [q] (\<lambda>_. [(64, 4032, True)]) []" "hp_fw st0 = fw" by blast
  have "run_ok used st0 []"
    unfolding run_ok_def using st0(2,3) pb(2)
    by (intro exI [of _ "[q]"] exI [of _ "\<lambda>_. [(64, 4032, True)]"] exI [of _ "[]"]) (simp add: held_def frames_def)
  then obtain st' live where "client env rqs st0 [] = Some (st', live)" "run_ok used st' live"
    using client_runs [OF assms(1,4)] by blast
  with st0(1) held_apart show ?thesis by blast
qed


section \<open>Examples\<close>

text \<open>A firmware that hands out one page after the other, from \<open>0x10000\<close> on.\<close>

definition heap_env :: "addr heapEnv" where
  "heap_env = \<lparr>he_allocPage = (\<lambda>a. (a, a + 4096)), he_allocPages = (\<lambda>n a. (a, a + 4096 * ucast n))\<rparr>"

definition heap0 :: "addr heap" where
  "heap0 = \<lparr>hp_blocks = Map.empty, hp_pages = Map.empty, hp_tags = Map.empty, hp_pageList = 0, hp_fw = 0x10000\<rparr>"

lemma heap_start:
  obtains st where "NbMemInit heap_env [(1, 0x1000000)] heap0 = Some st" "heap_ok st [0x10000] (\<lambda>_. [(64, 4032, True)]) []"
    "fw_ok heap_env (hp_fw st) [0x10000] []"
proof -
  have "NEXBOOT_MIN_MEM \<le> memSize [(1, 0x1000000)]" by (simp add: NEXBOOT_MIN_MEM_def memSize_def MEM_FREE_def)
  moreover have q: "page_base 0x10000" by (simp add: page_base_def)
  ultimately obtain st where st: "NbMemInit heap_env [(1, 0x1000000)] heap0 = Some st"
    "heap_ok st [0x10000] (\<lambda>_. [(64, 4032, True)]) []" "hp_fw st = 0x11000"
    using init_ok [of "[(1, 0x1000000)]" heap_env heap0 "0x10000" "0x11000"] by (auto simp: heap_env_def heap0_def)
  have "fw_ok heap_env 0x11000 [0x10000] []"
  proof -
    have "69632 + 4096 * unat k < 18446744073709551616" for k :: u32
    proof -
      have "unat k < 4294967296" using unsigned_less [of k] by simp
      then show ?thesis by linarith
    qed
    then show ?thesis by (auto simp: fw_ok_def heap_env_def frames_def frame_def page_base_def)
  qed
  with st that show ?thesis by simp
qed

lemma heap_first:
  assumes "heap_ok st [0x10000] (\<lambda>_. [(64, 4032, True)]) []" "fw_ok heap_env (hp_fw st) [0x10000] []"
  shows "\<exists>r st' ps' T'. malloc heap_env 100 st = Some (r, st') \<and> heap_ok st' ps' T' [] \<and>
    new_block r 100 [0x10000] (\<lambda>_. [(64, 4032, True)]) [] ps' T' []"
proof -
  have "align16 (unat (100 :: u64) + 72) = 176" by (simp add: align16_def)
  moreover have "fits 176 [(64, 4032, True)]" by (auto simp: fits_def)
  ultimately show ?thesis using malloc_small [OF assms, of 100] by auto
qed

theorem malloc_allocates_witness:
  "\<exists>st r st' ps' T' L'. NbMemInit heap_env [(1, 0x1000000)] heap0 = Some st \<and> malloc heap_env 100 st = Some (r, st') \<and>
    heap_ok st' ps' T' L'"
proof -
  obtain st where st: "NbMemInit heap_env [(1, 0x1000000)] heap0 = Some st" "heap_ok st [0x10000] (\<lambda>_. [(64, 4032, True)]) []"
    "fw_ok heap_env (hp_fw st) [0x10000] []" by (rule heap_start)
  have "0 < unat (100 :: u64)" "unat (100 :: u64) < 2 ^ 31" by simp_all
  from malloc_allocates [OF st(2,3) this] obtain r st' ps' T' L' where "malloc heap_env 100 st = Some (r, st')" "heap_ok st' ps' T' L'"
    by (elim exE conjE) (rule that)
  with st(1) show ?thesis by blast
qed

theorem free_frees_witness:
  "\<exists>st r st1 st2. NbMemInit heap_env [(1, 0x1000000)] heap0 = Some st \<and> malloc heap_env 100 st = Some (r, st1) \<and>
    free r st1 = Some st2 \<and> free r st2 = None"
proof -
  obtain st where st: "NbMemInit heap_env [(1, 0x1000000)] heap0 = Some st" "heap_ok st [0x10000] (\<lambda>_. [(64, 4032, True)]) []"
    "fw_ok heap_env (hp_fw st) [0x10000] []" by (rule heap_start)
  obtain r st1 ps' T' where m: "malloc heap_env 100 st = Some (r, st1)" "heap_ok st1 ps' T' []"
    "new_block r 100 [0x10000] (\<lambda>_. [(64, 4032, True)]) [] ps' T' []" using heap_first [OF st(2,3)] by blast
  from m(3) obtain a s where a: "r = a + 64" "(a, s) \<in> in_use ps' T' []" unfolding new_block_def by blast
  from free_frees [OF m(2) a(2)] st(1) m(1) a(1) show ?thesis by blast
qed

text \<open>A firmware with a thousand pages from \<open>0x10000\<close> on, which it hands out in a row until they are gone; its
  state counts them.\<close>

definition pool_env :: "nat heapEnv" where
  "pool_env = \<lparr>he_allocPage = (\<lambda>n. if n < 1000 then (of_nat (4096 * (n + 16)), n + 1) else (0, n)),
     he_allocPages = (\<lambda>k n. if n + unat k \<le> 1000 then (of_nat (4096 * (n + 16)), n + unat k) else (0, n))\<rparr>"

definition pool0 :: "nat heap" where
  "pool0 = \<lparr>hp_blocks = Map.empty, hp_pages = Map.empty, hp_tags = Map.empty, hp_pageList = 0, hp_fw = 0\<rparr>"

lemma pool_page:
  assumes "n \<le> 1000"
  shows "unat (of_nat (4096 * (n + 16)) :: addr) = 4096 * (n + 16)" and "page_base (of_nat (4096 * (n + 16)))"
    and "frame (of_nat (4096 * (n + 16))) = n + 16"
proof -
  show u: "unat (of_nat (4096 * (n + 16)) :: addr) = 4096 * (n + 16)"
    using assms by (subst unsigned_of_nat) (simp add: take_bit_nat_eq_self del: of_nat_mult of_nat_add)
  then show "frame (of_nat (4096 * (n + 16))) = n + 16" by (simp add: frame_def)
  have "of_nat (4096 * (n + 16)) \<noteq> (0 :: addr)" using u by (metis mult_eq_0_iff add_is_0 unat_0 zero_neq_numeral)
  then show "page_base (of_nat (4096 * (n + 16)))" unfolding page_base_def u using assms by auto
qed

lemma pool_honest: "fw_honest pool_env (\<lambda>n. {16..<n + 16})"
  unfolding fw_honest_def
proof (intro conjI allI impI)
  fix n q n' assume "he_allocPage pool_env n = (q, n')"
  then have "q = 0 \<and> n' = n \<or> n < 1000 \<and> q = of_nat (4096 * (n + 16)) \<and> n' = n + 1"
    by (auto simp: pool_env_def split: if_splits)
  then show "{16..<n + 16} \<subseteq> {16..<n' + 16}" "q = 0 \<or> page_base q \<and> frame q \<notin> {16..<n + 16} \<and> frame q \<in> {16..<n' + 16}"
    using pool_page [of n] by auto
next
  fix k :: u32 and n b n' assume "he_allocPages pool_env k n = (b, n')"
  then have "b = 0 \<and> n' = n \<or> n + unat k \<le> 1000 \<and> b = of_nat (4096 * (n + 16)) \<and> n' = n + unat k"
    by (auto simp: pool_env_def split: if_splits)
  then show "{16..<n + 16} \<subseteq> {16..<n' + 16}" "b = 0 \<or> page_base b \<and> unat b + 4096 * unat k < 2 ^ 64 \<and>
      {frame b..<frame b + unat k} \<inter> {16..<n + 16} = {} \<and> {frame b..<frame b + unat k} \<subseteq> {16..<n' + 16}"
    using pool_page [of n] by auto
qed

theorem clients_apart_witness:
  "\<exists>st0 st' live. NbMemInit pool_env [(1, 0x1000000)] pool0 = Some st0 \<and>
    client pool_env [Alloc 100, Alloc 5000, Alloc 200, Release 1, Alloc 4000, Release 2, Alloc 64] st0 [] = Some (st', live) \<and>
    (\<forall>i < length live. \<forall>j < length live. i \<noteq> j \<longrightarrow>
       ranges_disj (fst (live ! i)) (unat (snd (live ! i))) (fst (live ! j) - 64) (64 + unat (snd (live ! j))))"
proof (rule clients_apart [OF pool_honest])
  show "NEXBOOT_MIN_MEM \<le> memSize [(1, 0x1000000)]" by (simp add: NEXBOOT_MIN_MEM_def memSize_def MEM_FREE_def)
  show "fst (he_allocPage pool_env (hp_fw pool0)) \<noteq> 0" by (simp add: pool_env_def pool0_def)
  show "\<forall>x. Alloc x \<in> set [Alloc 100, Alloc 5000, Alloc 200, Release 1, Alloc 4000, Release 2, Alloc 64] \<longrightarrow> unat x < 2 ^ 31"
    by auto
qed



end
