(* ===== verification/Spec2Isabelle.thy ===== *)
theory Spec2Isabelle
  imports NkList LibcString Printf TimeEvents ConfLex ConfParse FatTable FatDir FatMount AddrSpace PageAlloc Vfs Sched Heap
begin

text \<open>
  \<^bold>\<open>NexNix.\<close> NexNix is an operating system: a boot loader (\<open>source/nexboot\<close>) that reads its
  configuration and the kernel from a volume, a kernel (\<open>source/nexke\<close>), and a small C library
  (\<open>source/libraries/libc\<close>) that both are linked with. The loader's drivers find disks and volumes,
  its VFS mounts a file system on a volume and hands files to the shell, which runs the
  configuration; the kernel manages memory, threads and timed events on the machine it is given.

  \<^bold>\<open>Conventions.\<close> The targets are 64-bit and little-endian, and \<open>char\<close> is signed. Addresses are 64-bit
  words; memory is a partial map of bytes, or a heap split by field for linked structures. Every
  operation that can fault returns an option: \<open>None\<close> stands for undefined behaviour (an unmapped
  address, an index outside an array, signed overflow, division by zero), a failed assertion, or a
  loop that does not end. Functions that may not end are \<open>partial_function (option)\<close>, so that a
  theorem that gives \<open>Some\<close> also says that the code returns; no fuel is used. Results the code
  reports as failures are values (\<open>None\<close> inside \<open>Some\<close>, \<open>False\<close>, or a constructor). Code that is not
  in the repository (the lists, arrays and strings of libnex, firmware) and hardware are arguments of
  the definitions, and what is assumed of them is written in the hypotheses.

  \<^bold>\<open>Theories.\<close>
  \<^item> \<^theory_text>\<open>Prelude\<close>: machine types, C integers, byte-addressed memory, little-endian loads and stores.
  \<^item> \<^theory_text>\<open>LibcString\<close>: \<open>libc/string/*.c\<close>. Copies are exact on each alignment path of \<open>memcpy\<close>; \<open>strcat\<close>,
    \<open>strcmp\<close> and \<open>atoi\<close> meet their specifications on strings.
  \<^item> \<^theory_text>\<open>Printf\<close>: \<open>libc/stdio/vprintf_core.c\<close> and its callers. \<open>vprintfCore\<close> refines the sequence of
    characters a format denotes; directives denote numerals; \<open>vsnprintf\<close> and the byte it writes behind
    a full buffer.
  \<^item> \<^theory_text>\<open>NkList\<close>: \<open>nexke/list.h\<close>, circular lists through links inside objects, as a locale of laws
    over the list a heap represents, interpreted on the code's operations.
  \<^item> \<^theory_text>\<open>TimeEvents\<close>: \<open>nexke/core/time.c\<close> over those lists: the queue of timed events stays sorted
    and without locks held; the timer handler fires exactly what is due; with an empty queue it
    returns with the queue locked.
  \<^item> \<^theory_text>\<open>ConfLex\<close>, \<^theory_text>\<open>ConfParse\<close>: \<open>nexboot/src/conf\<close>. The buffered lexer refines a lexer of texts; the
    parser (over any lexer that is a source of tokens, a locale) reads back what a printer writes.
  \<^item> \<^theory_text>\<open>FatTable\<close>, \<^theory_text>\<open>FatDir\<close>, \<^theory_text>\<open>FatMount\<close>: \<open>nexboot/src/filesys/fat.c\<close>. The table of clusters with its cache
    and the chain of an open file with its hint; short and long names, directories, path lookup and
    iteration; the parameter block and mounting. Reading is shown to follow the table, names to
    survive their encodings, opening to find the right entry, mounting to compute a geometry without
    overflow; and where the code deviates a theorem says how.
  \<^item> \<^theory_text>\<open>Vfs\<close>: \<open>nexboot/src/vfs.c\<close> and \<open>osReadFile\<close> of \<open>nexnix.c\<close>. Files over the drivers of the
    function tables; a driver that reads blocks is a locale, interpreted on the FAT driver. Reads in chunks
    give the data of the file, the kernel is loaded whole, and counts are shown not to be respected.
    The theory at hand composes the layers: a configuration on a FAT volume reaches the parser intact.
  \<^item> \<^theory_text>\<open>AddrSpace\<close>: \<open>nexke/mm/space.c\<close>, the sorted, doubly linked list of entries of an address
    space, over a heap from which freed entries disappear. Allocation and freeing keep the list in
    order; faults are attributed to entries; destroying a space faults.
  \<^item> \<^theory_text>\<open>PageAlloc\<close>: \<open>nexke/mm/page.c\<close>: the sorted array of zones, the free lists and the page hash,
    all lists of the kernel's intrusive list in one heap of links (a family of lists that share no
    link), and the set-up from the memory map. Allocation, freeing and the hash table keep the
    allocator in order; the merging of zones is shown to lose pages.
  \<^item> \<^theory_text>\<open>Sched\<close>: \<open>nexke/task/sched.c\<close> with the locks of \<open>lock.h\<close>, on one CPU: ready queues, preemption that
    is put off while a lock is held, time slices, priorities. A switch of the context is the change of the
    current thread. Scheduling refines an abstract scheduler on sequences of threads; a thread made ready
    preempts exactly the threads of lower priority; threads of one priority take turns for ever.

  \<^item> \<^theory_text>\<open>Heap\<close>: \<open>nexboot/src/memmgr.c\<close>: the loader's \<open>malloc\<close>, \<open>calloc\<close> and \<open>free\<close> over pages tiled with
    blocks, the set-up of the first page, and large blocks on pages of their own. A heap in order is a list
    of tiled pages whose free blocks are on the page's list; every call keeps it in order. Allocation
    and freeing are shown to change exactly one block, and any run of a client from the set-up on to end
    with blocks that do not overlap, given a firmware that never hands out a page twice.

  \<^bold>\<open>Not modelled.\<close> Firmware calls, port and device-register access, the user interface and the shell
  are input and output around the modelled parts. The ISO 9660 driver, the volume manager, the object
  database with the mounting on it, the loader's memory map and ELF loader, and the kernel's slab
  allocator, memory objects, page tables, threads, wait queues, work queues and resource code are left out;
  where a modelled part calls them they are arguments. \<open>StrRefDestroy\<close>, which the parser of the configuration
  calls on the file it has read, is an argument too.
\<close>

text \<open>The configuration's reader over the VFS (the calls of \<open>NbVfsReadFile\<close> in \<open>conf/lex.c\<close>): the lexer's
  buffer takes what one read puts in it. A fault is a failed read here; the theorem is about
  files whose reads do not fault.\<close>

definition byte_char :: "byte \<Rightarrow> char" where "byte_char b = char_of (unat b)"

definition vfs_reader :: "('f, 's) fsDriver \<Rightarrow> ('s \<times> 'f vfsFile) confOps" where
  "vfs_reader drv = \<lparr>co_read = (\<lambda>(s, fl). case NbVfsReadFile drv s fl (of_nat LEX_BUF_SZ) of
       None \<Rightarrow> (None, (s, fl))
     | Some (r, out, fl, s) \<Rightarrow> (if r = - 1 then None else Some (map byte_char (take (nat r) out)), (s, fl))),
     co_newLine = (\<lambda>f. ([], f))\<rparr>"

text \<open>The text an open file has left, where its position is one the lexer's reads lead to.\<close>

definition vfs_text ::
  "('c, 'd) fatEnv \<Rightarrow> byte list \<Rightarrow> ('c, 'd) fatFs \<times> fatFile vfsFile \<Rightarrow> string" where
  "vfs_text env D f =
     (case f of (fs, fl) \<Rightarrow>
        if fat_file env fs fl D \<and> LEX_BUF_SZ dvd unat (fs_blockSz fs) \<and>
           (LEX_BUF_SZ dvd unat (vf_pos fl) \<or> unat (vf_pos fl) = length D)
        then map byte_char (drop (unat (vf_pos fl)) D) else [NUL])"

lemma vfs_reads_text:
  fixes env :: "('c, 'd) fatEnv"
  shows "reads_text (vfs_reader (fatDriver env)) (vfs_text env D)"
  unfolding reads_text_def
proof (intro allI impI)
  fix f :: "('c, 'd) fatFs \<times> fatFile vfsFile"
  assume nul: "NUL \<notin> set (vfs_text env D f)"
  obtain fs fl where f: "f = (fs, fl)" by (cases f)
  let ?p = "unat (vf_pos fl)" and ?c = "of_nat LEX_BUF_SZ :: u32"
  have c: "unat ?c = 512" by (simp add: LEX_BUF_SZ_def)
  have g: "fat_file env fs fl D" "512 dvd unat (fs_blockSz fs)" "512 dvd ?p \<or> ?p = length D"
    using nul by (auto simp: vfs_text_def f LEX_BUF_SZ_def split: if_splits)
  have tx: "vfs_text env D f = map byte_char (drop ?p D)" using g by (simp add: vfs_text_def f LEX_BUF_SZ_def)
  note o = fat_file_open [OF g(1)]
  show "\<exists>c f'. co_read (vfs_reader (fatDriver env)) f = (Some c, f') \<and> vfs_text env D f = c @ vfs_text env D f' \<and>
      (c = [] \<longrightarrow> vfs_text env D f = [])"
  proof (cases "?p = length D")
    case True
    then have "co_read (vfs_reader (fatDriver env)) f = (Some [], f)"
      using fat.read_file_end [OF o] by (simp add: vfs_reader_def f)
    then show ?thesis using tx True by auto
  next
    case False
    then have lt: "?p < length D" and d: "512 dvd ?p" using g(1,3) by (auto simp: fat_file_def)
    define m where "m = min 512 (length D - ?p)"
    obtain fl' fs' where r: "NbVfsReadFile (fatDriver env) fs fl ?c = Some (int m, take m (drop ?p D), fl', fs')"
      and o': "fat.open_file env fs (startCluster (vf_internal fl)) fs' fl' D" and p': "unat (vf_pos fl') = ?p + m"
      using fat.read_chunk [OF o lt, of ?c m True] g(2) d unfolding c m_def by auto
    note f' = fat_open_file [OF o']
    have bs: "fs_blockSz fs' = fs_blockSz fs" using f'(2) by (simp add: same_file_def same_fsD)
    have "512 dvd ?p + m \<or> ?p + m = length D"
      using d lt by (auto simp: m_def min_def)
    then have tx': "vfs_text env D (fs', fl') = map byte_char (drop (?p + m) D)"
      using f'(1) g(2) p' bs by (simp add: vfs_text_def LEX_BUF_SZ_def)
    have "drop ?p D = take m (drop ?p D) @ drop (?p + m) D"
      by (metis append_take_drop_id drop_drop add.commute)
    then have "vfs_text env D f = map byte_char (take m (drop ?p D)) @ vfs_text env D (fs', fl')"
      unfolding tx tx' by (metis map_append)
    moreover have "co_read (vfs_reader (fatDriver env)) f = (Some (map byte_char (take m (drop ?p D))), (fs', fl'))"
      using r by (simp add: vfs_reader_def f)
    moreover have "take m (drop ?p D) \<noteq> []" using lt by (simp add: m_def)
    ultimately show ?thesis by auto
  qed
qed

text \<open>C33: The configuration comes through all the layers. A file on a FAT volume whose cluster size is
  a multiple of the lexer's buffer size, opened and holding the text of a list of blocks, parses to
  these blocks: the driver follows the chain of clusters through its cache, the VFS reads pieces of
  512 bytes, the lexer puts tokens together over the pieces, and the parser returns the blocks if the call of
  \<open>StrRefDestroy\<close> on the file object, which it makes before it returns, returns.\<close>

theorem conf_from_fat:
  assumes "fat_file env fs fl D" and "512 dvd unat (fs_blockSz fs)" and "vf_pos fl = 0"
    and "map byte_char D = concat (map render bs)" and "NUL \<notin> set (concat (map render bs))" and "valid_blocks 1 bs"
  shows "\<exists>ops ctx. NbConfParse destroy (vfs_reader (fatDriver env)) True (fs, fl) line =
    (case destroy PtrFile (cx_file ctx) of
       None \<Rightarrow> None
     | Some f' \<Rightarrow> Some (Some bs, (ops, ctx\<lparr>cx_file := f'\<rparr>)))"
proof -
  have tx: "vfs_text env D (fs, fl) = concat (map render bs)"
    using assms(1-4) by (simp add: vfs_text_def LEX_BUF_SZ_def)
  show ?thesis
    using conf_parse_rendered [OF vfs_reads_text, of env D "(fs, fl)" bs destroy line] tx assms(5,6)
    by (simp add: parses_to_def)
qed

text \<open>A volume with sectors of 512 bytes: the table in sector 1 and the configuration in cluster 2.\<close>

definition conf_bytes :: "byte list" where
  "conf_bytes = map (\<lambda>c. of_nat (of_char c)) (concat (map render sample_blocks))"

definition vol_conf :: volRead where
  "vol_conf s n =
     (if n \<noteq> 1 then None
      else if s = 1 then Some ([0xF0, 0xFF, 0xFF, 0xFF, 0x0F] @ replicate 507 0)
      else if s = 4 then Some (conf_bytes @ replicate (512 - length conf_bytes) 0)
      else None)"

definition env_conf :: "(fatCacheEnt list, fatDirBuffer list) fatEnv" where
  "env_conf = env12\<lparr>fe_read := vol_conf\<rparr>"

definition fs_conf :: "(fatCacheEnt list, fatDirBuffer list) fatFs" where
  "fs_conf = fs_root\<lparr>fs_blockSz := 512, fm_dir := replicate 512 0, fm_sectorSz := 512\<rparr>"

definition file_conf :: "fatFile vfsFile" where
  "file_conf = \<lparr>vf_fileId = 1, vf_name = [], vf_pos = 0, vf_size = of_nat (length conf_bytes),
     vf_internal = \<lparr>lastReadCluster = 0, lastReadPos = 0, startCluster = 2\<rparr>\<rparr>"

lemma conf_bytes_length: "length conf_bytes \<le> 512"
  by (simp add: conf_bytes_def sample_text)

lemma conf_bytes_chars: "map byte_char conf_bytes = concat (map render sample_blocks)"
proof -
  have "byte_char (of_nat (of_char c)) = c" for c
  proof -
    have "of_char c < (256 :: nat)" by (metis of_char_mod_256 mod_less_divisor zero_less_numeral)
    then have "unat (of_nat (of_char c) :: byte) = of_char c" by (simp add: unat_of_nat take_bit_nat_eq_self)
    then show ?thesis unfolding byte_char_def by (simp only: char_of_char)
  qed
  then show ?thesis by (simp add: conf_bytes_def comp_def)
qed

lemma chain_conf: "cluster_at env_conf fs_conf 2 n = (if n = 0 then Some 2 else None)"
proof (cases n)
  case (Suc k)
  have one: "cluster_at env_conf fs_conf 2 (Suc 0) = None"
    by (simp add: fs_conf_def fs_root_def fs12_def fs_table_def fat_entry_def table_le_2 table_byte_def env_conf_def
        env12_def vol_conf_def bad_mark_def)
  show ?thesis using cluster_at_end [OF one, of n] Suc by simp
qed simp

lemma file_conf_ok: "fat_file env_conf fs_conf file_conf conf_bytes"
proof -
  have bs: "fs_blockSz fs_conf = 512" by (simp add: fs_conf_def)
  have "vol_laws vol_conf 512" using conf_bytes_length by (simp add: vol_laws_def vol_conf_def)
  then have ok: "fat_ok env_conf fs_conf"
    by (simp add: fat_ok_def fs_conf_def fs_root_def fs12_def fat_geom_def env_conf_def env12_def
        bounded_array_laws cache_ok_def) (simp add: bounded_array_def)
  have chain: "chain_ok env_conf fs_conf 2"
    by (simp add: chain_ok_def chain_conf) (simp add: fs_conf_def fs_root_def fs12_def)
  have "file_data (file_block env_conf fs_conf 2) 512 conf_bytes"
    unfolding file_data_def
  proof (intro allI impI)
    fix pos :: u32
    assume "unat pos < length conf_bytes"
    then have z: "unat pos div 512 = 0" using conf_bytes_length by simp
    have "file_block env_conf fs_conf 2 pos = Some (conf_bytes @ replicate (512 - length conf_bytes) 0)"
      by (simp add: file_block_def chain_conf bs z)
        (simp add: fs_conf_def fs_root_def fs12_def env_conf_def vol_conf_def)
    then show "\<exists>b. file_block env_conf fs_conf 2 pos = Some b \<and> length b = 512 \<and>
        take (length conf_bytes - unat pos div 512 * 512) b = take 512 (drop (unat pos div 512 * 512) conf_bytes)"
      using conf_bytes_length by (simp add: z)
  qed
  then show ?thesis
    using ok chain conf_bytes_length by (simp add: fat_file_def file_conf_def hint_ok_def bs)
qed

theorem conf_from_fat_witness:
  "(\<exists>s. NbConfParse lenient (vfs_reader (fatDriver env_conf)) True (fs_conf, file_conf) [] =
     Some (Some sample_blocks, s)) \<and>
   NbConfParse strict (vfs_reader (fatDriver env_conf)) True (fs_conf, file_conf) [] = None"
proof -
  have "512 dvd unat (fs_blockSz fs_conf)" "vf_pos file_conf = 0" by (simp_all add: fs_conf_def file_conf_def)
  note run = conf_from_fat [OF file_conf_ok this conf_bytes_chars sample_no_nul sample_valid]
  show ?thesis
    using run [of lenient "[]"] run [of strict "[]"] by (auto simp: lenient_def strict_def)
qed

end
